(* ===== verification/Prelude.thy ===== *)
theory Prelude
  imports Main "HOL-Library.Word"
begin

text \<open>
  What every component of the development shares: the outcome type of a piece of C code, its
  sequencing operator, bounded searches and loops over array indices, and the facts about them
  that the component proofs rewrite with.

  A C function that reads and writes kernel state is a function \<open>'s \<Rightarrow> ('a, 's) res\<close>. Every way
  such a function can stop is an outcome of its own, so that no path of the source disappears:
  \<^item> \<open>Ok r s\<close>: it returns \<open>r\<close> and leaves the state \<open>s\<close>;
  \<^item> \<open>Panic msg\<close>: it calls \<open>panic(msg)\<close>, which never returns;
  \<^item> \<open>Spin\<close>: it spins on a spin lock that another CPU holds, or waits in a loop for another CPU;
  \<^item> \<open>Switch s\<close>: it has called \<open>swtch\<close> to the CPU's scheduler in state \<open>s\<close> and continues only
    when the scheduler picks its thread again;
  \<^item> \<open>Fault msg\<close>: it reads or writes outside the object its pointer or index stands for.
\<close>

unbundle bit_operations_syntax

named_theorems res_simps \<open>evaluation of sequenced outcomes\<close>

type_synonym uchar = "8 word"
type_synonym ushort = "16 word"
type_synonym uint = "32 word"

datatype ('a, 's) res =
    Ok 'a 's
  | Panic string
  | Spin
  | Switch 's
  | Fault string

text \<open>Sequencing: the second statement runs from the state the first one leaves.\<close>

fun bnd :: "('a, 's) res \<Rightarrow> ('a \<Rightarrow> 's \<Rightarrow> ('b, 's) res) \<Rightarrow> ('b, 's) res" where
  "bnd (Ok r s) f = f r s"
| "bnd (Panic m) f = Panic m"
| "bnd Spin f = Spin"
| "bnd (Switch s) f = Switch s"
| "bnd (Fault m) f = Fault m"

text \<open>A \<open>for\<close> loop whose body is a state transformer, over a list of index values.\<close>

fun for_each :: "'i list \<Rightarrow> ('i \<Rightarrow> 's \<Rightarrow> (unit, 's) res) \<Rightarrow> 's \<Rightarrow> (unit, 's) res" where
  "for_each [] body s = Ok () s"
| "for_each (i # is) body s = bnd (body i s) (\<lambda>_. for_each is body)"

text \<open>
  The scans of the kernel's tables: \<open>for(x = table; x < &table[n]; x++) if(P x) goto found;\<close>
  gives the least index that satisfies \<open>P\<close>.
\<close>

definition first_index :: "(nat \<Rightarrow> bool) \<Rightarrow> nat \<Rightarrow> nat option" where
  "first_index P n = find P [0..<n]"

lemma bnd_Ok_iff [res_simps]:
  "bnd m f = Ok r s \<longleftrightarrow> (\<exists>a s1. m = Ok a s1 \<and> f a s1 = Ok r s)"
  by (cases m) auto

lemma bnd_assoc [res_simps]: "bnd (bnd m f) g = bnd m (\<lambda>a s. bnd (f a s) g)"
  by (cases m) auto

lemma bnd_if [res_simps]: "bnd (if P then m else m') f = (if P then bnd m f else bnd m' f)"
  by simp

lemma bnd_Panic_iff:
  "bnd m f = Panic e \<longleftrightarrow> m = Panic e \<or> (\<exists>a s1. m = Ok a s1 \<and> f a s1 = Panic e)"
  by (cases m) auto

lemma for_each_append:
  "for_each (xs @ ys) body s = bnd (for_each xs body s) (\<lambda>_. for_each ys body)"
proof (induction xs arbitrary: s)
  case (Cons x xs)
  then show ?case by (cases "body x s") auto
qed simp

text \<open>An invariant of the loop body is an invariant of the loop, and the loop returns.\<close>

lemma for_each_inv:
  assumes "\<And>i s. i \<in> set is \<Longrightarrow> I s \<Longrightarrow> \<exists>s'. body i s = Ok () s' \<and> I s'" and "I s"
  shows "\<exists>s'. for_each is body s = Ok () s' \<and> I s'"
  using assms
proof (induction "is" arbitrary: s)
  case (Cons i "is")
  obtain s1 where s1: "body i s = Ok () s1" "I s1"
    using Cons.prems(1)[of i s] Cons.prems(2) by auto
  have "\<exists>s'. for_each is body s1 = Ok () s' \<and> I s'"
    by (rule Cons.IH) (use Cons.prems(1) s1(2) in auto)
  with s1(1) show ?case by simp
qed auto

lemma find_upt_Some_iff:
  "find P [a..<n] = Some i \<longleftrightarrow> a \<le> i \<and> i < n \<and> P i \<and> (\<forall>j. a \<le> j \<longrightarrow> j < i \<longrightarrow> \<not> P j)"
proof (induction "n - a" arbitrary: a)
  case 0
  then show ?case by auto
next
  case (Suc k)
  then have a: "a < n" and unroll: "[a..<n] = a # [Suc a..<n]"
    and IH: "find P [Suc a..<n] = Some i \<longleftrightarrow>
      Suc a \<le> i \<and> i < n \<and> P i \<and> (\<forall>j. Suc a \<le> j \<longrightarrow> j < i \<longrightarrow> \<not> P j)"
    by (auto simp: upt_conv_Cons)
  show ?case
  proof (cases "P a")
    case True
    then show ?thesis using a by (auto simp: unroll)
  next
    case False
    then have "find P [a..<n] = find P [Suc a..<n]" by (simp add: unroll)
    then show ?thesis using False IH by (auto simp: Suc_le_eq nat_less_le)
  qed
qed

lemma first_index_Some_iff:
  "first_index P n = Some i \<longleftrightarrow> i < n \<and> P i \<and> (\<forall>j<i. \<not> P j)"
  by (auto simp: first_index_def find_upt_Some_iff)

lemma first_index_None_iff: "first_index P n = None \<longleftrightarrow> (\<forall>i<n. \<not> P i)"
  by (auto simp: first_index_def find_None_iff)

lemma first_index_least:
  "i < n \<Longrightarrow> P i \<Longrightarrow> (\<And>j. j < i \<Longrightarrow> \<not> P j) \<Longrightarrow> first_index P n = Some i"
  by (simp add: first_index_Some_iff)

lemma first_index_ex: "i < n \<Longrightarrow> P i \<Longrightarrow> \<exists>k. first_index P n = Some k \<and> k \<le> i \<and> P k"
proof -
  assume "i < n" "P i"
  then obtain k where "first_index P n = Some k"
    by (cases "first_index P n") (auto simp: first_index_None_iff)
  then show ?thesis
    using \<open>P i\<close> by (auto simp: first_index_Some_iff) (meson not_le)
qed

end
