(* ===== verification/Machine.thy ===== *)
theory Machine
  imports Prelude
begin

text \<open>
  The machine under the kernel: the constants of \<open>param.h\<close>, \<open>memlayout.h\<close> and \<open>mmu.h\<close>, flat
  byte-addressed memory with little-endian 32-bit accesses, and the page arithmetic of \<open>mmu.h\<close>.
  Addresses are 32-bit words, so pointer arithmetic wraps as it does on the hardware.
\<close>

type_synonym memory = "uint \<Rightarrow> uchar"

subsection \<open>Constants\<close>

abbreviation (input) NPROC :: nat where "NPROC \<equiv> 64"
abbreviation (input) NTHREAD :: nat where "NTHREAD \<equiv> 16"
abbreviation (input) NOFILE :: nat where "NOFILE \<equiv> 16"
abbreviation (input) NFILE :: nat where "NFILE \<equiv> 100"
abbreviation (input) MAX_MUTEXES :: nat where "MAX_MUTEXES \<equiv> 64"
abbreviation (input) KSTACKSIZE :: uint where "KSTACKSIZE \<equiv> 4096"
abbreviation (input) EXTMEM :: uint where "EXTMEM \<equiv> 0x100000"
abbreviation (input) PHYSTOP :: uint where "PHYSTOP \<equiv> 0xE000000"
abbreviation (input) DEVSPACE :: uint where "DEVSPACE \<equiv> 0xFE000000"
abbreviation (input) KERNBASE :: uint where "KERNBASE \<equiv> 0x80000000"
abbreviation (input) PGSIZE :: uint where "PGSIZE \<equiv> 4096"
abbreviation (input) PTE_P :: uint where "PTE_P \<equiv> 1"
abbreviation (input) PTE_W :: uint where "PTE_W \<equiv> 2"
abbreviation (input) PTE_U :: uint where "PTE_U \<equiv> 4"

subsection \<open>Address arithmetic\<close>

definition V2P :: "uint \<Rightarrow> uint" where
  "V2P a = a - KERNBASE"

definition P2V :: "uint \<Rightarrow> uint" where
  "P2V a = a + KERNBASE"

definition PDX :: "uint \<Rightarrow> uint" where
  "PDX va = drop_bit 22 va AND 0x3FF"

definition PTX :: "uint \<Rightarrow> uint" where
  "PTX va = drop_bit 12 va AND 0x3FF"

definition PGADDR :: "uint \<Rightarrow> uint \<Rightarrow> uint \<Rightarrow> uint" where
  "PGADDR d t off = push_bit 22 d OR push_bit 12 t OR off"

definition PGROUNDUP :: "uint \<Rightarrow> uint" where
  "PGROUNDUP sz = (sz + PGSIZE - 1) AND NOT (PGSIZE - 1)"

definition PGROUNDDOWN :: "uint \<Rightarrow> uint" where
  "PGROUNDDOWN a = a AND NOT (PGSIZE - 1)"

definition PTE_ADDR :: "uint \<Rightarrow> uint" where
  "PTE_ADDR pte = pte AND NOT 0xFFF"

definition PTE_FLAGS :: "uint \<Rightarrow> uint" where
  "PTE_FLAGS pte = pte AND 0xFFF"

subsection \<open>Memory accesses\<close>

definition load32 :: "memory \<Rightarrow> uint \<Rightarrow> uint" where
  "load32 m a = ucast (m a) OR push_bit 8 (ucast (m (a + 1))) OR
     push_bit 16 (ucast (m (a + 2))) OR push_bit 24 (ucast (m (a + 3)))"

definition store32 :: "memory \<Rightarrow> uint \<Rightarrow> uint \<Rightarrow> memory" where
  "store32 m a v = m(a := ucast v, a + 1 := ucast (drop_bit 8 v),
     a + 2 := ucast (drop_bit 16 v), a + 3 := ucast (drop_bit 24 v))"

lemma P2V_V2P [simp]: "P2V (V2P a) = a" and V2P_P2V [simp]: "V2P (P2V a) = a"
  by (simp_all add: P2V_def V2P_def)

lemma load32_store32_same [simp]: "load32 (store32 m a v) a = v"
proof -
  have "load32 (store32 m a v) a = ucast (ucast v :: uchar) OR
      push_bit 8 (ucast (ucast (drop_bit 8 v) :: uchar)) OR
      push_bit 16 (ucast (ucast (drop_bit 16 v) :: uchar)) OR
      push_bit 24 (ucast (ucast (drop_bit 24 v) :: uchar))"
    by (simp add: load32_def store32_def)
  also have "\<dots> = v"
  proof (rule bit_word_eqI)
    fix n :: nat
    assume "n < LENGTH(32)"
    consider "n < 8" | "8 \<le> n" "n < 16" | "16 \<le> n" "n < 24" | "24 \<le> n" by linarith
    then show "bit (ucast (ucast v :: uchar) OR
      push_bit 8 (ucast (ucast (drop_bit 8 v) :: uchar)) OR
      push_bit 16 (ucast (ucast (drop_bit 16 v) :: uchar)) OR
      push_bit 24 (ucast (ucast (drop_bit 24 v) :: uchar)) :: uint) n = bit v n"
      using \<open>n < LENGTH(32)\<close> by cases (auto simp: bit_simps)
  qed
  finally show ?thesis .
qed

lemma store32_apply:
  "store32 m a v x = (if x - a < 4 then ucast (drop_bit (8 * unat (x - a)) v) else m x)"
proof -
  define k where "k = x - a"
  then have x: "x = a + k" by simp
  have "k < 4 \<longleftrightarrow> k = 0 \<or> k = 1 \<or> k = 2 \<or> k = 3"
  proof
    assume "k < 4"
    then show "k = 0 \<or> k = 1 \<or> k = 2 \<or> k = 3" by unat_arith
  qed auto
  then show ?thesis
    unfolding x by (auto simp: store32_def)
qed

lemma store32_other: "4 \<le> x - a \<Longrightarrow> store32 m a v x = m x"
  by (simp add: store32_apply not_less[symmetric])

lemma load32_cong:
  "(\<And>i. i < 4 \<Longrightarrow> m (a + i) = m' (a + i)) \<Longrightarrow> load32 m a = load32 m' a"
proof -
  assume eq: "\<And>i. i < 4 \<Longrightarrow> m (a + i) = m' (a + i)"
  have "m a = m' a" "m (a + 1) = m' (a + 1)" "m (a + 2) = m' (a + 2)" "m (a + 3) = m' (a + 3)"
    using eq[of 0] eq[of 1] eq[of 2] eq[of 3] by simp_all
  then show ?thesis by (simp add: load32_def)
qed

lemma load32_store32_other: "4 \<le> a - b \<Longrightarrow> 4 \<le> b - a \<Longrightarrow> load32 (store32 m b v) a = load32 m a"
proof (rule load32_cong)
  fix i :: uint
  assume a: "4 \<le> a - b" "4 \<le> b - a" and i: "i < 4"
  have k: "unat i < 4" using i by (simp add: word_less_nat_alt)
  define d where "d = a - b"
  then have ab: "a = b + d" by simp
  have "unat (b - a) = 4294967296 - unat d" if "d \<noteq> 0"
    using that unsigned_less[of d] unat_sub_if_size[of 0 d] by (auto simp: ab word_size unat_eq_zero)
  moreover have "4 \<le> unat d" "4 \<le> unat (b - a)" using a by (simp_all add: ab word_le_nat_alt)
  ultimately have d: "4 \<le> unat d" "unat d \<le> 4294967292" by (cases "d = 0"; simp)+
  then have "unat (d + i) = unat d + unat i" using k by (simp add: unat_plus_if_size word_size)
  then have "4 \<le> a + i - b" unfolding ab using d by (simp add: word_le_nat_alt add.assoc)
  then show "store32 m b v (a + i) = m (a + i)" by (rule store32_other)
qed

subsection \<open>Pages\<close>

definition page_aligned :: "uint \<Rightarrow> bool" where
  "page_aligned a \<longleftrightarrow> a mod PGSIZE = 0"

lemma page_aligned_unat: "page_aligned a \<longleftrightarrow> unat a mod 4096 = 0"
proof -
  have "a mod PGSIZE = 0 \<longleftrightarrow> unat (a mod PGSIZE) = 0" by (rule unat_eq_zero[symmetric])
  then show ?thesis by (simp add: page_aligned_def unat_mod_distrib)
qed

lemma page_aligned_diff: "page_aligned a \<Longrightarrow> page_aligned b \<Longrightarrow> page_aligned (a - b)"
proof -
  assume "page_aligned a" "page_aligned b"
  then have d: "4096 dvd unat a" "4096 dvd unat b" by (simp_all add: page_aligned_unat dvd_eq_mod_eq_0)
  have "4096 dvd unat (a - b)"
    using d unat_sub_if_size[of a b] by (auto simp: word_size intro: dvd_diff_nat)
  then show ?thesis by (simp add: page_aligned_unat dvd_eq_mod_eq_0)
qed

lemma page_separate:
  assumes "page_aligned a" "page_aligned b" "a \<noteq> b" "i < PGSIZE"
  shows "PGSIZE \<le> a + i - b"
proof -
  let ?w = "a - b"
  have "unat ?w mod 4096 = 0" using assms page_aligned_diff page_aligned_unat by blast
  then obtain k where k: "unat ?w = 4096 * k" by (auto simp: mod_eq_0_iff_dvd elim: dvdE)
  have "unat ?w \<noteq> 0" using assms(3) by (simp add: unat_eq_zero)
  moreover have "unat ?w < 4294967296" using unsigned_less[of ?w] by simp
  ultimately have "1 \<le> k" "k \<le> 1048575" using k by simp_all
  then have w: "4096 \<le> unat ?w" "unat ?w \<le> 4294963200" using k by linarith+
  have "unat i < 4096" using assms(4) by (simp add: word_less_nat_alt)
  then have sum: "unat (?w + i) = unat ?w + unat i" using w by (simp add: unat_plus_if_size word_size)
  have e: "a + i - b = ?w + i" by simp
  show ?thesis unfolding e word_le_nat_alt using w sum by simp
qed

lemma and_not_mask12: "a AND - 4096 = push_bit 12 (drop_bit 12 (a :: uint))"
proof -
  have e: "(- 4096 :: uint) = NOT (mask 12)" by (simp add: mask_eq_exp_minus_1)
  show ?thesis unfolding e by (auto intro!: bit_word_eqI simp: bit_simps)
qed

lemma unat_PGROUNDDOWN: "unat (PGROUNDDOWN a) = unat a div 4096 * 4096"
proof -
  have e: "PGROUNDDOWN a = push_bit 12 (drop_bit 12 a)" by (simp add: PGROUNDDOWN_def and_not_mask12)
  have d: "unat (drop_bit 12 a) = unat a div 4096" by (simp add: drop_bit_eq_div unat_div)
  have "unat a div 4096 * 4096 \<le> unat a" by simp
  also have "unat a < 2 ^ 32" using unsigned_less[of a] by simp
  finally have "unat a div 4096 * 4096 < 2 ^ 32" .
  moreover have "push_bit 12 (drop_bit 12 a) = drop_bit 12 a * 4096" by (simp add: push_bit_eq_mult)
  ultimately show ?thesis unfolding e by (simp add: unat_word_ariths d)
qed

lemma page_aligned_PGROUNDDOWN [simp]: "page_aligned (PGROUNDDOWN a)"
  by (simp add: page_aligned_unat unat_PGROUNDDOWN)

lemma unat_PGROUNDUP: "unat a + 4095 < 2 ^ 32 \<Longrightarrow> unat (PGROUNDUP a) = (unat a + 4095) div 4096 * 4096"
proof -
  assume a: "unat a + 4095 < 2 ^ 32"
  have "PGROUNDUP a = PGROUNDDOWN (a + 4095)" by (simp add: PGROUNDUP_def PGROUNDDOWN_def add.commute)
  moreover have "unat (a + 4095) = unat a + 4095" using a by (simp add: unat_plus_if_size word_size)
  ultimately show ?thesis by (simp add: unat_PGROUNDDOWN)
qed

lemma page_aligned_PGROUNDUP [simp]: "page_aligned (PGROUNDUP a)"
proof -
  have "PGROUNDUP a = PGROUNDDOWN (a + 4095)" by (simp add: PGROUNDUP_def PGROUNDDOWN_def add.commute)
  then show ?thesis by simp
qed

text \<open>The least page boundary at or above an address, against the aligned addresses above it.\<close>

lemma PGROUNDUP_le_iff:
  assumes "unat a + 4095 < 2 ^ 32" and "page_aligned x"
  shows "PGROUNDUP a \<le> x \<longleftrightarrow> a \<le> x"
proof -
  obtain k where k: "unat x = 4096 * k" using assms(2) by (auto simp: page_aligned_unat mod_eq_0_iff_dvd elim: dvdE)
  have "(unat a + 4095) div 4096 * 4096 \<le> 4096 * k \<longleftrightarrow> unat a \<le> 4096 * k"
  proof
    assume "(unat a + 4095) div 4096 * 4096 \<le> 4096 * k"
    moreover have "unat a \<le> (unat a + 4095) div 4096 * 4096"
      using div_mult_mod_eq[of "unat a + 4095" 4096] mod_less_divisor[of 4096 "unat a + 4095"] by linarith
    ultimately show "unat a \<le> 4096 * k" by simp
  next
    assume "unat a \<le> 4096 * k"
    then have "(unat a + 4095) div 4096 < k + 1" by (intro div_less_iff_less_mult[THEN iffD2]) auto
    then show "(unat a + 4095) div 4096 * 4096 \<le> 4096 * k" by simp
  qed
  then show ?thesis by (simp add: word_le_nat_alt unat_PGROUNDUP[OF assms(1)] k)
qed

end
