(* ===== verification/Spinlock.thy ===== *)
theory Spinlock
  imports Machine
begin

text \<open>
  \<open>spinlock.c\<close>, with \<open>mycpu\<close> and \<open>cpuid\<close> of \<open>proc.c\<close>: the per-CPU interrupt nesting, the lock
  word, and the calls that take and drop a lock. The code runs on a CPU given by its index \<open>c\<close>
  in \<open>cpus[]\<close>; \<open>if_flag\<close> is the interrupt flag of that CPU's EFLAGS and \<open>argp\<close> the address of
  the running function's first argument on its stack, where \<open>getcallerpcs\<close> starts.

  The second half gives the contract of the locks (locale \<open>lock_table\<close>), shows that the code
  meets it, and follows the counts over whole sequences of calls.
\<close>

datatype lockid =
    ptable_lock | mtable_lock | kmem_lock | ftable_lock | icache_lock | log_lock
  | bcache_lock | idelock | cons_lock | tickslock | pipe_lock uint
  | buf_lk nat | inode_lk nat

record cpu =
  apicid :: uchar
  ncli :: int
  intena :: bool
  if_flag :: bool
  argp :: uint
  cpu_proc :: "nat option"
  cpu_thread :: "(nat \<times> nat) option"
  ts_ss0 :: ushort
  ts_esp0 :: uint
  ts_iomb :: ushort
  cr3 :: uint

record spinlock =
  locked :: uint
  lk_name :: string
  lk_cpu :: "nat option"
  lk_pcs :: "uint list"

record machine =
  cpus :: "nat \<Rightarrow> cpu"
  ncpu :: nat
  locks :: "lockid \<Rightarrow> spinlock"
  mem :: memory

subsection \<open>The code\<close>

definition upd_cpu :: "nat \<Rightarrow> (cpu \<Rightarrow> cpu) \<Rightarrow> 'a machine_scheme \<Rightarrow> 'a machine_scheme" where
  "upd_cpu c f s = s\<lparr>cpus := (cpus s)(c := f (cpus s c))\<rparr>"

definition upd_lock ::
    "lockid \<Rightarrow> (spinlock \<Rightarrow> spinlock) \<Rightarrow> 'a machine_scheme \<Rightarrow> 'a machine_scheme" where
  "upd_lock lk f s = s\<lparr>locks := (locks s)(lk := f (locks s lk))\<rparr>"

definition initlock :: "lockid \<Rightarrow> string \<Rightarrow> 'a machine_scheme \<Rightarrow> 'a machine_scheme" where
  "initlock lk name s = upd_lock lk (\<lambda>l. l\<lparr>lk_name := name, locked := 0, lk_cpu := None\<rparr>) s"

text \<open>The local APIC of CPU \<open>c\<close> answers with the id that \<open>mpinit\<close> stored for it.\<close>

definition lapicid :: "nat \<Rightarrow> 'a machine_scheme \<Rightarrow> uchar" where
  "lapicid c s = apicid (cpus s c)"

definition mycpu :: "nat \<Rightarrow> 'a machine_scheme \<Rightarrow> (nat, 'a machine_scheme) res" where
  "mycpu c s =
     (if if_flag (cpus s c) then Panic ''mycpu called with interrupts enabled\<newline>''
      else case first_index (\<lambda>i. apicid (cpus s i) = lapicid c s) (ncpu s) of
        Some i \<Rightarrow> Ok i s
      | None \<Rightarrow> Panic ''unknown apicid\<newline>'')"

definition cpuid :: "nat \<Rightarrow> 'a machine_scheme \<Rightarrow> (nat, 'a machine_scheme) res" where
  "cpuid c s = mycpu c s"

definition pushcli :: "nat \<Rightarrow> 'a machine_scheme \<Rightarrow> (unit, 'a machine_scheme) res" where
  "pushcli c s =
     (let eflags = if_flag (cpus s c); s1 = upd_cpu c (\<lambda>x. x\<lparr>if_flag := False\<rparr>) s in
      bnd (mycpu c s1) (\<lambda>k s2.
      let s3 = (if ncli (cpus s2 k) = 0
                then upd_cpu k (\<lambda>x. x\<lparr>intena := eflags\<rparr>) s2 else s2) in
      bnd (mycpu c s3) (\<lambda>k s4.
      Ok () (upd_cpu k (\<lambda>x. x\<lparr>ncli := ncli x + 1\<rparr>) s4))))"

definition popcli :: "nat \<Rightarrow> 'a machine_scheme \<Rightarrow> (unit, 'a machine_scheme) res" where
  "popcli c s =
     (if if_flag (cpus s c) then Panic ''popcli - interruptible''
      else bnd (mycpu c s) (\<lambda>k s1.
        let s2 = upd_cpu k (\<lambda>x. x\<lparr>ncli := ncli x - 1\<rparr>) s1 in
        if ncli (cpus s2 k) < 0 then Panic ''popcli''
        else bnd (mycpu c s2) (\<lambda>k s3.
          if ncli (cpus s3 k) = 0 \<and> intena (cpus s3 k)
          then Ok () (upd_cpu c (\<lambda>x. x\<lparr>if_flag := True\<rparr>) s3) else Ok () s3)))"

definition holding :: "nat \<Rightarrow> lockid \<Rightarrow> 'a machine_scheme \<Rightarrow> (bool, 'a machine_scheme) res" where
  "holding c lk s =
     bnd (pushcli c s) (\<lambda>_ s1.
     bnd (if locked (locks s1 lk) = 0 then Ok False s1
          else bnd (mycpu c s1) (\<lambda>k s2. Ok (lk_cpu (locks s2 lk) = Some k) s2)) (\<lambda>r s3.
     bnd (popcli c s3) (\<lambda>_ s4. Ok r s4)))"

fun callerpcs :: "memory \<Rightarrow> uint \<Rightarrow> nat \<Rightarrow> uint list" where
  "callerpcs m ebp 0 = []"
| "callerpcs m ebp (Suc k) =
     (if ebp = 0 \<or> ebp < KERNBASE \<or> ebp = 0xffffffff then replicate (Suc k) 0
      else load32 m (ebp + 4) # callerpcs m (load32 m ebp) k)"

definition getcallerpcs :: "memory \<Rightarrow> uint \<Rightarrow> uint list" where
  "getcallerpcs m v = callerpcs m (v - 8) 10"

text \<open>
  The loop \<open>while(xchg(&lk->locked, 1) != 0)\<close> leaves the word as it is while it is 1; a lock that
  another CPU holds makes the call spin.
\<close>

definition acquire :: "nat \<Rightarrow> lockid \<Rightarrow> 'a machine_scheme \<Rightarrow> (unit, 'a machine_scheme) res" where
  "acquire c lk s =
     bnd (pushcli c s) (\<lambda>_ s1.
     bnd (holding c lk s1) (\<lambda>h s2.
     if h then Panic ''acquire''
     else if locked (locks s2 lk) \<noteq> 0 then Spin
     else
       let s3 = upd_lock lk (\<lambda>l. l\<lparr>locked := 1\<rparr>) s2 in
       bnd (mycpu c s3) (\<lambda>k s4.
       Ok () (upd_lock lk (\<lambda>l. l\<lparr>lk_cpu := Some k,
                lk_pcs := getcallerpcs (mem s4) (argp (cpus s4 c))\<rparr>) s4))))"

definition release :: "nat \<Rightarrow> lockid \<Rightarrow> 'a machine_scheme \<Rightarrow> (unit, 'a machine_scheme) res" where
  "release c lk s =
     bnd (holding c lk s) (\<lambda>h s1.
     if \<not> h then Panic ''release''
     else popcli c (upd_lock lk (\<lambda>l. l\<lparr>lk_pcs := (lk_pcs l)[0 := 0], lk_cpu := None,
            locked := 0\<rparr>) s1))"

subsection \<open>Well-formed CPUs\<close>

text \<open>
  The CPU's own table entry is found by its APIC id, and interrupts are off while the nesting
  count is positive.
\<close>

definition cpu_ok :: "nat \<Rightarrow> 'a machine_scheme \<Rightarrow> bool" where
  "cpu_ok c s \<longleftrightarrow> c < ncpu s \<and> (\<forall>i<ncpu s. apicid (cpus s i) = apicid (cpus s c) \<longrightarrow> i = c) \<and>
     0 \<le> ncli (cpus s c) \<and> (0 < ncli (cpus s c) \<longrightarrow> \<not> if_flag (cpus s c))"

definition lock_free :: "lockid \<Rightarrow> 'a machine_scheme \<Rightarrow> bool" where
  "lock_free lk s \<longleftrightarrow> locked (locks s lk) = 0"

definition lock_held :: "nat \<Rightarrow> lockid \<Rightarrow> 'a machine_scheme \<Rightarrow> bool" where
  "lock_held c lk s \<longleftrightarrow> locked (locks s lk) \<noteq> 0 \<and> lk_cpu (locks s lk) = Some c"

text \<open>What a successful acquire and release do to the CPU and to the lock.\<close>

definition cli_enter :: "cpu \<Rightarrow> cpu" where
  "cli_enter x = x\<lparr>if_flag := False, intena := (if ncli x = 0 then if_flag x else intena x),
     ncli := ncli x + 1\<rparr>"

definition cli_leave :: "cpu \<Rightarrow> cpu" where
  "cli_leave x = x\<lparr>ncli := ncli x - 1, if_flag := (if_flag x \<or> ncli x = 1 \<and> intena x)\<rparr>"

definition lock_st :: "nat \<Rightarrow> lockid \<Rightarrow> 'a machine_scheme \<Rightarrow> 'a machine_scheme" where
  "lock_st c lk s = upd_lock lk (\<lambda>l. l\<lparr>locked := 1, lk_cpu := Some c,
     lk_pcs := getcallerpcs (mem s) (argp (cpus s c))\<rparr>) (upd_cpu c cli_enter s)"

definition unlock_st :: "nat \<Rightarrow> lockid \<Rightarrow> 'a machine_scheme \<Rightarrow> 'a machine_scheme" where
  "unlock_st c lk s = upd_lock lk (\<lambda>l. l\<lparr>lk_pcs := (lk_pcs l)[0 := 0], lk_cpu := None,
     locked := 0\<rparr>) (upd_cpu c cli_leave s)"

lemma mycpu_ok: "cpu_ok c s \<Longrightarrow> \<not> if_flag (cpus s c) \<Longrightarrow> mycpu c s = Ok c s"
proof -
  assume ok: "cpu_ok c s" and off: "\<not> if_flag (cpus s c)"
  have "first_index (\<lambda>i. apicid (cpus s i) = apicid (cpus s c)) (ncpu s) = Some c"
  proof (rule first_index_least)
    show "c < ncpu s" using ok by (simp add: cpu_ok_def)
    fix j assume "j < c"
    then have "j < ncpu s" "j \<noteq> c" using ok by (auto simp: cpu_ok_def)
    then show "apicid (cpus s j) \<noteq> apicid (cpus s c)" using ok by (auto simp: cpu_ok_def)
  qed simp
  then show ?thesis using off by (simp add: mycpu_def lapicid_def)
qed

lemma pushcli_ok:
  assumes "cpu_ok c s"
  shows "pushcli c s = Ok () (upd_cpu c cli_enter s)"
proof -
  let ?s1 = "upd_cpu c (\<lambda>x. x\<lparr>if_flag := False\<rparr>) s"
  let ?s3 = "if ncli (cpus ?s1 c) = 0
             then upd_cpu c (\<lambda>x. x\<lparr>intena := if_flag (cpus s c)\<rparr>) ?s1 else ?s1"
  have "cpu_ok c ?s1" "cpu_ok c ?s3"
    using assms by (auto simp: cpu_ok_def upd_cpu_def)
  then have "mycpu c ?s1 = Ok c ?s1" "mycpu c ?s3 = Ok c ?s3"
    by (simp_all add: mycpu_ok upd_cpu_def)
  then show ?thesis
    by (auto simp: pushcli_def upd_cpu_def cli_enter_def)
qed

lemma popcli_ok:
  assumes "cpu_ok c s" and "0 < ncli (cpus s c)"
  shows "popcli c s = Ok () (upd_cpu c cli_leave s)"
proof -
  let ?s2 = "upd_cpu c (\<lambda>x. x\<lparr>ncli := ncli x - 1\<rparr>) s"
  have off: "\<not> if_flag (cpus s c)" using assms by (auto simp: cpu_ok_def)
  have "cpu_ok c ?s2" using assms off by (auto simp: cpu_ok_def upd_cpu_def)
  then have "mycpu c s = Ok c s" "mycpu c ?s2 = Ok c ?s2"
    using assms off by (simp_all add: mycpu_ok upd_cpu_def)
  then show ?thesis
    using assms off by (auto simp: popcli_def Let_def upd_cpu_def cli_leave_def fun_eq_iff)
qed

lemma cli_leave_enter:
  "cpu_ok c s \<Longrightarrow> 0 < ncli (cpus s c) \<Longrightarrow> cli_leave (cli_enter (cpus s c)) = cpus s c"
  by (cases "cpus s c") (auto simp: cli_leave_def cli_enter_def cpu_ok_def)

lemma cpu_ok_enter [intro]: "cpu_ok c s \<Longrightarrow> cpu_ok c (upd_cpu d cli_enter s)"
  by (auto simp: cpu_ok_def upd_cpu_def cli_enter_def)

lemma cpu_ok_leave [intro]:
  "cpu_ok c s \<Longrightarrow> cpu_ok d s \<Longrightarrow> 0 < ncli (cpus s d) \<Longrightarrow> cpu_ok c (upd_cpu d cli_leave s)"
  by (auto simp: cpu_ok_def upd_cpu_def cli_leave_def)

lemma cpu_ok_upd_lock [simp]: "cpu_ok c (upd_lock lk f s) = cpu_ok c s"
  by (simp add: cpu_ok_def upd_lock_def)

lemma upd_cpu_upd_cpu: "upd_cpu c f (upd_cpu c g s) = upd_cpu c (\<lambda>x. f (g x)) s"
  by (simp add: upd_cpu_def)

lemma upd_cpu_id: "f (cpus s c) = cpus s c \<Longrightarrow> upd_cpu c f s = s"
  by (simp add: upd_cpu_def)

lemma holding_nested:
  assumes ok: "cpu_ok c s" and n: "0 < ncli (cpus s c)"
  shows "holding c lk s = Ok (lock_held c lk s) s"
proof -
  let ?t = "upd_cpu c cli_enter s"
  have t: "cpu_ok c ?t" "0 < ncli (cpus ?t c)" "locks ?t = locks s"
    "\<not> if_flag (cpus ?t c)"
    using ok by (auto simp: upd_cpu_def cli_enter_def cpu_ok_def)
  have "popcli c ?t = Ok () s"
    using popcli_ok[OF t(1,2)] cli_leave_enter[OF ok n]
    by (simp add: upd_cpu_upd_cpu upd_cpu_id)
  then show ?thesis
    using mycpu_ok[OF t(1,4)] t(3)
    by (simp add: holding_def pushcli_ok[OF ok] lock_held_def)
qed

subsection \<open>The outcome of every call\<close>

lemma acquire_free:
  assumes "cpu_ok c s" and "lock_free lk s"
  shows "acquire c lk s = Ok () (lock_st c lk s)"
proof -
  let ?t = "upd_cpu c cli_enter s"
  have t: "cpu_ok c ?t" "0 < ncli (cpus ?t c)" "\<not> if_flag (cpus ?t c)"
    using assms by (auto simp: upd_cpu_def cli_enter_def cpu_ok_def)
  have free: "locked (locks ?t lk) = 0" "\<not> lock_held c lk ?t"
    using assms by (simp_all add: lock_free_def lock_held_def upd_cpu_def)
  have "mycpu c (upd_lock lk (\<lambda>l. l\<lparr>locked := 1\<rparr>) ?t) = Ok c (upd_lock lk (\<lambda>l. l\<lparr>locked := 1\<rparr>) ?t)"
    by (rule mycpu_ok) (use t in simp, use t in \<open>simp add: upd_lock_def\<close>)
  then show ?thesis
    using holding_nested[OF t(1,2), of lk] free
    by (simp add: acquire_def pushcli_ok[OF assms(1)] Let_def lock_st_def upd_lock_def upd_cpu_def
        cli_enter_def)
qed

lemma acquire_held:
  assumes "cpu_ok c s" and "lock_held c lk s"
  shows "acquire c lk s = Panic ''acquire''"
proof -
  let ?t = "upd_cpu c cli_enter s"
  have "cpu_ok c ?t" "0 < ncli (cpus ?t c)" "lock_held c lk ?t"
    using assms by (auto simp: upd_cpu_def cli_enter_def cpu_ok_def lock_held_def)
  then show ?thesis by (simp add: acquire_def pushcli_ok[OF assms(1)] holding_nested)
qed

lemma acquire_busy:
  assumes "cpu_ok c s" and "\<not> lock_free lk s" and "\<not> lock_held c lk s"
  shows "acquire c lk s = Spin"
proof -
  let ?t = "upd_cpu c cli_enter s"
  have "cpu_ok c ?t" "0 < ncli (cpus ?t c)" "\<not> lock_held c lk ?t" "locked (locks ?t lk) \<noteq> 0"
    using assms by (auto simp: upd_cpu_def cli_enter_def cpu_ok_def lock_held_def lock_free_def)
  then show ?thesis by (simp add: acquire_def pushcli_ok[OF assms(1)] holding_nested)
qed

lemma release_held:
  assumes ok: "cpu_ok c s" and n: "0 < ncli (cpus s c)" and h: "lock_held c lk s"
  shows "release c lk s = Ok () (unlock_st c lk s)"
proof -
  let ?u = "upd_lock lk (\<lambda>l. l\<lparr>lk_pcs := (lk_pcs l)[0 := 0], lk_cpu := None, locked := 0\<rparr>) s"
  have "cpu_ok c ?u" "0 < ncli (cpus ?u c)"
    using ok n by (simp_all, simp add: upd_lock_def)
  then have "popcli c ?u = Ok () (upd_cpu c cli_leave ?u)" by (rule popcli_ok)
  then show ?thesis
    using h by (simp add: release_def holding_nested[OF ok n] unlock_st_def upd_lock_def upd_cpu_def)
qed

lemma release_not_held:
  assumes "cpu_ok c s" and "\<not> lock_held c lk s"
  shows "release c lk s = Panic ''release''"
proof -
  let ?t = "upd_cpu c cli_enter s"
  have t: "cpu_ok c ?t" "0 < ncli (cpus ?t c)" "\<not> if_flag (cpus ?t c)" "locks ?t = locks s"
    using assms by (auto simp: upd_cpu_def cli_enter_def cpu_ok_def)
  then show ?thesis
    using assms(2) mycpu_ok[OF t(1,3)] popcli_ok[OF t(1,2)]
    by (auto simp: release_def holding_def pushcli_ok[OF assms(1)] lock_held_def)
qed

subsection \<open>The contract of a table of locks\<close>

datatype ('c, 'k) lock_event = Acq 'c 'k | Rel 'c 'k

text \<open>
  The abstract lock table: who owns each lock. An acquire is possible only on a free lock, a
  release only by the owner.
\<close>

fun abs_step :: "('c, 'k) lock_event \<Rightarrow> ('k \<Rightarrow> 'c option) \<Rightarrow> ('k \<Rightarrow> 'c option) option" where
  "abs_step (Acq c k) own = (if own k = None then Some (own(k := Some c)) else None)"
| "abs_step (Rel c k) own = (if own k = Some c then Some (own(k := None)) else None)"

fun abs_run :: "('c, 'k) lock_event list \<Rightarrow> ('k \<Rightarrow> 'c option) \<Rightarrow> ('k \<Rightarrow> 'c option) option" where
  "abs_run [] own = Some own"
| "abs_run (e # es) own = Option.bind (abs_step e own) (abs_run es)"

text \<open>A sequence of calls made by any CPUs in any order, each run to its return.\<close>

fun run_calls :: "('c \<Rightarrow> 'k \<Rightarrow> 's \<Rightarrow> (unit, 's) res) \<Rightarrow> ('c \<Rightarrow> 'k \<Rightarrow> 's \<Rightarrow> (unit, 's) res) \<Rightarrow>
    ('c, 'k) lock_event list \<Rightarrow> 's \<Rightarrow> (unit, 's) res" where
  "run_calls acq rel [] s = Ok () s"
| "run_calls acq rel (Acq c k # es) s = bnd (acq c k s) (\<lambda>_. run_calls acq rel es)"
| "run_calls acq rel (Rel c k # es) s = bnd (rel c k s) (\<lambda>_. run_calls acq rel es)"

fun event_cpu :: "('c, 'k) lock_event \<Rightarrow> 'c" where
  "event_cpu (Acq c k) = c"
| "event_cpu (Rel c k) = c"

lemma abs_run_append: "abs_run (xs @ ys) own = Option.bind (abs_run xs own) (abs_run ys)"
  by (induction xs arbitrary: own) (auto split: Option.bind_splits)

lemma abs_run_keeps_owner:
  "abs_run es own = Some own' \<Longrightarrow> own k = Some c \<Longrightarrow> Rel c k \<notin> set es \<Longrightarrow> own' k = Some c"
proof (induction es arbitrary: own)
  case (Cons e es)
  from Cons.prems(1) obtain o1 where o1: "abs_step e own = Some o1" "abs_run es o1 = Some own'"
    by (auto simp: Option.bind_eq_Some_conv)
  have "o1 k = Some c"
    using o1(1) Cons.prems(2,3) by (cases e) (auto split: if_splits)
  then show ?case using Cons.IH[OF o1(2)] Cons.prems(3) by simp
qed simp

lemma abs_run_exclusive:
  assumes "abs_run (xs @ Acq c k # ys @ Acq d k # zs) own = Some own'"
  shows "Rel c k \<in> set ys"
proof (rule ccontr)
  assume no: "Rel c k \<notin> set ys"
  from assms obtain o0 where "abs_run (Acq c k # ys @ Acq d k # zs) o0 = Some own'"
    by (auto simp: abs_run_append[of xs] Option.bind_eq_Some_conv)
  then have o1: "abs_run (ys @ Acq d k # zs) (o0(k := Some c)) = Some own'"
    by (simp split: if_splits)
  then obtain o2 where "abs_run ys (o0(k := Some c)) = Some o2" "abs_run (Acq d k # zs) o2 = Some own'"
    by (auto simp: abs_run_append[of ys] Option.bind_eq_Some_conv)
  with abs_run_keeps_owner[OF _ _ no, of "o0(k := Some c)" o2] show False
    by (simp split: if_splits)
qed

locale lock_table =
  fixes acq :: "'c \<Rightarrow> 'k \<Rightarrow> 's \<Rightarrow> (unit, 's) res"
    and rel :: "'c \<Rightarrow> 'k \<Rightarrow> 's \<Rightarrow> (unit, 's) res"
    and owner :: "'s \<Rightarrow> 'k \<Rightarrow> 'c option"
    and valid :: "'s \<Rightarrow> 'c \<Rightarrow> bool"
    and inv :: "'s \<Rightarrow> bool"
  assumes acq_Ok: "inv s \<Longrightarrow> valid s c \<Longrightarrow> acq c k s = Ok () s' \<Longrightarrow>
      owner s k = None \<and> owner s' = (owner s)(k := Some c) \<and> valid s' = valid s \<and> inv s'"
    and acq_free: "inv s \<Longrightarrow> valid s c \<Longrightarrow> owner s k = None \<Longrightarrow> \<exists>s'. acq c k s = Ok () s'"
    and rel_Ok: "inv s \<Longrightarrow> valid s c \<Longrightarrow> rel c k s = Ok () s' \<Longrightarrow>
      owner s k = Some c \<and> owner s' = (owner s)(k := None) \<and> valid s' = valid s \<and> inv s'"
    and rel_held: "inv s \<Longrightarrow> valid s c \<Longrightarrow> owner s k = Some c \<Longrightarrow> \<exists>s'. rel c k s = Ok () s'"
begin

lemma run_refines:
  "inv s \<Longrightarrow> \<forall>e\<in>set es. valid s (event_cpu e) \<Longrightarrow> run_calls acq rel es s = Ok () s' \<Longrightarrow>
   inv s' \<and> valid s' = valid s \<and> abs_run es (owner s) = Some (owner s')"
proof (induction es arbitrary: s)
  case (Cons e es)
  show ?case
  proof (cases e)
    case (Acq c k)
    with Cons.prems obtain s1 where s1: "acq c k s = Ok () s1" "run_calls acq rel es s1 = Ok () s'"
      by (auto simp: bnd_Ok_iff)
    have st: "owner s k = None \<and> owner s1 = (owner s)(k := Some c) \<and> valid s1 = valid s \<and> inv s1"
      by (rule acq_Ok[OF _ _ s1(1)]) (use Cons.prems Acq in auto)
    then have "inv s' \<and> valid s' = valid s1 \<and> abs_run es (owner s1) = Some (owner s')"
      by (intro Cons.IH s1(2)) (use Cons.prems in auto)
    then show ?thesis using st by (simp add: Acq)
  next
    case (Rel c k)
    with Cons.prems obtain s1 where s1: "rel c k s = Ok () s1" "run_calls acq rel es s1 = Ok () s'"
      by (auto simp: bnd_Ok_iff)
    have st: "owner s k = Some c \<and> owner s1 = (owner s)(k := None) \<and> valid s1 = valid s \<and> inv s1"
      by (rule rel_Ok[OF _ _ s1(1)]) (use Cons.prems Rel in auto)
    then have "inv s' \<and> valid s' = valid s1 \<and> abs_run es (owner s1) = Some (owner s')"
      by (intro Cons.IH s1(2)) (use Cons.prems in auto)
    then show ?thesis using st by (simp add: Rel)
  qed
qed simp

lemma run_possible:
  "inv s \<Longrightarrow> \<forall>e\<in>set es. valid s (event_cpu e) \<Longrightarrow> abs_run es (owner s) = Some own' \<Longrightarrow>
   \<exists>s'. run_calls acq rel es s = Ok () s' \<and> owner s' = own'"
proof (induction es arbitrary: s)
  case (Cons e es)
  show ?case
  proof (cases e)
    case (Acq c k)
    with Cons.prems obtain s1 where s1: "acq c k s = Ok () s1"
      using acq_free[of s c k] by (auto split: if_splits)
    have st: "owner s1 = (owner s)(k := Some c) \<and> valid s1 = valid s \<and> inv s1"
      using acq_Ok[OF _ _ s1] Cons.prems Acq by simp
    have "abs_run es ((owner s)(k := Some c)) = Some own'"
      using Cons.prems(3) by (simp add: Acq split: if_splits)
    with st have run1: "abs_run es (owner s1) = Some own'" by metis
    have i: "inv s1" and v: "\<forall>e\<in>set es. valid s1 (event_cpu e)" using st Cons.prems(2) by auto
    have "\<exists>s'. run_calls acq rel es s1 = Ok () s' \<and> owner s' = own'" by (rule Cons.IH[OF i v run1])
    then show ?thesis using s1 by (simp add: Acq)
  next
    case (Rel c k)
    with Cons.prems obtain s1 where s1: "rel c k s = Ok () s1"
      using rel_held[of s c k] by (auto split: if_splits)
    have st: "owner s1 = (owner s)(k := None) \<and> valid s1 = valid s \<and> inv s1"
      using rel_Ok[OF _ _ s1] Cons.prems Rel by simp
    have "abs_run es ((owner s)(k := None)) = Some own'"
      using Cons.prems(3) by (simp add: Rel split: if_splits)
    with st have run1: "abs_run es (owner s1) = Some own'" by metis
    have i: "inv s1" and v: "\<forall>e\<in>set es. valid s1 (event_cpu e)" using st Cons.prems(2) by auto
    have "\<exists>s'. run_calls acq rel es s1 = Ok () s' \<and> owner s' = own'" by (rule Cons.IH[OF i v run1])
    then show ?thesis using s1 by (simp add: Rel)
  qed
qed simp

lemma mutual_exclusion:
  assumes "inv s" and "\<forall>e\<in>set (xs @ Acq c k # ys @ Acq d k # zs). valid s (event_cpu e)"
    and "run_calls acq rel (xs @ Acq c k # ys @ Acq d k # zs) s = Ok () s'"
  shows "Rel c k \<in> set ys"
proof -
  have "abs_run (xs @ Acq c k # ys @ Acq d k # zs) (owner s) = Some (owner s')"
    using run_refines[OF assms] by simp
  then show ?thesis by (rule abs_run_exclusive)
qed

end

subsection \<open>The code meets the contract\<close>

definition spin_owner :: "'a machine_scheme \<Rightarrow> lockid \<Rightarrow> nat option" where
  "spin_owner s lk = (if locked (locks s lk) = 0 then None else lk_cpu (locks s lk))"

definition held_by :: "nat \<Rightarrow> 'a machine_scheme \<Rightarrow> lockid set" where
  "held_by c s = {lk. spin_owner s lk = Some c}"

text \<open>
  Every lock word is set exactly when its CPU field is, and a CPU's nesting count is the number of
  locks it holds.
\<close>

definition spin_inv :: "'a machine_scheme \<Rightarrow> bool" where
  "spin_inv s \<longleftrightarrow> (\<forall>c<ncpu s. cpu_ok c s \<and> finite (held_by c s) \<and>
       ncli (cpus s c) = int (card (held_by c s))) \<and>
     (\<forall>lk. locked (locks s lk) \<noteq> 0 \<longrightarrow> lk_cpu (locks s lk) \<noteq> None)"

lemma lock_st_owner [simp]: "spin_owner (lock_st c lk s) = (spin_owner s)(lk := Some c)"
  by (auto simp: spin_owner_def lock_st_def upd_lock_def upd_cpu_def fun_eq_iff)

lemma unlock_st_owner [simp]: "spin_owner (unlock_st c lk s) = (spin_owner s)(lk := None)"
  by (auto simp: spin_owner_def unlock_st_def upd_lock_def upd_cpu_def fun_eq_iff)

lemma lock_st_ncpu [simp]: "ncpu (lock_st c lk s) = ncpu s"
  and unlock_st_ncpu [simp]: "ncpu (unlock_st c lk s) = ncpu s"
  by (simp_all add: lock_st_def unlock_st_def upd_lock_def upd_cpu_def)

lemma lock_st_cpus: "cpus (lock_st c lk s) = (cpus s)(c := cli_enter (cpus s c))"
  and unlock_st_cpus: "cpus (unlock_st c lk s) = (cpus s)(c := cli_leave (cpus s c))"
  by (simp_all add: lock_st_def unlock_st_def upd_lock_def upd_cpu_def)

lemma cpu_ok_lock_st [simp]: "cpu_ok d s \<Longrightarrow> cpu_ok d (lock_st c lk s)"
  by (auto simp: lock_st_def)

lemma cpu_ok_unlock_st [simp]:
  "cpu_ok d s \<Longrightarrow> cpu_ok c s \<Longrightarrow> 0 < ncli (cpus s c) \<Longrightarrow> cpu_ok d (unlock_st c lk s)"
  by (auto simp: unlock_st_def)

lemma lock_st_locks: "locks (lock_st c lk s) = (locks s)(lk := (locks s lk)\<lparr>locked := 1,
    lk_cpu := Some c, lk_pcs := getcallerpcs (mem s) (argp (cpus s c))\<rparr>)"
  by (simp add: lock_st_def upd_lock_def upd_cpu_def)

lemma unlock_st_locks: "locks (unlock_st c lk s) = (locks s)(lk := (locks s lk)\<lparr>
    lk_pcs := (lk_pcs (locks s lk))[0 := 0], lk_cpu := None, locked := 0\<rparr>)"
  by (simp add: unlock_st_def upd_lock_def upd_cpu_def)

lemma spin_owner_None: "spin_inv s \<Longrightarrow> spin_owner s lk = None \<longleftrightarrow> lock_free lk s"
  by (auto simp: spin_owner_def spin_inv_def lock_free_def)

lemma spin_owner_Some: "spin_owner s lk = Some c \<longleftrightarrow> lock_held c lk s"
  by (auto simp: spin_owner_def lock_held_def)

lemma lock_st_inv:
  assumes inv: "spin_inv s" and c: "c < ncpu s" and free: "lock_free lk s"
  shows "spin_inv (lock_st c lk s)"
proof -
  have own: "spin_owner s lk = None" using spin_owner_None[OF inv] free by simp
  have held: "held_by d (lock_st c lk s) = (if d = c then insert lk (held_by d s) else held_by d s)"
    for d using own by (auto simp: held_by_def)
  have "lk \<notin> held_by c s" using own by (simp add: held_by_def)
  then show ?thesis
    using inv c by (auto simp: spin_inv_def held lock_st_cpus lock_st_locks cli_enter_def)
qed

lemma unlock_st_inv:
  assumes inv: "spin_inv s" and c: "c < ncpu s" and h: "lock_held c lk s"
  shows "spin_inv (unlock_st c lk s)" and "0 < ncli (cpus s c)"
proof -
  have own: "lk \<in> held_by c s" using h by (simp add: held_by_def spin_owner_Some)
  have held: "held_by d (unlock_st c lk s) = (if d = c then held_by d s - {lk} else held_by d s)"
    for d using own by (auto simp: held_by_def)
  have fin: "finite (held_by c s)" and n: "ncli (cpus s c) = int (card (held_by c s))"
    using inv c by (auto simp: spin_inv_def)
  have pos: "0 < card (held_by c s)" using own fin card_gt_0_iff by blast
  then show "0 < ncli (cpus s c)" using n by simp
  have "\<forall>d<ncpu s. cpu_ok d s" using inv by (auto simp: spin_inv_def)
  then show "spin_inv (unlock_st c lk s)"
    using inv c own pos
    by (auto simp: spin_inv_def held unlock_st_cpus unlock_st_locks cli_leave_def of_nat_diff
        card_Diff_singleton)
qed

lemma acquire_OkD:
  assumes "cpu_ok c s" and "acquire c lk s = Ok r s'"
  shows "lock_free lk s \<and> s' = lock_st c lk s"
  using assms acquire_held[of c s lk] acquire_busy[of c s lk] acquire_free[of c s lk]
  by (cases "lock_free lk s"; cases "lock_held c lk s") auto

lemma release_OkD:
  assumes inv: "spin_inv s" and c: "c < ncpu s" and rel: "release c lk s = Ok r s'"
  shows "lock_held c lk s \<and> s' = unlock_st c lk s"
proof -
  have ok: "cpu_ok c s" using inv c by (simp add: spin_inv_def)
  then have h: "lock_held c lk s" using rel release_not_held[OF ok, of lk] by fastforce
  then show ?thesis using rel release_held[OF ok unlock_st_inv(2)[OF inv c h] h] by simp
qed

interpretation spin: lock_table acquire release spin_owner "\<lambda>s c. c < ncpu s" spin_inv
proof unfold_locales
  fix s s' :: "'a machine_scheme" and c k
  assume inv: "spin_inv s" and c: "c < ncpu s"
  then have ok: "cpu_ok c s" by (simp add: spin_inv_def)
  { assume "acquire c k s = Ok () s'"
    then have free: "lock_free k s" and "s' = lock_st c k s" using acquire_OkD[OF ok] by simp_all
    then show "spin_owner s k = None \<and> spin_owner s' = (spin_owner s)(k := Some c) \<and>
        (\<lambda>c. c < ncpu s') = (\<lambda>c. c < ncpu s) \<and> spin_inv s'"
      using free inv c by (simp add: spin_owner_None lock_st_inv) }
  { assume "spin_owner s k = None"
    then show "\<exists>s'. acquire c k s = Ok () s'"
      using acquire_free[OF ok] spin_owner_None[OF inv] by simp }
  { assume "release c k s = Ok () s'"
    then have h: "lock_held c k s" and "s' = unlock_st c k s"
      using release_OkD[OF inv c] by simp_all
    then show "spin_owner s k = Some c \<and> spin_owner s' = (spin_owner s)(k := None) \<and>
        (\<lambda>c. c < ncpu s') = (\<lambda>c. c < ncpu s) \<and> spin_inv s'"
      using h inv c by (simp add: spin_owner_Some unlock_st_inv) }
  { assume "spin_owner s k = Some c"
    then have h: "lock_held c k s" by (simp add: spin_owner_Some)
    then show "\<exists>s'. release c k s = Ok () s'"
      using release_held[OF ok unlock_st_inv(2)[OF inv c h] h] by simp }
qed

subsection \<open>Facts for the critical sections of the other components\<close>

lemma lock_st_mem [simp]: "mem (lock_st c lk s) = mem s"
  and unlock_st_mem [simp]: "mem (unlock_st c lk s) = mem s"
  by (simp_all add: lock_st_def unlock_st_def upd_lock_def upd_cpu_def)

lemma lock_st_held [simp]: "lock_held c lk (lock_st c lk s)"
  by (simp add: lock_held_def lock_st_locks)

lemma lock_st_held_other [simp]: "lk \<noteq> lk' \<Longrightarrow> lock_held d lk' (lock_st c lk s) = lock_held d lk' s"
  and unlock_st_held_other [simp]:
    "lk \<noteq> lk' \<Longrightarrow> lock_held d lk' (unlock_st c lk s) = lock_held d lk' s"
  by (simp_all add: lock_held_def lock_st_locks unlock_st_locks)

lemma lock_st_free_other [simp]: "lk \<noteq> lk' \<Longrightarrow> lock_free lk' (lock_st c lk s) = lock_free lk' s"
  and unlock_st_free_other [simp]: "lk \<noteq> lk' \<Longrightarrow> lock_free lk' (unlock_st c lk s) = lock_free lk' s"
  and unlock_st_free [simp]: "lock_free lk (unlock_st c lk s)"
  by (simp_all add: lock_free_def lock_st_locks unlock_st_locks)

lemma lock_st_ncli: "ncli (cpus (lock_st c lk s) d) = ncli (cpus s d) + (if d = c then 1 else 0)"
  and unlock_st_ncli: "ncli (cpus (unlock_st c lk s) d) = ncli (cpus s d) - (if d = c then 1 else 0)"
  by (simp_all add: lock_st_cpus unlock_st_cpus cli_enter_def cli_leave_def)

lemma lock_st_pos [simp]: "cpu_ok c s \<Longrightarrow> 0 < ncli (cpus (lock_st c lk s) c)"
  by (simp add: lock_st_ncli cpu_ok_def)

lemma cpu_ok_ncli: "cpu_ok c s \<Longrightarrow> 0 \<le> ncli (cpus s c)"
  by (simp add: cpu_ok_def)

lemma lock_st_if_flag: "if_flag (cpus (lock_st c lk s) d) = (d \<noteq> c \<and> if_flag (cpus s d))"
  by (simp add: lock_st_cpus cli_enter_def)

lemma lock_st_current [simp]:
  "cpu_proc (cpus (lock_st c lk s) d) = cpu_proc (cpus s d)"
  "cpu_thread (cpus (lock_st c lk s) d) = cpu_thread (cpus s d)"
  and unlock_st_current [simp]:
  "cpu_proc (cpus (unlock_st c lk s) d) = cpu_proc (cpus s d)"
  "cpu_thread (cpus (unlock_st c lk s) d) = cpu_thread (cpus s d)"
  by (simp_all add: lock_st_cpus unlock_st_cpus cli_enter_def cli_leave_def)

subsection \<open>Whole critical sections\<close>

text \<open>
  What a balanced pair of calls leaves behind: \<open>cli_pass\<close> for \<open>pushcli\<close> and \<open>popcli\<close>, \<open>sect\<close> for
  \<open>acquire\<close> and \<open>release\<close>. Only \<open>intena\<close> and the lock's call stack can differ. The rewrite rules
  bring nested sections into the form of sections one after the other.
\<close>

definition cli_pass :: "nat \<Rightarrow> 'a machine_scheme \<Rightarrow> 'a machine_scheme" where
  "cli_pass c s = upd_cpu c (\<lambda>x. cli_leave (cli_enter x)) s"

definition sect :: "nat \<Rightarrow> lockid \<Rightarrow> 'a machine_scheme \<Rightarrow> 'a machine_scheme" where
  "sect c lk s = unlock_st c lk (lock_st c lk s)"

lemma cli_leave_enter_fields:
  "cpu_ok c s \<Longrightarrow> cli_leave (cli_enter (cpus s c)) =
     (cpus s c)\<lparr>intena := (if ncli (cpus s c) = 0 then if_flag (cpus s c) else intena (cpus s c))\<rparr>"
  by (auto simp: cli_leave_def cli_enter_def cpu_ok_def)

lemma cli_pass_cpus: "cpu_ok c s \<Longrightarrow> cpus (cli_pass c s) = (cpus s)(c := (cpus s c)\<lparr>intena :=
    (if ncli (cpus s c) = 0 then if_flag (cpus s c) else intena (cpus s c))\<rparr>)"
  by (simp add: cli_pass_def upd_cpu_def cli_leave_enter_fields)

lemma sect_cpus: "cpu_ok c s \<Longrightarrow> cpus (sect c lk s) = (cpus s)(c := (cpus s c)\<lparr>intena :=
    (if ncli (cpus s c) = 0 then if_flag (cpus s c) else intena (cpus s c))\<rparr>)"
  by (simp add: sect_def lock_st_cpus unlock_st_cpus cli_leave_enter_fields)

lemma sect_locks: "locks (sect c lk s) = (locks s)(lk := (locks s lk)\<lparr>
    lk_pcs := (getcallerpcs (mem s) (argp (cpus s c)))[0 := 0], lk_cpu := None, locked := 0\<rparr>)"
  by (simp add: sect_def lock_st_locks unlock_st_locks)

lemma cli_pass_id: "cpu_ok c s \<Longrightarrow> 0 < ncli (cpus s c) \<Longrightarrow> cli_pass c s = s"
  by (simp add: cli_pass_def upd_cpu_id cli_leave_enter)

lemma machine_ext:
  "cpus s = cpus s' \<Longrightarrow> locks s = locks s' \<Longrightarrow> ncpu s = ncpu s' \<Longrightarrow> mem s = mem s' \<Longrightarrow>
   machine.more s = machine.more s' \<Longrightarrow> s = s'"
  by (cases s; cases s') auto

lemma lock_st_more [simp]: "machine.more (lock_st c lk s) = machine.more s"
  and unlock_st_more [simp]: "machine.more (unlock_st c lk s) = machine.more s"
  and sect_more [simp]: "machine.more (sect c lk s) = machine.more s"
  and cli_pass_more [simp]: "machine.more (cli_pass c s) = machine.more s"
  by (simp_all add: lock_st_def unlock_st_def upd_lock_def upd_cpu_def sect_def cli_pass_def)

lemma sect_mem [simp]: "mem (sect c lk s) = mem s" "ncpu (sect c lk s) = ncpu s"
  and cli_pass_mem [simp]: "mem (cli_pass c s) = mem s" "ncpu (cli_pass c s) = ncpu s"
    "locks (cli_pass c s) = locks s"
  by (simp_all add: sect_def cli_pass_def upd_cpu_def)

lemma sect_cpus_raw: "cpus (sect c lk s) = (cpus s)(c := cli_leave (cli_enter (cpus s c)))"
  by (simp add: sect_def lock_st_cpus unlock_st_cpus)

lemma cli_round:
  "cpu_ok c s \<Longrightarrow> cli_leave (cli_enter (cli_enter (cpus s c))) = cli_enter (cli_leave (cli_enter (cpus s c)))"
  "cpu_ok c s \<Longrightarrow> cli_leave (cli_leave (cli_enter (cli_enter (cpus s c)))) =
     cli_leave (cli_enter (cli_leave (cli_enter (cpus s c))))"
  by (auto simp: cli_leave_def cli_enter_def cpu_ok_def)

lemma sect_argp: "argp (cpus (sect c lk s) d) = argp (cpus s d)"
  and lock_st_argp: "argp (cpus (lock_st c lk s) d) = argp (cpus s d)"
  by (simp_all add: sect_cpus_raw lock_st_cpus cli_leave_def cli_enter_def)

lemma sect_lock_st [simp]:
  "cpu_ok c s \<Longrightarrow> lk \<noteq> lk' \<Longrightarrow> sect c lk' (lock_st c lk s) = lock_st c lk (sect c lk' s)"
proof (rule machine_ext)
  assume ok: "cpu_ok c s" and ne: "lk \<noteq> lk'"
  show "cpus (sect c lk' (lock_st c lk s)) = cpus (lock_st c lk (sect c lk' s))"
    using ok by (simp add: sect_cpus_raw lock_st_cpus cli_round)
  show "locks (sect c lk' (lock_st c lk s)) = locks (lock_st c lk (sect c lk' s))"
    using ne by (simp add: sect_locks lock_st_locks fun_upd_twist sect_argp lock_st_argp)
qed simp_all

lemma unlock_lock_lock [simp]:
  "cpu_ok c s \<Longrightarrow> lk \<noteq> lk' \<Longrightarrow> unlock_st c lk (lock_st c lk' (lock_st c lk s)) = lock_st c lk' (sect c lk s)"
proof (rule machine_ext)
  assume ok: "cpu_ok c s" and ne: "lk \<noteq> lk'"
  show "cpus (unlock_st c lk (lock_st c lk' (lock_st c lk s))) = cpus (lock_st c lk' (sect c lk s))"
    using ok by (simp add: sect_cpus_raw lock_st_cpus unlock_st_cpus cli_round)
  show "locks (unlock_st c lk (lock_st c lk' (lock_st c lk s))) = locks (lock_st c lk' (sect c lk s))"
    using ne by (simp add: sect_locks lock_st_locks unlock_st_locks fun_upd_twist sect_argp lock_st_argp)
qed simp_all

lemma sect_fields [simp]:
  "ncli (cpus (sect c lk s) d) = ncli (cpus s d)"
  "cpu_proc (cpus (sect c lk s) d) = cpu_proc (cpus s d)"
  "cpu_thread (cpus (sect c lk s) d) = cpu_thread (cpus s d)"
  "apicid (cpus (sect c lk s) d) = apicid (cpus s d)"
  "cpu_ok c s \<Longrightarrow> if_flag (cpus (sect c lk s) d) = if_flag (cpus s d)"
  by (auto simp: sect_def lock_st_cpus unlock_st_cpus cli_leave_def cli_enter_def cpu_ok_def)

lemma cli_pass_fields [simp]:
  "ncli (cpus (cli_pass c s) d) = ncli (cpus s d)"
  "cpu_proc (cpus (cli_pass c s) d) = cpu_proc (cpus s d)"
  "cpu_thread (cpus (cli_pass c s) d) = cpu_thread (cpus s d)"
  "apicid (cpus (cli_pass c s) d) = apicid (cpus s d)"
  "cpu_ok c s \<Longrightarrow> if_flag (cpus (cli_pass c s) d) = if_flag (cpus s d)"
  by (auto simp: cli_pass_def upd_cpu_def cli_leave_def cli_enter_def cpu_ok_def)

lemma cpu_ok_sect [simp]: "cpu_ok c s \<Longrightarrow> cpu_ok d (sect c lk s) = cpu_ok d s"
  by (auto simp: cpu_ok_def)

lemma cpu_ok_cli_pass [simp]: "cpu_ok c s \<Longrightarrow> cpu_ok d (cli_pass c s) = cpu_ok d s"
  by (auto simp: cpu_ok_def)

lemma lock_free_sect [simp]:
  "lock_free lk s \<Longrightarrow> lock_free lk' (sect c lk s) = lock_free lk' s"
  "lock_free lk s \<Longrightarrow> lock_held d lk' (sect c lk s) = lock_held d lk' s"
  by (auto simp: lock_free_def lock_held_def sect_locks)

lemma lock_free_cli_pass [simp]:
  "lock_free lk (cli_pass c s) = lock_free lk s" "lock_held d lk (cli_pass c s) = lock_held d lk s"
  by (auto simp: lock_free_def lock_held_def)

lemma unlock_lock_sect [simp]: "unlock_st c lk (lock_st c lk s) = sect c lk s"
  by (simp add: sect_def)

lemma cli_round2:
  "cpu_ok c s \<Longrightarrow> cli_leave (cli_enter (cli_leave (cli_enter (cpus s c)))) = cli_leave (cli_enter (cpus s c))"
  "cpu_ok c s \<Longrightarrow> cli_enter (cli_leave (cli_enter (cpus s c))) = cli_enter (cpus s c)"
  by (auto simp: cli_leave_def cli_enter_def cpu_ok_def)

lemma cli_pass_cpus_raw: "cpus (cli_pass c s) = (cpus s)(c := cli_leave (cli_enter (cpus s c)))"
  by (simp add: cli_pass_def upd_cpu_def)

lemma cli_pass_absorb [simp]:
  "cpu_ok c s \<Longrightarrow> cli_pass c (cli_pass c s) = cli_pass c s"
  "cpu_ok c s \<Longrightarrow> cli_pass c (sect c lk s) = sect c lk s"
  "cpu_ok c s \<Longrightarrow> sect c lk (cli_pass c s) = sect c lk s"
  "cpu_ok c s \<Longrightarrow> lock_st c lk (cli_pass c s) = lock_st c lk s"
  "cpu_ok c s \<Longrightarrow> sect c lk (sect c lk s) = sect c lk s"
  by (rule machine_ext; simp add: cli_pass_cpus_raw sect_cpus_raw lock_st_cpus cli_round cli_round2
      sect_locks lock_st_locks cli_leave_def cli_enter_def; fail)+

lemma cli_pass_lock_st [simp]: "cpu_ok c s \<Longrightarrow> cli_pass c (lock_st c lk s) = lock_st c lk s"
  by (simp add: cli_pass_id)

subsection \<open>Properties\<close>

text \<open>
  C3 (mutual exclusion). Take any sequence of \<open>acquire\<close> and \<open>release\<close> calls made by any CPUs in any
  interleaving, all of which return. Between two acquires of the same lock the CPU that made the
  first one has released it.
\<close>

theorem acquire_mutual_exclusion:
  assumes "spin_inv s" and "\<forall>e\<in>set (xs @ Acq c lk # ys @ Acq d lk # zs). event_cpu e < ncpu s"
    and "run_calls acquire release (xs @ Acq c lk # ys @ Acq d lk # zs) s = Ok () s'"
  shows "Rel c lk \<in> set ys"
  by (rule spin.mutual_exclusion[OF assms])

definition boot_cpu :: "nat \<Rightarrow> cpu" where
  "boot_cpu i = \<lparr>apicid = of_nat i, ncli = 0, intena = False, if_flag = True, argp = 0,
     cpu_proc = None, cpu_thread = None, ts_ss0 = 0, ts_esp0 = 0, ts_iomb = 0, cr3 = 0\<rparr>"

definition boot_lock :: spinlock where
  "boot_lock = \<lparr>locked = 0, lk_name = [], lk_cpu = None, lk_pcs = replicate 10 0\<rparr>"

definition boot_machine :: machine where
  "boot_machine = \<lparr>cpus = boot_cpu, ncpu = 2, locks = (\<lambda>_. boot_lock), mem = (\<lambda>_. 0)\<rparr>"

lemma boot_machine_inv: "spin_inv boot_machine"
proof -
  have "i = c" if "i < 2" "c < 2" "(of_nat i :: uchar) = of_nat c" for i c :: nat
    using that by (auto simp: less_2_cases_iff)
  then show ?thesis
    by (auto simp: spin_inv_def boot_machine_def boot_cpu_def boot_lock_def cpu_ok_def held_by_def
        spin_owner_def)
qed

theorem acquire_mutual_exclusion_witness:
  "\<exists>s'. run_calls acquire release
      ([] @ Acq 0 kmem_lock # [Rel 0 kmem_lock] @ Acq 1 kmem_lock # []) boot_machine = Ok () s' \<and>
     Rel 0 kmem_lock \<in> set [Rel 0 kmem_lock :: (nat, lockid) lock_event]"
proof -
  let ?es = "[] @ Acq 0 kmem_lock # [Rel 0 kmem_lock] @ Acq 1 kmem_lock # [] :: (nat, lockid) lock_event list"
  have v: "\<forall>e\<in>set ?es. event_cpu e < ncpu boot_machine" by (simp add: boot_machine_def)
  have "abs_run ?es (spin_owner boot_machine) \<noteq> None"
    by (simp add: spin_owner_def boot_machine_def boot_lock_def)
  then obtain s' where s': "run_calls acquire release ?es boot_machine = Ok () s'"
    using spin.run_possible[OF boot_machine_inv v] by auto
  show ?thesis
    using s' acquire_mutual_exclusion[OF boot_machine_inv v s'] by blast
qed

text \<open>Along any run, the interrupt flag of a CPU that holds no lock is the one it started with.\<close>

definition intr_inv :: "bool \<Rightarrow> nat \<Rightarrow> 'a machine_scheme \<Rightarrow> bool" where
  "intr_inv b c s \<longleftrightarrow> (if held_by c s = {} then if_flag (cpus s c) = b
     else \<not> if_flag (cpus s c) \<and> intena (cpus s c) = b)"

lemma intr_inv_lock_st:
  assumes inv: "spin_inv s" and c: "c < ncpu s" "d < ncpu s" and free: "lock_free lk s"
    and i: "intr_inv b c s"
  shows "intr_inv b c (lock_st d lk s)"
proof (cases "c = d")
  case True
  have "held_by c (lock_st d lk s) \<noteq> {}" using True by (auto simp: held_by_def)
  moreover have "ncli (cpus s c) = 0 \<longleftrightarrow> held_by c s = {}" using inv c by (simp add: spin_inv_def)
  ultimately show ?thesis
    using i True by (auto simp: intr_inv_def lock_st_cpus cli_enter_def split: if_splits)
next
  case False
  have "spin_owner s lk = None" using spin_owner_None[OF inv] free by simp
  then have "held_by c (lock_st d lk s) = held_by c s" using False by (auto simp: held_by_def)
  then show ?thesis using i False by (simp add: intr_inv_def lock_st_cpus)
qed

lemma intr_inv_unlock_st:
  assumes inv: "spin_inv s" and c: "c < ncpu s" "d < ncpu s" and h: "lock_held d lk s"
    and i: "intr_inv b c s"
  shows "intr_inv b c (unlock_st d lk s)"
proof (cases "c = d")
  case True
  have in_held: "lk \<in> held_by c s" using h True by (simp add: held_by_def spin_owner_Some)
  have fin: "finite (held_by c s)" and n: "ncli (cpus s c) = int (card (held_by c s))"
    using inv c by (auto simp: spin_inv_def)
  have "held_by c (unlock_st d lk s) = held_by c s - {lk}" using True by (auto simp: held_by_def)
  moreover have "ncli (cpus s c) = 1 \<longleftrightarrow> held_by c s - {lk} = {}"
    using in_held fin n by (auto simp: card_1_singleton_iff card_Suc_eq)
  ultimately show ?thesis
    using i True in_held by (auto simp: intr_inv_def unlock_st_cpus cli_leave_def split: if_splits)
next
  case False
  have "lk \<notin> held_by c s" using h False by (auto simp: held_by_def simp flip: spin_owner_Some)
  then have "held_by c (unlock_st d lk s) = held_by c s" by (auto simp: held_by_def)
  then show ?thesis using i False by (simp add: intr_inv_def unlock_st_cpus)
qed

lemma run_intr_inv:
  assumes "run_calls acquire release es s = Ok () s'" and "spin_inv s" and "intr_inv b c s"
    and "c < ncpu s" and "\<forall>e\<in>set es. event_cpu e < ncpu s"
  shows "intr_inv b c s'"
  using assms
proof (induction es arbitrary: s)
  case (Cons e es)
  have ok: "cpu_ok (event_cpu e) s" using Cons.prems by (simp add: spin_inv_def)
  show ?case
  proof (cases e)
    case (Acq d lk)
    with Cons.prems(1) obtain s1 where s1: "acquire d lk s = Ok () s1"
      "run_calls acquire release es s1 = Ok () s'" by (auto simp: bnd_Ok_iff)
    then have "lock_free lk s" "s1 = lock_st d lk s" using acquire_OkD[of d s lk] ok Acq by auto
    then show ?thesis
      using Cons.IH[OF s1(2)] Cons.prems Acq by (simp add: intr_inv_lock_st lock_st_inv)
  next
    case (Rel d lk)
    with Cons.prems(1) obtain s1 where s1: "release d lk s = Ok () s1"
      "run_calls acquire release es s1 = Ok () s'" by (auto simp: bnd_Ok_iff)
    then have "lock_held d lk s" "s1 = unlock_st d lk s"
      using release_OkD[of s d lk] Cons.prems Rel by auto
    then show ?thesis
      using Cons.IH[OF s1(2)] Cons.prems Rel by (simp add: intr_inv_unlock_st unlock_st_inv)
  qed
qed simp

text \<open>
  C11 (interrupt nesting). After any interleaving of returning \<open>acquire\<close> and \<open>release\<close> calls that
  starts and ends with CPU \<open>c\<close> holding no lock, the interrupt flag of \<open>c\<close> is the one it started
  with, its nesting count is 0, and interrupts were off whenever it held a lock.
\<close>

theorem interrupts_restored:
  assumes "spin_inv s" and "c < ncpu s" and "\<forall>e\<in>set es. event_cpu e < ncpu s"
    and "run_calls acquire release es s = Ok () s'" and "held_by c s = {}"
  shows "if held_by c s' = {}
     then if_flag (cpus s' c) = if_flag (cpus s c) \<and> ncli (cpus s' c) = 0
     else \<not> if_flag (cpus s' c) \<and> 0 < ncli (cpus s' c)"
proof -
  have "intr_inv (if_flag (cpus s c)) c s" using assms(5) by (simp add: intr_inv_def)
  then have i: "intr_inv (if_flag (cpus s c)) c s'"
    by (rule run_intr_inv[OF assms(4,1) _ assms(2,3)])
  have "spin_inv s' \<and> (\<lambda>c. c < ncpu s') = (\<lambda>c. c < ncpu s)"
    using spin.run_refines[OF assms(1,3,4)] by simp
  then have "spin_inv s'" and "c < ncpu s'" using assms(2) by (auto dest: fun_cong)
  then have "finite (held_by c s')" and "ncli (cpus s' c) = int (card (held_by c s'))"
    by (auto simp: spin_inv_def)
  then show ?thesis using i by (auto simp: intr_inv_def card_gt_0_iff split: if_splits)
qed

theorem interrupts_restored_witness:
  "\<exists>s'. run_calls acquire release [Acq 0 mtable_lock, Acq 0 ptable_lock, Rel 0 mtable_lock,
      Rel 0 ptable_lock] boot_machine = Ok () s' \<and> if_flag (cpus s' 0) \<and> ncli (cpus s' 0) = 0"
proof -
  let ?es = "[Acq 0 mtable_lock, Acq 0 ptable_lock, Rel 0 mtable_lock, Rel 0 ptable_lock]
    :: (nat, lockid) lock_event list"
  have v: "\<forall>e\<in>set ?es. event_cpu e < ncpu boot_machine" and c: "0 < ncpu boot_machine"
    by (simp_all add: boot_machine_def)
  have free: "spin_owner boot_machine lk = None" for lk
    by (simp add: spin_owner_def boot_machine_def boot_lock_def)
  then have none: "held_by 0 boot_machine = {}" by (simp add: held_by_def)
  have "abs_run ?es (spin_owner boot_machine) = Some ((spin_owner boot_machine)
      (mtable_lock := None, ptable_lock := None))" by (simp add: free fun_eq_iff)
  then obtain s' where s': "run_calls acquire release ?es boot_machine = Ok () s'"
    "spin_owner s' = (spin_owner boot_machine)(mtable_lock := None, ptable_lock := None)"
    using spin.run_possible[OF boot_machine_inv v] by blast
  then have "held_by 0 s' = {}" by (auto simp: held_by_def free)
  then show ?thesis
    using s'(1) interrupts_restored[OF boot_machine_inv c v s'(1) none]
    by (auto simp: boot_machine_def boot_cpu_def)
qed

end
