(* ===== verification/CString.thy ===== *)
theory CString
  imports Machine
begin

text \<open>
  \<open>string.c\<close>: the kernel's memory and string routines, on the byte memory of \<open>Machine\<close>. A routine
  that writes memory is a function from memory to memory; its pointers are addresses, so that
  overlapping and wrapping ranges behave as they do in the code. Each loop is a recursion on its
  counter; \<open>strlen\<close>, which has none, is a partial function whose value is \<open>None\<close> when no byte
  from the pointer on is NUL.

  A range of \<open>n\<close> bytes at \<open>d\<close> is the set of the addresses \<open>x\<close> with \<open>x - d < n\<close>: the subtraction
  wraps, so that the description needs no case for a range across the end of memory.
\<close>

subsection \<open>The code\<close>

text \<open>\<open>x86.h\<close>: \<open>rep stosb\<close> and \<open>rep stosl\<close>.\<close>

fun stosb :: "memory \<Rightarrow> uint \<Rightarrow> uchar \<Rightarrow> nat \<Rightarrow> memory" where
  "stosb m a b 0 = m"
| "stosb m a b (Suc k) = stosb (m(a := b)) (a + 1) b k"

fun stosl :: "memory \<Rightarrow> uint \<Rightarrow> uint \<Rightarrow> nat \<Rightarrow> memory" where
  "stosl m a w 0 = m"
| "stosl m a w (Suc k) = stosl (store32 m a w) (a + 4) w k"

text \<open>\<open>(int)dst%4 == 0\<close> holds exactly when the address is a multiple of 4.\<close>

definition memset :: "memory \<Rightarrow> uint \<Rightarrow> uint \<Rightarrow> uint \<Rightarrow> memory" where
  "memset m dst c n =
     (if dst mod 4 = 0 \<and> n mod 4 = 0 then
        let c = c AND 0xFF in
        stosl m dst (push_bit 24 c OR push_bit 16 c OR push_bit 8 c OR c) (unat (n div 4))
      else stosb m dst (ucast c) (unat n))"

fun memcmp_loop :: "memory \<Rightarrow> uint \<Rightarrow> uint \<Rightarrow> nat \<Rightarrow> int" where
  "memcmp_loop m s1 s2 0 = 0"
| "memcmp_loop m s1 s2 (Suc n) =
     (if m s1 \<noteq> m s2 then uint (m s1) - uint (m s2) else memcmp_loop m (s1 + 1) (s2 + 1) n)"

definition memcmp :: "memory \<Rightarrow> uint \<Rightarrow> uint \<Rightarrow> uint \<Rightarrow> int" where
  "memcmp m v1 v2 n = memcmp_loop m v1 v2 (unat n)"

fun copy_up :: "memory \<Rightarrow> uint \<Rightarrow> uint \<Rightarrow> nat \<Rightarrow> memory" where
  "copy_up m d s 0 = m"
| "copy_up m d s (Suc n) = copy_up (m(d := m s)) (d + 1) (s + 1) n"

fun copy_down :: "memory \<Rightarrow> uint \<Rightarrow> uint \<Rightarrow> nat \<Rightarrow> memory" where
  "copy_down m d s 0 = m"
| "copy_down m d s (Suc n) = copy_down (m(d - 1 := m (s - 1))) (d - 1) (s - 1) n"

definition memmove :: "memory \<Rightarrow> uint \<Rightarrow> uint \<Rightarrow> uint \<Rightarrow> memory" where
  "memmove m dst src n =
     (if src < dst \<and> src + n > dst then copy_down m (dst + n) (src + n) (unat n)
      else copy_up m dst src (unat n))"

definition memcpy :: "memory \<Rightarrow> uint \<Rightarrow> uint \<Rightarrow> uint \<Rightarrow> memory" where
  "memcpy m dst src n = memmove m dst src n"

fun strncmp_loop :: "memory \<Rightarrow> uint \<Rightarrow> uint \<Rightarrow> nat \<Rightarrow> int" where
  "strncmp_loop m p q 0 = 0"
| "strncmp_loop m p q (Suc n) =
     (if m p \<noteq> 0 \<and> m p = m q then strncmp_loop m (p + 1) (q + 1) n
      else uint (m p) - uint (m q))"

definition strncmp :: "memory \<Rightarrow> uint \<Rightarrow> uint \<Rightarrow> uint \<Rightarrow> int" where
  "strncmp m p q n = strncmp_loop m p q (unat n)"

text \<open>The counter of \<open>strncpy\<close> and \<open>safestrcpy\<close> is a C \<open>int\<close>; a negative one runs no iteration.\<close>

fun strncpy_loop :: "memory \<Rightarrow> uint \<Rightarrow> uint \<Rightarrow> nat \<Rightarrow> memory" where
  "strncpy_loop m s t 0 = m"
| "strncpy_loop m s t (Suc n) =
     (let m' = m(s := m t) in
      if m t \<noteq> 0 then strncpy_loop m' (s + 1) (t + 1) n else stosb m' (s + 1) 0 n)"

definition strncpy :: "memory \<Rightarrow> uint \<Rightarrow> uint \<Rightarrow> int \<Rightarrow> memory" where
  "strncpy m s t n = strncpy_loop m s t (nat n)"

fun safestrcpy_loop :: "memory \<Rightarrow> uint \<Rightarrow> uint \<Rightarrow> nat \<Rightarrow> memory" where
  "safestrcpy_loop m s t 0 = m(s := 0)"
| "safestrcpy_loop m s t (Suc n) =
     (let m' = m(s := m t) in
      if m t \<noteq> 0 then safestrcpy_loop m' (s + 1) (t + 1) n else m'(s + 1 := 0))"

definition safestrcpy :: "memory \<Rightarrow> uint \<Rightarrow> uint \<Rightarrow> int \<Rightarrow> memory" where
  "safestrcpy m s t n = (if n \<le> 0 then m else safestrcpy_loop m s t (nat (n - 1)))"

partial_function (option) strlen_loop :: "memory \<Rightarrow> uint \<Rightarrow> nat \<Rightarrow> nat option" where
  "strlen_loop m s n = (if m (s + of_nat n) = 0 then Some n else strlen_loop m s (Suc n))"

definition strlen :: "memory \<Rightarrow> uint \<Rightarrow> nat option" where
  "strlen m s = strlen_loop m s 0"

subsection \<open>Offsets in a range\<close>

lemma unat_diff_Suc: "x \<noteq> a \<Longrightarrow> unat (x - a) = Suc (unat (x - (a + 1)))" for x a :: "'a::len word"
proof -
  assume "x \<noteq> a"
  then have nz: "x - a \<noteq> 0" by simp
  have "unat (x - (a + 1)) = unat (x - a) - 1" using unat_minus_one[OF nz] by (simp add: diff_diff_eq)
  moreover have "0 < unat (x - a)" using nz by (simp add: unat_gt_0)
  ultimately show ?thesis by simp
qed

lemma unat_diff_pred: "x \<noteq> a \<Longrightarrow> unat (a - x) = Suc (unat (a - 1 - x))" for x a :: "'a::len word"
  using unat_diff_Suc[of a x] by (simp add: algebra_simps)

lemma unat_max32: "unat (- 1 :: uint) = 4294967295"
  by (simp add: unsigned_minus_1_eq_mask mask_eq_exp_minus_1)

lemma unat_lt32: "unat (x :: uint) < 4294967296"
  using unsigned_less[of x] by simp

lemma unat_rev_less: "n \<noteq> 0 \<Longrightarrow> unat (n - 1 - a) < unat n \<longleftrightarrow> unat a < unat n" for a n :: uint
  using unat_sub_if_size[of "n - 1" a] unat_minus_one[of n] unat_lt32[of a] unat_gt_0[of n]
  by (auto simp: word_size split: if_splits)

subsection \<open>What the routines do\<close>

lemma stosb_apply:
  "k \<le> 2 ^ 32 \<Longrightarrow> stosb m a b k x = (if unat (x - a) < k then b else m x)"
proof (induction k arbitrary: m a)
  case (Suc k)
  have IH: "stosb (m(a := b)) (a + 1) b k x =
      (if unat (x - (a + 1)) < k then b else (m(a := b)) x)"
    by (rule Suc.IH) (use Suc.prems in simp)
  show ?case
  proof (cases "x = a")
    case True
    then show ?thesis using IH by simp
  next
    case False
    then show ?thesis using IH unat_diff_Suc[OF False] by simp
  qed
qed simp

lemma stosl_apply:
  "4 * k \<le> 2 ^ 32 \<Longrightarrow> stosl m a w k x =
     (if unat (x - a) < 4 * k then ucast (drop_bit (8 * (unat (x - a) mod 4)) w) else m x)"
proof (induction k arbitrary: m a)
  case (Suc k)
  have IH: "stosl (store32 m a w) (a + 4) w k x =
      (if unat (x - (a + 4)) < 4 * k then ucast (drop_bit (8 * (unat (x - (a + 4)) mod 4)) w)
       else store32 m a w x)"
    by (rule Suc.IH) (use Suc.prems in simp)
  show ?case
  proof (cases "x - a < 4")
    case True
    then have small: "unat (x - a) < 4" by (simp add: word_less_nat_alt)
    have "unat (x - a - 4) = unat (x - a) + 4294967292"
      using small unat_sub_if_size[of "x - a" 4] by (simp add: word_size)
    then have "\<not> unat (x - (a + 4)) < 4 * k" using Suc.prems by (simp add: diff_diff_eq)
    then show ?thesis using IH True small by (simp add: store32_apply)
  next
    case False
    then have "4 \<le> x - a" by (simp add: not_less)
    then have "unat (x - (a + 4)) = unat (x - a) - 4" "4 \<le> unat (x - a)"
      using unat_sub[of 4 "x - a"] by (simp_all add: diff_diff_eq word_le_nat_alt)
    then show ?thesis using IH False by (auto simp: store32_apply le_mod_geq)
  qed
qed simp

lemma repeat_byte:
  fixes d :: uint
  assumes d: "\<And>i. bit d i \<longleftrightarrow> i < 8 \<and> bit c i" and "j < 4"
  shows "(ucast (drop_bit (8 * j) (push_bit 24 d OR push_bit 16 d OR push_bit 8 d OR d)) :: uchar) =
     ucast (c :: uint)"
proof -
  consider "j = 0" | "j = 1" | "j = 2" | "j = 3" using assms by linarith
  then show ?thesis
    by cases (rule bit_word_eqI, auto simp: bit_simps d)+
qed

lemma memset_word_byte:
  assumes "j < 4"
  shows "(ucast (drop_bit (8 * j) (let c = c AND 0xFF in
     push_bit 24 c OR push_bit 16 c OR push_bit 8 c OR c)) :: uchar) = ucast (c :: uint)"
proof -
  have "(0xFF :: uint) = mask 8" by (simp add: mask_eq_exp_minus_1)
  then have "bit (c AND 0xFF) i \<longleftrightarrow> i < 8 \<and> bit c i" for i
    by (simp only: bit_simps) auto
  then show ?thesis unfolding Let_def by (rule repeat_byte) (rule assms)
qed

lemma memset_apply: "memset m dst c n x = (if x - dst < n then ucast c else m x)"
proof (cases "dst mod 4 = 0 \<and> n mod 4 = 0")
  case True
  then have "unat n mod 4 = 0" using unat_mod_distrib[of n 4] by simp
  then have "4 * unat (n div 4) = unat n" using mult_div_mod_eq[of 4 "unat n"] by (simp add: unat_div)
  moreover have "unat n \<le> 2 ^ 32" using unat_lt32[of n] by simp
  ultimately show ?thesis
    using True stosl_apply[of "unat (n div 4)" m dst _ x] memset_word_byte[of "unat (x - dst) mod 4" c]
    by (simp add: memset_def Let_def word_less_nat_alt)
next
  case False
  have "unat n \<le> 2 ^ 32" using unat_lt32[of n] by simp
  then show ?thesis using False stosb_apply[of "unat n" m dst "ucast c" x]
    by (auto simp: memset_def word_less_nat_alt)
qed

lemma copy_up_apply:
  "k \<le> 2 ^ 32 \<Longrightarrow> d = s \<or> k \<le> unat (d - s) \<Longrightarrow>
   copy_up m d s k x = (if unat (x - d) < k then m (s + (x - d)) else m x)"
proof (induction k arbitrary: m d s)
  case (Suc k)
  have off: "d + 1 - (s + 1) = d - s" by simp
  have IH: "copy_up (m(d := m s)) (d + 1) (s + 1) k x =
      (if unat (x - (d + 1)) < k then (m(d := m s)) (s + 1 + (x - (d + 1))) else (m(d := m s)) x)"
    by (rule Suc.IH) (use Suc.prems off in auto)
  show ?case
  proof (cases "x = d")
    case True
    have "\<not> unat (d - (d + 1)) < k"
      using Suc.prems(1) unat_max32 by simp
    then show ?thesis using IH True by simp
  next
    case False
    have "s + (x - d) \<noteq> d" if "unat (x - (d + 1)) < k"
    proof
      assume "s + (x - d) = d"
      then have "x - d = d - s" by (simp add: algebra_simps)
      then show False using Suc.prems(2) False that unat_diff_Suc[OF False] by auto
    qed
    moreover have "s + 1 + (x - (d + 1)) = s + (x - d)" by simp
    ultimately show ?thesis using IH False unat_diff_Suc[OF False] by auto
  qed
qed simp

lemma copy_down_apply:
  "k \<le> 2 ^ 32 \<Longrightarrow> d = s \<or> k \<le> unat (s - d) \<Longrightarrow>
   copy_down m d s k x = (if unat (d - 1 - x) < k then m (s + (x - d)) else m x)"
proof (induction k arbitrary: m d s)
  case (Suc k)
  have off: "s - 1 - (d - 1) = s - d" by simp
  have IH: "copy_down (m(d - 1 := m (s - 1))) (d - 1) (s - 1) k x =
      (if unat (d - 1 - 1 - x) < k then (m(d - 1 := m (s - 1))) (s - 1 + (x - (d - 1)))
       else (m(d - 1 := m (s - 1))) x)"
    by (rule Suc.IH) (use Suc.prems off in auto)
  show ?case
  proof (cases "x = d - 1")
    case True
    have "\<not> unat (d - 1 - 1 - x) < k" using Suc.prems(1) unat_max32 by (simp add: True)
    then show ?thesis using IH True by simp
  next
    case False
    have "s + (x - d) \<noteq> d - 1" if "unat (d - 1 - 1 - x) < k"
    proof
      assume "s + (x - d) = d - 1"
      then have e: "d - 1 - x = s - d" by (simp add: algebra_simps)
      have "unat (s - d) = Suc (unat (d - 1 - 1 - x))" using unat_diff_pred[OF False] unfolding e .
      then show False using Suc.prems(2) that by auto
    qed
    moreover have "s - 1 + (x - (d - 1)) = s + (x - d)" by simp
    ultimately show ?thesis using IH False unat_diff_pred[OF False] by auto
  qed
qed simp

lemma memmove_apply:
  assumes s: "unat src + unat n < 2 ^ 32" and d: "unat dst + unat n \<le> 2 ^ 32"
  shows "memmove m dst src n x = (if x - dst < n then m (src + (x - dst)) else m x)"
proof (cases "src < dst \<and> src + n > dst")
  case True
  have n: "n \<noteq> 0" using True by auto
  have sd: "unat src < unat dst" using True by (simp add: word_less_nat_alt)
  have "unat (src - dst) = unat src + 2 ^ 32 - unat dst"
    using sd unat_sub_if_size[of src dst] by (simp add: word_size)
  then have "unat n \<le> unat (src + n - (dst + n))" using d sd by simp
  moreover have "unat (dst + n - 1 - x) < unat n \<longleftrightarrow> x - dst < n"
    using unat_rev_less[OF n, of "x - dst"] by (simp add: word_less_nat_alt algebra_simps)
  moreover have "src + n + (x - (dst + n)) = src + (x - dst)" by simp
  moreover have "unat n \<le> 2 ^ 32" using s by simp
  ultimately show ?thesis
    using True copy_down_apply[of "unat n" "dst + n" "src + n" m x] by (simp add: memmove_def)
next
  case False
  have "dst = src \<or> unat n \<le> unat (dst - src)"
  proof (cases "src \<le> dst")
    case True
    then have "unat (dst - src) = unat dst - unat src" by (simp add: unat_sub)
    moreover have "src + n \<le> dst" if "dst \<noteq> src" using False True that by (simp add: not_less)
    moreover have "unat (src + n) = unat src + unat n" using s by (simp add: unat_plus_if_size word_size)
    ultimately show ?thesis by (cases "dst = src") (auto simp: word_le_nat_alt)
  next
    case F: False
    then have "unat (dst - src) = unat dst + 2 ^ 32 - unat src"
      using unat_sub_if_size[of dst src] by (simp add: word_size word_le_nat_alt)
    then show ?thesis using s by auto
  qed
  moreover have "unat n \<le> 2 ^ 32" using s by simp
  ultimately show ?thesis
    using False copy_up_apply[of "unat n" dst src m x] by (auto simp: memmove_def word_less_nat_alt)
qed

lemma memcmp_loop_zero:
  "memcmp_loop m s1 s2 n = 0 \<longleftrightarrow> (\<forall>i<n. m (s1 + of_nat i) = m (s2 + of_nat i))"
proof (induction n arbitrary: s1 s2)
  case (Suc n)
  have "(\<forall>i<Suc n. m (s1 + of_nat i) = m (s2 + of_nat i)) \<longleftrightarrow>
      m s1 = m s2 \<and> (\<forall>i<n. m (s1 + 1 + of_nat i) = m (s2 + 1 + of_nat i))"
    by (simp add: All_less_Suc2 add.assoc)
  then show ?case by (simp add: Suc.IH word_uint_eq_iff)
qed simp

lemma safestrcpy_loop_other:
  "n + 1 < 2 ^ 32 \<Longrightarrow> unat (x - s) > n \<Longrightarrow> safestrcpy_loop m s t n x = m x"
proof (induction n arbitrary: m s t)
  case 0
  then show ?case by auto
next
  case (Suc n)
  have x: "x \<noteq> s" using Suc.prems by auto
  moreover have "x \<noteq> s + 1" using Suc.prems unat_diff_Suc[OF x] by auto
  ultimately show ?case using Suc unat_diff_Suc[OF x] by (auto simp: Let_def)
qed

text \<open>The NUL byte \<open>safestrcpy\<close> writes is inside the buffer, and what comes before it is the source.\<close>

lemma safestrcpy_loop_copy:
  "n + 1 < 2 ^ 32 \<Longrightarrow> \<forall>i\<le>n. \<forall>j\<le>n. t + of_nat i \<noteq> s + of_nat j \<Longrightarrow>
   \<exists>k\<le>n. safestrcpy_loop m s t n (s + of_nat k) = 0 \<and> (k < n \<longrightarrow> m (t + of_nat k) = 0) \<and>
     (\<forall>i<k. safestrcpy_loop m s t n (s + of_nat i) = m (t + of_nat i) \<and> m (t + of_nat i) \<noteq> 0)"
proof (induction n arbitrary: m s t)
  case (Suc n)
  show ?case
  proof (cases "m t = 0")
    case True
    then show ?thesis by (intro exI[of _ 0]) simp
  next
    case False
    define m' where "m' = m(s := m t)"
    have sep: "\<forall>i\<le>n. \<forall>j\<le>n. t + 1 + of_nat i \<noteq> s + 1 + of_nat j"
    proof (intro allI impI)
      fix i j assume "i \<le> n" "j \<le> n"
      then show "t + 1 + of_nat i \<noteq> s + 1 + of_nat j"
        using Suc.prems(2)[rule_format, of i j] by simp
    qed
    have src: "m' (t + 1 + of_nat i) = m (t + of_nat (Suc i))" if "i \<le> n" for i
      using Suc.prems(2)[rule_format, of "Suc i" 0] that by (simp add: algebra_simps m'_def)
    obtain k where k: "k \<le> n" "safestrcpy_loop m' (s + 1) (t + 1) n (s + 1 + of_nat k) = 0"
      "k < n \<longrightarrow> m' (t + 1 + of_nat k) = 0" "\<forall>i<k. safestrcpy_loop m' (s + 1) (t + 1) n (s + 1 + of_nat i) = m' (t + 1 + of_nat i) \<and>
         m' (t + 1 + of_nat i) \<noteq> 0"
      using Suc.IH[OF _ sep, of m'] Suc.prems(1) by auto
    have first: "safestrcpy_loop m' (s + 1) (t + 1) n s = m t"
      using safestrcpy_loop_other[of n s "s + 1" m' "t + 1"] Suc.prems(1) by (simp add: unat_max32 m'_def)
    have "\<forall>i<Suc k. safestrcpy_loop m s t (Suc n) (s + of_nat i) = m (t + of_nat i) \<and>
        m (t + of_nat i) \<noteq> 0"
      using False first k src by (auto simp: All_less_Suc2 Let_def algebra_simps simp flip: m'_def)
    then show ?thesis
      using k(1-3) src[of k] False by (intro exI[of _ "Suc k"]) (auto simp: Let_def algebra_simps simp flip: m'_def)
  qed
qed auto

lemma strlen_loop_Some:
  "n \<le> k \<Longrightarrow> m (s + of_nat k) = 0 \<Longrightarrow> \<forall>i. n \<le> i \<longrightarrow> i < k \<longrightarrow> m (s + of_nat i) \<noteq> 0 \<Longrightarrow>
   strlen_loop m s n = Some k"
proof (induction "k - n" arbitrary: n)
  case 0
  then show ?case by (simp add: strlen_loop.simps[of m s n])
next
  case (Suc d)
  then have "n < k" "m (s + of_nat n) \<noteq> 0" by auto
  then show ?case using Suc by (simp add: strlen_loop.simps[of m s n])
qed

lemma strlen_Some:
  "m (s + of_nat k) = 0 \<Longrightarrow> \<forall>i<k. m (s + of_nat i) \<noteq> 0 \<Longrightarrow> strlen m s = Some k"
  by (simp add: strlen_def strlen_loop_Some)

lemma strlen_returns: "\<exists>k. m (s + of_nat k) = 0 \<Longrightarrow> \<exists>k. strlen m s = Some k"
proof -
  assume ex: "\<exists>k. m (s + of_nat k) = 0"
  let ?k = "LEAST k. m (s + of_nat k) = 0"
  have "m (s + of_nat ?k) = 0" using ex by (rule LeastI_ex)
  moreover have "\<forall>i<?k. m (s + of_nat i) \<noteq> 0" using not_less_Least by blast
  ultimately show ?thesis using strlen_Some by blast
qed

subsection \<open>Properties\<close>

text \<open>
  C12 (\<open>memmove\<close> copies overlapping ranges). When neither range runs past the end of the address
  space, every byte of the destination range holds what the source range held at that offset
  before the call, wherever the ranges lie, and no other byte changes.
\<close>

theorem memmove_correct:
  assumes "unat src + unat n < 2 ^ 32" and "unat dst + unat n \<le> 2 ^ 32"
  shows "memmove m dst src n = (\<lambda>x. if x - dst < n then m (src + (x - dst)) else m x)"
  by (rule ext) (rule memmove_apply[OF assms])

theorem memmove_correct_witness:
  "memmove (\<lambda>a. ucast a) 12 10 5 = (\<lambda>x. if x - 12 < 5 then ucast (10 + (x - 12)) else ucast x) \<and>
   memmove (\<lambda>a. ucast a) 12 10 5 16 = 14"
  using memmove_correct[of 10 5 12 "\<lambda>a. ucast a"] by simp

text \<open>
  C13 (\<open>safestrcpy\<close> terminates its string). For a positive size and buffers that do not overlap, the
  destination holds the first \<open>k\<close> bytes of the source followed by a NUL, where \<open>k\<close> is the length of the
  source string if that is below \<open>n - 1\<close> and \<open>n - 1\<close> otherwise; no byte outside the buffer changes.
\<close>

theorem safestrcpy_terminates:
  assumes "0 < n" and "n < 2 ^ 31"
    and "\<forall>i<nat n. \<forall>j<nat n. t + of_nat i \<noteq> s + of_nat j"
  shows "(\<exists>k<nat n. safestrcpy m s t n (s + of_nat k) = 0 \<and> (k < nat n - 1 \<longrightarrow> m (t + of_nat k) = 0) \<and>
      (\<forall>i<k. safestrcpy m s t n (s + of_nat i) = m (t + of_nat i) \<and> m (t + of_nat i) \<noteq> 0)) \<and>
    (\<forall>x. nat n \<le> unat (x - s) \<longrightarrow> safestrcpy m s t n x = m x)"
proof -
  define p where "p = nat (n - 1)"
  have p: "nat n = Suc p" "p + 1 < 2 ^ 32" using assms(1,2) by (auto simp: p_def)
  have eq: "safestrcpy m s t n = safestrcpy_loop m s t p" using assms(1) by (simp add: safestrcpy_def p_def)
  have "\<forall>i\<le>p. \<forall>j\<le>p. t + of_nat i \<noteq> s + of_nat j" using assms(3) p(1) by (simp add: less_Suc_eq_le)
  from safestrcpy_loop_copy[OF p(2) this, of m] show ?thesis
    using safestrcpy_loop_other[OF p(2)] by (simp add: eq p(1) less_Suc_eq_le Suc_le_eq)
qed

theorem safestrcpy_terminates_witness:
  "safestrcpy (\<lambda>a. if a < 20 then 65 else 0) 100 10 4 103 = 0 \<and> safestrcpy (\<lambda>a. if a < 20 then 65 else 0) 100 10 4 102 = 65 \<and>
   safestrcpy (\<lambda>a. if a < 20 then 65 else 0) 100 10 4 104 = 0"
proof -
  let ?m = "\<lambda>a :: uint. if a < 20 then 65 else 0 :: uchar"
  have "(10 :: uint) + of_nat i \<noteq> 100 + of_nat j" if "i < 4" "j < 4" for i j
  proof -
    have "i = 0 \<or> i = 1 \<or> i = 2 \<or> i = 3" "j = 0 \<or> j = 1 \<or> j = 2 \<or> j = 3" using that by auto
    then show ?thesis by auto
  qed
  then obtain k where k: "k < 4" "safestrcpy ?m 100 10 4 (100 + of_nat k) = 0" "k < 3 \<longrightarrow> ?m (10 + of_nat k) = 0"
      "\<forall>i<k. safestrcpy ?m 100 10 4 (100 + of_nat i) = ?m (10 + of_nat i)"
    and out: "\<forall>x. 4 \<le> unat (x - 100) \<longrightarrow> safestrcpy ?m 100 10 4 x = ?m x"
    using safestrcpy_terminates[of 4 10 100 ?m] by auto
  have "k = 0 \<or> k = 1 \<or> k = 2 \<or> k = 3" using k(1) by auto
  then have "k = 3" using k(3) by auto
  then show ?thesis using k(2) k(4)[rule_format, of 2] out[rule_format, of 104] by simp
qed

end
