(* ===== verification/Kalloc.thy ===== *)
theory Kalloc
  imports Spinlock CString
begin

text \<open>
  \<open>kalloc.c\<close>: the physical page allocator. The free list lives in the free pages themselves: the
  first word of each page is the address of the next one. The state extends the machine with
  \<open>kmem\<close> (its lock is \<open>kmem_lock\<close>) and with the linker symbol \<open>end\<close>, which no code writes.
\<close>

record kmem = machine +
  use_lock :: bool
  freelist :: uint
  kern_end :: uint

subsection \<open>The code\<close>

definition kfree :: "nat \<Rightarrow> uint \<Rightarrow> 'a kmem_scheme \<Rightarrow> (unit, 'a kmem_scheme) res" where
  "kfree c v s =
     (if v mod PGSIZE \<noteq> 0 \<or> v < kern_end s \<or> V2P v \<ge> PHYSTOP then Panic ''kfree''
      else
        let s1 = s\<lparr>mem := memset (mem s) v 1 PGSIZE\<rparr> in
        bnd (if use_lock s1 then acquire c kmem_lock s1 else Ok () s1) (\<lambda>_ s2.
        let s3 = s2\<lparr>mem := store32 (mem s2) v (freelist s2), freelist := v\<rparr> in
        if use_lock s3 then release c kmem_lock s3 else Ok () s3))"

definition kalloc :: "nat \<Rightarrow> 'a kmem_scheme \<Rightarrow> (uint, 'a kmem_scheme) res" where
  "kalloc c s =
     bnd (if use_lock s then acquire c kmem_lock s else Ok () s) (\<lambda>_ s1.
     let r = freelist s1;
         s2 = (if r \<noteq> 0 then s1\<lparr>freelist := load32 (mem s1) r\<rparr> else s1) in
     bnd (if use_lock s2 then release c kmem_lock s2 else Ok () s2) (\<lambda>_ s3. Ok r s3))"

text \<open>
  The addresses \<open>freerange\<close> frees. Where \<open>p + PGSIZE\<close> wraps the list ends with \<open>p\<close>: \<open>kfree\<close>
  panics on that page, so the loop of the source does not get past it either.
\<close>

function range_pages :: "uint \<Rightarrow> uint \<Rightarrow> uint list" where
  "range_pages p vend =
     (if p + PGSIZE \<le> vend
      then p # (if p + PGSIZE < p then [] else range_pages (p + PGSIZE) vend) else [])"
  by pat_completeness auto
termination
proof (relation "measure (\<lambda>(p, vend). 2 ^ 32 - unat p)")
  fix p vend :: uint
  assume "\<not> p + PGSIZE < p"
  then have le: "unat p \<le> unat (p + PGSIZE)" by (simp add: not_less word_le_nat_alt)
  have "unat p < 2 ^ 32" "unat (p + PGSIZE) < 2 ^ 32" using unat_lt32 by simp_all
  moreover have "unat p \<noteq> unat (p + PGSIZE)" by (simp add: word_unat_eq_iff[symmetric])
  ultimately show "((p + PGSIZE, vend), p, vend) \<in> measure (\<lambda>(p, vend). 2 ^ 32 - unat p)"
    using le by auto
qed simp

declare range_pages.simps [simp del]

definition freerange :: "nat \<Rightarrow> uint \<Rightarrow> uint \<Rightarrow> 'a kmem_scheme \<Rightarrow> (unit, 'a kmem_scheme) res" where
  "freerange c vstart vend s = for_each (range_pages (PGROUNDUP vstart) vend) (kfree c) s"

definition kinit1 :: "nat \<Rightarrow> uint \<Rightarrow> uint \<Rightarrow> 'a kmem_scheme \<Rightarrow> (unit, 'a kmem_scheme) res" where
  "kinit1 c vstart vend s = freerange c vstart vend ((initlock kmem_lock ''kmem'' s)\<lparr>use_lock := False\<rparr>)"

definition kinit2 :: "nat \<Rightarrow> uint \<Rightarrow> uint \<Rightarrow> 'a kmem_scheme \<Rightarrow> (unit, 'a kmem_scheme) res" where
  "kinit2 c vstart vend s =
     bnd (freerange c vstart vend s) (\<lambda>_ s1. Ok () (s1\<lparr>use_lock := True\<rparr>))"

subsection \<open>One critical section\<close>

text \<open>What taking and dropping \<open>kmem_lock\<close> leaves behind: debugging fields and \<open>intena\<close> only.\<close>

definition kmem_pass :: "nat \<Rightarrow> 'a kmem_scheme \<Rightarrow> 'a kmem_scheme" where
  "kmem_pass c s = (if use_lock s then sect c kmem_lock s else s)"

definition kmem_ready :: "nat \<Rightarrow> 'a kmem_scheme \<Rightarrow> bool" where
  "kmem_ready c s \<longleftrightarrow> cpu_ok c s \<and> (use_lock s \<longrightarrow> lock_free kmem_lock s)"

lemma lock_st_kmem [simp]:
  "use_lock (lock_st c lk s) = use_lock s" "freelist (lock_st c lk s) = freelist s"
  "kern_end (lock_st c lk s) = kern_end s" "kmem.more (lock_st c lk s) = kmem.more s"
  "lock_st c lk (s\<lparr>freelist := p\<rparr>) = (lock_st c lk s)\<lparr>freelist := p\<rparr>"
  and unlock_st_kmem [simp]:
  "use_lock (unlock_st c lk s) = use_lock s" "freelist (unlock_st c lk s) = freelist s"
  "kern_end (unlock_st c lk s) = kern_end s" "kmem.more (unlock_st c lk s) = kmem.more s"
  "unlock_st c lk (s\<lparr>freelist := p\<rparr>) = (unlock_st c lk s)\<lparr>freelist := p\<rparr>"
  "unlock_st c lk (s\<lparr>mem := m\<rparr>) = (unlock_st c lk s)\<lparr>mem := m\<rparr>"
  by (simp_all add: lock_st_def unlock_st_def upd_lock_def upd_cpu_def)

lemma sect_kmem [simp]:
  "use_lock (sect c lk s) = use_lock s" "freelist (sect c lk s) = freelist s"
  "kern_end (sect c lk s) = kern_end s" "kmem.more (sect c lk s) = kmem.more s"
  "sect c lk (s\<lparr>freelist := p\<rparr>) = (sect c lk s)\<lparr>freelist := p\<rparr>"
  and cli_pass_kmem [simp]:
  "use_lock (cli_pass c s) = use_lock s" "freelist (cli_pass c s) = freelist s"
  "kern_end (cli_pass c s) = kern_end s" "kmem.more (cli_pass c s) = kmem.more s"
  by (simp_all add: sect_def cli_pass_def upd_cpu_def del: unlock_lock_sect)

lemma freelist_same: "freelist s = p \<Longrightarrow> s\<lparr>freelist := p\<rparr> = s"
  by (cases s) simp

lemma cpu_ok_kmem_upd [simp]:
  "cpu_ok c (s\<lparr>freelist := p\<rparr>) = cpu_ok c s" "cpu_ok c (s\<lparr>mem := m\<rparr>) = cpu_ok c s"
  "cpu_ok c (s\<lparr>use_lock := b\<rparr>) = cpu_ok c s"
  by (simp_all add: cpu_ok_def)

lemma lock_free_kmem_upd [simp]:
  "lock_free lk (s\<lparr>freelist := p\<rparr>) = lock_free lk s" "lock_free lk (s\<lparr>mem := m\<rparr>) = lock_free lk s"
  "lock_held c lk (s\<lparr>freelist := p\<rparr>) = lock_held c lk s"
  "lock_held c lk (s\<lparr>mem := m\<rparr>) = lock_held c lk s"
  by (simp_all add: lock_free_def lock_held_def)

lemma kmem_pass_simps [simp]:
  "mem (kmem_pass c s) = mem s" "freelist (kmem_pass c s) = freelist s"
  "use_lock (kmem_pass c s) = use_lock s" "kern_end (kmem_pass c s) = kern_end s"
  "ncpu (kmem_pass c s) = ncpu s" "kmem.more (kmem_pass c s) = kmem.more s"
  by (simp_all add: kmem_pass_def)

lemma kmem_pass_locks [simp]:
  "kmem_ready c s \<Longrightarrow> lock_free lk (kmem_pass c s) = lock_free lk s"
  "kmem_ready c s \<Longrightarrow> lock_held d lk (kmem_pass c s) = lock_held d lk s"
  by (auto simp: kmem_pass_def kmem_ready_def)

lemma kmem_pass_cpu_ok [simp]: "kmem_ready c s \<Longrightarrow> cpu_ok d s \<Longrightarrow> cpu_ok d (kmem_pass c s)"
  by (auto simp: kmem_pass_def kmem_ready_def)

lemma kmem_pass_cpus [simp]:
  "kmem_ready c s \<Longrightarrow> ncli (cpus (kmem_pass c s) d) = ncli (cpus s d)"
  "kmem_ready c s \<Longrightarrow> if_flag (cpus (kmem_pass c s) d) = if_flag (cpus s d)"
  "cpu_proc (cpus (kmem_pass c s) d) = cpu_proc (cpus s d)"
  "cpu_thread (cpus (kmem_pass c s) d) = cpu_thread (cpus s d)"
  by (auto simp: kmem_pass_def kmem_ready_def)

lemma kalloc_eq:
  assumes "kmem_ready c s"
  shows "kalloc c s = Ok (freelist s) ((kmem_pass c s)\<lparr>freelist :=
     if freelist s \<noteq> 0 then load32 (mem s) (freelist s) else freelist s\<rparr>)"
  using assms
  by (auto simp: kalloc_def kmem_pass_def kmem_ready_def acquire_free release_held Let_def
      freelist_same)

lemma kfree_eq:
  assumes "kmem_ready c s" and "page_aligned v" and "kern_end s \<le> v" and "V2P v < PHYSTOP"
  shows "kfree c v s = Ok () ((kmem_pass c (s\<lparr>mem := memset (mem s) v 1 PGSIZE\<rparr>))\<lparr>
     mem := store32 (memset (mem s) v 1 PGSIZE) v (freelist s), freelist := v\<rparr>)"
  using assms
  by (auto simp: kfree_def kmem_pass_def kmem_ready_def acquire_free release_held Let_def
      page_aligned_def not_less not_le)

subsection \<open>The free list as a list of pages\<close>

fun free_chain :: "memory \<Rightarrow> uint \<Rightarrow> uint list \<Rightarrow> bool" where
  "free_chain m p [] \<longleftrightarrow> p = 0"
| "free_chain m p (x # xs) \<longleftrightarrow> p = x \<and> x \<noteq> 0 \<and> free_chain m (load32 m x) xs"

definition page_ok :: "uint \<Rightarrow> uint \<Rightarrow> bool" where
  "page_ok kend v \<longleftrightarrow> page_aligned v \<and> kend \<le> v \<and> V2P v < PHYSTOP"

definition kmem_list :: "nat \<Rightarrow> 'a kmem_scheme \<Rightarrow> uint list \<Rightarrow> bool" where
  "kmem_list c s xs \<longleftrightarrow> kmem_ready c s \<and> free_chain (mem s) (freelist s) xs \<and> distinct xs \<and>
     (\<forall>x\<in>set xs. page_ok (kern_end s) x)"

lemma page_ok_nonzero: "page_ok kend v \<Longrightarrow> v \<noteq> 0"
  by (auto simp: page_ok_def V2P_def)

lemma free_chain_cong:
  assumes "\<And>x i. x \<in> set xs \<Longrightarrow> i < 4 \<Longrightarrow> m (x + i) = m' (x + i)"
  shows "free_chain m p xs = free_chain m' p xs"
  using assms
proof (induction xs arbitrary: p)
  case (Cons x xs)
  have "load32 m x = load32 m' x" by (rule load32_cong) (use Cons.prems in auto)
  moreover have "free_chain m q xs = free_chain m' q xs" for q by (rule Cons.IH) (use Cons.prems in auto)
  ultimately show ?case by simp
qed simp

text \<open>Bytes outside the freed page keep their value.\<close>

lemma kfree_mem_frame:
  "PGSIZE \<le> x - v \<Longrightarrow> store32 (memset m v 1 PGSIZE) v w x = m x"
  by (simp add: store32_apply memset_apply word_le_nat_alt word_less_nat_alt)

lemma kmem_list_kalloc:
  assumes "kmem_list c s (x # xs)"
  shows "\<exists>s'. kalloc c s = Ok x s' \<and> kmem_list c s' xs \<and> mem s' = mem s"
proof -
  have r: "kmem_ready c s" and x: "freelist s = x" "x \<noteq> 0" using assms by (auto simp: kmem_list_def)
  let ?s' = "(kmem_pass c s)\<lparr>freelist := load32 (mem s) x\<rparr>"
  have "kmem_ready c ?s'" using r by (auto simp: kmem_ready_def)
  then have "kmem_list c ?s' xs" using assms x by (auto simp: kmem_list_def)
  then show ?thesis using kalloc_eq[OF r] x by simp
qed

lemma kmem_list_kalloc_empty:
  assumes "kmem_list c s []"
  shows "\<exists>s'. kalloc c s = Ok 0 s' \<and> kmem_list c s' []"
proof -
  have r: "kmem_ready c s" and x: "freelist s = 0" using assms by (auto simp: kmem_list_def)
  have "kmem_ready c ((kmem_pass c s)\<lparr>freelist := 0\<rparr>)" using r by (auto simp: kmem_ready_def)
  then show ?thesis using kalloc_eq[OF r] x by (simp add: kmem_list_def)
qed

lemma kmem_list_kfree:
  assumes "kmem_list c s xs" and v: "page_ok (kern_end s) v" "v \<notin> set xs"
  shows "\<exists>s'. kfree c v s = Ok () s' \<and> kmem_list c s' (v # xs) \<and> kern_end s' = kern_end s \<and>
     (\<forall>x. PGSIZE \<le> x - v \<longrightarrow> mem s' x = mem s x)"
proof -
  let ?m = "memset (mem s) v 1 PGSIZE"
  let ?s' = "(kmem_pass c (s\<lparr>mem := ?m\<rparr>))\<lparr>mem := store32 ?m v (freelist s), freelist := v\<rparr>"
  have r: "kmem_ready c s" and xs: "free_chain (mem s) (freelist s) xs" "distinct xs"
    "\<forall>x\<in>set xs. page_ok (kern_end s) x" using assms by (auto simp: kmem_list_def)
  then have r1: "kmem_ready c (s\<lparr>mem := ?m\<rparr>)" by (auto simp: kmem_ready_def)
  then have r': "kmem_ready c ?s'" by (auto simp: kmem_ready_def)
  have "free_chain (mem s) (freelist s) xs = free_chain (store32 ?m v (freelist s)) (freelist s) xs"
  proof (rule free_chain_cong)
    fix x i :: uint
    assume x: "x \<in> set xs" and i: "i < 4"
    then have "i < PGSIZE" by (auto simp: word_less_nat_alt)
    then have "PGSIZE \<le> x + i - v"
      using xs(3) v x by (intro page_separate) (auto simp: page_ok_def)
    then show "mem s (x + i) = store32 ?m v (freelist s) (x + i)" by (simp add: kfree_mem_frame)
  qed
  then have "kmem_list c ?s' (v # xs)"
    using xs v r' page_ok_nonzero[OF v(1)] by (simp add: kmem_list_def)
  moreover have "kfree c v s = Ok () ?s'" using r v by (intro kfree_eq) (auto simp: page_ok_def)
  ultimately show ?thesis by (auto simp: kfree_mem_frame)
qed

subsection \<open>The contract of a page allocator\<close>

datatype page_op = PAlloc | PFree uint

text \<open>
  A client that keeps the set of the pages it holds: it frees only pages it holds, and a page that
  is handed to it while it already holds it is a fault.
\<close>

fun run_ops :: "('s \<Rightarrow> (uint, 's) res) \<Rightarrow> (uint \<Rightarrow> 's \<Rightarrow> (unit, 's) res) \<Rightarrow> page_op list \<Rightarrow>
    uint set \<Rightarrow> 's \<Rightarrow> (uint set, 's) res" where
  "run_ops alloc free [] live s = Ok live s"
| "run_ops alloc free (PAlloc # ops) live s =
     bnd (alloc s) (\<lambda>p s. if p = 0 then run_ops alloc free ops live s
       else if p \<in> live then Fault ''page handed out twice''
       else run_ops alloc free ops (insert p live) s)"
| "run_ops alloc free (PFree v # ops) live s =
     (if v \<in> live then bnd (free v s) (\<lambda>_. run_ops alloc free ops (live - {v}))
      else run_ops alloc free ops live s)"

locale page_allocator =
  fixes alloc :: "'s \<Rightarrow> (uint, 's) res"
    and free :: "uint \<Rightarrow> 's \<Rightarrow> (unit, 's) res"
    and avail :: "'s \<Rightarrow> uint list \<Rightarrow> bool"
    and page :: "uint \<Rightarrow> bool"
  assumes alloc_some: "avail s (x # xs) \<Longrightarrow> \<exists>s'. alloc s = Ok x s' \<and> avail s' xs"
    and alloc_none: "avail s [] \<Longrightarrow> \<exists>s'. alloc s = Ok 0 s' \<and> avail s' []"
    and free_ok: "avail s xs \<Longrightarrow> page v \<Longrightarrow> v \<notin> set xs \<Longrightarrow>
      \<exists>s'. free v s = Ok () s' \<and> avail s' (v # xs)"
    and avail_pages: "avail s xs \<Longrightarrow> distinct xs \<and> (\<forall>x\<in>set xs. page x)"
    and page_nonzero: "page x \<Longrightarrow> x \<noteq> 0"
begin

lemma run_ops_conserve:
  "avail s xs \<Longrightarrow> set xs \<inter> live = {} \<Longrightarrow> \<forall>v\<in>live. page v \<Longrightarrow>
   \<exists>live' s' xs'. run_ops alloc free ops live s = Ok live' s' \<and> avail s' xs' \<and>
     set xs' \<inter> live' = {} \<and> set xs' \<union> live' = set xs \<union> live"
proof (induction ops arbitrary: s xs live)
  case (Cons op ops)
  show ?case
  proof (cases op)
    case PAlloc
    show ?thesis
    proof (cases xs)
      case Nil
      with Cons.prems obtain s1 where "alloc s = Ok 0 s1" "avail s1 []" using alloc_none by blast
      then show ?thesis using Cons.IH[of s1 "[]" live] Cons.prems Nil PAlloc by simp
    next
      case xs: (Cons x ys)
      with Cons.prems obtain s1 where s1: "alloc s = Ok x s1" "avail s1 ys" using alloc_some by blast
      have x: "x \<noteq> 0" "x \<notin> live" "x \<notin> set ys" "page x"
        using avail_pages[OF Cons.prems(1)] page_nonzero Cons.prems(2) xs by auto
      have "\<exists>live' s' xs'. run_ops alloc free ops (insert x live) s1 = Ok live' s' \<and> avail s' xs' \<and>
          set xs' \<inter> live' = {} \<and> set xs' \<union> live' = set ys \<union> insert x live"
        by (rule Cons.IH) (use s1 x Cons.prems xs in auto)
      then show ?thesis using s1 x xs PAlloc by simp
    qed
  next
    case (PFree v)
    show ?thesis
    proof (cases "v \<in> live")
      case True
      with Cons.prems have v: "page v" "v \<notin> set xs" by auto
      with Cons.prems obtain s1 where s1: "free v s = Ok () s1" "avail s1 (v # xs)" using free_ok by blast
      have "\<exists>live' s' xs'. run_ops alloc free ops (live - {v}) s1 = Ok live' s' \<and> avail s' xs' \<and>
          set xs' \<inter> live' = {} \<and> set xs' \<union> live' = set (v # xs) \<union> (live - {v})"
        by (rule Cons.IH) (use s1 Cons.prems in auto)
      moreover have "set (v # xs) \<union> (live - {v}) = set xs \<union> live" using True by auto
      ultimately show ?thesis using s1 True PFree by simp
    qed (use Cons PFree in simp)
  qed
qed auto

lemma free_all:
  "avail s xs \<Longrightarrow> \<forall>v\<in>set vs. page v \<Longrightarrow> distinct vs \<Longrightarrow> set vs \<inter> set xs = {} \<Longrightarrow>
   \<exists>s'. for_each vs free s = Ok () s' \<and> avail s' (rev vs @ xs)"
proof (induction vs arbitrary: s xs)
  case (Cons v vs)
  then obtain s1 where s1: "free v s = Ok () s1" "avail s1 (v # xs)" using free_ok[of s xs v] by auto
  have "\<exists>s'. for_each vs free s1 = Ok () s' \<and> avail s' (rev vs @ v # xs)"
    by (rule Cons.IH) (use s1 Cons.prems in auto)
  then show ?case using s1 by simp
qed auto

end

interpretation km: page_allocator "kalloc c" "kfree c"
  "\<lambda>s xs. kmem_list c s xs \<and> kern_end s = kend" "page_ok kend" for c kend
proof unfold_locales
  fix s :: "'a kmem_scheme" and x v xs
  { assume a: "kmem_list c s (x # xs) \<and> kern_end s = kend"
    then have "kmem_ready c s" by (simp add: kmem_list_def)
    from kalloc_eq[OF this] a kmem_list_kalloc[of c s x xs]
    show "\<exists>s'. kalloc c s = Ok x s' \<and> kmem_list c s' xs \<and> kern_end s' = kend" by auto }
  { assume a: "kmem_list c s [] \<and> kern_end s = kend"
    then have "kmem_ready c s" by (simp add: kmem_list_def)
    from kalloc_eq[OF this] a kmem_list_kalloc_empty[of c s]
    show "\<exists>s'. kalloc c s = Ok 0 s' \<and> kmem_list c s' [] \<and> kern_end s' = kend" by auto }
  { assume "kmem_list c s xs \<and> kern_end s = kend" "page_ok kend v" "v \<notin> set xs"
    then show "\<exists>s'. kfree c v s = Ok () s' \<and> kmem_list c s' (v # xs) \<and> kern_end s' = kend"
      using kmem_list_kfree[of c s xs v] by auto }
  { assume "kmem_list c s xs \<and> kern_end s = kend"
    then show "distinct xs \<and> (\<forall>x\<in>set xs. page_ok kend x)" by (auto simp: kmem_list_def) }
  { assume "page_ok kend x"
    then show "x \<noteq> 0" by (rule page_ok_nonzero) }
qed

lemma range_pages_set:
  assumes "page_aligned p" "unat vend \<le> 0x8E000000"
    "unat p \<le> 0x8E000000"
  shows "set (range_pages p vend) = {x. page_aligned x \<and> p \<le> x \<and> unat x + 4096 \<le> unat vend} \<and>
    distinct (range_pages p vend)"
  using assms
proof (induction p vend rule: range_pages.induct)
  case (1 p vend)
  have q: "unat (p + PGSIZE) = unat p + 4096" using 1(4) by (simp add: unat_plus_if_size word_size)
  then have nw: "\<not> p + PGSIZE < p" by (simp add: word_less_nat_alt)
  show ?case
  proof (cases "p + PGSIZE \<le> vend")
    case False
    then show ?thesis using q by (subst (1 2) range_pages.simps) (auto simp: word_le_nat_alt)
  next
    case True
    then have u: "range_pages p vend = p # range_pages (p + PGSIZE) vend"
      using nw by (subst range_pages.simps) simp
    have al: "page_aligned (p + PGSIZE)" using 1(2) q by (simp add: page_aligned_unat)
    have "unat (p + PGSIZE) \<le> 0x8E000000" using True 1(3) by (simp add: word_le_nat_alt)
    from 1(1)[OF True nw al 1(3) this]
    have IH: "set (range_pages (p + PGSIZE) vend) =
        {x. page_aligned x \<and> p + PGSIZE \<le> x \<and> unat x + 4096 \<le> unat vend}"
      "distinct (range_pages (p + PGSIZE) vend)" by auto
    have step: "p \<le> x \<longleftrightarrow> x = p \<or> p + PGSIZE \<le> x" if "page_aligned x" for x
    proof -
      have "4096 dvd unat x" "4096 dvd unat p"
        using that 1(2) by (simp_all add: page_aligned_unat mod_eq_0_iff_dvd)
      then obtain j k where jk: "unat x = 4096 * j" "unat p = 4096 * k" by (auto elim!: dvdE)
      show ?thesis unfolding word_le_nat_alt word_unat_eq_iff q unfolding jk by auto
    qed
    show ?thesis unfolding u using IH step True 1(2) q
      by (auto simp: word_le_nat_alt)
  qed
qed

text \<open>A state before \<open>kinit1\<close>: one free lock, an empty list, the kernel ending at 1 MB + 64 KB.\<close>

definition boot_kmem :: kmem where
  "boot_kmem = machine.extend boot_machine
     \<lparr>use_lock = False, freelist = 0, kern_end = 0x80110000\<rparr>"

lemma boot_kmem_simps [simp]:
  "freelist boot_kmem = 0" "kern_end boot_kmem = 0x80110000" "use_lock boot_kmem = False"
  by (simp_all add: boot_kmem_def machine.defs)

lemma cpu_ok_boot_kmem: "c < 2 \<Longrightarrow> cpu_ok c boot_kmem"
  by (auto simp: boot_kmem_def machine.defs boot_machine_def cpu_ok_def boot_cpu_def
      less_Suc_eq numeral_2_eq_2)

lemma kmem_list_boot: "c < 2 \<Longrightarrow> kmem_list c boot_kmem []"
  by (simp add: kmem_list_def kmem_ready_def cpu_ok_boot_kmem)

lemma initlock_kmem [simp]:
  "use_lock (initlock lk n s) = use_lock s" "freelist (initlock lk n s) = freelist s"
  "kern_end (initlock lk n s) = kern_end s" "kmem.more (initlock lk n s) = kmem.more s"
  "mem (initlock lk n s) = mem s" "cpu_ok c (initlock lk n s) = cpu_ok c s"
  by (simp_all add: initlock_def upd_lock_def cpu_ok_def)

lemma freerange_fills:
  assumes l: "kmem_list c s xs" and lo: "kern_end s \<le> vstart" "KERNBASE \<le> vstart"
    and hi: "vend \<le> P2V PHYSTOP" "vstart \<le> P2V PHYSTOP"
    and new: "\<forall>x\<in>set xs. x < vstart \<or> vend \<le> x"
  shows "\<exists>s'. freerange c vstart vend s = Ok () s' \<and> kern_end s' = kern_end s \<and>
    kmem_list c s' (rev (range_pages (PGROUNDUP vstart) vend) @ xs) \<and>
    set (range_pages (PGROUNDUP vstart) vend) =
      {x. page_aligned x \<and> vstart \<le> x \<and> unat x + 4096 \<le> unat vend}"
proof -
  let ?p = "PGROUNDUP vstart" and ?P = "{x. page_aligned x \<and> vstart \<le> x \<and> unat x + 4096 \<le> unat vend}"
  have hi': "unat vend \<le> 0x8E000000" "unat vstart \<le> 0x8E000000"
    using hi by (simp_all add: P2V_def word_le_nat_alt)
  have wr: "unat vstart + 4095 < 2 ^ 32" using hi' by simp
  have "unat ?p \<le> 0x8E000000" using hi' unat_PGROUNDUP[OF wr] by simp
  then have rp: "set (range_pages ?p vend) = ?P" "distinct (range_pages ?p vend)"
    using range_pages_set[of ?p vend] hi' PGROUNDUP_le_iff[OF wr] by auto
  have pg: "page_ok (kern_end s) x" if "x \<in> ?P" for x
  proof -
    have "unat (V2P x) = unat x - 0x80000000"
      using that lo(2) unat_sub[of KERNBASE x] by (auto simp: V2P_def word_le_nat_alt)
    then show ?thesis using that lo(1) hi' by (auto simp: page_ok_def word_le_nat_alt word_less_nat_alt)
  qed
  have "\<exists>s'. for_each (range_pages ?p vend) (kfree c) s = Ok () s' \<and>
     kmem_list c s' (rev (range_pages ?p vend) @ xs) \<and> kern_end s' = kern_end s"
  proof (rule km.free_all)
    show "\<forall>v\<in>set (range_pages ?p vend). page_ok (kern_end s) v" using pg rp by simp
    have "x \<notin> ?P" if "x \<in> set xs" for x
      using bspec[OF new that] by (auto simp: word_less_nat_alt word_le_nat_alt)
    then show "set (range_pages ?p vend) \<inter> set xs = {}" using rp(1) by blast
  qed (use l rp in auto)
  then show ?thesis using rp by (auto simp: freerange_def)
qed

text \<open>
  C14 (boot fills the allocator). On a state with an empty free list, \<open>kinit1(vstart, vend)\<close>
  returns, and the free list is then a chain through memory of distinct pages: exactly the page
  frames that lie wholly between \<open>vstart\<close> and \<open>vend\<close>.
\<close>

theorem kinit1_frees_range:
  assumes "cpu_ok c s" and "freelist s = 0" and "kern_end s \<le> vstart" and "KERNBASE \<le> vstart"
    and "vstart \<le> P2V PHYSTOP" and "vend \<le> P2V PHYSTOP"
  shows "\<exists>s' xs. kinit1 c vstart vend s = Ok () s' \<and> kmem_list c s' xs \<and>
     set xs = {x. page_aligned x \<and> vstart \<le> x \<and> unat x + 4096 \<le> unat vend}"
proof -
  have "kmem_list c ((initlock kmem_lock ''kmem'' s)\<lparr>use_lock := False\<rparr>) []"
    using assms by (simp add: kmem_list_def kmem_ready_def)
  from freerange_fills[OF this, of vstart vend] obtain s' where
    "kinit1 c vstart vend s = Ok () s'" "kmem_list c s' (rev (range_pages (PGROUNDUP vstart) vend) @ [])"
    "set (range_pages (PGROUNDUP vstart) vend) =
       {x. page_aligned x \<and> vstart \<le> x \<and> unat x + 4096 \<le> unat vend}"
    using assms by (auto simp: kinit1_def)
  then show ?thesis by (metis append_Nil2 set_rev)
qed

theorem kinit1_frees_range_witness:
  "\<exists>s' xs. kinit1 0 0x80110004 0x80113000 boot_kmem = Ok () s' \<and> kmem_list 0 s' xs \<and>
     set xs = {x. page_aligned x \<and> 0x80110004 \<le> x \<and> unat x + 4096 \<le> unat (0x80113000 :: uint)}"
  by (rule kinit1_frees_range) (simp_all add: cpu_ok_boot_kmem P2V_def)

text \<open>
  C15 (no page is lost or handed out twice). Whatever sequence of \<open>kalloc\<close> calls and \<open>kfree\<close>
  calls on pages it holds a client makes, every call returns, \<open>kalloc\<close> never hands it a page it
  already holds, and at the end the pages on the free list and the pages held are disjoint and
  together the same pages as at the start.
\<close>

theorem kalloc_kfree_conserve:
  assumes "kmem_list c s xs" and "set xs \<inter> live = {}" and "\<forall>v\<in>live. page_ok (kern_end s) v"
  shows "\<exists>live' s' xs'. run_ops (kalloc c) (kfree c) ops live s = Ok live' s' \<and>
     kmem_list c s' xs' \<and> set xs' \<inter> live' = {} \<and> set xs' \<union> live' = set xs \<union> live"
  using km.run_ops_conserve[of c s xs "kern_end s" live ops] assms by blast

theorem kalloc_kfree_conserve_witness:
  "\<exists>live' s' xs'. run_ops (kalloc 1) (kfree 1) [PAlloc, PFree 0x80200000, PAlloc, PAlloc]
       {0x80200000, 0x80201000} boot_kmem = Ok live' s' \<and>
     kmem_list 1 s' xs' \<and> set xs' \<inter> live' = {} \<and>
     set xs' \<union> live' = set [] \<union> {0x80200000, 0x80201000}"
  by (rule kalloc_kfree_conserve)
     (simp_all add: kmem_list_boot page_ok_def page_aligned_def V2P_def)

end
