(* ===== verification/Proc.thy ===== *)
theory Proc
  imports Kalloc
begin

text \<open>
  \<open>proc.c\<close>, \<open>proc.h\<close> and \<open>kthread.h\<close>, first part: the process table with its threads, and the
  calls that allocate threads, put them to sleep and wake them. A process is its index in
  \<open>ptable.proc\<close>, a thread the pair of its process and its index in \<open>threads\<close>; \<open>None\<close> is the null
  pointer. Trap frames and contexts lie in the kernel stack's page, in the byte memory.

  A call that ends in \<open>swtch\<close> has the outcome \<open>Switch\<close>. What the thread does when the scheduler
  resumes it is a function of its own, named \<open>_resume\<close>; the local variable \<open>intena\<close> of \<open>sched\<close>,
  which waits on the thread's kernel stack meanwhile, is the field \<open>stk_intena\<close>.
\<close>

datatype states = UNUSED | EMBRYO | SLEEPING | RUNNABLE | RUNNING | ZOMBIE

text \<open>The kernel objects whose addresses are used as sleep channels.\<close>

datatype channel =
    ChProc nat | ChThread nat nat | ChMutex nat | ChTicks | ChLog | ChInput
  | ChBuf nat | ChBufLock nat | ChInodeLock nat | ChPipeRead uint | ChPipeWrite uint

record thread =
  chan :: "channel option"
  tid :: int
  t_killed :: bool
  t_state :: states
  ctx :: uint
  kstack :: uint
  tf :: uint
  t_parent :: "(nat \<times> nat) option"
  t_myproc :: "nat option"
  blocked :: bool
  stk_intena :: bool

record proc =
  sz :: uint
  pgdir :: uint
  p_state :: states
  pid :: int
  p_parent :: "nat option"
  p_killed :: bool
  ofile :: "nat \<Rightarrow> nat option"
  cwd :: "nat option"
  threads :: "nat \<Rightarrow> thread"
  ttlock :: "lockid option"
  mid :: "nat \<Rightarrow> bool"
  p_name :: string

text \<open>\<open>m_name\<close> points to the name of a process, or (\<open>None\<close>) to an empty string.\<close>

record kthread_mutex =
  m_locked :: bool
  m_allocated :: bool
  m_name :: "nat option"
  m_tid :: int

record kernel = kmem +
  procs :: "nat \<Rightarrow> proc"
  mutexes :: "nat \<Rightarrow> kthread_mutex"
  initproc :: "nat option"
  nextpid :: int
  sym_trapret :: uint
  sym_forkret :: uint

definition thr :: "'a kernel_scheme \<Rightarrow> nat \<Rightarrow> nat \<Rightarrow> thread" where
  "thr s p t = threads (procs s p) t"

definition upd_proc :: "nat \<Rightarrow> (proc \<Rightarrow> proc) \<Rightarrow> 'a kernel_scheme \<Rightarrow> 'a kernel_scheme" where
  "upd_proc p f s = s\<lparr>procs := (procs s)(p := f (procs s p))\<rparr>"

definition upd_thread ::
    "nat \<Rightarrow> nat \<Rightarrow> (thread \<Rightarrow> thread) \<Rightarrow> 'a kernel_scheme \<Rightarrow> 'a kernel_scheme" where
  "upd_thread p t f s = upd_proc p (\<lambda>P. P\<lparr>threads := (threads P)(t := f (threads P t))\<rparr>) s"

subsection \<open>The current process and thread\<close>

definition pinit :: "'a kernel_scheme \<Rightarrow> 'a kernel_scheme" where
  "pinit s = initlock ptable_lock ''ptable'' s"

definition mythread :: "nat \<Rightarrow> 'a kernel_scheme \<Rightarrow> ((nat \<times> nat) option, 'a kernel_scheme) res" where
  "mythread c s =
     bnd (pushcli c s) (\<lambda>_ s.
     bnd (mycpu c s) (\<lambda>k s.
     let t = cpu_thread (cpus s k) in
     bnd (popcli c s) (\<lambda>_ s. Ok t s)))"

definition myproc :: "nat \<Rightarrow> 'a kernel_scheme \<Rightarrow> (nat option, 'a kernel_scheme) res" where
  "myproc c s =
     bnd (pushcli c s) (\<lambda>_ s.
     bnd (mycpu c s) (\<lambda>k s.
     let p = cpu_proc (cpus s k) in
     bnd (popcli c s) (\<lambda>_ s. Ok p s)))"

text \<open>Accesses through a pointer: a null pointer faults.\<close>

definition deref :: "'p option \<Rightarrow> ('p \<Rightarrow> 's \<Rightarrow> ('a, 's) res) \<Rightarrow> 's \<Rightarrow> ('a, 's) res" where
  "deref ptr f s = (case ptr of None \<Rightarrow> Fault ''null pointer'' | Some x \<Rightarrow> f x s)"

definition acquire_tt :: "nat \<Rightarrow> nat \<Rightarrow> 'a kernel_scheme \<Rightarrow> (unit, 'a kernel_scheme) res" where
  "acquire_tt c p s = deref (ttlock (procs s p)) (acquire c) s"

definition release_tt :: "nat \<Rightarrow> nat \<Rightarrow> 'a kernel_scheme \<Rightarrow> (unit, 'a kernel_scheme) res" where
  "release_tt c p s = deref (ttlock (procs s p)) (release c) s"

subsection \<open>Allocation\<close>

text \<open>Sizes and offsets of \<open>struct trapframe\<close> (\<open>x86.h\<close>) and \<open>struct context\<close> (\<open>proc.h\<close>).\<close>

abbreviation (input) sizeof_trapframe :: uint where "sizeof_trapframe \<equiv> 76"
abbreviation (input) sizeof_context :: uint where "sizeof_context \<equiv> 20"
abbreviation (input) tf_eax :: uint where "tf_eax \<equiv> 28"
abbreviation (input) tf_eip :: uint where "tf_eip \<equiv> 56"
abbreviation (input) tf_esp :: uint where "tf_esp \<equiv> 68"
abbreviation (input) context_eip :: uint where "context_eip \<equiv> 16"

text \<open>The stack a fresh thread starts on: a trap frame, the return address, a context.\<close>

definition thread_stack :: "nat \<Rightarrow> nat \<Rightarrow> uint \<Rightarrow> uint \<Rightarrow> 'a kernel_scheme \<Rightarrow> 'a kernel_scheme" where
  "thread_stack p t ks stack_size s =
     (let sp = ks + stack_size - sizeof_trapframe;
          s = upd_thread p t (\<lambda>x. x\<lparr>tf := sp\<rparr>) s;
          sp = sp - 4;
          s = s\<lparr>mem := store32 (mem s) sp (sym_trapret s)\<rparr>;
          sp = sp - sizeof_context;
          s = upd_thread p t (\<lambda>x. x\<lparr>ctx := sp\<rparr>) s;
          s = s\<lparr>mem := memset (mem s) sp 0 sizeof_context\<rparr>
      in s\<lparr>mem := store32 (mem s) (sp + context_eip) (sym_forkret s)\<rparr>)"

definition allocthread ::
    "nat \<Rightarrow> nat \<Rightarrow> uint \<Rightarrow> 'a kernel_scheme \<Rightarrow> (nat option, 'a kernel_scheme) res" where
  "allocthread c p stack_size s =
     bnd (acquire_tt c p s) (\<lambda>_ s.
     case first_index (\<lambda>i. t_state (thr s p i) = UNUSED) NTHREAD of
       None \<Rightarrow> bnd (release_tt c p s) (\<lambda>_ s. Ok None s)
     | Some i \<Rightarrow>
         let s = upd_thread p i (\<lambda>x. x\<lparr>t_state := EMBRYO, tid := int i, t_myproc := Some p\<rparr>) s in
         bnd (release_tt c p s) (\<lambda>_ s.
         bnd (kalloc c s) (\<lambda>ks s.
         let s = upd_thread p i (\<lambda>x. x\<lparr>kstack := ks\<rparr>) s in
         if ks = 0 then Ok None (upd_thread p i (\<lambda>x. x\<lparr>t_state := UNUSED\<rparr>) s)
         else Ok (Some i) (thread_stack p i ks stack_size s))))"

text \<open>
  \<open>allocproc\<close> in its two parts: the lock is dropped after the search and before the slot is marked,
  so that another CPU can run in between.
\<close>

definition allocproc_scan :: "nat \<Rightarrow> 'a kernel_scheme \<Rightarrow> (nat option, 'a kernel_scheme) res" where
  "allocproc_scan c s =
     bnd (acquire c ptable_lock s) (\<lambda>_ s.
     let found = first_index (\<lambda>p. p_state (procs s p) = UNUSED) NPROC in
     bnd (release c ptable_lock s) (\<lambda>_ s. Ok found s))"

definition allocproc_init :: "nat \<Rightarrow> nat \<Rightarrow> 'a kernel_scheme \<Rightarrow> (nat option, 'a kernel_scheme) res" where
  "allocproc_init c p s =
     (let s = upd_proc p (\<lambda>P. P\<lparr>p_state := EMBRYO\<rparr>) s;
          s = upd_proc p (\<lambda>P. P\<lparr>mid := (\<lambda>i. if i < MAX_MUTEXES then False else mid P i)\<rparr>) s;
          s = upd_proc p (\<lambda>P. P\<lparr>ttlock := Some ptable_lock\<rparr>) s;
          s = (upd_proc p (\<lambda>P. P\<lparr>pid := nextpid s\<rparr>) s)\<lparr>nextpid := nextpid s + 1\<rparr>
      in bnd (allocthread c p KSTACKSIZE s) (\<lambda>t s.
         case t of None \<Rightarrow> Ok None (upd_proc p (\<lambda>P. P\<lparr>p_state := UNUSED\<rparr>) s)
         | Some _ \<Rightarrow> Ok (Some p) s))"

definition allocproc :: "nat \<Rightarrow> 'a kernel_scheme \<Rightarrow> (nat option, 'a kernel_scheme) res" where
  "allocproc c s =
     bnd (allocproc_scan c s) (\<lambda>found s.
     case found of None \<Rightarrow> Ok None s | Some p \<Rightarrow> allocproc_init c p s)"

subsection \<open>Giving up the CPU\<close>

definition sched :: "nat \<Rightarrow> 'a kernel_scheme \<Rightarrow> (unit, 'a kernel_scheme) res" where
  "sched c s =
     bnd (myproc c s) (\<lambda>p s.
     bnd (mythread c s) (\<lambda>t s.
     bnd (holding c ptable_lock s) (\<lambda>h s.
     if \<not> h then Panic ''sched ptable.lock''
     else bnd (mycpu c s) (\<lambda>k s.
     if ncli (cpus s k) \<noteq> 1 then Panic ''sched locks''
     else deref p (\<lambda>p s.
     if p_state (procs s p) = RUNNING then Panic ''sched running''
     else deref t (\<lambda>(q, t) s.
     if t_state (thr s q t) = RUNNING then Panic ''sched thread running''
     else if if_flag (cpus s c) then Panic ''sched interruptible''
     else bnd (mycpu c s) (\<lambda>k s.
     Switch (upd_thread q t (\<lambda>x. x\<lparr>stk_intena := intena (cpus s k)\<rparr>) s))) s) s))))"

definition sched_resume :: "nat \<Rightarrow> nat \<times> nat \<Rightarrow> 'a kernel_scheme \<Rightarrow> (unit, 'a kernel_scheme) res" where
  "sched_resume c qt s =
     bnd (mycpu c s) (\<lambda>k s.
     Ok () (upd_cpu k (\<lambda>x. x\<lparr>intena := stk_intena (thr s (fst qt) (snd qt))\<rparr>) s))"

definition yield :: "nat \<Rightarrow> 'a kernel_scheme \<Rightarrow> (unit, 'a kernel_scheme) res" where
  "yield c s =
     bnd (acquire c ptable_lock s) (\<lambda>_ s.
     bnd (myproc c s) (\<lambda>p s. deref p (\<lambda>p s.
     let s = upd_proc p (\<lambda>P. P\<lparr>p_state := RUNNABLE\<rparr>) s in
     bnd (mythread c s) (\<lambda>qt s. deref qt (\<lambda>(q, t) s.
     sched c (upd_thread q t (\<lambda>x. x\<lparr>t_state := RUNNABLE\<rparr>) s)) s)) s))"

definition yield_resume :: "nat \<Rightarrow> nat \<times> nat \<Rightarrow> 'a kernel_scheme \<Rightarrow> (unit, 'a kernel_scheme) res" where
  "yield_resume c qt s = bnd (sched_resume c qt s) (\<lambda>_. release c ptable_lock)"

subsection \<open>Sleeping and waking\<close>

text \<open>
  The body of \<open>sleep\<close> after its three tests is a list of statements run one after the other, so that
  what another CPU can do between two of them can be stated.
\<close>

primrec run_steps :: "('s \<Rightarrow> (unit, 's) res) list \<Rightarrow> 's \<Rightarrow> (unit, 's) res" where
  "run_steps [] s = Ok () s"
| "run_steps (f # fs) s = bnd (f s) (\<lambda>_. run_steps fs)"

definition sleep_state :: "nat \<Rightarrow> nat \<Rightarrow> nat \<Rightarrow> 'a kernel_scheme \<Rightarrow> 'a kernel_scheme" where
  "sleep_state p q t s =
     (let other = first_index (\<lambda>i. (p, i) \<noteq> (q, t) \<and>
             (t_state (thr s p i) = RUNNABLE \<or> t_state (thr s p i) = RUNNING \<or>
              t_state (thr s p i) = EMBRYO)) NTHREAD
      in if other = None
         then upd_thread q t (\<lambda>x. x\<lparr>t_state := SLEEPING\<rparr>) (upd_proc p (\<lambda>P. P\<lparr>p_state := SLEEPING\<rparr>) s)
         else upd_proc p (\<lambda>P. P\<lparr>p_state := RUNNABLE\<rparr>) (upd_thread q t (\<lambda>x. x\<lparr>t_state := SLEEPING\<rparr>) s))"

definition sleep_steps :: "nat \<Rightarrow> channel \<Rightarrow> lockid \<Rightarrow> nat \<Rightarrow> nat \<Rightarrow> nat \<Rightarrow>
    ('a kernel_scheme \<Rightarrow> (unit, 'a kernel_scheme) res) list" where
  "sleep_steps c ch lk p q t =
     (if lk \<noteq> ptable_lock then [acquire c ptable_lock, release c lk] else []) @
     [\<lambda>s. Ok () (upd_thread q t (\<lambda>x. x\<lparr>chan := Some ch\<rparr>) s), \<lambda>s. Ok () (sleep_state p q t s), sched c]"

definition sleep ::
    "nat \<Rightarrow> channel \<Rightarrow> lockid option \<Rightarrow> 'a kernel_scheme \<Rightarrow> (unit, 'a kernel_scheme) res" where
  "sleep c ch lk s =
     bnd (mythread c s) (\<lambda>qt s.
     bnd (myproc c s) (\<lambda>p s.
     case p of None \<Rightarrow> Panic ''sleeping proc'' | Some p \<Rightarrow>
     (case qt of None \<Rightarrow> Panic ''sleeping thread'' | Some (q, t) \<Rightarrow>
     (case lk of None \<Rightarrow> Panic ''sleep without lk'' | Some lk \<Rightarrow>
       run_steps (sleep_steps c ch lk p q t) s))))"

definition sleep_resume ::
    "nat \<Rightarrow> nat \<times> nat \<Rightarrow> lockid \<Rightarrow> 'a kernel_scheme \<Rightarrow> (unit, 'a kernel_scheme) res" where
  "sleep_resume c qt lk s =
     bnd (sched_resume c qt s) (\<lambda>_ s.
     let s = upd_thread (fst qt) (snd qt) (\<lambda>x. x\<lparr>chan := None\<rparr>) s in
     if lk \<noteq> ptable_lock then bnd (release c ptable_lock s) (\<lambda>_. acquire c lk) else Ok () s)"

definition wakeup_thread :: "channel \<Rightarrow> nat \<Rightarrow> proc \<Rightarrow> proc" where
  "wakeup_thread ch t P =
     (if t_state (threads P t) = SLEEPING \<and> chan (threads P t) = Some ch
      then P\<lparr>p_state := RUNNABLE, threads := (threads P)(t := (threads P t)\<lparr>t_state := RUNNABLE\<rparr>)\<rparr>
      else P)"

definition wakeup_proc :: "channel \<Rightarrow> proc \<Rightarrow> proc" where
  "wakeup_proc ch P =
     (if p_state P = SLEEPING \<or> p_state P = RUNNABLE \<or> p_state P = RUNNING
      then fold (wakeup_thread ch) [0..<NTHREAD] P else P)"

definition wakeup1 :: "channel \<Rightarrow> 'a kernel_scheme \<Rightarrow> 'a kernel_scheme" where
  "wakeup1 ch s = fold (\<lambda>p. upd_proc p (wakeup_proc ch)) [0..<NPROC] s"

definition wakeup :: "nat \<Rightarrow> channel \<Rightarrow> 'a kernel_scheme \<Rightarrow> (unit, 'a kernel_scheme) res" where
  "wakeup c ch s =
     bnd (acquire c ptable_lock s) (\<lambda>_ s. release c ptable_lock (wakeup1 ch s))"

definition kill_proc :: "proc \<Rightarrow> proc" where
  "kill_proc P =
     (let P = P\<lparr>p_killed := True\<rparr> in
      if p_state P = SLEEPING then
        let P = P\<lparr>p_state := RUNNABLE\<rparr> in
        case first_index (\<lambda>t. t_state (threads P t) = SLEEPING) NTHREAD of
          Some t \<Rightarrow> P\<lparr>threads := (threads P)(t := (threads P t)\<lparr>t_state := RUNNABLE\<rparr>)\<rparr>
        | None \<Rightarrow> P
      else P)"

definition kill :: "nat \<Rightarrow> int \<Rightarrow> 'a kernel_scheme \<Rightarrow> (int, 'a kernel_scheme) res" where
  "kill c n s =
     bnd (acquire c ptable_lock s) (\<lambda>_ s.
     case first_index (\<lambda>p. pid (procs s p) = n) NPROC of
       Some p \<Rightarrow> bnd (release c ptable_lock (upd_proc p kill_proc s)) (\<lambda>_ s. Ok 0 s)
     | None \<Rightarrow> bnd (release c ptable_lock s) (\<lambda>_ s. Ok (- 1) s))"

subsection \<open>Fields and frames\<close>

lemma lock_st_kernel [simp]:
  "procs (lock_st c lk s) = procs s" "mutexes (lock_st c lk s) = mutexes s"
  "initproc (lock_st c lk s) = initproc s" "nextpid (lock_st c lk s) = nextpid s"
  "sym_trapret (lock_st c lk s) = sym_trapret s" "sym_forkret (lock_st c lk s) = sym_forkret s"
  and unlock_st_kernel [simp]:
  "procs (unlock_st c lk s) = procs s" "mutexes (unlock_st c lk s) = mutexes s"
  "initproc (unlock_st c lk s) = initproc s" "nextpid (unlock_st c lk s) = nextpid s"
  "sym_trapret (unlock_st c lk s) = sym_trapret s" "sym_forkret (unlock_st c lk s) = sym_forkret s"
  by (simp_all add: lock_st_def unlock_st_def upd_lock_def upd_cpu_def)

lemma sect_kernel [simp]:
  "procs (sect c lk s) = procs s" "mutexes (sect c lk s) = mutexes s"
  "initproc (sect c lk s) = initproc s" "nextpid (sect c lk s) = nextpid s"
  "sym_trapret (sect c lk s) = sym_trapret s" "sym_forkret (sect c lk s) = sym_forkret s"
  "kernel.more (sect c lk s) = kernel.more s"
  by (simp_all add: sect_def unlock_st_def lock_st_def upd_lock_def upd_cpu_def del: unlock_lock_sect)

lemma cli_pass_kernel [simp]:
  "procs (cli_pass c s) = procs s" "mutexes (cli_pass c s) = mutexes s"
  "initproc (cli_pass c s) = initproc s" "nextpid (cli_pass c s) = nextpid s"
  "sym_trapret (cli_pass c s) = sym_trapret s" "sym_forkret (cli_pass c s) = sym_forkret s"
  "kernel.more (cli_pass c s) = kernel.more s"
  by (simp_all add: cli_pass_def upd_cpu_def)

lemma kmem_pass_kernel [simp]:
  "procs (kmem_pass c s) = procs s" "mutexes (kmem_pass c s) = mutexes s"
  "initproc (kmem_pass c s) = initproc s" "nextpid (kmem_pass c s) = nextpid s"
  "sym_trapret (kmem_pass c s) = sym_trapret s" "sym_forkret (kmem_pass c s) = sym_forkret s"
  "kernel.more (kmem_pass c s) = kernel.more s"
  by (simp_all add: kmem_pass_def)

lemma thr_frame [simp]:
  "thr (lock_st c lk s) = thr s" "thr (unlock_st c lk s) = thr s" "thr (sect c lk s) = thr s"
  "thr (cli_pass c s) = thr s" "thr (kmem_pass c s) = thr s"
  "thr (s\<lparr>mem := m\<rparr>) = thr s" "thr (s\<lparr>freelist := a\<rparr>) = thr s"
  "thr (s\<lparr>mutexes := ms\<rparr>) = thr s" "thr (s\<lparr>nextpid := n\<rparr>) = thr s"
  by (simp_all add: thr_def fun_eq_iff)

lemma upd_proc_machine [simp]:
  "cpus (upd_proc p f s) = cpus s" "locks (upd_proc p f s) = locks s" "ncpu (upd_proc p f s) = ncpu s"
  "mem (upd_proc p f s) = mem s" "use_lock (upd_proc p f s) = use_lock s"
  "freelist (upd_proc p f s) = freelist s" "kern_end (upd_proc p f s) = kern_end s"
  "mutexes (upd_proc p f s) = mutexes s" "initproc (upd_proc p f s) = initproc s"
  "nextpid (upd_proc p f s) = nextpid s" "kernel.more (upd_proc p f s) = kernel.more s"
  "sym_trapret (upd_proc p f s) = sym_trapret s" "sym_forkret (upd_proc p f s) = sym_forkret s"
  "procs (upd_proc p f s) = (procs s)(p := f (procs s p))"
  by (simp_all add: upd_proc_def)

lemma upd_thread_machine [simp]:
  "cpus (upd_thread p t g s) = cpus s" "locks (upd_thread p t g s) = locks s"
  "ncpu (upd_thread p t g s) = ncpu s" "mem (upd_thread p t g s) = mem s"
  "use_lock (upd_thread p t g s) = use_lock s" "freelist (upd_thread p t g s) = freelist s"
  "kern_end (upd_thread p t g s) = kern_end s" "mutexes (upd_thread p t g s) = mutexes s"
  "initproc (upd_thread p t g s) = initproc s" "nextpid (upd_thread p t g s) = nextpid s"
  "kernel.more (upd_thread p t g s) = kernel.more s"
  "sym_trapret (upd_thread p t g s) = sym_trapret s" "sym_forkret (upd_thread p t g s) = sym_forkret s"
  by (simp_all add: upd_thread_def)

lemma procs_upd_thread: "procs (upd_thread p t g s) =
    (procs s)(p := (procs s p)\<lparr>threads := (threads (procs s p))(t := g (threads (procs s p) t))\<rparr>)"
  by (simp add: upd_thread_def)

lemma proc_upd_thread [simp]:
  "p_state (procs (upd_thread p t g s) q) = p_state (procs s q)"
  "ttlock (procs (upd_thread p t g s) q) = ttlock (procs s q)"
  "mid (procs (upd_thread p t g s) q) = mid (procs s q)"
  "pid (procs (upd_thread p t g s) q) = pid (procs s q)"
  "p_parent (procs (upd_thread p t g s) q) = p_parent (procs s q)"
  "p_killed (procs (upd_thread p t g s) q) = p_killed (procs s q)"
  "ofile (procs (upd_thread p t g s) q) = ofile (procs s q)"
  "cwd (procs (upd_thread p t g s) q) = cwd (procs s q)"
  "sz (procs (upd_thread p t g s) q) = sz (procs s q)"
  "pgdir (procs (upd_thread p t g s) q) = pgdir (procs s q)"
  "p_name (procs (upd_thread p t g s) q) = p_name (procs s q)"
  by (simp_all add: procs_upd_thread)

lemma thr_upd_thread: "thr (upd_thread p t g s) q u = (if q = p \<and> u = t then g (thr s p t) else thr s q u)"
  by (simp add: thr_def procs_upd_thread)

lemma thr_upd_thread_same [simp]: "thr (upd_thread p t g s) p t = g (thr s p t)"
  and thr_upd_thread_other [simp]: "q \<noteq> p \<or> u \<noteq> t \<Longrightarrow> thr (upd_thread p t g s) q u = thr s q u"
  by (auto simp: thr_upd_thread)

lemma upd_upd_thread [simp]:
  "upd_thread p t f (upd_thread p t g s) = upd_thread p t (\<lambda>x. f (g x)) s"
  by (simp add: upd_thread_def upd_proc_def)

lemma locks_upd_kernel [simp]:
  "cpu_ok c (upd_proc p f s) = cpu_ok c s" "lock_free lk (upd_proc p f s) = lock_free lk s"
  "lock_held d lk (upd_proc p f s) = lock_held d lk s"
  "cpu_ok c (upd_thread p t g s) = cpu_ok c s" "lock_free lk (upd_thread p t g s) = lock_free lk s"
  "lock_held d lk (upd_thread p t g s) = lock_held d lk s"
  "cpu_ok c (s\<lparr>nextpid := n\<rparr>) = cpu_ok c s" "lock_free lk (s\<lparr>nextpid := n\<rparr>) = lock_free lk s"
  "lock_held d lk (s\<lparr>nextpid := n\<rparr>) = lock_held d lk s"
  by (simp_all add: cpu_ok_def lock_free_def lock_held_def)

text \<open>Changes of the tables move out of critical sections.\<close>

lemma upd_proc_out [simp]:
  "lock_st c lk (upd_proc p f s) = upd_proc p f (lock_st c lk s)"
  "unlock_st c lk (upd_proc p f s) = upd_proc p f (unlock_st c lk s)"
  "sect c lk (upd_proc p f s) = upd_proc p f (sect c lk s)"
  "cli_pass c (upd_proc p f s) = upd_proc p f (cli_pass c s)"
  "kmem_pass c (upd_proc p f s) = upd_proc p f (kmem_pass c s)"
  by (simp_all add: upd_proc_def lock_st_def unlock_st_def sect_def cli_pass_def kmem_pass_def
      upd_lock_def upd_cpu_def del: unlock_lock_sect)

lemma upd_thread_out [simp]:
  "lock_st c lk (upd_thread p t g s) = upd_thread p t g (lock_st c lk s)"
  "unlock_st c lk (upd_thread p t g s) = upd_thread p t g (unlock_st c lk s)"
  "sect c lk (upd_thread p t g s) = upd_thread p t g (sect c lk s)"
  "cli_pass c (upd_thread p t g s) = upd_thread p t g (cli_pass c s)"
  "kmem_pass c (upd_thread p t g s) = upd_thread p t g (kmem_pass c s)"
  by (simp_all add: upd_thread_def)

subsection \<open>The current thread\<close>

lemma mythread_eq: "cpu_ok c s \<Longrightarrow> mythread c s = Ok (cpu_thread (cpus s c)) (cli_pass c s)"
  and myproc_eq: "cpu_ok c s \<Longrightarrow> myproc c s = Ok (cpu_proc (cpus s c)) (cli_pass c s)"
proof -
  assume ok: "cpu_ok c s"
  let ?t = "upd_cpu c cli_enter s"
  have t: "cpu_ok c ?t" "0 < ncli (cpus ?t c)" "\<not> if_flag (cpus ?t c)"
    using ok by (auto simp: upd_cpu_def cli_enter_def cpu_ok_def)
  have cur: "cpu_thread (cpus ?t c) = cpu_thread (cpus s c)" "cpu_proc (cpus ?t c) = cpu_proc (cpus s c)"
    by (simp_all add: upd_cpu_def cli_enter_def)
  have pop: "popcli c ?t = Ok () (cli_pass c s)"
    using popcli_ok[OF t(1,2)] by (simp add: upd_cpu_upd_cpu cli_pass_def)
  show "mythread c s = Ok (cpu_thread (cpus s c)) (cli_pass c s)"
    "myproc c s = Ok (cpu_proc (cpus s c)) (cli_pass c s)"
    by (simp_all add: mythread_def myproc_def pushcli_ok[OF ok] mycpu_ok[OF t(1,3)] pop cur Let_def)
qed

text \<open>The state in which a thread makes a system call: no lock is held by its CPU.\<close>

definition running :: "nat \<Rightarrow> nat \<Rightarrow> nat \<Rightarrow> 'a kernel_scheme \<Rightarrow> bool" where
  "running c p t s \<longleftrightarrow> cpu_ok c s \<and> ncli (cpus s c) = 0 \<and> cpu_proc (cpus s c) = Some p \<and>
     cpu_thread (cpus s c) = Some (p, t) \<and> t < NTHREAD \<and> p < NPROC \<and>
     ttlock (procs s p) = Some ptable_lock"

definition tables_free :: "'a kernel_scheme \<Rightarrow> bool" where
  "tables_free s \<longleftrightarrow> lock_free ptable_lock s \<and> lock_free mtable_lock s \<and> lock_free kmem_lock s"

subsection \<open>Leaving the CPU\<close>

lemma sched_eq:
  assumes "cpu_ok c s" and "ncli (cpus s c) = 1" and "lock_held c ptable_lock s"
    and "cpu_proc (cpus s c) = Some p" and "cpu_thread (cpus s c) = Some (q, t)"
    and "p_state (procs s p) \<noteq> RUNNING" and "t_state (thr s q t) \<noteq> RUNNING"
  shows "sched c s = Switch (upd_thread q t (\<lambda>x. x\<lparr>stk_intena := intena (cpus s c)\<rparr>) s)"
proof -
  have "\<not> if_flag (cpus s c)" using assms(1,2) by (auto simp: cpu_ok_def)
  then show ?thesis
    using assms by (simp add: sched_def myproc_eq mythread_eq cli_pass_id holding_nested mycpu_ok deref_def)
qed

text \<open>What \<open>sleep\<close> changes in the tables before it calls \<open>sched\<close>.\<close>

definition sleep_upd :: "nat \<Rightarrow> nat \<Rightarrow> channel \<Rightarrow> 'a kernel_scheme \<Rightarrow> 'a kernel_scheme" where
  "sleep_upd p t ch s =
     upd_proc p (\<lambda>P. P\<lparr>p_state := (if \<exists>i<NTHREAD. i \<noteq> t \<and>
         t_state (threads P i) \<in> {RUNNABLE, RUNNING, EMBRYO} then RUNNABLE else SLEEPING)\<rparr>)
       (upd_thread p t (\<lambda>x. x\<lparr>chan := Some ch, t_state := SLEEPING\<rparr>) s)"

lemma sleep_upd_simps [simp]:
  "cpus (sleep_upd p t ch s) = cpus s" "locks (sleep_upd p t ch s) = locks s"
  "ncpu (sleep_upd p t ch s) = ncpu s" "mem (sleep_upd p t ch s) = mem s"
  "mutexes (sleep_upd p t ch s) = mutexes s" "initproc (sleep_upd p t ch s) = initproc s"
  "cpu_ok c (sleep_upd p t ch s) = cpu_ok c s" "lock_held c lk (sleep_upd p t ch s) = lock_held c lk s"
  "lock_free lk (sleep_upd p t ch s) = lock_free lk s"
  by (simp_all add: sleep_upd_def)

lemma thr_upd_proc: "(\<And>P. threads (f P) = threads P) \<Longrightarrow> thr (upd_proc p f s) = thr s"
  by (auto simp: thr_def fun_eq_iff)

lemma thr_sleep_upd: "thr (sleep_upd p t ch s) q u =
    (if q = p \<and> u = t then (thr s p t)\<lparr>chan := Some ch, t_state := SLEEPING\<rparr> else thr s q u)"
  by (simp add: sleep_upd_def thr_upd_proc thr_upd_thread)

lemma p_state_sleep_upd: "p_state (procs (sleep_upd p t ch s) q) =
   (if q = p then (if \<exists>i<NTHREAD. i \<noteq> t \<and> t_state (thr s p i) \<in> {RUNNABLE, RUNNING, EMBRYO}
     then RUNNABLE else SLEEPING) else p_state (procs s q))"
  by (auto simp: sleep_upd_def procs_upd_thread thr_def)

lemma sleep_eq:
  assumes ok: "cpu_ok c s" and n: "ncli (cpus s c) = 1" and lk: "lock_held c lk s"
    and pt: "lk = ptable_lock \<or> lock_free ptable_lock s"
    and cur: "cpu_proc (cpus s c) = Some p" "cpu_thread (cpus s c) = Some (p, t)"
  shows "sleep c ch (Some lk) s =
    (let s1 = (if lk = ptable_lock then s else unlock_st c lk (lock_st c ptable_lock s)) in
     Switch (upd_thread p t (\<lambda>x. x\<lparr>stk_intena := intena (cpus s1 c)\<rparr>) (sleep_upd p t ch s1)))"
proof -
  define s1 where "s1 = (if lk = ptable_lock then s else unlock_st c lk (lock_st c ptable_lock s))"
  have s1: "cpu_ok c s1" "ncli (cpus s1 c) = 1" "lock_held c ptable_lock s1"
    "cpu_proc (cpus s1 c) = Some p" "cpu_thread (cpus s1 c) = Some (p, t)"
    using assms by (auto simp: s1_def lock_st_ncli unlock_st_ncli)
  let ?s2 = "upd_thread p t (\<lambda>x. x\<lparr>chan := Some ch\<rparr>) s1"
  have s3: "sleep_state p p t ?s2 = sleep_upd p t ch s1"
    by (auto simp: sleep_state_def sleep_upd_def first_index_None_iff upd_thread_def upd_proc_def thr_def fun_eq_iff)
  have "sched c (sleep_upd p t ch s1) = Switch (upd_thread p t (\<lambda>x. x\<lparr>stk_intena :=
      intena (cpus (sleep_upd p t ch s1) c)\<rparr>) (sleep_upd p t ch s1))"
    by (rule sched_eq) (use s1 in \<open>auto simp: p_state_sleep_upd thr_sleep_upd\<close>)
  then have tail: "run_steps [\<lambda>s. Ok () (upd_thread p t (\<lambda>x. x\<lparr>chan := Some ch\<rparr>) s),
      \<lambda>s. Ok () (sleep_state p p t s), sched c] s1 =
      Switch (upd_thread p t (\<lambda>x. x\<lparr>stk_intena := intena (cpus s1 c)\<rparr>) (sleep_upd p t ch s1))"
    using s3 by simp
  have "run_steps (sleep_steps c ch lk p p t) s =
      Switch (upd_thread p t (\<lambda>x. x\<lparr>stk_intena := intena (cpus s1 c)\<rparr>) (sleep_upd p t ch s1))"
    using assms tail by (cases "lk = ptable_lock") (simp_all add: sleep_steps_def s1_def acquire_free release_held)
  then show ?thesis
    using ok n cur unfolding s1_def[symmetric]
    by (simp add: sleep_def mythread_eq myproc_eq cli_pass_id Let_def)
qed

lemma sched_resume_eq:
  "cpu_ok c s \<Longrightarrow> 0 < ncli (cpus s c) \<Longrightarrow> sched_resume c (p, t) s =
     Ok () (upd_cpu c (\<lambda>x. x\<lparr>intena := stk_intena (thr s p t)\<rparr>) s)"
  by (auto simp: sched_resume_def mycpu_ok cpu_ok_def)


lemma sleep_resume_eq:
  assumes "cpu_ok c s" and "ncli (cpus s c) = 1" and "lock_held c ptable_lock s" and "lk \<noteq> ptable_lock"
    and "lock_free lk s"
  shows "sleep_resume c (p, t) lk s = Ok () (upd_thread p t (\<lambda>x. x\<lparr>chan := None\<rparr>)
     (lock_st c lk (unlock_st c ptable_lock (upd_cpu c (\<lambda>x. x\<lparr>intena := stk_intena (thr s p t)\<rparr>) s))))"
proof -
  let ?u = "upd_cpu c (\<lambda>x. x\<lparr>intena := stk_intena (thr s p t)\<rparr>) s"
  have u: "cpu_ok c ?u" "0 < ncli (cpus ?u c)" "lock_held c ptable_lock ?u" "lock_free lk ?u"
    using assms by (auto simp: cpu_ok_def upd_cpu_def lock_held_def lock_free_def)
  then show ?thesis
    using assms by (simp add: sleep_resume_def sched_resume_eq release_held acquire_free Let_def)
qed

subsection \<open>Waking\<close>

definition sleeps_on :: "channel \<Rightarrow> thread \<Rightarrow> bool" where
  "sleeps_on ch x \<longleftrightarrow> t_state x = SLEEPING \<and> chan x = Some ch"

lemma fold_wakeup_thread: "fold (wakeup_thread ch) [0..<n] P =
    P\<lparr>p_state := (if \<exists>t<n. sleeps_on ch (threads P t) then RUNNABLE else p_state P),
      threads := (\<lambda>t. if t < n \<and> sleeps_on ch (threads P t)
        then (threads P t)\<lparr>t_state := RUNNABLE\<rparr> else threads P t)\<rparr>"
proof (induction n)
  case (Suc n)
  then show ?case
    by (cases P) (auto simp: wakeup_thread_def sleeps_on_def fun_eq_iff less_Suc_eq)
qed simp

lemma fold_upd_proc: "fold (\<lambda>p. upd_proc p f) [0..<n] s =
    s\<lparr>procs := (\<lambda>p. if p < n then f (procs s p) else procs s p)\<rparr>"
  by (induction n) (auto simp: upd_proc_def fun_eq_iff less_Suc_eq)

lemma wakeup1_eq: "wakeup1 ch s =
    s\<lparr>procs := (\<lambda>p. if p < NPROC then wakeup_proc ch (procs s p) else procs s p)\<rparr>"
  by (simp add: wakeup1_def fold_upd_proc)

lemma wakeup1_machine [simp]:
  "cpus (wakeup1 ch s) = cpus s" "locks (wakeup1 ch s) = locks s" "ncpu (wakeup1 ch s) = ncpu s"
  "mem (wakeup1 ch s) = mem s" "mutexes (wakeup1 ch s) = mutexes s" "initproc (wakeup1 ch s) = initproc s"
  "cpu_ok c (wakeup1 ch s) = cpu_ok c s" "lock_held c lk (wakeup1 ch s) = lock_held c lk s"
  "lock_free lk (wakeup1 ch s) = lock_free lk s"
  by (simp_all add: wakeup1_eq cpu_ok_def lock_held_def lock_free_def)

lemma wakeup1_out [simp]:
  "lock_st c lk (wakeup1 ch s) = wakeup1 ch (lock_st c lk s)"
  "unlock_st c lk (wakeup1 ch s) = wakeup1 ch (unlock_st c lk s)"
proof -
  have "lock_st c lk (fold (\<lambda>p. upd_proc p f) xs s) = fold (\<lambda>p. upd_proc p f) xs (lock_st c lk s)"
    "unlock_st c lk (fold (\<lambda>p. upd_proc p f) xs s) = fold (\<lambda>p. upd_proc p f) xs (unlock_st c lk s)"
    for f xs by (induction xs arbitrary: s) simp_all
  then show "lock_st c lk (wakeup1 ch s) = wakeup1 ch (lock_st c lk s)"
    "unlock_st c lk (wakeup1 ch s) = wakeup1 ch (unlock_st c lk s)"
    by (simp_all add: wakeup1_def)
qed

definition live :: "proc \<Rightarrow> bool" where
  "live P \<longleftrightarrow> p_state P \<in> {SLEEPING, RUNNABLE, RUNNING}"

lemma thr_wakeup1: "thr (wakeup1 ch s) p t =
   (if p < NPROC \<and> t < NTHREAD \<and> live (procs s p) \<and> sleeps_on ch (thr s p t)
    then (thr s p t)\<lparr>t_state := RUNNABLE\<rparr> else thr s p t)"
  by (simp add: wakeup1_eq thr_def wakeup_proc_def fold_wakeup_thread live_def)

lemma p_state_wakeup1: "p_state (procs (wakeup1 ch s) p) =
   (if p < NPROC \<and> live (procs s p) \<and> (\<exists>t<NTHREAD. sleeps_on ch (thr s p t))
    then RUNNABLE else p_state (procs s p))"
  by (auto simp: wakeup1_eq thr_def wakeup_proc_def fold_wakeup_thread live_def)

lemma wakeup_eq:
  "cpu_ok c s \<Longrightarrow> lock_free ptable_lock s \<Longrightarrow> wakeup c ch s = Ok () (wakeup1 ch (sect c ptable_lock s))"
  by (simp add: wakeup_def acquire_free release_held)

lemma kill_eq:
  "cpu_ok c s \<Longrightarrow> lock_free ptable_lock s \<Longrightarrow> kill c n s =
     (case first_index (\<lambda>p. pid (procs s p) = n) NPROC of
        Some p \<Rightarrow> Ok 0 (upd_proc p kill_proc (sect c ptable_lock s))
      | None \<Rightarrow> Ok (- 1) (sect c ptable_lock s))"
  by (auto simp: kill_def acquire_free release_held split: option.splits)

subsection \<open>Allocation\<close>

lemma acquire_tt_eq [simp]:
  "ttlock (procs s p) = Some ptable_lock \<Longrightarrow> acquire_tt c p s = acquire c ptable_lock s"
  "ttlock (procs s p) = Some ptable_lock \<Longrightarrow> release_tt c p s = release c ptable_lock s"
  by (simp_all add: acquire_tt_def release_tt_def deref_def)

lemma thread_stack_simps [simp]:
  "cpus (thread_stack p i ks n s) = cpus s" "locks (thread_stack p i ks n s) = locks s"
  "ncpu (thread_stack p i ks n s) = ncpu s" "mutexes (thread_stack p i ks n s) = mutexes s"
  "freelist (thread_stack p i ks n s) = freelist s" "use_lock (thread_stack p i ks n s) = use_lock s"
  "kern_end (thread_stack p i ks n s) = kern_end s" "initproc (thread_stack p i ks n s) = initproc s"
  "nextpid (thread_stack p i ks n s) = nextpid s"
  "sym_trapret (thread_stack p i ks n s) = sym_trapret s"
  "sym_forkret (thread_stack p i ks n s) = sym_forkret s"
  "cpu_ok c (thread_stack p i ks n s) = cpu_ok c s"
  "lock_free lk (thread_stack p i ks n s) = lock_free lk s"
  "lock_held c lk (thread_stack p i ks n s) = lock_held c lk s"
  by (simp_all add: thread_stack_def Let_def cpu_ok_def lock_free_def lock_held_def)

lemma procs_thread_stack: "procs (thread_stack p i ks n s) =
    procs (upd_thread p i (\<lambda>x. x\<lparr>tf := ks + n - 76, ctx := ks + n - 100\<rparr>) s)"
  by (simp add: thread_stack_def Let_def procs_upd_thread fun_eq_iff)

lemma thr_thread_stack: "thr (thread_stack p i ks n s) q t =
    (if q = p \<and> t = i then (thr s p i)\<lparr>tf := ks + n - 76, ctx := ks + n - 100\<rparr> else thr s q t)"
  by (simp add: thread_stack_def Let_def thr_upd_thread)

lemma ttlock_thread_stack [simp]:
  "ttlock (procs (thread_stack p i ks n s) q) = ttlock (procs s q)"
  "p_state (procs (thread_stack p i ks n s) q) = p_state (procs s q)"
  "pid (procs (thread_stack p i ks n s) q) = pid (procs s q)"
  "mid (procs (thread_stack p i ks n s) q) = mid (procs s q)"
  "p_killed (procs (thread_stack p i ks n s) q) = p_killed (procs s q)"
  by (simp_all only: procs_thread_stack proc_upd_thread)

lemma mem_thread_stack:
  "mem (thread_stack p i ks n s) = store32 (memset (store32 (mem s) (ks + n - 80) (sym_trapret s))
     (ks + n - 100) 0 20) (ks + n - 84) (sym_forkret s)"
  by (simp add: thread_stack_def Let_def)

lemma thread_stack_words:
  "load32 (mem (thread_stack p i ks n s)) (ks + n - 84) = sym_forkret s"
  "load32 (mem (thread_stack p i ks n s)) (ks + n - 80) = sym_trapret s"
proof -
  let ?b = "ks + n - 84"
  show "load32 (mem (thread_stack p i ks n s)) ?b = sym_forkret s" by (simp add: mem_thread_stack)
  have sep: "ks + n - 80 - ?b = 4" "?b - (ks + n - 80) = - 4" by simp_all
  have "load32 (mem (thread_stack p i ks n s)) (ks + n - 80) =
      load32 (memset (store32 (mem s) (ks + n - 80) (sym_trapret s)) (ks + n - 100) 0 20) (ks + n - 80)"
    unfolding mem_thread_stack by (rule load32_store32_other) (unfold sep, simp_all)
  also have "\<dots> = load32 (store32 (mem s) (ks + n - 80) (sym_trapret s)) (ks + n - 80)"
  proof (rule load32_cong)
    fix j :: uint
    assume "j < 4"
    then have "unat (20 + j) = 20 + unat j" by (simp add: word_less_nat_alt unat_plus_if_size word_size)
    moreover have "ks + n - 80 + j - (ks + n - 100) = 20 + j" by simp
    ultimately have "\<not> ks + n - 80 + j - (ks + n - 100) < 20" by (simp only: word_less_nat_alt) simp
    then show "memset (store32 (mem s) (ks + n - 80) (sym_trapret s)) (ks + n - 100) 0 20 (ks + n - 80 + j) =
      store32 (mem s) (ks + n - 80) (sym_trapret s) (ks + n - 80 + j)"
      by (simp only: memset_apply if_False)
  qed
  finally show "load32 (mem (thread_stack p i ks n s)) (ks + n - 80) = sym_trapret s" by simp
qed

lemma upd_thread_freelist [simp]:
  "(upd_thread p t g s)\<lparr>freelist := a\<rparr> = upd_thread p t g (s\<lparr>freelist := a\<rparr>)"
  "(upd_proc p f s)\<lparr>freelist := a\<rparr> = upd_proc p f (s\<lparr>freelist := a\<rparr>)"
  by (simp_all add: upd_thread_def upd_proc_def)

lemma allocthread_eq:
  assumes "cpu_ok c s" and "lock_free ptable_lock s" and "ttlock (procs s p) = Some ptable_lock"
    and "kmem_ready c s"
  shows "allocthread c p n s =
    (case first_index (\<lambda>i. t_state (thr s p i) = UNUSED) NTHREAD of
       None \<Rightarrow> Ok None (sect c ptable_lock s)
     | Some i \<Rightarrow>
         if freelist s = 0 then Ok None (upd_thread p i (\<lambda>x. x\<lparr>tid := int i,
             t_myproc := Some p, kstack := 0, t_state := UNUSED\<rparr>) (kmem_pass c (sect c ptable_lock s)))
         else Ok (Some i) (thread_stack p i (freelist s) n (upd_thread p i (\<lambda>x. x\<lparr>t_state := EMBRYO,
             tid := int i, t_myproc := Some p, kstack := freelist s\<rparr>)
               ((kmem_pass c (sect c ptable_lock s))\<lparr>freelist := load32 (mem s) (freelist s)\<rparr>))))"
proof (cases "first_index (\<lambda>i. t_state (thr s p i) = UNUSED) NTHREAD")
  case None
  then show ?thesis using assms by (simp add: allocthread_def acquire_free release_held)
next
  case (Some i)
  let ?s = "upd_thread p i (\<lambda>x. x\<lparr>t_state := EMBRYO, tid := int i, t_myproc := Some p\<rparr>) (sect c ptable_lock s)"
  have "kmem_ready c ?s" using assms by (auto simp: kmem_ready_def)
  from kalloc_eq[OF this] show ?thesis
    using assms Some by (simp add: allocthread_def acquire_free release_held Let_def freelist_same)
qed

subsection \<open>Properties\<close>

text \<open>A running kernel for the examples: CPU 0 runs thread 0 of process 0; two pages are free.\<close>

definition idle_thread :: thread where
  "idle_thread = \<lparr>chan = None, tid = - 1, t_killed = False, t_state = UNUSED, ctx = 0, kstack = 0, tf = 0,
     t_parent = None, t_myproc = None, blocked = False, stk_intena = False\<rparr>"

definition unused_proc :: proc where
  "unused_proc = \<lparr>sz = 0, pgdir = 0, p_state = UNUSED, pid = 0, p_parent = None, p_killed = False,
     ofile = (\<lambda>_. None), cwd = None, threads = (\<lambda>_. idle_thread), ttlock = None,
     mid = (\<lambda>_. False), p_name = []\<rparr>"

definition first_proc :: proc where
  "first_proc = unused_proc\<lparr>p_state := RUNNING, pid := 1, ttlock := Some ptable_lock,
     threads := (\<lambda>_. idle_thread)(0 := idle_thread\<lparr>t_state := RUNNING, tid := 0, t_myproc := Some 0\<rparr>)\<rparr>"

definition demo_kernel :: kernel where
  "demo_kernel = kmem.extend (boot_kmem\<lparr>use_lock := True, freelist := 0x80200000,
       mem := store32 (store32 (\<lambda>_. 0) 0x80200000 0x80201000) 0x80201000 0,
       cpus := boot_cpu(0 := (boot_cpu 0)\<lparr>cpu_proc := Some 0, cpu_thread := Some (0, 0)\<rparr>)\<rparr>)
     \<lparr>procs = (\<lambda>_. unused_proc)(0 := first_proc),
      mutexes = (\<lambda>_. \<lparr>m_locked = False, m_allocated = False, m_name = None, m_tid = 0\<rparr>),
      initproc = Some 0, nextpid = 2, sym_trapret = 0x80105000, sym_forkret = 0x80104000\<rparr>"

lemma demo_kernel_simps [simp]:
  "procs demo_kernel = (\<lambda>_. unused_proc)(0 := first_proc)" "use_lock demo_kernel"
  "freelist demo_kernel = 0x80200000" "kern_end demo_kernel = 0x80110000" "nextpid demo_kernel = 2"
  "mem demo_kernel = store32 (store32 (\<lambda>_. 0) 0x80200000 0x80201000) 0x80201000 0"
  "locks demo_kernel lk = boot_lock" "lock_free lk demo_kernel"
  "cpu_proc (cpus demo_kernel 0) = Some 0" "cpu_thread (cpus demo_kernel 0) = Some (0, 0)"
  "ncli (cpus demo_kernel c) = 0" "ncpu demo_kernel = 2"
  by (simp_all add: demo_kernel_def kmem.defs boot_kmem_def machine.defs boot_machine_def boot_cpu_def
      boot_lock_def lock_free_def)

lemma cpu_ok_demo_kernel: "c < 2 \<Longrightarrow> cpu_ok c demo_kernel"
  by (auto simp: demo_kernel_def kmem.defs boot_kmem_def machine.defs boot_machine_def boot_cpu_def
      cpu_ok_def less_Suc_eq numeral_2_eq_2)

subsubsection \<open>A sleeper and a waker\<close>

text \<open>
  The statements of \<open>sleep\<close> on CPU \<open>c\<close>, followed by the release of \<open>ptable.lock\<close> in the scheduler,
  interleave with a waker on CPU \<open>d\<close>, which takes \<open>lk\<close>, changes what the sleeper waits for and calls
  \<open>wakeup\<close>. The number says how many statements of the sleeper have run.
\<close>

datatype waker = Wait_lk | Hold_lk | Woke

inductive sleep_wake :: "nat \<Rightarrow> nat \<Rightarrow> channel \<Rightarrow> lockid \<Rightarrow> nat \<Rightarrow> nat \<Rightarrow>
    nat \<times> waker \<times> 'a kernel_scheme \<Rightarrow> nat \<times> waker \<times> 'a kernel_scheme \<Rightarrow> bool"
  for c d ch lk p t where
  statement: "k < length (sleep_steps c ch lk p p t :: ('a kernel_scheme \<Rightarrow> (unit, 'a kernel_scheme) res) list) \<Longrightarrow>
    (sleep_steps c ch lk p p t ! k) u = Ok () v \<or> (sleep_steps c ch lk p p t ! k) u = Switch v \<Longrightarrow>
    sleep_wake c d ch lk p t (k, w, u) (Suc k, w, v)"
| scheduler: "k = length (sleep_steps c ch lk p p t :: ('a kernel_scheme \<Rightarrow> (unit, 'a kernel_scheme) res) list) \<Longrightarrow>
    release c ptable_lock u = Ok () v \<Longrightarrow>
    sleep_wake c d ch lk p t (k, w, u) (Suc k, w, v)"
| take_lk: "acquire d lk u = Ok () v \<Longrightarrow> sleep_wake c d ch lk p t (k, Wait_lk, u) (k, Hold_lk, v)"
| wake: "wakeup d ch u = Ok () v \<Longrightarrow> sleep_wake c d ch lk p t (k, Hold_lk, u) (k, Woke, v)"

definition sw_inv :: "nat \<Rightarrow> nat \<Rightarrow> channel \<Rightarrow> lockid \<Rightarrow> nat \<Rightarrow> nat \<Rightarrow> nat \<Rightarrow> waker \<Rightarrow> 'a kernel_scheme \<Rightarrow> bool" where
  "sw_inv c d ch lk p t k w u \<longleftrightarrow> cpu_ok c u \<and> cpu_ok d u \<and> k \<le> 6 \<and>
     cpu_proc (cpus u c) = Some p \<and> cpu_thread (cpus u c) = Some (p, t) \<and>
     (k < 6 \<longrightarrow> ncli (cpus u c) = (if k = 1 then 2 else 1)) \<and>
     (k < 2 \<longrightarrow> lock_held c lk u \<and> w = Wait_lk) \<and>
     (k = 0 \<longrightarrow> lock_free ptable_lock u) \<and> (1 \<le> k \<and> k < 6 \<longrightarrow> lock_held c ptable_lock u \<and> w \<noteq> Woke) \<and>
     (2 \<le> k \<and> w = Wait_lk \<longrightarrow> lock_free lk u) \<and> (3 \<le> k \<longrightarrow> chan (thr u p t) = Some ch) \<and>
     (4 \<le> k \<and> w \<noteq> Woke \<longrightarrow> sleeps_on ch (thr u p t) \<and> p_state (procs u p) \<in> {SLEEPING, RUNNABLE}) \<and>
     (k = 6 \<longrightarrow> lock_free ptable_lock u) \<and>
     (w = Woke \<longrightarrow> t_state (thr u p t) = RUNNABLE \<and> p_state (procs u p) = RUNNABLE)"

lemma sleep_steps_nth:
  assumes "lk \<noteq> ptable_lock"
  shows "length (sleep_steps c ch lk p q t) = 5" "sleep_steps c ch lk p q t ! 0 = acquire c ptable_lock"
    "sleep_steps c ch lk p q t ! 1 = release c lk"
    "sleep_steps c ch lk p q t ! 2 = (\<lambda>s. Ok () (upd_thread q t (\<lambda>x. x\<lparr>chan := Some ch\<rparr>) s))"
    "sleep_steps c ch lk p q t ! 3 = (\<lambda>s. Ok () (sleep_state p q t s))" "sleep_steps c ch lk p q t ! 4 = sched c"
  using assms by (simp_all add: sleep_steps_def)

lemma sleep_state_eq:
  "\<exists>ps\<in>{RUNNABLE, SLEEPING}. sleep_state p p t s =
     upd_proc p (\<lambda>P. P\<lparr>p_state := ps\<rparr>) (upd_thread p t (\<lambda>x. x\<lparr>t_state := SLEEPING\<rparr>) s)"
  by (auto simp: sleep_state_def Let_def upd_thread_def upd_proc_def fun_eq_iff)

lemma less_five: "k < 5 \<Longrightarrow> k = 0 \<or> k = 1 \<or> k = 2 \<or> k = 3 \<or> k = (4 :: nat)"
  by auto

lemma sw_statement:
  assumes lk: "lk \<noteq> ptable_lock" and cd: "c \<noteq> d" and inv: "sw_inv c d ch lk p t k w u" and k: "k < 5"
  shows "\<exists>v. ((sleep_steps c ch lk p p t ! k) u = Ok () v \<or> (sleep_steps c ch lk p p t ! k) u = Switch v) \<and>
    sw_inv c d ch lk p t (Suc k) w v"
proof -
  note nth = sleep_steps_nth[OF lk]
  from less_five[OF k] show ?thesis
  proof (elim disjE)
    assume k: "k = 0"
    then show ?thesis using inv lk cd unfolding k nth
      by (intro exI[of _ "lock_st c ptable_lock u"]) (auto simp: sw_inv_def acquire_free lock_st_ncli)
  next
    assume k: "k = 1"
    then show ?thesis using inv lk cd unfolding k nth
      by (intro exI[of _ "unlock_st c lk u"]) (auto simp: sw_inv_def release_held unlock_st_ncli)
  next
    assume k: "k = 2"
    then show ?thesis using inv lk cd unfolding k nth
      by (auto simp: sw_inv_def thr_upd_thread)
  next
    assume k: "k = 3"
    obtain ps where ps: "ps \<in> {RUNNABLE, SLEEPING}" "sleep_state p p t u =
        upd_proc p (\<lambda>P. P\<lparr>p_state := ps\<rparr>) (upd_thread p t (\<lambda>x. x\<lparr>t_state := SLEEPING\<rparr>) u)"
      using sleep_state_eq by blast
    show ?thesis using inv lk cd ps(1) unfolding k nth ps(2)
      by (auto simp: sw_inv_def thr_upd_thread thr_upd_proc sleeps_on_def live_def)
  next
    assume k: "k = 4"
    have "sched c u = Switch (upd_thread p t (\<lambda>x. x\<lparr>stk_intena := intena (cpus u c)\<rparr>) u)"
      by (rule sched_eq) (use inv k in \<open>auto simp: sw_inv_def sleeps_on_def live_def\<close>)
    then show ?thesis using inv lk cd unfolding k nth
      by (auto simp: sw_inv_def thr_upd_thread sleeps_on_def live_def)
  qed
qed

lemma sw_scheduler:
  assumes lk: "lk \<noteq> ptable_lock" and cd: "c \<noteq> d" and inv: "sw_inv c d ch lk p t 5 w u"
  shows "\<exists>v. release c ptable_lock u = Ok () v \<and> sw_inv c d ch lk p t 6 w v"
  using inv lk cd
  by (intro exI[of _ "unlock_st c ptable_lock u"]) (auto simp: sw_inv_def release_held)

lemma sw_take_lk:
  assumes lk: "lk \<noteq> ptable_lock" and cd: "c \<noteq> d" and inv: "sw_inv c d ch lk p t k Wait_lk u"
  shows "if k < 2 then acquire d lk u = Spin else \<exists>v. acquire d lk u = Ok () v \<and> sw_inv c d ch lk p t k Hold_lk v"
proof (cases "k < 2")
  case True
  then show ?thesis using inv cd acquire_busy[of d u lk] by (auto simp: sw_inv_def lock_held_def lock_free_def)
next
  case False
  then show ?thesis using inv lk cd
    by (auto simp: sw_inv_def acquire_free lock_st_ncli)
qed

lemma sw_wake:
  assumes cd: "c \<noteq> d" and pt: "p < NPROC" "t < NTHREAD" and inv: "sw_inv c d ch lk p t k Hold_lk u"
  shows "if k < 6 then wakeup d ch u = Spin else \<exists>v. wakeup d ch u = Ok () v \<and> sw_inv c d ch lk p t k Woke v"
proof (cases "k < 6")
  case True
  then have "lock_held c ptable_lock u" "cpu_ok d u" using inv by (auto simp: sw_inv_def not_less)
  then show ?thesis using True cd acquire_busy[of d u ptable_lock]
    by (simp add: wakeup_def lock_free_def lock_held_def)
next
  case False
  then have u: "k = 6" "cpu_ok d u" "lock_free ptable_lock u" "sleeps_on ch (thr u p t)" "live (procs u p)"
    using inv by (auto simp: sw_inv_def live_def)
  have "wakeup d ch u = Ok () (wakeup1 ch (sect d ptable_lock u))" by (rule wakeup_eq[OF u(2,3)])
  moreover have "sw_inv c d ch lk p t k Woke (wakeup1 ch (sect d ptable_lock u))"
    using inv u pt cd by (auto simp: sw_inv_def thr_wakeup1 p_state_wakeup1 sleeps_on_def)
  ultimately show ?thesis using False by simp
qed

lemma sw_step_inv:
  assumes lk: "lk \<noteq> ptable_lock" and cd: "c \<noteq> d" and pt: "p < NPROC" "t < NTHREAD"
    and step: "sleep_wake c d ch lk p t (k, w, u) (k', w', u')" and inv: "sw_inv c d ch lk p t k w u"
  shows "sw_inv c d ch lk p t k' w' u'"
  using step
proof cases
  case statement
  then show ?thesis using sw_statement[OF lk cd inv] by (auto simp: sleep_steps_nth(1)[OF lk])
next
  case scheduler
  then have k: "k = 5" "k' = 6" "w' = w" by (simp_all add: sleep_steps_nth(1)[OF lk])
  then show ?thesis using sw_scheduler[OF lk cd inv[unfolded k]] scheduler by auto
next
  case take_lk
  then show ?thesis using sw_take_lk[OF lk cd inv[unfolded \<open>w = Wait_lk\<close>]] by (auto split: if_splits)
next
  case wake
  then show ?thesis using sw_wake[OF cd pt inv[unfolded \<open>w = Hold_lk\<close>]] by (auto split: if_splits)
qed

lemma sw_reach_inv:
  assumes lk: "lk \<noteq> ptable_lock" and cd: "c \<noteq> d" and pt: "p < NPROC" "t < NTHREAD"
    and "(sleep_wake c d ch lk p t)\<^sup>*\<^sup>* x y" and "sw_inv c d ch lk p t (fst x) (fst (snd x)) (snd (snd x))"
  shows "sw_inv c d ch lk p t (fst y) (fst (snd y)) (snd (snd y))"
  using assms(5,6)
  by (induction rule: rtranclp_induct) (use sw_step_inv[OF lk cd pt] in \<open>metis prod.collapse\<close>)+

lemma sw_progress:
  assumes lk: "lk \<noteq> ptable_lock" and cd: "c \<noteq> d" and pt: "p < NPROC" "t < NTHREAD"
    and inv: "sw_inv c d ch lk p t k w u" and w: "w \<noteq> Woke"
  shows "\<exists>y. sleep_wake c d ch lk p t (k, w, u) y"
proof -
  have "k \<le> 6" using inv by (simp add: sw_inv_def)
  then consider "k < 5" | "k = 5" | "k = 6" "w = Wait_lk" | "k = 6" "w = Hold_lk" using w by (cases w) force+
  then show ?thesis
  proof cases
    case 1
    then show ?thesis
      using sw_statement[OF lk cd inv] sleep_wake.statement[of k c ch lk p t u _ d w]
      by (auto simp: sleep_steps_nth(1)[OF lk])
  next
    case 2
    then show ?thesis
      using sw_scheduler[OF lk cd inv[unfolded 2]] sleep_wake.scheduler[of k c ch lk p t u _ d w]
      by (auto simp: sleep_steps_nth(1)[OF lk])
  next
    case 3
    then show ?thesis using sw_take_lk[OF lk cd inv[unfolded 3]] sleep_wake.take_lk by fastforce
  next
    case 4
    then show ?thesis using sw_wake[OF cd pt inv[unfolded 4]] sleep_wake.wake by fastforce
  qed
qed

text \<open>
  C16 (no lost wakeup). A thread that calls \<open>sleep(chan, lk)\<close> with only \<open>lk\<close> held runs the statements
  of \<open>sleep_steps\<close> and reaches the scheduler asleep on \<open>chan\<close>, with \<open>lk\<close> free again and \<open>ptable.lock\<close>
  still held. Until the scheduler drops \<open>ptable.lock\<close> a \<open>wakeup\<close> on another CPU spins; every
  \<open>wakeup(chan)\<close> after that returns with the thread and its process runnable. And statement by
  statement: in every interleaving of \<open>sleep\<close> with another CPU that takes \<open>lk\<close> and then calls
  \<open>wakeup(chan)\<close>, that CPU can always get to the end of its \<open>wakeup\<close>, and once it has, the sleeper is
  runnable; the waker never runs in a gap before the sleeper is asleep.
\<close>

theorem sleep_no_lost_wakeup:
  assumes "cpu_ok c s" and "ncli (cpus s c) = 1" and "lock_held c lk s" and "lk \<noteq> ptable_lock"
    and "lock_free ptable_lock s" and "cpu_proc (cpus s c) = Some p" and "cpu_thread (cpus s c) = Some (p, t)"
    and "p < NPROC" and "t < NTHREAD"
  shows "(\<exists>s1. sleep c ch (Some lk) s = Switch s1 \<and> run_steps (sleep_steps c ch lk p p t) s = Switch s1 \<and>
     sleeps_on ch (thr s1 p t) \<and> lock_free lk s1 \<and>
     lock_held c ptable_lock s1 \<and> ncli (cpus s1 c) = 1 \<and>
     (\<forall>d<ncpu s1. d \<noteq> c \<and> cpu_ok d s1 \<longrightarrow> wakeup d ch s1 = Spin \<and>
       (\<exists>s2. wakeup d ch (unlock_st c ptable_lock s1) = Ok () s2 \<and> t_state (thr s2 p t) = RUNNABLE \<and>
         p_state (procs s2 p) = RUNNABLE))) \<and>
   (\<forall>d k w u. d \<noteq> c \<and> cpu_ok d s \<and> (sleep_wake c d ch lk p t)\<^sup>*\<^sup>* (0, Wait_lk, s) (k, w, u) \<longrightarrow>
     (if w = Woke then t_state (thr u p t) = RUNNABLE \<and> p_state (procs u p) = RUNNABLE
      else \<exists>y. sleep_wake c d ch lk p t (k, w, u) y))"
proof (intro conjI allI impI)
  let ?s0 = "unlock_st c lk (lock_st c ptable_lock s)"
  define s1 where "s1 = upd_thread p t (\<lambda>x. x\<lparr>stk_intena := intena (cpus ?s0 c)\<rparr>) (sleep_upd p t ch ?s0)"
  have sw: "sleep c ch (Some lk) s = Switch s1"
    using sleep_eq[of c s lk p t ch] assms by (simp add: s1_def Let_def)
  then have run: "run_steps (sleep_steps c ch lk p p t) s = Switch s1"
    using assms(1,2,6,7) by (simp add: sleep_def mythread_eq myproc_eq cli_pass_id)
  have sl: "sleeps_on ch (thr s1 p t)" by (simp add: s1_def sleeps_on_def thr_sleep_upd)
  have lv: "live (procs s1 p)" by (simp add: s1_def live_def p_state_sleep_upd)
  have ok: "cpu_ok c s1" "lock_held c ptable_lock s1" "ncli (cpus s1 c) = 1" "lock_free lk s1"
    using assms by (simp_all add: s1_def lock_st_ncli unlock_st_ncli)
  have spin: "wakeup d ch s1 = Spin" if "d \<noteq> c" "cpu_ok d s1" for d
    using that ok acquire_busy[of d s1 ptable_lock] by (simp add: wakeup_def lock_free_def lock_held_def)
  have wk: "\<exists>s2. wakeup d ch (unlock_st c ptable_lock s1) = Ok () s2 \<and> t_state (thr s2 p t) = RUNNABLE \<and>
      p_state (procs s2 p) = RUNNABLE" if "cpu_ok d s1" for d
  proof -
    let ?s2 = "unlock_st c ptable_lock s1"
    have "wakeup d ch ?s2 = Ok () (wakeup1 ch (sect d ptable_lock ?s2))"
      using that ok by (intro wakeup_eq) auto
    then show ?thesis using sl lv assms by (auto simp: thr_wakeup1 p_state_wakeup1)
  qed
  show "\<exists>s1. sleep c ch (Some lk) s = Switch s1 \<and> run_steps (sleep_steps c ch lk p p t) s = Switch s1 \<and>
     sleeps_on ch (thr s1 p t) \<and> lock_free lk s1 \<and> lock_held c ptable_lock s1 \<and> ncli (cpus s1 c) = 1 \<and>
     (\<forall>d<ncpu s1. d \<noteq> c \<and> cpu_ok d s1 \<longrightarrow> wakeup d ch s1 = Spin \<and>
       (\<exists>s2. wakeup d ch (unlock_st c ptable_lock s1) = Ok () s2 \<and> t_state (thr s2 p t) = RUNNABLE \<and>
         p_state (procs s2 p) = RUNNABLE))" using sw run sl ok spin wk by blast
next
  fix d k w u
  assume d: "d \<noteq> c \<and> cpu_ok d s \<and> (sleep_wake c d ch lk p t)\<^sup>*\<^sup>* (0, Wait_lk, s) (k, w, u)"
  then have "sw_inv c d ch lk p t 0 Wait_lk s" using assms by (simp add: sw_inv_def)
  then have inv: "sw_inv c d ch lk p t k w u"
    using sw_reach_inv[OF assms(4) _ assms(8,9), of c d ch "(0, Wait_lk, s)" "(k, w, u)"] d by auto
  show "if w = Woke then t_state (thr u p t) = RUNNABLE \<and> p_state (procs u p) = RUNNABLE
      else \<exists>y. sleep_wake c d ch lk p t (k, w, u) y"
    using sw_progress[OF assms(4) _ assms(8,9) inv] d inv by (auto simp: sw_inv_def)
qed

theorem sleep_no_lost_wakeup_witness:
  "(\<exists>s1. sleep 0 (ChMutex 3) (Some mtable_lock) (lock_st 0 mtable_lock demo_kernel) = Switch s1 \<and>
     sleeps_on (ChMutex 3) (thr s1 0 0) \<and> lock_free mtable_lock s1 \<and>
     lock_held 0 ptable_lock s1 \<and> ncli (cpus s1 0) = 1) \<and>
   (\<exists>y. sleep_wake 0 1 (ChMutex 3) mtable_lock 0 0 (0, Wait_lk, lock_st 0 mtable_lock demo_kernel) y)"
proof -
  let ?s = "lock_st 0 mtable_lock demo_kernel"
  have ok: "cpu_ok 0 ?s" "cpu_ok 1 ?s" by (simp_all add: cpu_ok_demo_kernel)
  note all = sleep_no_lost_wakeup[OF ok(1), of mtable_lock 0 0 "ChMutex 3"]
  have h: "ncli (cpus ?s 0) = 1" "lock_held 0 mtable_lock ?s" "mtable_lock \<noteq> ptable_lock" "lock_free ptable_lock ?s"
    "cpu_proc (cpus ?s 0) = Some 0" "cpu_thread (cpus ?s 0) = Some (0, 0)" "0 < NPROC" "0 < NTHREAD"
    by (simp_all add: lock_st_ncli)
  note both = all[OF h]
  have "\<exists>y. sleep_wake 0 1 (ChMutex 3) mtable_lock 0 0 (0, Wait_lk, ?s) y"
    using both[THEN conjunct2, THEN spec[of _ 1], THEN spec[of _ 0], THEN spec[of _ Wait_lk], THEN spec[of _ ?s]] ok(2)
    by simp
  then show ?thesis using both[THEN conjunct1] by blast
qed

text \<open>
  C17 (a new thread). On a process whose lock is set up and free, \<open>allocthread\<close> returns. If every
  slot is taken, or there is no page for the stack, it returns null, and every thread state is as
  before. Otherwise it takes the first unused slot and marks it \<open>EMBRYO\<close> with the slot number as
  thread id; the page it got is the new stack, on which the context starts at \<open>forkret\<close> and returns
  to \<open>trapret\<close>, right below the trap frame at the top; all other threads are untouched.
\<close>

theorem allocthread_outcome:
  assumes "cpu_ok c s" and "lock_free ptable_lock s" and "ttlock (procs s p) = Some ptable_lock"
    and "kmem_list c s pages"
  shows "\<exists>r s'. allocthread c p KSTACKSIZE s = Ok r s' \<and>
    (r = None \<longleftrightarrow> (\<forall>i<NTHREAD. t_state (thr s p i) \<noteq> UNUSED) \<or> pages = []) \<and>
    (r = None \<longrightarrow> (\<forall>q i. t_state (thr s' q i) = t_state (thr s q i))) \<and>
    (\<forall>i. r = Some i \<longrightarrow> i < NTHREAD \<and> t_state (thr s p i) = UNUSED \<and>
       (\<forall>j<i. t_state (thr s p j) \<noteq> UNUSED) \<and>
       t_state (thr s' p i) = EMBRYO \<and> tid (thr s' p i) = int i \<and> t_myproc (thr s' p i) = Some p \<and>
       kstack (thr s' p i) = hd pages \<and> tf (thr s' p i) = hd pages + KSTACKSIZE - sizeof_trapframe \<and>
       ctx (thr s' p i) = tf (thr s' p i) - 4 - sizeof_context \<and>
       load32 (mem s') (ctx (thr s' p i) + context_eip) = sym_forkret s \<and>
       load32 (mem s') (ctx (thr s' p i) + sizeof_context) = sym_trapret s \<and>
       (\<forall>q u. (q, u) \<noteq> (p, i) \<longrightarrow> thr s' q u = thr s q u))"
proof -
  have fl: "freelist s = 0 \<longleftrightarrow> pages = []" "pages \<noteq> [] \<Longrightarrow> freelist s = hd pages"
    using assms(4) by (cases pages; auto simp: kmem_list_def)+
  have km: "kmem_ready c s" using assms(4) by (simp add: kmem_list_def)
  note eq = allocthread_eq[OF assms(1-3) km, of KSTACKSIZE]
  show ?thesis
  proof (cases "first_index (\<lambda>i. t_state (thr s p i) = UNUSED) NTHREAD")
    case None
    then have "\<forall>i<NTHREAD. t_state (thr s p i) \<noteq> UNUSED" by (simp add: first_index_None_iff)
    then show ?thesis using eq None by simp
  next
    case (Some i)
    then have i: "i < NTHREAD" "t_state (thr s p i) = UNUSED" "\<forall>j<i. t_state (thr s p j) \<noteq> UNUSED"
      by (auto simp: first_index_Some_iff)
    show ?thesis
    proof (cases "pages = []")
      case True
      then show ?thesis using eq Some fl i by (auto simp: thr_upd_thread)
    next
      case False
      have "load32 (mem (thread_stack p i (hd pages) 4096 u)) (4012 + hd pages) = sym_forkret u"
        "load32 (mem (thread_stack p i (hd pages) 4096 u)) (4016 + hd pages) = sym_trapret u" for u :: "'a kernel_scheme"
        using thread_stack_words[of p i "hd pages" 4096 u] by (simp_all add: add.commute)
      then show ?thesis
        using False eq Some fl i by (auto simp: thr_thread_stack thr_upd_thread)
    qed
  qed
qed


lemma demo_pages: "c < 2 \<Longrightarrow> kmem_list c demo_kernel [0x80200000, 0x80201000]"
  by (simp add: kmem_list_def kmem_ready_def cpu_ok_demo_kernel page_ok_def page_aligned_def V2P_def
      load32_store32_other)

lemma demo_thr: "thr demo_kernel p t = (if p = 0 \<and> t = 0
    then idle_thread\<lparr>t_state := RUNNING, tid := 0, t_myproc := Some 0\<rparr> else idle_thread)"
  by (simp add: thr_def first_proc_def unused_proc_def)

theorem allocthread_outcome_witness:
  "\<exists>s'. allocthread 1 0 KSTACKSIZE demo_kernel = Ok (Some 1) s' \<and> t_state (thr s' 0 1) = EMBRYO \<and>
     tid (thr s' 0 1) = 1 \<and> kstack (thr s' 0 1) = 0x80200000"
proof -
  have ex: "\<exists>i<NTHREAD. t_state (thr demo_kernel 0 i) = UNUSED"
    by (rule exI[of _ 1]) (simp add: demo_thr idle_thread_def)
  have "cpu_ok 1 demo_kernel" "ttlock (procs demo_kernel 0) = Some ptable_lock"
    by (simp_all add: cpu_ok_demo_kernel first_proc_def)
  from allocthread_outcome[OF this(1) _ this(2) demo_pages[of 1]] ex
  obtain i s' where r: "allocthread 1 0 KSTACKSIZE demo_kernel = Ok (Some i) s'"
    "t_state (thr demo_kernel 0 i) = UNUSED" "\<forall>j<i. t_state (thr demo_kernel 0 j) \<noteq> UNUSED"
    "t_state (thr s' 0 i) = EMBRYO" "tid (thr s' 0 i) = int i" "kstack (thr s' 0 i) = 0x80200000"
    by (auto simp del: One_nat_def)
  have "i = 1"
  proof (rule ccontr)
    assume "i \<noteq> 1"
    then consider "i = 0" | "1 < i" by linarith
    then show False using r(2) r(3) by cases (auto simp: demo_thr idle_thread_def)
  qed
  then show ?thesis using r by auto
qed

lemma allocproc_init_ok:
  assumes "cpu_ok e s" and "lock_free ptable_lock s" and "kmem_ready e s" and "freelist s \<noteq> 0"
    and i: "first_index (\<lambda>i. t_state (thr s p i) = UNUSED) NTHREAD = Some i"
  shows "\<exists>s'. allocproc_init e p s = Ok (Some p) s' \<and> pid (procs s' p) = nextpid s \<and>
     nextpid s' = nextpid s + 1 \<and> (\<forall>d. cpu_ok d s \<longrightarrow> cpu_ok d s') \<and> (\<forall>lk. lock_free lk s' = lock_free lk s) \<and>
     use_lock s' = use_lock s \<and> freelist s' = load32 (mem s) (freelist s) \<and>
     p_killed (procs s' p) = p_killed (procs s p) \<and>
     (\<forall>j. t_state (thr s' p j) = (if j = i then EMBRYO else t_state (thr s p j)))"
proof -
  define u where "u = (upd_proc p (\<lambda>P. P\<lparr>pid := nextpid s\<rparr>) (upd_proc p (\<lambda>P. P\<lparr>ttlock := Some ptable_lock\<rparr>)
      (upd_proc p (\<lambda>P. P\<lparr>mid := (\<lambda>i. if i < MAX_MUTEXES then False else mid P i)\<rparr>)
        (upd_proc p (\<lambda>P. P\<lparr>p_state := EMBRYO\<rparr>) s))))\<lparr>nextpid := nextpid s + 1\<rparr>"
  have init: "allocproc_init e p s = bnd (allocthread e p KSTACKSIZE u) (\<lambda>t s. case t of
      None \<Rightarrow> Ok None (upd_proc p (\<lambda>P. P\<lparr>p_state := UNUSED\<rparr>) s) | Some _ \<Rightarrow> Ok (Some p) s)"
    by (simp add: allocproc_init_def Let_def u_def)
  have thr_u: "thr u = thr s" by (simp add: u_def thr_upd_proc)
  have u: "cpu_ok e u" "lock_free ptable_lock u" "ttlock (procs u p) = Some ptable_lock" "kmem_ready e u"
    using assms by (simp_all add: u_def kmem_ready_def)
  have fl: "freelist u = freelist s" "mem u = mem s" "pid (procs u p) = nextpid s" "nextpid u = nextpid s + 1"
    "p_killed (procs u p) = p_killed (procs s p)" "use_lock u = use_lock s"
    by (simp_all add: u_def)
  have lk: "lock_free lk u = lock_free lk s" "cpu_ok d u = cpu_ok d s" for lk d
    by (simp_all add: u_def)
  have ks: "kmem_ready e (sect e ptable_lock u)" using u by (simp add: kmem_ready_def)
  show ?thesis
    unfolding init allocthread_eq[OF u] using i assms(1,2,4) u ks
    by (simp add: thr_u fl lk thr_thread_stack thr_upd_thread)
qed

text \<open>
  C20 (two allocations can get one slot). \<open>allocproc\<close> drops \<open>ptable.lock\<close> between the search and
  the marking of the slot. When the search on CPU \<open>d\<close> falls in the window of the one on CPU \<open>c\<close>, both
  find the same slot, and both calls go on to return it, with two process ids for one process.
\<close>

theorem allocproc_same_slot:
  assumes "cpu_ok c s" and "cpu_ok d s" and "lock_free ptable_lock s" and "kmem_list c s (a # b # pages)"
    and "first_index (\<lambda>p. p_state (procs s p) = UNUSED) NPROC = Some p"
    and "t_state (thr s p 0) = UNUSED" and "t_state (thr s p 1) = UNUSED"
  shows "\<exists>s1 s2 s3 s4. allocproc_scan c s = Ok (Some p) s1 \<and> allocproc_scan d s1 = Ok (Some p) s2 \<and>
     allocproc_init c p s2 = Ok (Some p) s3 \<and> pid (procs s3 p) = nextpid s \<and>
     allocproc_init d p s3 = Ok (Some p) s4 \<and> pid (procs s4 p) = nextpid s + 1"
proof -
  let ?s2 = "sect d ptable_lock (sect c ptable_lock s)"
  have scan: "allocproc_scan c s = Ok (Some p) (sect c ptable_lock s)"
    "allocproc_scan d (sect c ptable_lock s) = Ok (Some p) ?s2"
    using assms by (simp_all add: allocproc_scan_def acquire_free release_held)
  have fl: "freelist s \<noteq> 0" "load32 (mem s) (freelist s) \<noteq> 0" and km: "use_lock s \<longrightarrow> lock_free kmem_lock s"
    using assms(4) by (auto simp: kmem_list_def kmem_ready_def)
  have i0: "first_index (\<lambda>i. t_state (thr ?s2 p i) = UNUSED) NTHREAD = Some 0"
    using assms(6) by (simp add: first_index_Some_iff)
  have "kmem_ready c ?s2" using assms(1-3) km by (simp add: kmem_ready_def)
  from allocproc_init_ok[OF _ _ this _ i0] assms(1-3) fl(1) obtain s3 where
    s3: "allocproc_init c p ?s2 = Ok (Some p) s3" "pid (procs s3 p) = nextpid s" "nextpid s3 = nextpid s + 1"
      "cpu_ok d s3" "lock_free ptable_lock s3" "use_lock s3 \<longrightarrow> lock_free kmem_lock s3"
      "freelist s3 = load32 (mem s) (freelist s)"
      "\<forall>j. t_state (thr s3 p j) = (if j = 0 then EMBRYO else t_state (thr s p j))"
    using km by auto
  have i1: "first_index (\<lambda>i. t_state (thr s3 p i) = UNUSED) NTHREAD = Some 1"
    using assms(7) s3(8) by (auto simp: first_index_Some_iff)
  have "kmem_ready d s3" using s3 by (simp add: kmem_ready_def)
  from allocproc_init_ok[OF s3(4,5) this _ i1] s3 fl(2) scan show ?thesis by auto
qed

theorem allocproc_same_slot_witness:
  "\<exists>s1 s2 s3 s4. allocproc_scan 0 demo_kernel = Ok (Some 1) s1 \<and> allocproc_scan 1 s1 = Ok (Some 1) s2 \<and>
     allocproc_init 0 1 s2 = Ok (Some 1) s3 \<and> pid (procs s3 1) = nextpid demo_kernel \<and>
     allocproc_init 1 1 s3 = Ok (Some 1) s4 \<and> pid (procs s4 1) = nextpid demo_kernel + 1"
proof (rule allocproc_same_slot)
  show "kmem_list 0 demo_kernel [0x80200000, 0x80201000]" by (rule demo_pages) simp
  show "first_index (\<lambda>p. p_state (procs demo_kernel p) = UNUSED) NPROC = Some 1"
    by (simp add: first_index_Some_iff first_proc_def unused_proc_def)
qed (simp_all add: cpu_ok_demo_kernel demo_thr idle_thread_def)

text \<open>
  C21 (killing process id 0). A slot that is not in use has process id 0. When no slot before it
  has that id, \<open>kill(0)\<close> reports success and marks the unused slot killed, and a process that
  \<open>allocproc_init\<close> then builds in the slot starts out killed.
\<close>

theorem kill_zero_poisons_slot:
  assumes "cpu_ok c s" and "lock_free ptable_lock s" and "kmem_ready c s" and "freelist s \<noteq> 0"
    and "first_index (\<lambda>p. pid (procs s p) = 0) NPROC = Some p" and "p_state (procs s p) = UNUSED"
    and "first_index (\<lambda>i. t_state (thr s p i) = UNUSED) NTHREAD = Some i"
  shows "\<exists>s1 s2. kill c 0 s = Ok 0 s1 \<and> allocproc_init c p s1 = Ok (Some p) s2 \<and>
     pid (procs s2 p) = nextpid s \<and> p_killed (procs s2 p)"
proof -
  let ?s1 = "upd_proc p kill_proc (sect c ptable_lock s)"
  have kp: "p_killed (procs ?s1 p)" and th: "thr ?s1 = thr s"
    using assms(6) by (simp_all add: kill_proc_def Let_def thr_def fun_eq_iff)
  have "kill c 0 s = Ok 0 ?s1" using assms by (simp add: kill_eq)
  moreover have "\<exists>s2. allocproc_init c p ?s1 = Ok (Some p) s2 \<and> pid (procs s2 p) = nextpid s \<and>
      p_killed (procs s2 p)"
    using allocproc_init_ok[of c ?s1 p i] assms kp th by (auto simp: kmem_ready_def)
  ultimately show ?thesis by blast
qed

theorem kill_zero_poisons_slot_witness:
  "\<exists>s1 s2. kill 0 0 demo_kernel = Ok 0 s1 \<and> allocproc_init 0 1 s1 = Ok (Some 1) s2 \<and>
     pid (procs s2 1) = nextpid demo_kernel \<and> p_killed (procs s2 1)"
  by (rule kill_zero_poisons_slot[where i = 0])
     (simp_all add: cpu_ok_demo_kernel kmem_ready_def first_index_Some_iff first_proc_def unused_proc_def
       demo_thr idle_thread_def)

end
