(* ===== verification/Kthread.thy ===== *)
theory Kthread
  imports Proc
begin

text \<open>
  The thread calls of \<open>proc.c\<close> that need no file system: \<open>kthread_create\<close>, \<open>kthread_id\<close>,
  \<open>kthread_join\<close> with \<open>clear_thread\<close> and \<open>allzombies\<close>. One turn of the endless loop of
  \<open>kthread_join\<close> is \<open>join_iter\<close>: it returns or goes to sleep, and \<open>kthread_join_resume\<close> runs the
  next turn when the thread is woken.
\<close>

subsection \<open>The code\<close>

text \<open>\<open>curthread\<close> is \<open>None\<close> for the null pointer that \<open>wait\<close> passes.\<close>

definition allzombies :: "nat \<Rightarrow> (nat \<times> nat) option \<Rightarrow> 'a kernel_scheme \<Rightarrow> bool" where
  "allzombies p cur s \<longleftrightarrow>
     p_state (procs s p) = ZOMBIE \<or>
     first_index (\<lambda>t. (cur = None \<or> Some (p, t) \<noteq> cur) \<and>
       (t_state (thr s p t) \<noteq> UNUSED \<and> t_state (thr s p t) \<noteq> ZOMBIE)) NTHREAD = None"

definition clear_thread ::
    "nat \<Rightarrow> nat \<Rightarrow> nat \<Rightarrow> 'a kernel_scheme \<Rightarrow> (unit, 'a kernel_scheme) res" where
  "clear_thread c p t s =
     (let s = upd_thread p t (\<lambda>x. x\<lparr>chan := None\<rparr>) s in
      bnd (kfree c (kstack (thr s p t)) s) (\<lambda>_ s.
      Ok () (upd_thread p t (\<lambda>x. x\<lparr>kstack := 0, tid := - 1, t_killed := False, blocked := False,
        t_state := UNUSED\<rparr>) s)))"

definition kthread_id :: "nat \<Rightarrow> 'a kernel_scheme \<Rightarrow> (int, 'a kernel_scheme) res" where
  "kthread_id c s =
     bnd (myproc c s) (\<lambda>p s. deref p (\<lambda>p s.
     bnd (acquire_tt c p s) (\<lambda>_ s.
     bnd (mythread c s) (\<lambda>qt s. deref qt (\<lambda>(q, t) s.
     let i = tid (thr s q t) in
     bnd (myproc c s) (\<lambda>p s. deref p (\<lambda>p s.
     bnd (release_tt c p s) (\<lambda>_ s. Ok i s)) s)) s))) s)"

definition join_iter ::
    "nat \<Rightarrow> nat \<Rightarrow> nat \<times> nat \<Rightarrow> nat \<Rightarrow> 'a kernel_scheme \<Rightarrow> (int, 'a kernel_scheme) res" where
  "join_iter c p cur t s =
     (if t_state (thr s p t) = ZOMBIE then
        bnd (clear_thread c p t s) (\<lambda>_ s.
        bnd (release_tt c p s) (\<lambda>_ s. Ok 0 s))
      else if t_killed (thr s (fst cur) (snd cur)) then
        bnd (release_tt c p s) (\<lambda>_ s. Ok (- 1) s)
      else bnd (sleep c (ChThread p t) (ttlock (procs s p)) s) (\<lambda>_. Ok 0))"

definition kthread_join :: "nat \<Rightarrow> int \<Rightarrow> 'a kernel_scheme \<Rightarrow> (int, 'a kernel_scheme) res" where
  "kthread_join c thread_id s =
     bnd (myproc c s) (\<lambda>p s.
     bnd (mythread c s) (\<lambda>cur s. deref cur (\<lambda>cur s.
     if thread_id = tid (thr s (fst cur) (snd cur)) \<or> thread_id < 0 \<or> thread_id > 15
     then Ok (- 1) s
     else deref p (\<lambda>p s.
     bnd (acquire_tt c p s) (\<lambda>_ s.
     let t = nat thread_id in
     if tid (thr s p t) \<noteq> thread_id
     then bnd (release_tt c p s) (\<lambda>_ s. Ok (- 1) s)
     else join_iter c p cur t s)) s) s))"

definition kthread_join_resume ::
    "nat \<Rightarrow> nat \<Rightarrow> nat \<times> nat \<Rightarrow> nat \<Rightarrow> 'a kernel_scheme \<Rightarrow> (int, 'a kernel_scheme) res" where
  "kthread_join_resume c p cur t s =
     deref (ttlock (procs s p)) (\<lambda>lk s.
       bnd (sleep_resume c cur lk s) (\<lambda>_. join_iter c p cur t)) s"

abbreviation (input) MAX_STACK_SIZE :: uint where "MAX_STACK_SIZE \<equiv> 4000"

definition kthread_create ::
    "nat \<Rightarrow> uint \<Rightarrow> uint \<Rightarrow> 'a kernel_scheme \<Rightarrow> (int, 'a kernel_scheme) res" where
  "kthread_create c start_func stack s =
     bnd (myproc c s) (\<lambda>p s.
     bnd (mythread c s) (\<lambda>cur s. deref p (\<lambda>p s.
     bnd (allocthread c p KSTACKSIZE s) (\<lambda>t s.
     case t of None \<Rightarrow> Ok (- 1) s
     | Some t \<Rightarrow> deref cur (\<lambda>(q, ct) s.
         let a = tf (thr s p t);
             s = s\<lparr>mem := copy_up (mem s) a (tf (thr s q ct)) (unat sizeof_trapframe)\<rparr>;
             s = s\<lparr>mem := store32 (mem s) (a + tf_eip) start_func\<rparr>;
             s = s\<lparr>mem := store32 (mem s) (a + tf_esp) (stack + MAX_STACK_SIZE)\<rparr>;
             s = s\<lparr>mem := store32 (mem s) (a + tf_eax) 0\<rparr>;
             s = upd_thread p t (\<lambda>x. x\<lparr>t_myproc := Some p\<rparr>) s
         in bnd (acquire_tt c p s) (\<lambda>_ s.
            let s = upd_thread p t (\<lambda>x. x\<lparr>t_state := RUNNABLE\<rparr>) s in
            bnd (release_tt c p s) (\<lambda>_ s. Ok (tid (thr s p t)) s))) s)) s))"

end
