(* ===== verification/Mutex.thy ===== *)
theory Mutex
  imports Kthread
begin

text \<open>
  The kernel thread mutexes of \<open>proc.c\<close> (\<open>kthread_mutex_alloc\<close>, \<open>_dealloc\<close>, \<open>_lock\<close>, \<open>_unlock\<close>,
  \<open>mutex_tid\<close>). A thread that finds the mutex locked sleeps inside \<open>kthread_mutex_lock\<close>; what it
  does when it is resumed is \<open>kthread_mutex_lock_resume\<close>.
\<close>

subsection \<open>The code\<close>

definition upd_mutex ::
    "nat \<Rightarrow> (kthread_mutex \<Rightarrow> kthread_mutex) \<Rightarrow> 'a kernel_scheme \<Rightarrow> 'a kernel_scheme" where
  "upd_mutex m f s = s\<lparr>mutexes := (mutexes s)(m := f (mutexes s m))\<rparr>"

definition kthread_mutex_alloc :: "nat \<Rightarrow> 'a kernel_scheme \<Rightarrow> (int, 'a kernel_scheme) res" where
  "kthread_mutex_alloc c s =
     bnd (myproc c s) (\<lambda>p s.
     bnd (acquire c mtable_lock s) (\<lambda>_ s.
     case first_index (\<lambda>m. \<not> m_allocated (mutexes s m)) MAX_MUTEXES of
       Some i \<Rightarrow> deref p (\<lambda>p s.
         let s = upd_mutex i (\<lambda>m. m\<lparr>m_allocated := True, m_name := Some p, m_locked := False,
                   m_tid := - 1\<rparr>) s in
         bnd (acquire c ptable_lock s) (\<lambda>_ s.
         let s = upd_proc p (\<lambda>P. P\<lparr>mid := (mid P)(i := True)\<rparr>) s in
         bnd (release c ptable_lock s) (\<lambda>_ s.
         bnd (release c mtable_lock s) (\<lambda>_ s. Ok (int i) s)))) s
     | None \<Rightarrow> bnd (release c mtable_lock s) (\<lambda>_ s. Ok (- 1) s)))"

definition kthread_mutex_dealloc :: "nat \<Rightarrow> int \<Rightarrow> 'a kernel_scheme \<Rightarrow> (int, 'a kernel_scheme) res" where
  "kthread_mutex_dealloc c mutex_id s =
     (if mutex_id < 0 \<or> mutex_id \<ge> int MAX_MUTEXES then Ok (- 1) s else
     bnd (myproc c s) (\<lambda>p s.
     bnd (acquire c mtable_lock s) (\<lambda>_ s.
     let m = nat mutex_id in
     if \<not> m_allocated (mutexes s m) then bnd (release c mtable_lock s) (\<lambda>_ s. Ok (- 1) s)
     else bnd (acquire c ptable_lock s) (\<lambda>_ s. deref p (\<lambda>p s.
     if \<not> mid (procs s p) m then
       bnd (release c ptable_lock s) (\<lambda>_ s.
       bnd (release c mtable_lock s) (\<lambda>_ s. Ok (- 1) s))
     else bnd (release c ptable_lock s) (\<lambda>_ s.
     if m_locked (mutexes s m) then bnd (release c mtable_lock s) (\<lambda>_ s. Ok (- 1) s)
     else
       let s = upd_mutex m (\<lambda>x. x\<lparr>m_allocated := False, m_name := None, m_locked := False,
                 m_tid := - 1\<rparr>) s in
       bnd (acquire c ptable_lock s) (\<lambda>_ s.
       let s = upd_proc p (\<lambda>P. P\<lparr>mid := (mid P)(m := False)\<rparr>) s in
       bnd (release c ptable_lock s) (\<lambda>_ s.
       bnd (release c mtable_lock s) (\<lambda>_ s. Ok 0 s))))) s))))"

text \<open>The end of \<open>kthread_mutex_lock\<close>, from the test of \<open>blocked\<close> on.\<close>

definition mutex_take ::
    "nat \<Rightarrow> nat \<Rightarrow> nat \<times> nat \<Rightarrow> nat \<Rightarrow> 'a kernel_scheme \<Rightarrow> (int, 'a kernel_scheme) res" where
  "mutex_take c p cur m s =
     bnd (acquire_tt c p s) (\<lambda>_ s.
     if blocked (thr s (fst cur) (snd cur)) then
       bnd (release_tt c p s) (\<lambda>_ s.
       bnd (release c mtable_lock s) (\<lambda>_ s. Panic ''Thread is Blocked''))
     else bnd (release_tt c p s) (\<lambda>_ s.
       let s = upd_mutex m (\<lambda>x. x\<lparr>m_locked := True, m_tid := tid (thr s (fst cur) (snd cur))\<rparr>) s in
       bnd (release c mtable_lock s) (\<lambda>_ s. Ok 0 s)))"

definition kthread_mutex_lock :: "nat \<Rightarrow> int \<Rightarrow> 'a kernel_scheme \<Rightarrow> (int, 'a kernel_scheme) res" where
  "kthread_mutex_lock c mutex_id s =
     (if mutex_id < 0 \<or> mutex_id \<ge> int MAX_MUTEXES then Ok (- 1) s else
     bnd (myproc c s) (\<lambda>p s.
     bnd (mythread c s) (\<lambda>cur s.
     bnd (acquire c mtable_lock s) (\<lambda>_ s.
     let m = nat mutex_id in
     if \<not> m_allocated (mutexes s m) then bnd (release c mtable_lock s) (\<lambda>_ s. Ok (- 1) s)
     else bnd (acquire c ptable_lock s) (\<lambda>_ s. deref p (\<lambda>p s.
     if \<not> mid (procs s p) m then
       bnd (release c ptable_lock s) (\<lambda>_ s.
       bnd (release c mtable_lock s) (\<lambda>_ s. Ok (- 1) s))
     else bnd (release c ptable_lock s) (\<lambda>_ s. deref cur (\<lambda>cur s.
     if m_tid (mutexes s m) = tid (thr s (fst cur) (snd cur)) then
       bnd (release c mtable_lock s) (\<lambda>_ s. Ok (- 1) s)
     else bnd (if m_locked (mutexes s m)
       then bnd (acquire_tt c p s) (\<lambda>_ s.
            let s = upd_thread (fst cur) (snd cur) (\<lambda>x. x\<lparr>blocked := True\<rparr>) s in
            bnd (release_tt c p s) (\<lambda>_. sleep c (ChMutex m) (Some mtable_lock)))
       else Ok () s) (\<lambda>_. mutex_take c p cur m)) s)) s)))))"

definition kthread_mutex_lock_resume ::
    "nat \<Rightarrow> nat \<Rightarrow> nat \<times> nat \<Rightarrow> nat \<Rightarrow> 'a kernel_scheme \<Rightarrow> (int, 'a kernel_scheme) res" where
  "kthread_mutex_lock_resume c p cur m s =
     bnd (sleep_resume c cur mtable_lock s) (\<lambda>_. mutex_take c p cur m)"

text \<open>
  The order in which \<open>kthread_mutex_unlock\<close> looks at the threads: from the one after the caller
  round to the one before it.
\<close>

definition scan_order :: "nat \<Rightarrow> nat list" where
  "scan_order t = [Suc t..<NTHREAD] @ [0..<t]"

definition kthread_mutex_unlock :: "nat \<Rightarrow> int \<Rightarrow> 'a kernel_scheme \<Rightarrow> (int, 'a kernel_scheme) res" where
  "kthread_mutex_unlock c mutex_id s =
     (if mutex_id < 0 \<or> mutex_id \<ge> int MAX_MUTEXES then Ok (- 1) s else
     bnd (myproc c s) (\<lambda>p s.
     bnd (mythread c s) (\<lambda>cur s.
     bnd (acquire c mtable_lock s) (\<lambda>_ s.
     let m = nat mutex_id in
     if \<not> m_allocated (mutexes s m) then bnd (release c mtable_lock s) (\<lambda>_ s. Ok (- 1) s)
     else bnd (acquire c ptable_lock s) (\<lambda>_ s. deref p (\<lambda>p s.
     if \<not> mid (procs s p) m then
       bnd (release c ptable_lock s) (\<lambda>_ s.
       bnd (release c mtable_lock s) (\<lambda>_ s. Ok (- 1) s))
     else bnd (release c ptable_lock s) (\<lambda>_ s. deref cur (\<lambda>(q, ct) s.
     if tid (thr s q ct) \<noteq> m_tid (mutexes s m) then
       bnd (release c mtable_lock s) (\<lambda>_ s. Ok (- 1) s)
     else bnd (acquire_tt c p s) (\<lambda>_ s.
       case find (\<lambda>t. blocked (thr s p t) \<and> chan (thr s p t) = Some (ChMutex m)) (scan_order ct) of
         Some t \<Rightarrow>
           let s = upd_thread p t (\<lambda>x. x\<lparr>chan := None, t_state := RUNNABLE, blocked := False\<rparr>) s;
               s = upd_mutex m (\<lambda>x. x\<lparr>m_tid := tid (thr s p t)\<rparr>) s in
           bnd (release_tt c p s) (\<lambda>_ s.
           bnd (release c mtable_lock s) (\<lambda>_ s. Ok 0 s))
       | None \<Rightarrow>
           bnd (release_tt c p s) (\<lambda>_ s.
           let s = upd_mutex m (\<lambda>x. x\<lparr>m_locked := False, m_tid := - 1\<rparr>) s in
           bnd (release c mtable_lock s) (\<lambda>_ s. Ok 0 s)))) s)) s)))))"

definition mutex_tid :: "int \<Rightarrow> 'a kernel_scheme \<Rightarrow> (int, 'a kernel_scheme) res" where
  "mutex_tid i s =
     (if 0 \<le> i \<and> i < int MAX_MUTEXES then Ok (m_tid (mutexes s (nat i))) s
      else Fault ''mtable.mutex out of range'')"

subsection \<open>Fields and frames\<close>

lemma upd_mutex_machine [simp]:
  "cpus (upd_mutex m f s) = cpus s" "locks (upd_mutex m f s) = locks s" "ncpu (upd_mutex m f s) = ncpu s"
  "mem (upd_mutex m f s) = mem s" "use_lock (upd_mutex m f s) = use_lock s"
  "freelist (upd_mutex m f s) = freelist s" "kern_end (upd_mutex m f s) = kern_end s"
  "procs (upd_mutex m f s) = procs s" "initproc (upd_mutex m f s) = initproc s"
  "nextpid (upd_mutex m f s) = nextpid s" "kernel.more (upd_mutex m f s) = kernel.more s"
  "thr (upd_mutex m f s) = thr s" "mutexes (upd_mutex m f s) = (mutexes s)(m := f (mutexes s m))"
  "cpu_ok c (upd_mutex m f s) = cpu_ok c s" "lock_free lk (upd_mutex m f s) = lock_free lk s"
  "lock_held c lk (upd_mutex m f s) = lock_held c lk s"
  by (simp_all add: upd_mutex_def thr_def fun_eq_iff cpu_ok_def lock_free_def lock_held_def)

lemma upd_mutex_out [simp]:
  "lock_st c lk (upd_mutex m f s) = upd_mutex m f (lock_st c lk s)"
  "unlock_st c lk (upd_mutex m f s) = upd_mutex m f (unlock_st c lk s)"
  "sect c lk (upd_mutex m f s) = upd_mutex m f (sect c lk s)"
  "cli_pass c (upd_mutex m f s) = upd_mutex m f (cli_pass c s)"
  by (simp_all add: upd_mutex_def lock_st_def unlock_st_def sect_def cli_pass_def
      upd_lock_def upd_cpu_def del: unlock_lock_sect)

subsection \<open>The outcome of every call\<close>

text \<open>The state with both table locks taken and dropped once.\<close>

definition passed :: "nat \<Rightarrow> 'a kernel_scheme \<Rightarrow> 'a kernel_scheme" where
  "passed c s = sect c mtable_lock (sect c ptable_lock s)"

lemma passed_simps [simp]:
  "procs (passed c s) = procs s" "mutexes (passed c s) = mutexes s" "thr (passed c s) = thr s"
  "mem (passed c s) = mem s" "ncpu (passed c s) = ncpu s"
  "cpu_proc (cpus (passed c s) d) = cpu_proc (cpus s d)"
  "cpu_thread (cpus (passed c s) d) = cpu_thread (cpus s d)" "ncli (cpus (passed c s) d) = ncli (cpus s d)"
  "cpu_ok c s \<Longrightarrow> cpu_ok d (passed c s) = cpu_ok d s"
  "tables_free s \<Longrightarrow> lock_free lk (passed c s) = lock_free lk s"
  "cpu_ok c s \<Longrightarrow> if_flag (cpus (passed c s) d) = if_flag (cpus s d)"
  by (simp_all add: passed_def tables_free_def)

lemma mutex_lock_eq:
  assumes run: "running c p t s" and free: "tables_free s" and m: "m < MAX_MUTEXES"
  shows "kthread_mutex_lock c (int m) s =
   (if \<not> m_allocated (mutexes s m) then Ok (- 1) (sect c mtable_lock s)
    else if \<not> mid (procs s p) m \<or> m_tid (mutexes s m) = tid (thr s p t) then Ok (- 1) (passed c s)
    else if m_locked (mutexes s m) then
      (let s1 = upd_thread p t (\<lambda>x. x\<lparr>blocked := True\<rparr>)
             (lock_st c ptable_lock (sect c mtable_lock (sect c ptable_lock s))) in
       Switch (upd_thread p t (\<lambda>x. x\<lparr>stk_intena := intena (cpus s1 c)\<rparr>) (sleep_upd p t (ChMutex m) s1)))
    else if blocked (thr s p t) then Panic ''Thread is Blocked''
    else Ok 0 (upd_mutex m (\<lambda>x. x\<lparr>m_locked := True, m_tid := tid (thr s p t)\<rparr>) (passed c s)))"
proof -
  have r: "cpu_ok c s" "ncli (cpus s c) = 0" "cpu_proc (cpus s c) = Some p"
    "cpu_thread (cpus s c) = Some (p, t)" "ttlock (procs s p) = Some ptable_lock"
    "lock_free ptable_lock s" "lock_free mtable_lock s"
    using run free by (auto simp: running_def tables_free_def)
  let ?b = "upd_thread p t (\<lambda>x. x\<lparr>blocked := True\<rparr>) (lock_st c mtable_lock (sect c ptable_lock s))"
  have sl: "sleep c (ChMutex m) (Some mtable_lock) ?b =
     (let s1 = upd_thread p t (\<lambda>x. x\<lparr>blocked := True\<rparr>)
             (lock_st c ptable_lock (sect c mtable_lock (sect c ptable_lock s))) in
       Switch (upd_thread p t (\<lambda>x. x\<lparr>stk_intena := intena (cpus s1 c)\<rparr>) (sleep_upd p t (ChMutex m) s1)))"
    using sleep_eq[of c ?b mtable_lock p t "ChMutex m"] r by (simp add: lock_st_ncli Let_def)
  show ?thesis
    using r m sl
    by (auto simp: kthread_mutex_lock_def myproc_eq mythread_eq acquire_free release_held deref_def
        Let_def mutex_take_def passed_def)
qed


text \<open>The machine part of a resumed thread: the interrupt state comes back from its stack.\<close>

definition woken :: "nat \<Rightarrow> nat \<Rightarrow> nat \<Rightarrow> 'a kernel_scheme \<Rightarrow> 'a kernel_scheme" where
  "woken c p t s = unlock_st c ptable_lock (upd_cpu c (\<lambda>x. x\<lparr>intena := stk_intena (thr s p t)\<rparr>) s)"

lemma upd_cpu_intena_ok [simp]:
  "cpu_ok d (upd_cpu c (\<lambda>x. x\<lparr>intena := b\<rparr>) s) = cpu_ok d s"
  "lock_held d lk (upd_cpu c (\<lambda>x. x\<lparr>intena := b\<rparr>) s) = lock_held d lk s"
  "lock_free lk (upd_cpu c (\<lambda>x. x\<lparr>intena := b\<rparr>) s) = lock_free lk s"
  "ncli (cpus (upd_cpu c (\<lambda>x. x\<lparr>intena := b\<rparr>) s) d) = ncli (cpus s d)"
  by (auto simp: upd_cpu_def cpu_ok_def lock_held_def lock_free_def)

lemma woken_simps [simp]:
  "procs (woken c p t s) = procs s" "mutexes (woken c p t s) = mutexes s" "thr (woken c p t s) = thr s"
  "mem (woken c p t s) = mem s" "ncpu (woken c p t s) = ncpu s"
  "cpu_proc (cpus (woken c p t s) d) = cpu_proc (cpus s d)"
  "cpu_thread (cpus (woken c p t s) d) = cpu_thread (cpus s d)"
  "lk \<noteq> ptable_lock \<Longrightarrow> lock_free lk (woken c p t s) = lock_free lk s"
  "lock_free ptable_lock (woken c p t s)"
  "cpu_ok d s \<Longrightarrow> cpu_ok c s \<Longrightarrow> 0 < ncli (cpus s c) \<Longrightarrow> cpu_ok d (woken c p t s)"
  "ncli (cpus (woken c p t s) d) = ncli (cpus s d) - (if d = c then 1 else 0)"
  by (simp_all add: woken_def unlock_st_ncli) (simp_all add: upd_cpu_def thr_def unlock_st_cpus cli_leave_def fun_eq_iff)

lemma mutex_lock_resume_eq:
  assumes "cpu_ok c s" and "ncli (cpus s c) = 1" and "lock_held c ptable_lock s"
    and "lock_free mtable_lock s" and "ttlock (procs s p) = Some ptable_lock"
  shows "kthread_mutex_lock_resume c p (p, t) m s =
   (if blocked (thr s p t) then Panic ''Thread is Blocked''
    else Ok 0 (upd_mutex m (\<lambda>x. x\<lparr>m_locked := True, m_tid := tid (thr s p t)\<rparr>)
       (upd_thread p t (\<lambda>x. x\<lparr>chan := None\<rparr>) (passed c (woken c p t s)))))"
  using sleep_resume_eq[OF assms(1-3), of mtable_lock p t] assms
  by (auto simp: kthread_mutex_lock_resume_def mutex_take_def woken_def[symmetric] acquire_free release_held
      Let_def passed_def)

definition waits_for :: "nat \<Rightarrow> thread \<Rightarrow> bool" where
  "waits_for m x \<longleftrightarrow> blocked x \<and> chan x = Some (ChMutex m)"

lemma mutex_unlock_eq:
  assumes run: "running c p t s" and free: "tables_free s" and m: "m < MAX_MUTEXES"
  shows "kthread_mutex_unlock c (int m) s =
   (if \<not> m_allocated (mutexes s m) then Ok (- 1) (sect c mtable_lock s)
    else if \<not> mid (procs s p) m \<or> m_tid (mutexes s m) \<noteq> tid (thr s p t) then Ok (- 1) (passed c s)
    else case find (\<lambda>i. waits_for m (thr s p i)) (scan_order t) of
      Some i \<Rightarrow> Ok 0 (upd_mutex m (\<lambda>x. x\<lparr>m_tid := tid (thr s p i)\<rparr>) (upd_thread p i (\<lambda>x. x\<lparr>chan := None,
          t_state := RUNNABLE, blocked := False\<rparr>) (passed c s)))
    | None \<Rightarrow> Ok 0 (upd_mutex m (\<lambda>x. x\<lparr>m_locked := False, m_tid := - 1\<rparr>) (passed c s)))"
proof -
  have r: "cpu_ok c s" "ncli (cpus s c) = 0" "cpu_proc (cpus s c) = Some p"
    "cpu_thread (cpus s c) = Some (p, t)" "ttlock (procs s p) = Some ptable_lock"
    "lock_free ptable_lock s" "lock_free mtable_lock s"
    using run free by (auto simp: running_def tables_free_def)
  show ?thesis
    using r m
    by (auto simp: kthread_mutex_unlock_def myproc_eq mythread_eq acquire_free release_held deref_def
        Let_def passed_def waits_for_def[symmetric] split: option.splits)
qed

lemma mutex_alloc_eq:
  assumes run: "running c p t s" and free: "tables_free s"
  shows "kthread_mutex_alloc c s =
   (case first_index (\<lambda>m. \<not> m_allocated (mutexes s m)) MAX_MUTEXES of
      None \<Rightarrow> Ok (- 1) (sect c mtable_lock s)
    | Some i \<Rightarrow> Ok (int i) (upd_proc p (\<lambda>P. P\<lparr>mid := (mid P)(i := True)\<rparr>)
        (upd_mutex i (\<lambda>m. m\<lparr>m_allocated := True, m_name := Some p, m_locked := False, m_tid := - 1\<rparr>)
          (passed c s))))"
  using run free
  by (auto simp: running_def tables_free_def kthread_mutex_alloc_def myproc_eq acquire_free release_held
      deref_def Let_def passed_def split: option.splits)

lemma mutex_dealloc_eq:
  assumes run: "running c p t s" and free: "tables_free s" and m: "m < MAX_MUTEXES"
  shows "kthread_mutex_dealloc c (int m) s =
   (if \<not> m_allocated (mutexes s m) then Ok (- 1) (sect c mtable_lock s)
    else if \<not> mid (procs s p) m \<or> m_locked (mutexes s m) then Ok (- 1) (passed c s)
    else Ok 0 (upd_proc p (\<lambda>P. P\<lparr>mid := (mid P)(m := False)\<rparr>)
        (upd_mutex m (\<lambda>m. m\<lparr>m_allocated := False, m_name := None, m_locked := False, m_tid := - 1\<rparr>)
          (passed c s))))"
  using run free m
  by (auto simp: running_def tables_free_def kthread_mutex_dealloc_def myproc_eq acquire_free release_held
      deref_def Let_def passed_def)

end
