(* ===== verification/Vm.thy ===== *)
theory Vm
  imports Kthread
begin

text \<open>
  \<open>vm.c\<close>: two-level page tables in the byte memory. The kernel sees physical memory through its
  direct map, so page directories, page tables and frames are read and written at their kernel
  addresses. \<open>loaduvm\<close>, which reads a file, is in \<open>Exec\<close>.

  \<open>cr3\<close> and the TSS fields of the record \<open>cpu\<close> are what \<open>switchuvm\<close> loads; the segment descriptor
  of the TSS and \<open>ltr\<close> have no further effect here. \<open>cprintf\<close> calls are left out.
\<close>

record vmstate = kernel +
  kpgdir :: uint
  sym_data :: uint

subsection \<open>The code\<close>

definition walkpgdir :: "nat \<Rightarrow> uint \<Rightarrow> uint \<Rightarrow> bool \<Rightarrow> 'a kmem_scheme \<Rightarrow> (uint, 'a kmem_scheme) res" where
  "walkpgdir c dir va alloc s =
     (let pde = dir + 4 * PDX va in
      if load32 (mem s) pde AND PTE_P \<noteq> 0
      then Ok (P2V (PTE_ADDR (load32 (mem s) pde)) + 4 * PTX va) s
      else if \<not> alloc then Ok 0 s
      else bnd (kalloc c s) (\<lambda>pgtab s.
        if pgtab = 0 then Ok 0 s
        else
          let s = s\<lparr>mem := memset (mem s) pgtab 0 PGSIZE\<rparr>;
              s = s\<lparr>mem := store32 (mem s) pde (V2P pgtab OR PTE_P OR PTE_W OR PTE_U)\<rparr>
          in Ok (pgtab + 4 * PTX va) s))"

text \<open>
  The loop of \<open>mappages\<close>. Its last argument is the number of pages from \<open>a\<close> to \<open>last\<close>; both are
  page aligned, so that \<open>a == last\<close> exactly when it is 0.
\<close>

fun mappages_loop :: "nat \<Rightarrow> uint \<Rightarrow> uint \<Rightarrow> uint \<Rightarrow> uint \<Rightarrow> nat \<Rightarrow> 'a kmem_scheme \<Rightarrow>
    (int, 'a kmem_scheme) res" where
  "mappages_loop c dir a pa perm n s =
     bnd (walkpgdir c dir a True s) (\<lambda>pte s.
     if pte = 0 then Ok (- 1) s
     else if load32 (mem s) pte AND PTE_P \<noteq> 0 then Panic ''remap''
     else
       let s = s\<lparr>mem := store32 (mem s) pte (pa OR perm OR PTE_P)\<rparr> in
       case n of 0 \<Rightarrow> Ok 0 s
       | Suc k \<Rightarrow> mappages_loop c dir (a + PGSIZE) (pa + PGSIZE) perm k s)"

declare mappages_loop.simps [simp del]

definition mappages :: "nat \<Rightarrow> uint \<Rightarrow> uint \<Rightarrow> uint \<Rightarrow> uint \<Rightarrow> uint \<Rightarrow> 'a kmem_scheme \<Rightarrow>
    (int, 'a kmem_scheme) res" where
  "mappages c dir va len pa perm s =
     (let a = PGROUNDDOWN va; last = PGROUNDDOWN (va + len - 1) in
      mappages_loop c dir a pa perm (unat ((last - a) div PGSIZE)) s)"

text \<open>
  The loop of \<open>deallocuvm\<close>. An address that does not grow any more has wrapped: from there the loop
  of the source would start over at address 0. No caller passes a size above \<open>KERNBASE\<close>.
\<close>

definition next_dealloc :: "uint \<Rightarrow> uint \<Rightarrow> uint" where
  "next_dealloc pte a = (if pte = 0 then PGADDR (PDX a + 1) 0 0 - PGSIZE else a) + PGSIZE"

function deallocuvm_loop :: "nat \<Rightarrow> uint \<Rightarrow> uint \<Rightarrow> uint \<Rightarrow> 'a kmem_scheme \<Rightarrow>
    (unit, 'a kmem_scheme) res" where
  "deallocuvm_loop c dir oldsz a s =
     (if a < oldsz then
        bnd (walkpgdir c dir a False s) (\<lambda>pte s.
        bnd (if pte \<noteq> 0 \<and> load32 (mem s) pte AND PTE_P \<noteq> 0 then
               let pa = PTE_ADDR (load32 (mem s) pte) in
               if pa = 0 then Panic ''kfree''
               else bnd (kfree c (P2V pa) s) (\<lambda>_ s. Ok () (s\<lparr>mem := store32 (mem s) pte 0\<rparr>))
             else Ok () s) (\<lambda>_ s.
        if next_dealloc pte a \<le> a then Fault ''deallocuvm wraps''
        else deallocuvm_loop c dir oldsz (next_dealloc pte a) s))
      else Ok () s)"
  by pat_completeness auto
termination
proof (relation "measure (\<lambda>(c, dir, oldsz, a, s). 2 ^ 32 - unat a)")
  fix a :: uint and pte c dir oldsz and s s' :: "'a kmem_scheme"
  assume "\<not> next_dealloc pte a \<le> a"
  then have "unat a < unat (next_dealloc pte a)" by (simp add: not_le word_less_nat_alt)
  moreover have "unat (next_dealloc pte a) < 2 ^ 32" using unat_lt32 by simp
  ultimately show "((c, dir, oldsz, next_dealloc pte a, s'), c, dir, oldsz, a, s) \<in>
      measure (\<lambda>(c, dir, oldsz, a, s). 2 ^ 32 - unat a)" by simp
qed simp

declare deallocuvm_loop.simps [simp del]

definition deallocuvm :: "nat \<Rightarrow> uint \<Rightarrow> uint \<Rightarrow> uint \<Rightarrow> 'a kmem_scheme \<Rightarrow> (uint, 'a kmem_scheme) res" where
  "deallocuvm c dir oldsz newsz s =
     (if newsz \<ge> oldsz then Ok oldsz s
      else bnd (deallocuvm_loop c dir oldsz (PGROUNDUP newsz) s) (\<lambda>_ s. Ok newsz s))"

definition freevm :: "nat \<Rightarrow> uint \<Rightarrow> 'a kmem_scheme \<Rightarrow> (unit, 'a kmem_scheme) res" where
  "freevm c dir s =
     (if dir = 0 then Panic ''freevm: no pgdir''
      else bnd (deallocuvm c dir KERNBASE 0 s) (\<lambda>_ s.
        bnd (for_each [0..<1024] (\<lambda>i s.
               if load32 (mem s) (dir + 4 * of_nat i) AND PTE_P \<noteq> 0
               then kfree c (P2V (PTE_ADDR (load32 (mem s) (dir + 4 * of_nat i)))) s
               else Ok () s) s) (\<lambda>_ s.
        kfree c dir s)))"

abbreviation (input) KERNLINK :: uint where "KERNLINK \<equiv> KERNBASE + EXTMEM"

text \<open>The table \<open>kmap\<close>: virtual start, physical start and end, permissions.\<close>

definition kmap :: "uint \<Rightarrow> (uint \<times> uint \<times> uint \<times> uint) list" where
  "kmap data =
     [(KERNBASE, 0, EXTMEM, PTE_W), (KERNLINK, V2P KERNLINK, V2P data, 0),
      (data, V2P data, PHYSTOP, PTE_W), (DEVSPACE, DEVSPACE, 0, PTE_W)]"

fun setupkvm_loop :: "nat \<Rightarrow> uint \<Rightarrow> (uint \<times> uint \<times> uint \<times> uint) list \<Rightarrow> 'a kmem_scheme \<Rightarrow>
    (uint, 'a kmem_scheme) res" where
  "setupkvm_loop c dir [] s = Ok dir s"
| "setupkvm_loop c dir ((virt, phys_start, phys_end, perm) # ks) s =
     bnd (mappages c dir virt (phys_end - phys_start) phys_start perm s) (\<lambda>r s.
     if r < 0 then bnd (freevm c dir s) (\<lambda>_ s. Ok 0 s) else setupkvm_loop c dir ks s)"

definition setupkvm :: "nat \<Rightarrow> 'a vmstate_scheme \<Rightarrow> (uint, 'a vmstate_scheme) res" where
  "setupkvm c s =
     bnd (kalloc c s) (\<lambda>dir s.
     if dir = 0 then Ok 0 s
     else
       let s = s\<lparr>mem := memset (mem s) dir 0 PGSIZE\<rparr> in
       if P2V PHYSTOP > DEVSPACE then Panic ''PHYSTOP too high''
       else setupkvm_loop c dir (kmap (sym_data s)) s)"

definition switchkvm :: "nat \<Rightarrow> 'a vmstate_scheme \<Rightarrow> 'a vmstate_scheme" where
  "switchkvm c s = upd_cpu c (\<lambda>x. x\<lparr>cr3 := V2P (kpgdir s)\<rparr>) s"

definition kvmalloc :: "nat \<Rightarrow> 'a vmstate_scheme \<Rightarrow> (unit, 'a vmstate_scheme) res" where
  "kvmalloc c s = bnd (setupkvm c s) (\<lambda>dir s. Ok () (switchkvm c (s\<lparr>kpgdir := dir\<rparr>)))"

abbreviation (input) SEG_KDATA :: ushort where "SEG_KDATA \<equiv> 2"

definition switchuvm :: "nat \<Rightarrow> nat option \<Rightarrow> 'a kernel_scheme \<Rightarrow> (unit, 'a kernel_scheme) res" where
  "switchuvm c p s =
     (case p of None \<Rightarrow> Panic ''switchuvm: no process'' | Some p \<Rightarrow>
     bnd (mythread c s) (\<lambda>qt s.
     case qt of None \<Rightarrow> Panic ''switchuvm: no thrad'' | Some (q, t) \<Rightarrow>
     if kstack (thr s q t) = 0 then Panic ''switchuvm: no kstack''
     else if pgdir (procs s p) = 0 then Panic ''switchuvm: no pgdir''
     else bnd (pushcli c s) (\<lambda>_ s.
       bnd (mycpu c s) (\<lambda>k s.
       let s = upd_cpu k (\<lambda>x. x\<lparr>ts_ss0 := push_bit 3 SEG_KDATA\<rparr>) s;
           s = upd_cpu k (\<lambda>x. x\<lparr>ts_esp0 := kstack (thr s q t) + KSTACKSIZE\<rparr>) s;
           s = upd_cpu k (\<lambda>x. x\<lparr>ts_iomb := 0xFFFF\<rparr>) s;
           s = upd_cpu c (\<lambda>x. x\<lparr>cr3 := V2P (pgdir (procs s p))\<rparr>) s
       in popcli c s))))"

text \<open>\<open>inituvm\<close> reads \<open>sz\<close> bytes of \<open>initcode\<close> at kernel address \<open>init\<close>.\<close>

definition inituvm :: "nat \<Rightarrow> uint \<Rightarrow> uint \<Rightarrow> uint \<Rightarrow> 'a kmem_scheme \<Rightarrow> (unit, 'a kmem_scheme) res" where
  "inituvm c dir init n s =
     (if n \<ge> PGSIZE then Panic ''inituvm: more than a page''
      else bnd (kalloc c s) (\<lambda>frame s.
        let s = s\<lparr>mem := memset (mem s) frame 0 PGSIZE\<rparr> in
        bnd (mappages c dir 0 PGSIZE (V2P frame) (PTE_W OR PTE_U) s) (\<lambda>_ s.
        Ok () (s\<lparr>mem := memmove (mem s) frame init n\<rparr>))))"

text \<open>
  The values of a loop counter that steps by \<open>PGSIZE\<close> from \<open>a\<close> while it is below \<open>hi\<close>. The callers'
  bounds are at most \<open>KERNBASE\<close>, so the counter does not wrap.
\<close>

function pages_from :: "uint \<Rightarrow> uint \<Rightarrow> uint list" where
  "pages_from a hi =
     (if a < hi then a # (if a + PGSIZE < a then [] else pages_from (a + PGSIZE) hi) else [])"
  by pat_completeness auto
termination
proof (relation "measure (\<lambda>(a, hi). 2 ^ 32 - unat a)")
  fix a hi :: uint
  assume "\<not> a + PGSIZE < a"
  then have le: "unat a \<le> unat (a + PGSIZE)" by (simp add: not_less word_le_nat_alt)
  have "unat a < 2 ^ 32" "unat (a + PGSIZE) < 2 ^ 32" using unat_lt32 by simp_all
  moreover have "unat a \<noteq> unat (a + PGSIZE)" by (simp add: word_unat_eq_iff[symmetric])
  ultimately show "((a + PGSIZE, hi), a, hi) \<in> measure (\<lambda>(a, hi). 2 ^ 32 - unat a)" using le by auto
qed simp

declare pages_from.simps [simp del]

fun allocuvm_loop :: "nat \<Rightarrow> uint \<Rightarrow> uint \<Rightarrow> uint \<Rightarrow> uint list \<Rightarrow> 'a kmem_scheme \<Rightarrow>
    (uint, 'a kmem_scheme) res" where
  "allocuvm_loop c dir oldsz newsz [] s = Ok newsz s"
| "allocuvm_loop c dir oldsz newsz (a # as) s =
     bnd (kalloc c s) (\<lambda>frame s.
     if frame = 0 then bnd (deallocuvm c dir newsz oldsz s) (\<lambda>_ s. Ok 0 s)
     else
       let s = s\<lparr>mem := memset (mem s) frame 0 PGSIZE\<rparr> in
       bnd (mappages c dir a PGSIZE (V2P frame) (PTE_W OR PTE_U) s) (\<lambda>r s.
       if r < 0 then
         bnd (deallocuvm c dir newsz oldsz s) (\<lambda>_ s.
         bnd (kfree c frame s) (\<lambda>_ s. Ok 0 s))
       else allocuvm_loop c dir oldsz newsz as s))"

definition allocuvm :: "nat \<Rightarrow> uint \<Rightarrow> uint \<Rightarrow> uint \<Rightarrow> 'a kmem_scheme \<Rightarrow> (uint, 'a kmem_scheme) res" where
  "allocuvm c dir oldsz newsz s =
     (if newsz \<ge> KERNBASE then Ok 0 s
      else if newsz < oldsz then Ok oldsz s
      else allocuvm_loop c dir oldsz newsz (pages_from (PGROUNDUP oldsz) newsz) s)"

definition clearpteu :: "nat \<Rightarrow> uint \<Rightarrow> uint \<Rightarrow> 'a kmem_scheme \<Rightarrow> (unit, 'a kmem_scheme) res" where
  "clearpteu c dir uva s =
     bnd (walkpgdir c dir uva False s) (\<lambda>pte s.
     if pte = 0 then Panic ''clearpteu''
     else Ok () (s\<lparr>mem := store32 (mem s) pte (load32 (mem s) pte AND NOT PTE_U)\<rparr>))"

fun copyuvm_loop :: "nat \<Rightarrow> uint \<Rightarrow> uint \<Rightarrow> uint list \<Rightarrow> 'a kmem_scheme \<Rightarrow> (uint, 'a kmem_scheme) res" where
  "copyuvm_loop c dir d [] s = Ok d s"
| "copyuvm_loop c dir d (i # is) s =
     bnd (walkpgdir c dir i False s) (\<lambda>pte s.
     if pte = 0 then Panic ''copyuvm: pte should exist''
     else if load32 (mem s) pte AND PTE_P = 0 then Panic ''copyuvm: page not present''
     else
       let pa = PTE_ADDR (load32 (mem s) pte); flags = PTE_FLAGS (load32 (mem s) pte) in
       bnd (kalloc c s) (\<lambda>frame s.
       if frame = 0 then bnd (freevm c d s) (\<lambda>_ s. Ok 0 s)
       else
         let s = s\<lparr>mem := memmove (mem s) frame (P2V pa) PGSIZE\<rparr> in
         bnd (mappages c d i PGSIZE (V2P frame) flags s) (\<lambda>r s.
         if r < 0 then
           bnd (kfree c frame s) (\<lambda>_ s.
           bnd (freevm c d s) (\<lambda>_ s. Ok 0 s))
         else copyuvm_loop c dir d is s)))"

definition copyuvm :: "nat \<Rightarrow> uint \<Rightarrow> uint \<Rightarrow> 'a vmstate_scheme \<Rightarrow> (uint, 'a vmstate_scheme) res" where
  "copyuvm c dir n s =
     bnd (setupkvm c s) (\<lambda>d s.
     if d = 0 then Ok 0 s else copyuvm_loop c dir d (pages_from 0 n) s)"

text \<open>\<open>uva2ka\<close> dereferences what \<open>walkpgdir\<close> returns without a test; a null pointer faults.\<close>

definition uva2ka :: "nat \<Rightarrow> uint \<Rightarrow> uint \<Rightarrow> 'a kmem_scheme \<Rightarrow> (uint, 'a kmem_scheme) res" where
  "uva2ka c dir uva s =
     bnd (walkpgdir c dir uva False s) (\<lambda>pte s.
     if pte = 0 then Fault ''null pointer''
     else if load32 (mem s) pte AND PTE_P = 0 then Ok 0 s
     else if load32 (mem s) pte AND PTE_U = 0 then Ok 0 s
     else Ok (P2V (PTE_ADDR (load32 (mem s) pte))) s)"

lemma copyout_dec:
  fixes len va :: uint
  assumes "len \<noteq> 0"
  defines "n \<equiv> PGSIZE - (va - PGROUNDDOWN va)"
  shows "unat (len - (if n > len then len else n)) < unat len"
proof -
  have "unat (PGROUNDDOWN va) \<le> unat va" by (simp add: unat_PGROUNDDOWN)
  then have "unat (va - PGROUNDDOWN va) = unat va mod 4096"
    by (simp add: unat_sub word_le_nat_alt unat_PGROUNDDOWN minus_div_mult_eq_mod)
  then have o: "unat (va - PGROUNDDOWN va) < 4096" by simp
  then have "unat n = 4096 - unat (va - PGROUNDDOWN va)"
    unfolding n_def by (subst unat_sub) (auto simp: word_le_nat_alt)
  then have "0 < unat n" using o by simp
  moreover have "0 < unat len" using assms by (simp add: unat_gt_0)
  ultimately show ?thesis by (auto simp: not_less unat_sub word_le_nat_alt)
qed

function copyout :: "nat \<Rightarrow> uint \<Rightarrow> uint \<Rightarrow> uint \<Rightarrow> uint \<Rightarrow> 'a kmem_scheme \<Rightarrow>
    (int, 'a kmem_scheme) res" where
  "copyout c dir va buf len s =
     (if len > 0 then
        let va0 = PGROUNDDOWN va in
        bnd (uva2ka c dir va0 s) (\<lambda>pa0 s.
        if pa0 = 0 then Ok (- 1) s
        else
          let n = PGSIZE - (va - va0);
              n = (if n > len then len else n);
              s = s\<lparr>mem := memmove (mem s) (pa0 + (va - va0)) buf n\<rparr>
          in copyout c dir (va0 + PGSIZE) (buf + n) (len - n) s)
      else Ok 0 s)"
  by pat_completeness auto
termination
proof (relation "measure (\<lambda>(c, dir, va, buf, len, s). unat len)")
  fix len va :: uint and va0 n n' c dir buf x and s s' :: "'a kmem_scheme"
  assume "0 < len" "va0 = PGROUNDDOWN va" "n = PGSIZE - (va - va0)" "n' = (if len < n then len else n)"
  then show "((c, dir, va0 + PGSIZE, buf + n', len - n', x), c, dir, va, buf, len, s) \<in>
      measure (\<lambda>(c, dir, va, buf, len, s). unat len)"
    using copyout_dec[of len va] by (simp add: word_gt_0 split: if_splits)
qed simp

declare copyout.simps [simp del]

end
