(* ===== verification/Addrspace.thy ===== *)
theory Addrspace
  imports Vm
begin

text \<open>
  What the calls of \<open>vm.c\<close> do to an address space. A page table in memory is abstracted to the map
  from virtual addresses to frames and flags (\<open>mapping\<close>), under an invariant that ties it to the
  page allocator: the table's pages, the frames of the user half and the free pages are disjoint,
  and no two user pages share a frame (\<open>space_inv\<close>). Growing and shrinking keep the invariant, and
  their effect is an update of the map.
\<close>

subsection \<open>Slots of a page\<close>

lemma aligned4_sep:
  fixes x y :: uint
  assumes "unat x mod 4 = 0" "unat y mod 4 = 0" "x \<noteq> y"
  shows "4 \<le> x - y"
proof -
  have d: "4 dvd unat x" "4 dvd unat y" using assms by (simp_all add: dvd_eq_mod_eq_0)
  have "4 dvd unat (x - y)"
    using d unat_sub_if_size[of x y] by (auto simp: word_size intro: dvd_diff_nat)
  moreover have "unat (x - y) \<noteq> 0" using assms(3) by (simp add: unat_eq_zero)
  ultimately have "4 \<le> unat (x - y)" by (auto elim!: dvdE)
  then show ?thesis by (simp add: word_le_nat_alt)
qed

lemma unat_slot:
  assumes "page_aligned p" "i < 1024"
  shows "unat (p + 4 * i) = unat p + 4 * unat i"
proof -
  obtain k where k: "unat p = 4096 * k" using assms(1) by (auto simp: page_aligned_unat mod_eq_0_iff_dvd elim: dvdE)
  have "unat p < 4294967296" using unat_lt32 .
  then have p: "unat p \<le> 4294963200" using k by simp
  have i: "unat i < 1024" using assms(2) by (simp add: word_less_nat_alt)
  then have "unat (4 * i) = 4 * unat i" by (simp add: unat_word_ariths)
  then show ?thesis using p i by (simp add: unat_plus_if_size word_size)
qed

lemma slot_inj:
  assumes "page_aligned p" "page_aligned q" "i < 1024" "j < 1024"
  shows "p + 4 * i = q + 4 * j \<longleftrightarrow> p = q \<and> i = j"
proof -
  have ij: "unat i < 1024" "unat j < 1024" using assms(3,4) by (simp_all add: word_less_nat_alt)
  have "4096 dvd unat p" "4096 dvd unat q"
    using assms(1,2) by (simp_all add: page_aligned_unat mod_eq_0_iff_dvd)
  then obtain k l where kl: "unat p = 4096 * k" "unat q = 4096 * l" by (auto elim!: dvdE)
  have "unat p + 4 * unat i = unat q + 4 * unat j \<longleftrightarrow> unat p = unat q \<and> unat i = unat j"
  proof (cases k l rule: linorder_cases)
    case less
    then have "4096 * k + 4096 \<le> 4096 * l" by simp
    then show ?thesis unfolding kl using ij less by linarith
  next
    case greater
    then have "4096 * l + 4096 \<le> 4096 * k" by simp
    then show ?thesis unfolding kl using ij greater by linarith
  qed (simp add: kl)
  then show ?thesis
    by (metis unat_slot[OF assms(1,3)] unat_slot[OF assms(2,4)] word_unat_eq_iff)
qed

lemma load32_slot:
  assumes "page_aligned p" "page_aligned q" "i < 1024" "j < 1024"
  shows "load32 (store32 m (q + 4 * j) v) (p + 4 * i) =
    (if p = q \<and> i = j then v else load32 m (p + 4 * i))"
proof (cases "p = q \<and> i = j")
  case False
  have "unat p mod 4 = 0" "unat q mod 4 = 0"
    using assms(1,2) by (auto simp: page_aligned_unat mod_eq_0_iff_dvd dest: dvd_trans[rotated, of 4096 _ 4])
  then have al: "unat (p + 4 * i) mod 4 = 0" "unat (q + 4 * j) mod 4 = 0"
    using unat_slot assms by (simp_all add: mod_add_eq[symmetric])
  have "p + 4 * i \<noteq> q + 4 * j" using False slot_inj[OF assms] by simp
  then have "load32 (store32 m (q + 4 * j) v) (p + 4 * i) = load32 m (p + 4 * i)"
    using al by (intro load32_store32_other aligned4_sep) auto
  then show ?thesis using False by auto
qed auto

lemma slot_offset:
  assumes "i < 1024" "k < 4"
  shows "4 * i + k < PGSIZE"
proof -
  have i: "unat i < 1024" "unat k < 4" using assms by (simp_all add: word_less_nat_alt)
  then have "unat (4 * i) = 4 * unat i" by (simp add: unat_word_ariths)
  then have "unat (4 * i + k) = 4 * unat i + unat k" using i by (simp add: unat_plus_if_size word_size)
  then show ?thesis using i by (simp add: word_less_nat_alt)
qed

lemma load32_memset_page:
  assumes "page_aligned p" "page_aligned q" "i < 1024"
  shows "load32 (memset m q 0 PGSIZE) (p + 4 * i) = (if p = q then 0 else load32 m (p + 4 * i))"
proof (cases "p = q")
  case True
  have "load32 (memset m q 0 PGSIZE) (q + 4 * i) = load32 (\<lambda>_. 0) (q + 4 * i)"
    by (rule load32_cong) (use slot_offset[OF assms(3)] in \<open>simp add: memset_apply add.assoc\<close>)
  then show ?thesis using True by (simp add: load32_def)
next
  case False
  have "load32 (memset m q 0 PGSIZE) (p + 4 * i) = load32 m (p + 4 * i)"
  proof (rule load32_cong)
    fix k :: uint
    assume "k < 4"
    then have "PGSIZE \<le> p + (4 * i + k) - q"
      using page_separate[OF assms(1,2) False] slot_offset[OF assms(3)] by blast
    then show "memset m q 0 PGSIZE (p + 4 * i + k) = m (p + 4 * i + k)"
      by (simp add: memset_apply not_less[symmetric] add.assoc)
  qed
  then show ?thesis using False by simp
qed

lemma PDX_less [simp]: "PDX va < 1024" and PTX_less [simp]: "PTX va < 1024"
proof -
  have "unat (x AND 0x3FF) < 1024" for x :: uint
  proof -
    have "x AND 0x3FF = take_bit 10 x" by (simp add: take_bit_eq_mask mask_eq_exp_minus_1)
    then show ?thesis by (simp add: take_bit_eq_mod unat_mod_distrib)
  qed
  then show "PDX va < 1024" "PTX va < 1024" by (simp_all add: PDX_def PTX_def word_less_nat_alt)
qed

lemma PTE_ADDR_or:
  assumes "page_aligned pa" "perm < 4096"
  shows "PTE_ADDR (pa OR perm) = pa" "PTE_FLAGS (pa OR perm) = perm"
proof -
  have pa: "take_bit 12 pa = 0" using assms(1) by (simp add: page_aligned_def take_bit_eq_mod)
  have perm: "take_bit 12 perm = perm" using assms(2) by (simp add: take_bit_eq_mod word_less_nat_alt unat_mod_distrib word_unat_eq_iff)
  have m: "(0xFFF :: uint) = mask 12" by (simp add: mask_eq_exp_minus_1)
  have hi: "\<not> bit pa n" if "n < 12" for n using pa that by (metis bit_take_bit_iff bit_0_eq bot_apply bot_bool_def)
  have lo: "n < 12" if "bit perm n" for n using perm that by (metis bit_take_bit_iff)
  show "PTE_ADDR (pa OR perm) = pa" unfolding PTE_ADDR_def m
    by (rule bit_word_eqI) (use hi lo in \<open>auto simp: bit_simps\<close>)
  show "PTE_FLAGS (pa OR perm) = perm" unfolding PTE_FLAGS_def m
    by (rule bit_word_eqI) (use hi lo in \<open>auto simp: bit_simps\<close>)
qed

subsection \<open>A page table as a map\<close>

text \<open>
  \<open>tabs\<close> names the page-table page of each directory entry. \<open>pt_inv\<close> says that the directory in
  memory is that map, that the pages are distinct, and that none of them is the directory.
\<close>

definition pt_inv :: "memory \<Rightarrow> uint \<Rightarrow> (uint \<Rightarrow> uint option) \<Rightarrow> bool" where
  "pt_inv m dir tabs \<longleftrightarrow> page_aligned dir \<and>
     (\<forall>i<1024. case tabs i of
        None \<Rightarrow> load32 m (dir + 4 * i) AND PTE_P = 0
      | Some p \<Rightarrow> load32 m (dir + 4 * i) AND PTE_P \<noteq> 0 \<and>
          P2V (PTE_ADDR (load32 m (dir + 4 * i))) = p \<and> page_aligned p \<and> p \<noteq> 0 \<and> p \<noteq> dir) \<and>
     (\<forall>i<1024. \<forall>j<1024. \<forall>p. tabs i = Some p \<and> tabs j = Some p \<longrightarrow> i = j)"

definition tab_pages :: "uint \<Rightarrow> (uint \<Rightarrow> uint option) \<Rightarrow> uint set" where
  "tab_pages dir tabs = insert dir {p. \<exists>i<1024. tabs i = Some p}"

text \<open>The frame and the flags a virtual address is mapped to.\<close>

definition entry_map :: "uint \<Rightarrow> (uint \<times> uint) option" where
  "entry_map e = (if e AND PTE_P = 0 then None else Some (PTE_ADDR e, PTE_FLAGS e))"

definition mapping :: "memory \<Rightarrow> uint \<Rightarrow> uint \<Rightarrow> (uint \<times> uint) option" where
  "mapping m dir va =
     (let pde = load32 m (dir + 4 * PDX va) in
      if pde AND PTE_P = 0 then None else entry_map (load32 m (P2V (PTE_ADDR pde) + 4 * PTX va)))"

lemma pt_inv_None: "pt_inv m dir tabs \<Longrightarrow> i < 1024 \<Longrightarrow> tabs i = None \<Longrightarrow> load32 m (dir + 4 * i) AND PTE_P = 0"
  and pt_inv_Some: "pt_inv m dir tabs \<Longrightarrow> i < 1024 \<Longrightarrow> tabs i = Some p \<Longrightarrow>
    load32 m (dir + 4 * i) AND PTE_P \<noteq> 0 \<and> P2V (PTE_ADDR (load32 m (dir + 4 * i))) = p \<and>
    page_aligned p \<and> p \<noteq> 0 \<and> p \<noteq> dir"
  by (auto simp: pt_inv_def split: option.splits)

lemma pt_inv_inj: "pt_inv m dir tabs \<Longrightarrow> i < 1024 \<Longrightarrow> j < 1024 \<Longrightarrow> tabs i = Some p \<Longrightarrow> tabs j = Some p \<Longrightarrow> i = j"
  unfolding pt_inv_def by blast

lemma pt_inv_aligned: "pt_inv m dir tabs \<Longrightarrow> page_aligned dir"
  by (simp add: pt_inv_def)

lemma mapping_tabs:
  "pt_inv m dir tabs \<Longrightarrow> mapping m dir va =
     (case tabs (PDX va) of None \<Rightarrow> None | Some p \<Rightarrow> entry_map (load32 m (p + 4 * PTX va)))"
  using pt_inv_None[of m dir tabs "PDX va"] pt_inv_Some[of m dir tabs "PDX va"]
  by (auto simp: mapping_def Let_def split: option.splits)

lemma slot_nonzero: "page_aligned p \<Longrightarrow> p \<noteq> 0 \<Longrightarrow> i < 1024 \<Longrightarrow> p + 4 * i \<noteq> 0"
  using slot_inj[of p 0 i 0] by (simp add: page_aligned_def)

lemma walkpgdir_found:
  assumes "pt_inv (mem s) dir tabs" "tabs (PDX va) = Some p"
  shows "walkpgdir c dir va alloc s = Ok (p + 4 * PTX va) s" "p + 4 * PTX va \<noteq> 0"
  using pt_inv_Some[OF assms(1) _ assms(2)] slot_nonzero[of p "PTX va"]
  by (auto simp: walkpgdir_def Let_def)

lemma walkpgdir_absent:
  "pt_inv (mem s) dir tabs \<Longrightarrow> tabs (PDX va) = None \<Longrightarrow> walkpgdir c dir va False s = Ok 0 s"
  using pt_inv_None[of "mem s" dir tabs "PDX va"] by (simp add: walkpgdir_def Let_def)

text \<open>Memory that agrees on the pages of the table gives the same table.\<close>

lemma load32_page_cong:
  assumes "\<And>x. x - p < PGSIZE \<Longrightarrow> m' x = m x" "i < 1024"
  shows "load32 m' (p + 4 * i) = load32 m (p + 4 * i)"
proof (rule load32_cong)
  fix k :: uint
  assume "k < 4"
  then have "p + 4 * i + k - p < PGSIZE" using slot_offset[OF assms(2)] by (simp add: add.assoc)
  then show "m' (p + 4 * i + k) = m (p + 4 * i + k)" by (rule assms(1))
qed

lemma pt_inv_cong:
  assumes "pt_inv m dir tabs" and "\<And>q x. q \<in> tab_pages dir tabs \<Longrightarrow> x - q < PGSIZE \<Longrightarrow> m' x = m x"
  shows "pt_inv m' dir tabs" "mapping m' dir = mapping m dir"
proof -
  have d: "load32 m' (dir + 4 * i) = load32 m (dir + 4 * i)" if "i < 1024" for i
    by (rule load32_page_cong) (use assms(2) that in \<open>auto simp: tab_pages_def\<close>)
  show i': "pt_inv m' dir tabs" using assms(1) d by (simp add: pt_inv_def cong: option.case_cong)
  have "load32 m' (p + 4 * j) = load32 m (p + 4 * j)" if "tabs i = Some p" "i < 1024" "j < 1024" for i j p
    by (rule load32_page_cong) (use assms(2) that in \<open>auto simp: tab_pages_def\<close>)
  then show "mapping m' dir = mapping m dir"
    by (auto simp: fun_eq_iff mapping_tabs[OF assms(1)] mapping_tabs[OF i'] split: option.splits)
qed

lemma pt_inv_pages_aligned: "pt_inv m dir tabs \<Longrightarrow> q \<in> tab_pages dir tabs \<Longrightarrow> page_aligned q"
  using pt_inv_Some[of m dir tabs] by (auto simp: tab_pages_def pt_inv_aligned)

lemma page_bytes_sep:
  assumes "page_aligned p" "page_aligned q" "p \<noteq> q" "x - q < PGSIZE"
  shows "PGSIZE \<le> x - p"
  using page_separate[OF assms(2,1) _ assms(4)] assms(3) by simp

text \<open>Installing a fresh, zeroed page table for a directory entry changes no mapping.\<close>

lemma pt_inv_new_table:
  assumes inv: "pt_inv m dir tabs" and i: "i < 1024" "tabs i = None"
    and x: "page_aligned x" "x \<noteq> 0" "x \<notin> tab_pages dir tabs"
  defines "m' \<equiv> store32 (memset m x 0 PGSIZE) (dir + 4 * i) (V2P x OR PTE_P OR PTE_W OR PTE_U)"
  shows "pt_inv m' dir (tabs(i := Some x))" "mapping m' dir = mapping m dir"
proof -
  have ad: "page_aligned dir" using inv by (rule pt_inv_aligned)
  have xd: "x \<noteq> dir" "\<And>j. j < 1024 \<Longrightarrow> tabs j \<noteq> Some x" using x(3) by (auto simp: tab_pages_def)
  have kb: "page_aligned KERNBASE" by (simp add: page_aligned_def)
  have vx: "page_aligned (V2P x)" unfolding V2P_def by (rule page_aligned_diff[OF x(1) kb])
  have pde: "(V2P x OR 7) AND PTE_P \<noteq> 0" "P2V (PTE_ADDR (V2P x OR 7)) = x"
  proof -
    have "bit ((V2P x OR 7) AND 1) 0" by (simp add: bit_simps)
    then show "(V2P x OR 7) AND PTE_P \<noteq> 0" by (metis bit_0_eq bot_apply bot_bool_def)
    show "P2V (PTE_ADDR (V2P x OR 7)) = x" using PTE_ADDR_or(1)[OF vx, of 7] by simp
  qed
  have or7: "V2P x OR PTE_P OR PTE_W OR PTE_U = V2P x OR 7" by (simp add: or.assoc)
  have dirs: "load32 m' (dir + 4 * j) = (if j = i then V2P x OR 7 else load32 m (dir + 4 * j))"
    if "j < 1024" for j
    using load32_slot[OF ad ad that i(1)] load32_memset_page[OF ad x(1) that] xd(1)
    by (simp add: m'_def or7)
  have "case (tabs(i := Some x)) j of None \<Rightarrow> load32 m' (dir + 4 * j) AND PTE_P = 0
      | Some p \<Rightarrow> load32 m' (dir + 4 * j) AND PTE_P \<noteq> 0 \<and> P2V (PTE_ADDR (load32 m' (dir + 4 * j))) = p \<and>
          page_aligned p \<and> p \<noteq> 0 \<and> p \<noteq> dir" if "j < 1024" for j
    using pt_inv_None[OF inv that] pt_inv_Some[OF inv that] dirs[OF that] pde x xd
    by (auto split: option.splits)
  moreover have "j = k" if "j < 1024" "k < 1024" "(tabs(i := Some x)) j = Some p" "(tabs(i := Some x)) k = Some p"
    for j k p using that pt_inv_inj[OF inv] xd(2) by (auto split: if_splits)
  ultimately show inv': "pt_inv m' dir (tabs(i := Some x))"
    unfolding pt_inv_def using ad by blast
  show "mapping m' dir = mapping m dir"
  proof (rule ext)
    fix va
    show "mapping m' dir va = mapping m dir va"
    proof (cases "PDX va = i")
      case True
      have "load32 m' (x + 4 * PTX va) = 0"
        using load32_slot[OF x(1) ad PTX_less i(1)] load32_memset_page[OF x(1) x(1) PTX_less] xd(1)
        by (simp add: m'_def)
      then show ?thesis
        using True i(2) by (simp add: mapping_tabs[OF inv'] mapping_tabs[OF inv] entry_map_def)
    next
      case False
      have "load32 m' (p + 4 * PTX va) = load32 m (p + 4 * PTX va)" if "tabs (PDX va) = Some p" for p
        using pt_inv_Some[OF inv PDX_less that] xd(2)[OF PDX_less[of va]] that
          load32_slot[of p dir "PTX va" i, OF _ ad PTX_less i(1)] load32_memset_page[of p x "PTX va", OF _ x(1) PTX_less]
        by (auto simp: m'_def)
      then show ?thesis
        using False by (auto simp: mapping_tabs[OF inv'] mapping_tabs[OF inv] split: option.splits)
    qed
  qed
qed

text \<open>Writing an entry of a page table changes the mapping of one page.\<close>

lemma pt_inv_set_entry:
  fixes e :: uint
  assumes inv: "pt_inv m dir tabs" and p: "tabs (PDX va) = Some p"
  defines "m' \<equiv> store32 m (p + 4 * PTX va) e"
  shows "pt_inv m' dir tabs"
    "mapping m' dir = (\<lambda>v. if PDX v = PDX va \<and> PTX v = PTX va then entry_map e else mapping m dir v)"
proof -
  have ad: "page_aligned dir" using inv by (rule pt_inv_aligned)
  have ap: "page_aligned p" "p \<noteq> dir" using pt_inv_Some[OF inv PDX_less p] by auto
  have "load32 m' (dir + 4 * j) = load32 m (dir + 4 * j)" if "j < 1024" for j
    using load32_slot[OF ad ap(1) that PTX_less] ap(2) by (auto simp: m'_def)
  then show inv': "pt_inv m' dir tabs" using inv by (simp add: pt_inv_def cong: option.case_cong)
  have "load32 m' (q + 4 * PTX v) = (if PDX v = PDX va \<and> PTX v = PTX va then e else load32 m (q + 4 * PTX v))"
    if "tabs (PDX v) = Some q" for v q
  proof -
    have aq: "page_aligned q" using pt_inv_Some[OF inv PDX_less that] by simp
    have "q = p \<longleftrightarrow> PDX v = PDX va" using that p pt_inv_inj[OF inv PDX_less PDX_less] by auto
    then show ?thesis using load32_slot[OF aq ap(1) PTX_less PTX_less] by (auto simp: m'_def)
  qed
  then show "mapping m' dir = (\<lambda>v. if PDX v = PDX va \<and> PTX v = PTX va then entry_map e else mapping m dir v)"
    using p by (auto simp: fun_eq_iff mapping_tabs[OF inv'] mapping_tabs[OF inv] split: option.splits)
qed

subsection \<open>Page tables and the page allocator\<close>

definition vm_inv :: "nat \<Rightarrow> 'a kmem_scheme \<Rightarrow> uint \<Rightarrow> (uint \<Rightarrow> uint option) \<Rightarrow> uint list \<Rightarrow> bool" where
  "vm_inv c s dir tabs xs \<longleftrightarrow> pt_inv (mem s) dir tabs \<and> kmem_list c s xs \<and> tab_pages dir tabs \<inter> set xs = {}"

lemma kmem_list_mem:
  assumes "kmem_list c s xs" and "\<And>x y. x \<in> set xs \<Longrightarrow> y - x < PGSIZE \<Longrightarrow> m' y = mem s y"
  shows "kmem_list c (s\<lparr>mem := m'\<rparr>) xs"
proof -
  have "free_chain (mem s) (freelist s) xs = free_chain m' (freelist s) xs"
  proof (rule free_chain_cong)
    fix x i :: uint
    assume "x \<in> set xs" "i < 4"
    moreover then have "x + i - x < PGSIZE" by (simp add: word_less_nat_alt)
    ultimately show "mem s (x + i) = m' (x + i)" using assms(2) by metis
  qed
  then show ?thesis using assms(1) by (simp add: kmem_list_def kmem_ready_def)
qed

lemma kmem_list_aligned: "kmem_list c s xs \<Longrightarrow> x \<in> set xs \<Longrightarrow> page_aligned x \<and> x \<noteq> 0"
  using page_ok_nonzero by (auto simp: kmem_list_def page_ok_def)

text \<open>A write inside one page that is not on the free list.\<close>

lemma store32_slot_other_page:
  assumes "page_aligned p" "page_aligned q" "p \<noteq> q" "i < 1024" "y - q < PGSIZE"
  shows "store32 m (p + 4 * i) v y = m y"
proof (rule store32_other)
  have sep: "unat (y - p) \<ge> 4096" using page_bytes_sep[OF assms(1,2,3,5)] by (simp add: word_le_nat_alt)
  have i: "unat i < 1024" using assms(4) by (simp add: word_less_nat_alt)
  then have i4: "unat (4 * i) = 4 * unat i" by (simp add: unat_word_ariths)
  have e: "y - (p + 4 * i) = y - p - 4 * i" by simp
  have "unat (y - p - 4 * i) = unat (y - p) - 4 * unat i"
    using sep i i4 by (subst unat_sub) (auto simp: word_le_nat_alt)
  then show "4 \<le> y - (p + 4 * i)" unfolding e using sep i by (simp add: word_le_nat_alt)
qed

lemma memset_other_page:
  assumes "page_aligned p" "page_aligned q" "p \<noteq> q" "y - q < PGSIZE"
  shows "memset m p v PGSIZE y = m y"
  using page_bytes_sep[OF assms] by (simp add: memset_apply not_less[symmetric])

lemma kmem_list_set_entry:
  assumes "kmem_list c s xs" "page_aligned p" "p \<notin> set xs" "i < 1024"
  shows "kmem_list c (s\<lparr>mem := store32 (mem s) (p + 4 * i) v\<rparr>) xs"
proof (rule kmem_list_mem[OF assms(1)])
  fix x y assume "x \<in> set xs" "y - x < PGSIZE"
  then show "store32 (mem s) (p + 4 * i) v y = mem s y"
    using assms kmem_list_aligned[OF assms(1)] by (intro store32_slot_other_page[of p x]) auto
qed

lemma kmem_list_memset:
  assumes "kmem_list c s xs" "page_aligned p" "p \<notin> set xs"
  shows "kmem_list c (s\<lparr>mem := memset (mem s) p v PGSIZE\<rparr>) xs"
proof (rule kmem_list_mem[OF assms(1)])
  fix x y assume "x \<in> set xs" "y - x < PGSIZE"
  then show "memset (mem s) p v PGSIZE y = mem s y"
    using assms kmem_list_aligned[OF assms(1)] by (intro memset_other_page[of p x]) auto
qed

lemma walkpgdir_alloc_fail:
  assumes "vm_inv c s dir tabs []" "tabs (PDX va) = None"
  shows "\<exists>s'. walkpgdir c dir va True s = Ok 0 s' \<and> vm_inv c s' dir tabs [] \<and> mem s' = mem s \<and>
    kern_end s' = kern_end s"
proof -
  have km: "kmem_list c s []" and pt: "pt_inv (mem s) dir tabs" using assms by (auto simp: vm_inv_def)
  then have rd: "kmem_ready c s" and fl: "freelist s = 0" by (auto simp: kmem_list_def)
  then have ka: "kalloc c s = Ok 0 ((kmem_pass c s)\<lparr>freelist := 0\<rparr>)" by (simp add: kalloc_eq)
  then have "kmem_list c ((kmem_pass c s)\<lparr>freelist := 0\<rparr>) []" using kmem_list_kalloc_empty[OF km] by auto
  then show ?thesis
    using ka pt pt_inv_None[OF pt PDX_less assms(2)] by (simp add: walkpgdir_def Let_def vm_inv_def)
qed

lemma walkpgdir_alloc:
  assumes inv: "vm_inv c s dir tabs (x # xs)" and none: "tabs (PDX va) = None"
  shows "\<exists>s'. walkpgdir c dir va True s = Ok (x + 4 * PTX va) s' \<and> x + 4 * PTX va \<noteq> 0 \<and>
    vm_inv c s' dir (tabs(PDX va := Some x)) xs \<and> mapping (mem s') dir = mapping (mem s) dir \<and>
    kern_end s' = kern_end s \<and>
    (\<forall>q y. page_aligned q \<and> q \<noteq> x \<and> q \<noteq> dir \<and> y - q < PGSIZE \<longrightarrow> mem s' y = mem s y)"
proof -
  have km: "kmem_list c s (x # xs)" and pt: "pt_inv (mem s) dir tabs"
    and dj: "tab_pages dir tabs \<inter> set (x # xs) = {}" using inv by (auto simp: vm_inv_def)
  have x: "page_aligned x" "x \<noteq> 0" "x \<notin> tab_pages dir tabs" "x \<notin> set xs"
    using kmem_list_aligned[OF km] dj km by (auto simp: kmem_list_def)
  have ad: "page_aligned dir" "dir \<notin> set xs" "x \<noteq> dir"
    using pt dj by (auto simp: pt_inv_aligned tab_pages_def)
  obtain s1 where s1: "kalloc c s = Ok x s1" "kmem_list c s1 xs" "mem s1 = mem s" and ke: "kern_end s1 = kern_end s"
  proof -
    have "kmem_ready c s" using km by (simp add: kmem_list_def)
    then show ?thesis using kmem_list_kalloc[OF km] that kalloc_eq[of c s] by auto
  qed
  define m1 where "m1 = memset (mem s) x 0 PGSIZE"
  define m2 where "m2 = store32 m1 (dir + 4 * PDX va) (V2P x OR PTE_P OR PTE_W OR PTE_U)"
  let ?s' = "s1\<lparr>mem := m2\<rparr>"
  have w: "walkpgdir c dir va True s = Ok (x + 4 * PTX va) ?s'"
    using s1 pt_inv_None[OF pt PDX_less none] x(2)
    by (simp add: walkpgdir_def Let_def m2_def m1_def)
  have "kmem_list c (s1\<lparr>mem := m1\<rparr>) xs"
    using kmem_list_memset[OF s1(2) x(1,4), of 0] s1(3) by (simp add: m1_def)
  then have "kmem_list c ((s1\<lparr>mem := m1\<rparr>)\<lparr>mem := m2\<rparr>) xs"
    using kmem_list_set_entry[of c "s1\<lparr>mem := m1\<rparr>" xs dir "PDX va"] ad(1,2) by (simp add: m2_def)
  then have km': "kmem_list c ?s' xs" by simp
  have pt': "pt_inv m2 dir (tabs(PDX va := Some x))" "mapping m2 dir = mapping (mem s) dir"
    using pt_inv_new_table[OF pt PDX_less none x(1-3)] by (simp_all add: m2_def m1_def)
  have "tab_pages dir (tabs(PDX va := Some x)) \<subseteq> insert x (tab_pages dir tabs)"
    by (auto simp: tab_pages_def split: if_splits)
  then have dj': "tab_pages dir (tabs(PDX va := Some x)) \<inter> set xs = {}" using dj x(4) by auto
  have fr: "m2 y = mem s y" if "page_aligned q" "q \<noteq> x" "q \<noteq> dir" "y - q < PGSIZE" for q y
    using store32_slot_other_page[OF ad(1) that(1) _ PDX_less that(4)] memset_other_page[OF x(1) that(1) _ that(4)]
      that(2,3) by (simp add: m2_def m1_def)
  show ?thesis
    using w x(1,2) slot_nonzero[OF x(1,2) PTX_less] km' pt' dj' fr ke by (auto simp: vm_inv_def)
qed

lemma unat_PDX: "unat (PDX va) = unat va div 2 ^ 22"
proof -
  have "drop_bit 22 va AND 0x3FF = take_bit 10 (drop_bit 22 va)" by (simp add: take_bit_eq_mask mask_eq_exp_minus_1)
  moreover have "unat (drop_bit 22 va) = unat va div 4194304" by (simp add: drop_bit_eq_div unat_div)
  moreover have "unat va div 4194304 < 1024" using unat_lt32[of va] by simp
  ultimately show ?thesis by (simp add: PDX_def take_bit_eq_mod unat_mod_distrib)
qed

lemma unat_PTX: "unat (PTX va) = unat va div 4096 mod 1024"
proof -
  have "drop_bit 12 va AND 0x3FF = take_bit 10 (drop_bit 12 va)" by (simp add: take_bit_eq_mask mask_eq_exp_minus_1)
  moreover have "unat (drop_bit 12 va) = unat va div 4096" by (simp add: drop_bit_eq_div unat_div)
  ultimately show ?thesis by (simp add: PTX_def take_bit_eq_mod unat_mod_distrib)
qed

text \<open>The number of the page an address lies in.\<close>

definition pgno :: "uint \<Rightarrow> nat" where
  "pgno va = unat va div 4096"

lemma same_page_iff: "PDX v = PDX a \<and> PTX v = PTX a \<longleftrightarrow> pgno v = pgno a"
proof -
  have "unat w div 2 ^ 22 = unat w div 4096 div 1024" for w :: uint by (simp add: div_mult2_eq[symmetric])
  then have "unat (PDX w) = pgno w div 1024" "unat (PTX w) = pgno w mod 1024" for w
    by (simp_all add: unat_PDX unat_PTX pgno_def)
  then show ?thesis
    by (metis word_unat_eq_iff div_mult_mod_eq)
qed

lemma pgno_aligned: "page_aligned a \<Longrightarrow> unat a = 4096 * pgno a"
  by (auto simp: page_aligned_unat pgno_def)

lemma PDX_pgno: "unat (PDX w) = pgno w div 1024"
  by (simp add: unat_PDX pgno_def div_mult2_eq[symmetric])

lemma pgno_plus: "page_aligned a \<Longrightarrow> unat a < 4294963200 \<Longrightarrow> pgno (a + PGSIZE) = pgno a + 1 \<and> page_aligned (a + PGSIZE)"
  by (simp add: pgno_def page_aligned_unat unat_plus_if_size word_size)

lemma PGADDR_next:
  assumes "unat a < 0x80000000"
  shows "unat (PGADDR (PDX a + 1) 0 0) = (pgno a div 1024 + 1) * 4194304"
proof -
  have d: "unat (PDX a) = pgno a div 1024" by (rule PDX_pgno)
  have "unat a div 4194304 < 512" using assms by simp
  then have lt: "unat (PDX a) < 512" by (simp add: unat_PDX)
  then have s: "unat (PDX a + 1) = unat (PDX a) + 1" by (simp add: unat_plus_if_size word_size)
  have "PGADDR (PDX a + 1) 0 0 = (PDX a + 1) * 4194304" by (simp add: PGADDR_def push_bit_eq_mult)
  then show ?thesis using lt s d by (simp add: unat_word_ariths)
qed

subsection \<open>Mapping one page\<close>

lemma mappages_one: "page_aligned va \<Longrightarrow> mappages c dir va PGSIZE pa perm s = mappages_loop c dir va pa perm 0 s"
proof -
  assume a: "page_aligned va"
  have r: "PGROUNDDOWN va = va" using a by (simp add: word_unat_eq_iff unat_PGROUNDDOWN page_aligned_unat div_mult_mod_eq minus_mod_eq_div_mult[symmetric])
  obtain k where k: "unat va = 4096 * k" using a by (auto simp: page_aligned_unat mod_eq_0_iff_dvd elim: dvdE)
  have "unat va < 4294967296" by (rule unat_lt32)
  then have "k \<le> 1048575" using k by simp
  then have "unat (va + 4095) = 4096 * k + 4095" using k by (simp add: unat_plus_if_size word_size)
  then have "unat (PGROUNDDOWN (va + 4095)) = unat va" using k by (simp add: unat_PGROUNDDOWN)
  then have "PGROUNDDOWN (va + 4095) = va" by (simp add: word_unat_eq_iff)
  then show ?thesis using r by (simp add: mappages_def Let_def add.commute)
qed

lemma mappages_present:
  assumes inv: "vm_inv c s dir tabs xs" and va: "page_aligned va" and m: "mapping (mem s) dir va \<noteq> None"
  shows "mappages c dir va PGSIZE pa perm s = Panic ''remap''"
proof -
  have pt: "pt_inv (mem s) dir tabs" using inv by (simp add: vm_inv_def)
  then obtain p where p: "tabs (PDX va) = Some p" "load32 (mem s) (p + 4 * PTX va) AND PTE_P \<noteq> 0"
    using m by (auto simp: mapping_tabs[OF pt] entry_map_def split: option.splits if_splits)
  then show ?thesis
    using walkpgdir_found[OF pt p(1)] by (simp add: mappages_one[OF va] mappages_loop.simps[of _ _ _ _ _ 0])
qed

lemma entry_map_new:
  assumes "page_aligned pa" "perm < 4096"
  shows "entry_map (pa OR perm OR PTE_P) = Some (pa, perm OR PTE_P)"
proof -
  have "perm OR 1 < 4096"
  proof -
    have "take_bit 12 perm = perm" using assms(2)
      by (simp add: take_bit_eq_mod word_less_nat_alt unat_mod_distrib word_unat_eq_iff)
    then have "take_bit 12 (perm OR 1) = perm OR 1" by (simp add: take_bit_or)
    then have "unat (perm OR 1) = unat ((perm OR 1) mod 4096)" by (simp add: take_bit_eq_mod)
    also have "\<dots> < 4096" by (simp add: unat_mod_distrib)
    finally show ?thesis by (simp add: word_less_nat_alt)
  qed
  then have "PTE_ADDR (pa OR perm OR 1) = pa" "PTE_FLAGS (pa OR perm OR 1) = perm OR 1"
    using PTE_ADDR_or[OF assms(1), of "perm OR 1"] by (simp_all add: or.assoc)
  moreover have "(pa OR perm OR 1) AND 1 \<noteq> 0"
  proof -
    have "bit ((pa OR perm OR 1) AND 1) 0" by (simp add: bit_simps)
    then show ?thesis by (metis bit_0_eq bot_apply bot_bool_def)
  qed
  ultimately show ?thesis by (simp add: entry_map_def)
qed


lemma mappages_page:
  assumes inv: "vm_inv c s dir tabs xs" and va: "page_aligned va" and m: "mapping (mem s) dir va = None"
    and pa: "page_aligned pa" "perm < 4096"
  shows "\<exists>r s' tabs' xs'. mappages c dir va PGSIZE pa perm s = Ok r s' \<and> vm_inv c s' dir tabs' xs' \<and>
    kern_end s' = kern_end s \<and> set xs' \<union> tab_pages dir tabs' = set xs \<union> tab_pages dir tabs \<and>
    set xs' \<subseteq> set xs \<and>
    (\<forall>q y. page_aligned q \<and> q \<notin> tab_pages dir tabs' \<and> y - q < PGSIZE \<longrightarrow> mem s' y = mem s y) \<and>
    (if tabs (PDX va) = None \<and> xs = [] then r = - 1 \<and> mem s' = mem s \<and> tabs' = tabs
     else r = 0 \<and> dom tabs' = insert (PDX va) (dom tabs) \<and>
       length xs = length xs' + (if tabs (PDX va) = None then 1 else 0) \<and>
       mapping (mem s') dir = (\<lambda>v. if pgno v = pgno va then Some (pa, perm OR PTE_P) else mapping (mem s) dir v))"
proof -
  have pt: "pt_inv (mem s) dir tabs" using inv by (simp add: vm_inv_def)
  have entry: ?thesis if w: "walkpgdir c dir va True s = Ok (p + 4 * PTX va) s1" "p + 4 * PTX va \<noteq> 0"
      and v1: "vm_inv c s1 dir tabs1 xs1" and p: "tabs1 (PDX va) = Some p"
      and m1: "mapping (mem s1) dir = mapping (mem s) dir" and ke: "kern_end s1 = kern_end s"
      and st: "set xs1 \<union> tab_pages dir tabs1 = set xs \<union> tab_pages dir tabs" "set xs1 \<subseteq> set xs"
      and fr: "\<forall>q y. page_aligned q \<and> q \<notin> tab_pages dir tabs1 \<and> y - q < PGSIZE \<longrightarrow> mem s1 y = mem s y"
      and c: "\<not> (tabs (PDX va) = None \<and> xs = [])" "dom tabs1 = insert (PDX va) (dom tabs)"
        "length xs = length xs1 + (if tabs (PDX va) = None then 1 else 0)"
    for s1 tabs1 xs1 p
  proof -
    have pt1: "pt_inv (mem s1) dir tabs1" and km1: "kmem_list c s1 xs1"
      and dj: "tab_pages dir tabs1 \<inter> set xs1 = {}" using v1 by (auto simp: vm_inv_def)
    have pp: "p \<in> tab_pages dir tabs1" "page_aligned p"
      using p pt_inv_Some[OF pt1 PDX_less p] by (auto simp: tab_pages_def intro!: exI[of _ "PDX va"])
    let ?s' = "s1\<lparr>mem := store32 (mem s1) (p + 4 * PTX va) (pa OR perm OR PTE_P)\<rparr>"
    have free: "load32 (mem s1) (p + 4 * PTX va) AND PTE_P = 0"
      using m p by (simp add: m1[symmetric] mapping_tabs[OF pt1] entry_map_def split: if_splits)
    have run: "mappages c dir va PGSIZE pa perm s = Ok 0 ?s'"
      using w free by (simp add: mappages_one[OF va] mappages_loop.simps[of _ _ _ _ _ 0])
    have v': "vm_inv c ?s' dir tabs1 xs1"
      using pt_inv_set_entry(1)[OF pt1 p] kmem_list_set_entry[OF km1 pp(2) _ PTX_less] pp(1) dj
      by (auto simp: vm_inv_def)
    have mp: "mapping (mem ?s') dir = (\<lambda>v. if pgno v = pgno va then Some (pa, perm OR PTE_P) else mapping (mem s) dir v)"
      using pt_inv_set_entry(2)[OF pt1 p] entry_map_new[OF pa] m1 same_page_iff by (simp add: fun_eq_iff)
    have "mem ?s' y = mem s y" if q: "page_aligned q" "q \<notin> tab_pages dir tabs1" "y - q < PGSIZE" for q y
    proof -
      have "p \<noteq> q" using q(2) pp(1) by auto
      then show ?thesis using fr q store32_slot_other_page[OF pp(2) q(1) _ PTX_less q(3)] by simp
    qed
    then show ?thesis using run v' mp ke st c by (intro exI[of _ 0] exI[of _ ?s'] exI[of _ tabs1] exI[of _ xs1]) auto
  qed
  show ?thesis
  proof (cases "tabs (PDX va)")
    case (Some p)
    show ?thesis
      by (rule entry[OF walkpgdir_found[OF pt Some] inv Some]) (use Some in auto)
  next
    case None
    show ?thesis
    proof (cases xs)
      case Nil
      obtain s1 where s1: "walkpgdir c dir va True s = Ok 0 s1" "vm_inv c s1 dir tabs []" "mem s1 = mem s"
        "kern_end s1 = kern_end s"
        using walkpgdir_alloc_fail[OF inv[unfolded Nil] None] by auto
      then have "mappages c dir va PGSIZE pa perm s = Ok (- 1) s1"
        by (simp add: mappages_one[OF va] mappages_loop.simps[of _ _ _ _ _ 0])
      then show ?thesis using s1 Nil None by (intro exI[of _ "- 1"] exI[of _ s1] exI[of _ tabs] exI[of _ "[]"]) auto
    next
      case (Cons x ys)
      have "x \<notin> tab_pages dir tabs" using inv Cons by (auto simp: vm_inv_def)
      have tp: "tab_pages dir (tabs(PDX va := Some x)) = insert x (tab_pages dir tabs)"
        using None PDX_less[of va] by (auto simp: tab_pages_def) (metis option.distinct(1))
      obtain s1 where s1: "walkpgdir c dir va True s = Ok (x + 4 * PTX va) s1" "x + 4 * PTX va \<noteq> 0"
        "vm_inv c s1 dir (tabs(PDX va := Some x)) ys" "mapping (mem s1) dir = mapping (mem s) dir"
        "kern_end s1 = kern_end s"
        "\<forall>q y. page_aligned q \<and> q \<noteq> x \<and> q \<noteq> dir \<and> y - q < PGSIZE \<longrightarrow> mem s1 y = mem s y"
        using walkpgdir_alloc[OF inv[unfolded Cons] None] by auto
      have "\<forall>q y. page_aligned q \<and> q \<notin> tab_pages dir (tabs(PDX va := Some x)) \<and> y - q < PGSIZE \<longrightarrow>
          mem s1 y = mem s y" using s1(6) by (auto simp: tp tab_pages_def)
      then show ?thesis
        by (intro entry[OF s1(1-3)]) (use s1 tp Cons None in auto)
    qed
  qed
qed

subsection \<open>Address spaces\<close>

text \<open>
  The user half of a page table owns its frames: they are allocatable pages, not on the free list,
  not pages of the table, and no two pages share one.
\<close>

definition user_map :: "memory \<Rightarrow> uint \<Rightarrow> uint \<Rightarrow> uint option" where
  "user_map m dir va = (if va < KERNBASE then map_option fst (mapping m dir va) else None)"

definition frames_ok :: "(uint \<Rightarrow> uint option) \<Rightarrow> uint \<Rightarrow> uint set \<Rightarrow> bool" where
  "frames_ok um kend other \<longleftrightarrow>
     (\<forall>va pa. um va = Some pa \<longrightarrow> page_ok kend (P2V pa) \<and> P2V pa \<notin> other) \<and>
     (\<forall>va va' pa. um va = Some pa \<and> um va' = Some pa \<longrightarrow> pgno va = pgno va')"

definition space_inv :: "nat \<Rightarrow> 'a kmem_scheme \<Rightarrow> uint \<Rightarrow> (uint \<Rightarrow> uint option) \<Rightarrow> uint list \<Rightarrow> bool" where
  "space_inv c s dir tabs xs \<longleftrightarrow> vm_inv c s dir tabs xs \<and> KERNBASE < kern_end s \<and>
     frames_ok (user_map (mem s) dir) (kern_end s) (tab_pages dir tabs \<union> set xs)"

lemma mapping_pgno: "pgno v = pgno w \<Longrightarrow> mapping m dir v = mapping m dir w"
proof -
  assume "pgno v = pgno w"
  then have "PDX v = PDX w" "PTX v = PTX w" using same_page_iff[of v w] by simp_all
  then show ?thesis by (simp add: mapping_def Let_def)
qed

lemma user_half: "va < KERNBASE \<longleftrightarrow> pgno va < 524288"
  by (auto simp: word_less_nat_alt pgno_def)

lemma P2V_inj: "P2V a = P2V b \<longleftrightarrow> a = b"
  by (metis V2P_P2V)

text \<open>Taking a page out of the map frees its frame.\<close>

lemma frames_ok_remove:
  assumes f: "frames_ok um kend other" and a: "um a = Some pa"
    and um': "\<And>v. um' v = (if pgno v = pgno a then None else um v)"
  shows "frames_ok um' kend (insert (P2V pa) other)"
  unfolding frames_ok_def
proof (intro conjI allI impI)
  fix v pb assume v: "um' v = Some pb"
  then have u: "um v = Some pb" "pgno v \<noteq> pgno a" by (auto simp: um' split: if_splits)
  then show "page_ok kend (P2V pb)" using f unfolding frames_ok_def by blast
  have "pb \<noteq> pa" using u a f unfolding frames_ok_def by blast
  moreover have "P2V pb \<notin> other" using f u(1) unfolding frames_ok_def by blast
  ultimately show "P2V pb \<notin> insert (P2V pa) other" by (simp add: P2V_inj)
next
  fix v v' pb assume "um' v = Some pb \<and> um' v' = Some pb"
  then have "um v = Some pb" "um v' = Some pb" by (auto simp: um' split: if_splits)
  then show "pgno v = pgno v'" using f unfolding frames_ok_def by blast
qed

text \<open>Freeing a page outside the table leaves the table as it is.\<close>

lemma kfree_outside:
  assumes vm: "vm_inv c s dir tabs xs" and f: "page_ok (kern_end s) f" "f \<notin> tab_pages dir tabs" "f \<notin> set xs"
  shows "\<exists>s1. kfree c f s = Ok () s1 \<and> vm_inv c s1 dir tabs (f # xs) \<and> kern_end s1 = kern_end s \<and>
    mapping (mem s1) dir = mapping (mem s) dir \<and>
    (\<forall>q y. page_aligned q \<and> q \<noteq> f \<and> y - q < PGSIZE \<longrightarrow> mem s1 y = mem s y)"
proof -
  have pt: "pt_inv (mem s) dir tabs" and km: "kmem_list c s xs" and dj: "tab_pages dir tabs \<inter> set xs = {}"
    using vm by (auto simp: vm_inv_def)
  have al: "page_aligned f" using f(1) by (simp add: page_ok_def)
  obtain s1 where s1: "kfree c f s = Ok () s1" "kmem_list c s1 (f # xs)" "kern_end s1 = kern_end s"
    "\<forall>x. PGSIZE \<le> x - f \<longrightarrow> mem s1 x = mem s x"
    using kmem_list_kfree[OF km f(1,3)] by auto
  have same: "mem s1 y = mem s y" if "page_aligned q" "q \<noteq> f" "y - q < PGSIZE" for q y
    using s1(4) page_bytes_sep[OF al that(1) _ that(3)] that(2) by blast
  have tp: "mem s1 y = mem s y" if "q \<in> tab_pages dir tabs" "y - q < PGSIZE" for q y
    using same pt_inv_pages_aligned[OF pt that(1)] that f(2) by blast
  have "pt_inv (mem s1) dir tabs" by (rule pt_inv_cong(1)[OF pt]) (use tp in blast)
  moreover have "mapping (mem s1) dir = mapping (mem s) dir" by (rule pt_inv_cong(2)[OF pt]) (use tp in blast)
  ultimately show ?thesis using s1 same dj f(2) by (auto simp: vm_inv_def)
qed

text \<open>Writing an entry keeps the invariant of the table.\<close>

lemma vm_inv_set_entry:
  fixes e :: uint
  assumes vm: "vm_inv c s dir tabs xs" and t: "tabs (PDX a) = Some t"
  defines "m' \<equiv> store32 (mem s) (t + 4 * PTX a) e"
  shows "vm_inv c (s\<lparr>mem := m'\<rparr>) dir tabs xs"
    "mapping m' dir = (\<lambda>v. if pgno v = pgno a then entry_map e else mapping (mem s) dir v)"
    "\<And>q y. page_aligned q \<Longrightarrow> q \<notin> tab_pages dir tabs \<Longrightarrow> y - q < PGSIZE \<Longrightarrow> m' y = mem s y"
proof -
  have pt: "pt_inv (mem s) dir tabs" and km: "kmem_list c s xs" and dj: "tab_pages dir tabs \<inter> set xs = {}"
    using vm by (auto simp: vm_inv_def)
  have tt: "t \<in> tab_pages dir tabs" "page_aligned t"
    using t pt_inv_Some[OF pt PDX_less t] by (auto simp: tab_pages_def intro!: exI[of _ "PDX a"])
  show "mapping m' dir = (\<lambda>v. if pgno v = pgno a then entry_map e else mapping (mem s) dir v)"
    using pt_inv_set_entry(2)[OF pt t, of e] same_page_iff by (simp add: m'_def fun_eq_iff)
  have "t \<notin> set xs" using tt dj by auto
  then show "vm_inv c (s\<lparr>mem := m'\<rparr>) dir tabs xs"
    using pt_inv_set_entry(1)[OF pt t, of e] kmem_list_set_entry[OF km tt(2) _ PTX_less, of a e] dj
    by (simp add: vm_inv_def m'_def)
  fix q y assume q: "page_aligned q" "q \<notin> tab_pages dir tabs" "y - q < PGSIZE"
  then have "t \<noteq> q" using tt(1) by auto
  then show "m' y = mem s y" unfolding m'_def using store32_slot_other_page[OF tt(2) q(1) _ PTX_less q(3)] by blast
qed

lemma dealloc_page:
  assumes inv: "space_inv c s dir tabs xs" and a: "a < KERNBASE" "mapping (mem s) dir a = Some (pa, fl)"
  shows "\<exists>p s1. walkpgdir c dir a False s = Ok p s \<and> p \<noteq> 0 \<and> load32 (mem s) p AND PTE_P \<noteq> 0 \<and>
    PTE_ADDR (load32 (mem s) p) = pa \<and> pa \<noteq> 0 \<and> kfree c (P2V pa) s = Ok () s1 \<and>
    space_inv c (s1\<lparr>mem := store32 (mem s1) p 0\<rparr>) dir tabs (P2V pa # xs) \<and> kern_end s1 = kern_end s \<and>
    mapping (store32 (mem s1) p 0) dir = (\<lambda>v. if pgno v = pgno a then None else mapping (mem s) dir v) \<and>
    (\<forall>q y. page_aligned q \<and> q \<notin> tab_pages dir tabs \<and> q \<noteq> P2V pa \<and> y - q < PGSIZE \<longrightarrow>
       store32 (mem s1) p 0 y = mem s y)"
proof -
  have vm: "vm_inv c s dir tabs xs" and ke: "KERNBASE < kern_end s"
    and fo: "frames_ok (user_map (mem s) dir) (kern_end s) (tab_pages dir tabs \<union> set xs)"
    using inv by (auto simp: space_inv_def)
  then have pt: "pt_inv (mem s) dir tabs" by (simp add: vm_inv_def)
  have um: "user_map (mem s) dir a = Some pa" using a by (simp add: user_map_def)
  have fr: "page_ok (kern_end s) (P2V pa)" "P2V pa \<notin> tab_pages dir tabs" "P2V pa \<notin> set xs"
    using fo um unfolding frames_ok_def by blast+
  have pa0: "pa \<noteq> 0" using fr(1) ke by (auto simp: page_ok_def P2V_def)
  obtain t where t: "tabs (PDX a) = Some t" "entry_map (load32 (mem s) (t + 4 * PTX a)) = Some (pa, fl)"
    using a(2) by (auto simp: mapping_tabs[OF pt] split: option.splits)
  let ?p = "t + 4 * PTX a"
  have e: "load32 (mem s) ?p AND PTE_P \<noteq> 0" "PTE_ADDR (load32 (mem s) ?p) = pa"
    using t(2) by (auto simp: entry_map_def split: if_splits)
  obtain s1 where s1: "kfree c (P2V pa) s = Ok () s1" "vm_inv c s1 dir tabs (P2V pa # xs)" "kern_end s1 = kern_end s"
    "mapping (mem s1) dir = mapping (mem s) dir"
    "\<forall>q y. page_aligned q \<and> q \<noteq> P2V pa \<and> y - q < PGSIZE \<longrightarrow> mem s1 y = mem s y"
    using kfree_outside[OF vm fr] by auto
  note se = vm_inv_set_entry[OF s1(2) t(1), where e = 0]
  have mp: "mapping (store32 (mem s1) ?p 0) dir = (\<lambda>v. if pgno v = pgno a then None else mapping (mem s) dir v)"
    using se(2) s1(4) by (simp add: entry_map_def fun_eq_iff)
  have "frames_ok (user_map (store32 (mem s1) ?p 0) dir) (kern_end s) (insert (P2V pa) (tab_pages dir tabs \<union> set xs))"
    by (rule frames_ok_remove[OF fo um]) (simp add: user_map_def mp)
  then have "space_inv c (s1\<lparr>mem := store32 (mem s1) ?p 0\<rparr>) dir tabs (P2V pa # xs)"
    using se(1) ke s1(3) by (simp add: space_inv_def)
  moreover have "store32 (mem s1) ?p 0 y = mem s y"
    if "page_aligned q" "q \<notin> tab_pages dir tabs" "q \<noteq> P2V pa" "y - q < PGSIZE" for q y
    using se(3)[OF that(1,2,4)] s1(5) that by simp
  ultimately show ?thesis
    using walkpgdir_found[OF pt t(1)] e pa0 s1(1,3) mp by (intro exI[of _ ?p] exI[of _ s1] conjI) auto
qed

subsection \<open>Shrinking\<close>

text \<open>The pages from \<open>a\<close> up to \<open>oldsz\<close>, and the frames behind them.\<close>

definition in_range :: "uint \<Rightarrow> uint \<Rightarrow> uint \<Rightarrow> bool" where
  "in_range a oldsz v \<longleftrightarrow> pgno a \<le> pgno v \<and> 4096 * pgno v < unat oldsz"

definition frames_in :: "memory \<Rightarrow> uint \<Rightarrow> uint \<Rightarrow> uint \<Rightarrow> uint set" where
  "frames_in m dir a oldsz = {P2V pa | v pa fl. in_range a oldsz v \<and> mapping m dir v = Some (pa, fl)}"

definition dealloc_post :: "nat \<Rightarrow> 'a kmem_scheme \<Rightarrow> 'a kmem_scheme \<Rightarrow> uint \<Rightarrow> (uint \<Rightarrow> uint option) \<Rightarrow> uint list \<Rightarrow>
    uint \<Rightarrow> uint \<Rightarrow> bool" where
  "dealloc_post c s s' dir tabs xs a oldsz \<longleftrightarrow> (\<exists>xs'. space_inv c s' dir tabs xs' \<and> kern_end s' = kern_end s \<and>
     mapping (mem s') dir = (\<lambda>v. if in_range a oldsz v then None else mapping (mem s) dir v) \<and>
     set xs' = set xs \<union> frames_in (mem s) dir a oldsz \<and>
     (\<forall>q y. page_aligned q \<and> q \<notin> tab_pages dir tabs \<and> q \<notin> set xs' \<and> y - q < PGSIZE \<longrightarrow> mem s' y = mem s y))"

lemma dealloc_post_skip:
  assumes post: "dealloc_post c s s' dir tabs xs b oldsz" and "pgno a \<le> pgno b"
    and skip: "\<And>v. pgno a \<le> pgno v \<Longrightarrow> pgno v < pgno b \<Longrightarrow> mapping (mem s) dir v = None"
  shows "dealloc_post c s s' dir tabs xs a oldsz"
proof -
  have "(if in_range b oldsz v then None else mapping (mem s) dir v) =
      (if in_range a oldsz v then None else mapping (mem s) dir v)" for v
    using assms(2) skip[of v] by (auto simp: in_range_def)
  moreover have "frames_in (mem s) dir b oldsz = frames_in (mem s) dir a oldsz"
    using assms(2) skip by (fastforce simp: frames_in_def in_range_def not_less)
  ultimately show ?thesis using post by (simp add: dealloc_post_def)
qed

lemma dealloc_post_step:
  assumes post: "dealloc_post c s1 s' dir tabs (P2V pa # xs) b oldsz" and b: "pgno b = pgno a + 1"
    and a: "mapping (mem s) dir a = Some (pa, fl)" "4096 * pgno a < unat oldsz"
    and s1: "kern_end s1 = kern_end s"
      "mapping (mem s1) dir = (\<lambda>v. if pgno v = pgno a then None else mapping (mem s) dir v)"
      "\<And>q y. page_aligned q \<Longrightarrow> q \<notin> tab_pages dir tabs \<Longrightarrow> q \<noteq> P2V pa \<Longrightarrow> y - q < PGSIZE \<Longrightarrow> mem s1 y = mem s y"
  shows "dealloc_post c s s' dir tabs xs a oldsz"
proof -
  have rng: "in_range a oldsz v \<longleftrightarrow> pgno v = pgno a \<or> in_range b oldsz v" for v
    using b a(2) by (auto simp: in_range_def)
  have mp: "(if in_range b oldsz v then None else mapping (mem s1) dir v) =
      (if in_range a oldsz v then None else mapping (mem s) dir v)" for v
    by (simp add: rng s1(2))
  have "mapping (mem s) dir v = Some (pa, fl)" if "pgno v = pgno a" for v using mapping_pgno[OF that] a(1) by simp
  moreover have "in_range b oldsz v \<and> mapping (mem s1) dir v = X \<longleftrightarrow> in_range b oldsz v \<and> mapping (mem s) dir v = X"
    for v X using b by (auto simp: s1(2) in_range_def)
  ultimately have fr: "frames_in (mem s) dir a oldsz = insert (P2V pa) (frames_in (mem s1) dir b oldsz)"
    using a(1) unfolding frames_in_def rng by fastforce
  from post obtain ys where "space_inv c s' dir tabs ys" "kern_end s' = kern_end s1"
    "mapping (mem s') dir = (\<lambda>v. if in_range b oldsz v then None else mapping (mem s1) dir v)"
    "set ys = set (P2V pa # xs) \<union> frames_in (mem s1) dir b oldsz"
    "\<forall>q y. page_aligned q \<and> q \<notin> tab_pages dir tabs \<and> q \<notin> set ys \<and> y - q < PGSIZE \<longrightarrow> mem s' y = mem s1 y"
    unfolding dealloc_post_def by blast
  then show ?thesis unfolding dealloc_post_def
    by (intro exI[of _ ys]) (auto simp: mp fr s1)
qed

lemma deallocuvm_loop_ok:
  assumes "space_inv c s dir tabs xs" "page_aligned a" "unat oldsz \<le> 0x80000000"
  shows "\<exists>s'. deallocuvm_loop c dir oldsz a s = Ok () s' \<and> dealloc_post c s s' dir tabs xs a oldsz"
  using assms
proof (induction "0x100000 - pgno a" arbitrary: a s xs rule: less_induct)
  case less
  note inv = less.prems(1) and al = less.prems(2)
  have ua: "unat a = 4096 * pgno a" by (rule pgno_aligned[OF al])
  have pt: "pt_inv (mem s) dir tabs" using inv by (simp add: space_inv_def vm_inv_def)
  show ?case
  proof (cases "a < oldsz")
    case False
    then have "\<not> in_range a oldsz v" for v using ua by (auto simp: in_range_def word_less_nat_alt)
    then have "dealloc_post c s s dir tabs xs a oldsz"
      using inv by (auto simp: dealloc_post_def frames_in_def intro!: exI[of _ xs])
    then show ?thesis using False by (simp add: deallocuvm_loop.simps[of _ _ _ a])
  next
    case True
    then have lt: "unat a < 0x80000000" using less.prems(3) by (simp add: word_less_nat_alt)
    then have kb: "a < KERNBASE" by (simp add: word_less_nat_alt)
    have pn: "pgno a < 524288" using kb user_half by simp
    have pl: "pgno (a + PGSIZE) = pgno a + 1" "page_aligned (a + PGSIZE)" using pgno_plus[OF al] lt by auto
    have gt: "\<not> a + PGSIZE \<le> a" using lt by (simp add: word_le_nat_alt unat_plus_if_size word_size)
    consider (none) "tabs (PDX a) = None" | (absent) t where "tabs (PDX a) = Some t" "mapping (mem s) dir a = None"
      | (present) pa fl where "mapping (mem s) dir a = Some (pa, fl)" by (cases "mapping (mem s) dir a") auto
    then show ?thesis
    proof cases
      case none
      let ?b = "PGADDR (PDX a + 1) 0 0"
      have ub: "unat ?b = (pgno a div 1024 + 1) * 4194304" by (rule PGADDR_next[OF lt])
      then have bn: "pgno ?b = (pgno a div 1024 + 1) * 1024" by (simp add: pgno_def)
      have ab: "page_aligned ?b" using ub by (simp add: page_aligned_unat)
      have lo: "pgno a < pgno ?b" unfolding bn by (metis add.commute dividend_less_div_times zero_less_numeral mult.commute add_mult_distrib mult_1 less_numeral_extra(1))
      have skip: "mapping (mem s) dir v = None" if "pgno a \<le> pgno v" "pgno v < pgno ?b" for v
      proof -
        have "pgno v div 1024 = pgno a div 1024" using that bn div_le_mono[OF that(1), of 1024]
          by (metis One_nat_def add.commute less_mult_imp_div_less le_antisym less_Suc_eq_le plus_1_eq_Suc)
        then have "PDX v = PDX a" by (simp add: word_unat_eq_iff PDX_pgno)
        then show ?thesis using none by (simp add: mapping_tabs[OF pt])
      qed
      have "\<exists>s'. deallocuvm_loop c dir oldsz ?b s = Ok () s' \<and> dealloc_post c s s' dir tabs xs ?b oldsz"
        by (rule less.hyps) (use lo pn inv ab less.prems(3) in auto)
      moreover have "\<not> ?b \<le> a" using ua ub lo bn by (simp add: word_le_nat_alt)
      ultimately show ?thesis
        using True walkpgdir_absent[OF pt none] dealloc_post_skip[OF _ less_imp_le[OF lo] skip]
        by (auto simp: deallocuvm_loop.simps[of _ _ _ a] next_dealloc_def)
    next
      case absent
      have "\<exists>s'. deallocuvm_loop c dir oldsz (a + PGSIZE) s = Ok () s' \<and> dealloc_post c s s' dir tabs xs (a + PGSIZE) oldsz"
        by (rule less.hyps) (use pl pn inv less.prems(3) in auto)
      moreover have "load32 (mem s) (t + 4 * PTX a) AND PTE_P = 0"
        using absent by (simp add: mapping_tabs[OF pt] entry_map_def split: if_splits)
      moreover have "mapping (mem s) dir v = None" if "pgno a \<le> pgno v" "pgno v < pgno (a + PGSIZE)" for v
        using that pl absent(2) mapping_pgno[of v a] by simp
      ultimately show ?thesis
        using True walkpgdir_found[OF pt absent(1)] gt pl(1) dealloc_post_skip[of c s _ dir tabs xs "a + PGSIZE" oldsz a]
        by (auto simp: deallocuvm_loop.simps[of _ _ _ a] next_dealloc_def)
    next
      case present
      obtain p s1 where p: "walkpgdir c dir a False s = Ok p s" "p \<noteq> 0" "load32 (mem s) p AND PTE_P \<noteq> 0"
        "PTE_ADDR (load32 (mem s) p) = pa" "pa \<noteq> 0" "kfree c (P2V pa) s = Ok () s1"
        and s1: "space_inv c (s1\<lparr>mem := store32 (mem s1) p 0\<rparr>) dir tabs (P2V pa # xs)" "kern_end s1 = kern_end s"
        "mapping (store32 (mem s1) p 0) dir = (\<lambda>v. if pgno v = pgno a then None else mapping (mem s) dir v)"
        "\<forall>q y. page_aligned q \<and> q \<notin> tab_pages dir tabs \<and> q \<noteq> P2V pa \<and> y - q < PGSIZE \<longrightarrow> store32 (mem s1) p 0 y = mem s y"
        using dealloc_page[OF inv kb present] by blast
      let ?s2 = "s1\<lparr>mem := store32 (mem s1) p 0\<rparr>"
      have "\<exists>s'. deallocuvm_loop c dir oldsz (a + PGSIZE) ?s2 = Ok () s' \<and>
          dealloc_post c ?s2 s' dir tabs (P2V pa # xs) (a + PGSIZE) oldsz"
        by (rule less.hyps) (use pl pn s1(1) less.prems(3) in auto)
      moreover have "4096 * pgno a < unat oldsz" using True ua by (simp add: word_less_nat_alt)
      ultimately show ?thesis
        using True p gt s1 dealloc_post_step[of c ?s2 _ dir tabs pa xs "a + PGSIZE" oldsz a s fl] pl(1) present
        by (auto simp: deallocuvm_loop.simps[of _ _ _ a] next_dealloc_def)
    qed
  qed
qed

subsection \<open>Growing\<close>

lemma frames_ok_add:
  assumes f: "frames_ok um kend other" and pa: "page_ok kend (P2V pa)" "P2V pa \<in> other" "P2V pa \<notin> other'"
    and sub: "other' \<subseteq> other" and um': "\<And>v. um' v = (if pgno v = pgno a then Some pa else um v)"
  shows "frames_ok um' kend other'"
  unfolding frames_ok_def
proof (intro conjI allI impI)
  have old: "page_ok kend (P2V pb) \<and> P2V pb \<notin> other" if "um v = Some pb" for v pb
    using f that unfolding frames_ok_def by blast
  fix v pb assume v: "um' v = Some pb"
  show "page_ok kend (P2V pb)" "P2V pb \<notin> other'"
    using v pa sub old[of v pb] by (cases "pgno v = pgno a"; auto simp: um')+
next
  have no: "um v \<noteq> Some pa" for v using f pa(2) unfolding frames_ok_def by blast
  have inj: "pgno v = pgno v'" if "um v = Some pb" "um v' = Some pb" for v v' pb
    using f that unfolding frames_ok_def by blast
  fix v v' pb assume "um' v = Some pb \<and> um' v' = Some pb"
  then show "pgno v = pgno v'"
    using no inj[of v pb v'] by (cases "pgno v = pgno a"; cases "pgno v' = pgno a") (auto simp: um')
qed

text \<open>Taking a page off the free list and clearing it.\<close>

lemma kalloc_zeroed:
  assumes vm: "vm_inv c s dir tabs (x # xs)"
  shows "\<exists>s1. kalloc c s = Ok x s1 \<and> x \<noteq> 0 \<and> page_aligned x \<and> page_ok (kern_end s) x \<and>
    x \<notin> tab_pages dir tabs \<and> x \<notin> set xs \<and> kern_end s1 = kern_end s \<and>
    vm_inv c (s1\<lparr>mem := memset (mem s1) x 0 PGSIZE\<rparr>) dir tabs xs \<and>
    mapping (memset (mem s1) x 0 PGSIZE) dir = mapping (mem s) dir \<and>
    (\<forall>y. memset (mem s1) x 0 PGSIZE y = (if y - x < PGSIZE then 0 else mem s y))"
proof -
  have pt: "pt_inv (mem s) dir tabs" and km: "kmem_list c s (x # xs)"
    and dj: "tab_pages dir tabs \<inter> set (x # xs) = {}" using vm by (auto simp: vm_inv_def)
  have rd: "kmem_ready c s" and x: "page_ok (kern_end s) x" "x \<notin> set xs" "x \<notin> tab_pages dir tabs"
    using km dj by (auto simp: kmem_list_def)
  have al: "page_aligned x" "x \<noteq> 0" using kmem_list_aligned[OF km] by auto
  obtain s1 where s1: "kalloc c s = Ok x s1" "kmem_list c s1 xs" "mem s1 = mem s" "kern_end s1 = kern_end s"
    using kmem_list_kalloc[OF km] kalloc_eq[OF rd] by auto
  let ?m = "memset (mem s) x 0 PGSIZE"
  have same: "?m y = mem s y" if "q \<in> tab_pages dir tabs" "y - q < PGSIZE" for q y
    using that x(3) pt_inv_pages_aligned[OF pt that(1)] by (intro memset_other_page[OF al(1)]) auto
  have "pt_inv ?m dir tabs" by (rule pt_inv_cong(1)[OF pt]) (use same in blast)
  moreover have "mapping ?m dir = mapping (mem s) dir" by (rule pt_inv_cong(2)[OF pt]) (use same in blast)
  moreover have "kmem_list c (s1\<lparr>mem := ?m\<rparr>) xs" using kmem_list_memset[OF s1(2) al(1) x(2), of 0] s1(3) by simp
  ultimately show ?thesis using s1 x al dj by (auto simp: vm_inv_def memset_apply)
qed

lemma user_map_mapping:
  "mapping m' dir = (\<lambda>v. if pgno v = pgno a then Some (pa, fl) else mapping m dir v) \<Longrightarrow> a < KERNBASE \<Longrightarrow>
   user_map m' dir v = (if pgno v = pgno a then Some pa else user_map m dir v)"
  by (auto simp: user_map_def user_half)

lemma space_inv_mapping:
  "vm_inv c s' dir tabs xs \<Longrightarrow> space_inv c s dir tabs xs0 \<Longrightarrow> kern_end s' = kern_end s \<Longrightarrow>
   mapping (mem s') dir = mapping (mem s) dir \<Longrightarrow> set xs \<subseteq> set xs0 \<Longrightarrow> space_inv c s' dir tabs xs"
proof -
  assume a: "vm_inv c s' dir tabs xs" "space_inv c s dir tabs xs0" "kern_end s' = kern_end s"
    "mapping (mem s') dir = mapping (mem s) dir" "set xs \<subseteq> set xs0"
  have "user_map (mem s') dir = user_map (mem s) dir" using a(4) by (simp add: user_map_def fun_eq_iff)
  moreover have "frames_ok um k (A \<union> set xs0) \<Longrightarrow> frames_ok um k (A \<union> set xs)" for um k A
    using a(5) unfolding frames_ok_def by blast
  ultimately show ?thesis using a by (simp add: space_inv_def)
qed

text \<open>One turn of the loop of \<open>allocuvm\<close> that finds a frame and room for the mapping.\<close>

lemma map_fresh_page:
  assumes inv: "space_inv c s dir tabs (x # ys)" and a: "page_aligned a" "a < KERNBASE" "mapping (mem s) dir a = None"
    and s1: "kalloc c s = Ok x s1"
  obtains r s' tabs' xs' where
    "mappages c dir a PGSIZE (V2P x) (PTE_W OR PTE_U) (s1\<lparr>mem := memset (mem s1) x 0 PGSIZE\<rparr>) = Ok r s'"
    and "kern_end s' = kern_end s" and "space_inv c s' dir tabs' xs'"
    and "insert x (set xs' \<union> tab_pages dir tabs') = set (x # ys) \<union> tab_pages dir tabs"
    and "set xs' \<subseteq> set ys" and "x \<notin> set xs' \<union> tab_pages dir tabs'" and "page_ok (kern_end s) x"
    and "\<forall>q y. page_aligned q \<and> q \<notin> tab_pages dir tabs' \<and> q \<noteq> x \<and> y - q < PGSIZE \<longrightarrow> mem s' y = mem s y"
    and "\<forall>y. y - x < PGSIZE \<longrightarrow> mem s' y = 0"
    and "r = 0 \<and> mapping (mem s') dir = (\<lambda>v. if pgno v = pgno a then Some (V2P x, 7) else mapping (mem s) dir v) \<and>
        dom tabs' = insert (PDX a) (dom tabs) \<and> length ys = length xs' + (if tabs (PDX a) = None then 1 else 0) \<or>
      r = - 1 \<and> mapping (mem s') dir = mapping (mem s) dir \<and> tabs' = tabs \<and> tabs (PDX a) = None \<and> ys = []"
proof -
  have vm: "vm_inv c s dir tabs (x # ys)"
    and fo: "frames_ok (user_map (mem s) dir) (kern_end s) (tab_pages dir tabs \<union> set (x # ys))"
    and ke: "KERNBASE < kern_end s" using inv by (auto simp: space_inv_def)
  let ?s2 = "s1\<lparr>mem := memset (mem s1) x 0 PGSIZE\<rparr>"
  have x: "page_aligned x" "page_ok (kern_end s) x" "x \<notin> tab_pages dir tabs" "x \<notin> set ys"
    and s2: "kern_end ?s2 = kern_end s" "vm_inv c ?s2 dir tabs ys" "mapping (mem ?s2) dir = mapping (mem s) dir"
      "\<forall>y. mem ?s2 y = (if y - x < PGSIZE then 0 else mem s y)"
  proof -
    obtain s1' where "kalloc c s = Ok x s1'" and *: "page_aligned x" "page_ok (kern_end s) x" "x \<notin> tab_pages dir tabs"
      "x \<notin> set ys" "kern_end s1' = kern_end s" "vm_inv c (s1'\<lparr>mem := memset (mem s1') x 0 PGSIZE\<rparr>) dir tabs ys"
      "mapping (memset (mem s1') x 0 PGSIZE) dir = mapping (mem s) dir"
      "\<forall>y. memset (mem s1') x 0 PGSIZE y = (if y - x < PGSIZE then 0 else mem s y)"
      using kalloc_zeroed[OF vm] by blast
    then have "s1' = s1" using s1 by simp
    with * show "page_aligned x" "page_ok (kern_end s) x" "x \<notin> tab_pages dir tabs" "x \<notin> set ys"
      "kern_end ?s2 = kern_end s" "vm_inv c ?s2 dir tabs ys" "mapping (mem ?s2) dir = mapping (mem s) dir"
      "\<forall>y. mem ?s2 y = (if y - x < PGSIZE then 0 else mem s y)" by simp_all
  qed
  have kb: "page_aligned KERNBASE" by (simp add: page_aligned_def)
  have vx: "page_aligned (V2P x)" unfolding V2P_def by (rule page_aligned_diff[OF x(1) kb])
  have or6: "(PTE_W OR PTE_U :: uint) = 6" "(6 OR PTE_P :: uint) = 7" by simp_all
  have "mapping (mem ?s2) dir a = None" using a(3) s2(3) by simp
  from mappages_page[OF s2(2) a(1) this vx, of 6] obtain r s' tabs' xs' where
    r: "mappages c dir a PGSIZE (V2P x) 6 ?s2 = Ok r s'" and v': "vm_inv c s' dir tabs' xs'"
    and ke': "kern_end s' = kern_end s" and st: "set xs' \<union> tab_pages dir tabs' = set ys \<union> tab_pages dir tabs"
      "set xs' \<subseteq> set ys"
    and fr: "\<forall>q y. page_aligned q \<and> q \<notin> tab_pages dir tabs' \<and> y - q < PGSIZE \<longrightarrow> mem s' y = mem ?s2 y"
    and res: "if tabs (PDX a) = None \<and> ys = [] then r = - 1 \<and> mem s' = mem ?s2 \<and> tabs' = tabs
      else r = 0 \<and> dom tabs' = insert (PDX a) (dom tabs) \<and>
        length ys = length xs' + (if tabs (PDX a) = None then 1 else 0) \<and>
        mapping (mem s') dir = (\<lambda>v. if pgno v = pgno a then Some (V2P x, 7) else mapping (mem ?s2) dir v)"
    using s2(1) unfolding or6 by auto
  have xo: "x \<notin> set xs' \<union> tab_pages dir tabs'" using st x by auto
  have out: "mem s' y = mem s y" if q: "page_aligned q" "q \<notin> tab_pages dir tabs'" "q \<noteq> x" "y - q < PGSIZE" for q y
  proof -
    have "PGSIZE \<le> y - x" using page_bytes_sep[OF x(1) q(1) _ q(4)] q(3) by blast
    then show ?thesis using fr q s2(4) by (simp add: not_less[symmetric])
  qed
  have zero: "mem s' y = 0" if "y - x < PGSIZE" for y using fr x(1) xo s2(4) that by auto
  have new: "space_inv c s' dir tabs' xs'"
    if m: "mapping (mem s') dir = (\<lambda>v. if pgno v = pgno a then Some (V2P x, 7) else mapping (mem s) dir v)"
  proof -
    have "frames_ok (user_map (mem s') dir) (kern_end s) (tab_pages dir tabs' \<union> set xs')"
      by (rule frames_ok_add[OF fo, of "V2P x" _ _ a]) (use x xo st user_map_mapping[OF m a(2)] in auto)
    then show ?thesis using v' ke ke' by (simp add: space_inv_def)
  qed
  have run: "mappages c dir a PGSIZE (V2P x) (PTE_W OR PTE_U) ?s2 = Ok r s'" using r by (simp only: or6)
  have st': "insert x (set xs' \<union> tab_pages dir tabs') = set (x # ys) \<union> tab_pages dir tabs" using st by auto
  have out': "\<forall>q y. page_aligned q \<and> q \<notin> tab_pages dir tabs' \<and> q \<noteq> x \<and> y - q < PGSIZE \<longrightarrow> mem s' y = mem s y"
    using out by blast
  have zero': "\<forall>y. y - x < PGSIZE \<longrightarrow> mem s' y = 0" using zero by blast
  have "space_inv c s' dir tabs' xs' \<and> (r = 0 \<and>
      mapping (mem s') dir = (\<lambda>v. if pgno v = pgno a then Some (V2P x, 7) else mapping (mem s) dir v) \<and>
        dom tabs' = insert (PDX a) (dom tabs) \<and> length ys = length xs' + (if tabs (PDX a) = None then 1 else 0) \<or>
      r = - 1 \<and> mapping (mem s') dir = mapping (mem s) dir \<and> tabs' = tabs \<and> tabs (PDX a) = None \<and> ys = [])"
  proof (cases "tabs (PDX a) = None \<and> ys = []")
    case True
    then have e: "r = - 1" "tabs' = tabs" "mapping (mem s') dir = mapping (mem s) dir" using res s2(3) by auto
    have "space_inv c s' dir tabs' xs'"
      using space_inv_mapping[OF v'[unfolded e(2)] inv ke' e(3)] st(2) e(2) by auto
    then show ?thesis using e True by blast
  next
    case False
    then have e: "r = 0" "mapping (mem s') dir = (\<lambda>v. if pgno v = pgno a then Some (V2P x, 7) else mapping (mem s) dir v)"
      "dom tabs' = insert (PDX a) (dom tabs)" "length ys = length xs' + (if tabs (PDX a) = None then 1 else 0)"
      using res s2(3) by (auto simp: fun_eq_iff)
    then show ?thesis using new[OF e(2)] by blast
  qed
  then have fin: "space_inv c s' dir tabs' xs'" "r = 0 \<and>
      mapping (mem s') dir = (\<lambda>v. if pgno v = pgno a then Some (V2P x, 7) else mapping (mem s) dir v) \<and>
        dom tabs' = insert (PDX a) (dom tabs) \<and> length ys = length xs' + (if tabs (PDX a) = None then 1 else 0) \<or>
      r = - 1 \<and> mapping (mem s') dir = mapping (mem s) dir \<and> tabs' = tabs \<and> tabs (PDX a) = None \<and> ys = []"
    by blast+
  show thesis by (rule that[OF run ke' fin(1) st' st(2) xo x(2) out' zero' fin(2)])
qed

lemma space_inv_kfree:
  assumes inv: "space_inv c s dir tabs xs"
    and x: "page_ok (kern_end s) x" "x \<notin> tab_pages dir tabs" "x \<notin> set xs" "\<And>v. user_map (mem s) dir v \<noteq> Some (V2P x)"
  obtains s1 where "kfree c x s = Ok () s1" "space_inv c s1 dir tabs (x # xs)" "kern_end s1 = kern_end s"
    "mapping (mem s1) dir = mapping (mem s) dir"
    "\<forall>q y. page_aligned q \<and> q \<noteq> x \<and> y - q < PGSIZE \<longrightarrow> mem s1 y = mem s y"
proof -
  have vm: "vm_inv c s dir tabs xs" and ke: "KERNBASE < kern_end s"
    and fo: "frames_ok (user_map (mem s) dir) (kern_end s) (tab_pages dir tabs \<union> set xs)"
    using inv by (auto simp: space_inv_def)
  obtain s1 where s1: "kfree c x s = Ok () s1" "vm_inv c s1 dir tabs (x # xs)" "kern_end s1 = kern_end s"
    "mapping (mem s1) dir = mapping (mem s) dir"
    "\<forall>q y. page_aligned q \<and> q \<noteq> x \<and> y - q < PGSIZE \<longrightarrow> mem s1 y = mem s y"
    using kfree_outside[OF vm x(1-3)] by blast
  have um: "user_map (mem s1) dir = user_map (mem s) dir" using s1(4) by (simp add: user_map_def fun_eq_iff)
  have "P2V pa \<noteq> x" if "user_map (mem s) dir v = Some pa" for v pa using that x(4)[of v] by auto
  then have "frames_ok (user_map (mem s) dir) (kern_end s) (tab_pages dir tabs \<union> set (x # xs))"
    using fo unfolding frames_ok_def by auto
  then have "space_inv c s1 dir tabs (x # xs)" using s1(2,3) ke um by (simp add: space_inv_def)
  then show thesis using that s1 by blast
qed

lemma deallocuvm_ok:
  assumes inv: "space_inv c s dir tabs xs" and sz: "newsz < oldsz" "unat oldsz \<le> 0x80000000"
  obtains s' xs' where "deallocuvm c dir oldsz newsz s = Ok newsz s'" "space_inv c s' dir tabs xs'"
    "kern_end s' = kern_end s"
    "mapping (mem s') dir = (\<lambda>v. if in_range (PGROUNDUP newsz) oldsz v then None else mapping (mem s) dir v)"
    "set xs' = set xs \<union> frames_in (mem s) dir (PGROUNDUP newsz) oldsz"
    "\<forall>q y. page_aligned q \<and> q \<notin> tab_pages dir tabs \<and> q \<notin> set xs' \<and> y - q < PGSIZE \<longrightarrow> mem s' y = mem s y"
proof -
  obtain s' where s': "deallocuvm_loop c dir oldsz (PGROUNDUP newsz) s = Ok () s'"
    "dealloc_post c s s' dir tabs xs (PGROUNDUP newsz) oldsz"
    using deallocuvm_loop_ok[OF inv page_aligned_PGROUNDUP sz(2)] by blast
  then have "deallocuvm c dir oldsz newsz s = Ok newsz s'" using sz(1) by (simp add: deallocuvm_def not_le[symmetric])
  then show thesis using s'(2) that unfolding dealloc_post_def by blast
qed

text \<open>The pages a growing address space gets, or the state after a failed attempt.\<close>

definition grown :: "'a kmem_scheme \<Rightarrow> 'a kmem_scheme \<Rightarrow> uint \<Rightarrow> uint list \<Rightarrow> uint set \<Rightarrow> bool" where
  "grown s s' dir as free \<longleftrightarrow>
     (\<forall>v. pgno v \<notin> pgno ` set as \<longrightarrow> mapping (mem s') dir v = mapping (mem s) dir v) \<and>
     (\<forall>a\<in>set as. \<exists>f\<in>free. mapping (mem s') dir a = Some (V2P f, 7) \<and> (\<forall>y. y - f < PGSIZE \<longrightarrow> mem s' y = 0))"

definition shrunk :: "'a kmem_scheme \<Rightarrow> 'a kmem_scheme \<Rightarrow> uint \<Rightarrow> uint \<Rightarrow> uint \<Rightarrow> bool" where
  "shrunk s s' dir lo hi \<longleftrightarrow>
     mapping (mem s') dir = (\<lambda>v. if in_range lo hi v then None else mapping (mem s) dir v)"

text \<open>Bytes of pages that belong neither to the table nor to the allocator nor to the range.\<close>

definition others_kept :: "'a kmem_scheme \<Rightarrow> 'a kmem_scheme \<Rightarrow> uint set \<Rightarrow> bool" where
  "others_kept s s' A \<longleftrightarrow> (\<forall>q y. page_aligned q \<and> q \<notin> A \<and> y - q < PGSIZE \<longrightarrow> mem s' y = mem s y)"

lemma others_kept_trans:
  "others_kept s s1 A \<Longrightarrow> others_kept s1 s2 B \<Longrightarrow> A \<union> B \<subseteq> C \<Longrightarrow> others_kept s s2 C"
  unfolding others_kept_def by (metis UnCI subsetD)

lemma kmem_list_ready_empty: "space_inv c s dir tabs [] \<Longrightarrow> \<exists>s1. kalloc c s = Ok 0 s1 \<and> space_inv c s1 dir tabs [] \<and>
    kern_end s1 = kern_end s \<and> mem s1 = mem s"
proof -
  assume inv: "space_inv c s dir tabs []"
  then have km: "kmem_list c s []" by (simp add: space_inv_def vm_inv_def)
  then have rd: "kmem_ready c s" and fl: "freelist s = 0" by (auto simp: kmem_list_def)
  then have ka: "kalloc c s = Ok 0 ((kmem_pass c s)\<lparr>freelist := 0\<rparr>)" by (simp add: kalloc_eq)
  then have "kmem_list c ((kmem_pass c s)\<lparr>freelist := 0\<rparr>) []" using kmem_list_kalloc_empty[OF km] by auto
  then show ?thesis using ka inv by (simp add: space_inv_def vm_inv_def)
qed

text \<open>The free pages the loop takes: a frame for each page and a table for each directory slot without one.\<close>

definition pages_needed :: "(uint \<Rightarrow> uint option) \<Rightarrow> uint list \<Rightarrow> nat" where
  "pages_needed tabs as = length as + card (PDX ` set as - dom tabs)"

lemma pages_needed_Cons:
  assumes "dom tabs' = insert (PDX a) (dom tabs)"
  shows "pages_needed tabs (a # as) = Suc (pages_needed tabs' as) + (if tabs (PDX a) = None then 1 else 0)"
proof (cases "tabs (PDX a)")
  case None
  then have "PDX ` set (a # as) - dom tabs = insert (PDX a) (PDX ` set as - dom tabs')" using assms by auto
  moreover have "PDX a \<notin> PDX ` set as - dom tabs'" using assms by simp
  ultimately show ?thesis using None by (simp add: pages_needed_def)
next
  case (Some p)
  then have "PDX ` set (a # as) - dom tabs = PDX ` set as - dom tabs'" using assms by auto
  then show ?thesis using Some by (simp add: pages_needed_def)
qed

lemma pages_needed_no_table: "tabs (PDX a) = None \<Longrightarrow> 2 \<le> pages_needed tabs (a # as)"
  using pages_needed_Cons[of "tabs(PDX a \<mapsto> 0)" a tabs as] by simp

definition alloc_result :: "nat \<Rightarrow> 'a kmem_scheme \<Rightarrow> (uint, 'a kmem_scheme) res \<Rightarrow> uint \<Rightarrow> uint \<Rightarrow> uint \<Rightarrow> uint list \<Rightarrow>
    uint list \<Rightarrow> (uint \<Rightarrow> uint option) \<Rightarrow> bool" where
  "alloc_result c s out dir lo newsz as xs tabs \<longleftrightarrow> (\<exists>r s' tabs' xs'. out = Ok r s' \<and>
     space_inv c s' dir tabs' xs' \<and> kern_end s' = kern_end s \<and>
     set xs' \<union> tab_pages dir tabs' \<union> frames_in (mem s') dir lo newsz =
       set xs \<union> tab_pages dir tabs \<union> frames_in (mem s) dir lo newsz \<and>
     (if pages_needed tabs as \<le> length xs
      then r = newsz \<and> grown s s' dir as (set xs) \<and> others_kept s s' (set xs \<union> tab_pages dir tabs)
      else r = 0 \<and> shrunk s s' dir lo newsz \<and>
        others_kept s s' (set xs \<union> tab_pages dir tabs \<union> frames_in (mem s) dir lo newsz)))"

lemma frames_in_cong: "mapping m dir = mapping m' dir \<Longrightarrow> frames_in m dir a b = frames_in m' dir a b"
  by (simp add: frames_in_def)

lemma frames_in_add:
  assumes m: "mapping m' dir = (\<lambda>v. if pgno v = pgno a then Some (V2P x, 7) else mapping m dir v)"
    and a: "mapping m dir a = None" "in_range lo hi a"
  shows "frames_in m' dir lo hi = insert x (frames_in m dir lo hi)"
proof (intro set_eqI iffI)
  fix f assume "f \<in> frames_in m' dir lo hi"
  then obtain v pa fl where v: "f = P2V pa" "in_range lo hi v" "mapping m' dir v = Some (pa, fl)"
    by (auto simp: frames_in_def)
  then show "f \<in> insert x (frames_in m dir lo hi)"
    using m by (cases "pgno v = pgno a") (auto simp: frames_in_def)
next
  fix f assume "f \<in> insert x (frames_in m dir lo hi)"
  then consider "f = x" | v pa fl where "f = P2V pa" "in_range lo hi v" "mapping m dir v = Some (pa, fl)"
    by (auto simp: frames_in_def)
  then show "f \<in> frames_in m' dir lo hi"
  proof cases
    case 1
    have "mapping m' dir a = Some (V2P x, 7)" using m by simp
    then show ?thesis using 1 a(2) unfolding frames_in_def by force
  next
    case 2
    then have "pgno v \<noteq> pgno a" using mapping_pgno[of v a m dir] a(1) by auto
    then have "mapping m' dir v = Some (pa, fl)" using 2(3) m by simp
    then show ?thesis using 2 unfolding frames_in_def by blast
  qed
qed

lemma frames_in_shrunk: "shrunk s s' dir lo hi \<Longrightarrow> frames_in (mem s') dir lo hi = {}"
  by (auto simp: shrunk_def frames_in_def)

lemma frames_in_free:
  assumes "space_inv c s dir tabs xs" "unat hi \<le> 0x80000000" "f \<in> frames_in (mem s) dir lo hi"
  shows "f \<notin> tab_pages dir tabs \<union> set xs" "page_ok (kern_end s) f"
proof -
  obtain v pa fl where v: "f = P2V pa" "in_range lo hi v" "mapping (mem s) dir v = Some (pa, fl)"
    using assms(3) by (auto simp: frames_in_def)
  have "pgno v < 524288" using v(2) assms(2) by (auto simp: in_range_def)
  then have "user_map (mem s) dir v = Some pa" using v(3) by (simp add: user_map_def user_half)
  then show "f \<notin> tab_pages dir tabs \<union> set xs" "page_ok (kern_end s) f"
    using assms(1) v(1) by (auto simp: space_inv_def frames_ok_def)
qed

lemma alloc_no_frame:
  assumes inv: "space_inv c s dir tabs []" and sz: "oldsz < newsz" "unat newsz \<le> 0x80000000"
  shows "alloc_result c s (allocuvm_loop c dir oldsz newsz (a # as) s) dir (PGROUNDUP oldsz) newsz (a # as) [] tabs"
proof -
  obtain s1 where s1: "kalloc c s = Ok 0 s1" "space_inv c s1 dir tabs []" "kern_end s1 = kern_end s" "mem s1 = mem s"
    using kmem_list_ready_empty[OF inv] by blast
  obtain s' xs' where s': "deallocuvm c dir newsz oldsz s1 = Ok oldsz s'" "space_inv c s' dir tabs xs'"
    "kern_end s' = kern_end s1"
    "mapping (mem s') dir = (\<lambda>v. if in_range (PGROUNDUP oldsz) newsz v then None else mapping (mem s1) dir v)"
    "set xs' = set [] \<union> frames_in (mem s1) dir (PGROUNDUP oldsz) newsz"
    "\<forall>q y. page_aligned q \<and> q \<notin> tab_pages dir tabs \<and> q \<notin> set xs' \<and> y - q < PGSIZE \<longrightarrow> mem s' y = mem s1 y"
    by (rule deallocuvm_ok[OF s1(2) sz])
  have "allocuvm_loop c dir oldsz newsz (a # as) s = Ok 0 s'" using s1(1) s'(1) by simp
  moreover have "shrunk s s' dir (PGROUNDUP oldsz) newsz" using s'(4) unfolding shrunk_def s1(4) .
  moreover have "others_kept s s' (set [] \<union> tab_pages dir tabs \<union> frames_in (mem s) dir (PGROUNDUP oldsz) newsz)"
    using s'(5,6) s1(4) by (auto simp: others_kept_def)
  moreover have "set xs' \<union> tab_pages dir tabs \<union> frames_in (mem s') dir (PGROUNDUP oldsz) newsz =
      set [] \<union> tab_pages dir tabs \<union> frames_in (mem s) dir (PGROUNDUP oldsz) newsz"
    using s'(5) s1(4) frames_in_shrunk[OF \<open>shrunk s s' dir (PGROUNDUP oldsz) newsz\<close>] by auto
  moreover have "\<not> pages_needed tabs (a # as) \<le> length ([] :: uint list)" by (simp add: pages_needed_def)
  ultimately show ?thesis using s'(2,3) s1(3) unfolding alloc_result_def if_not_P[OF \<open>\<not> pages_needed tabs (a # as) \<le> _\<close>]
    by (metis (no_types, lifting))
qed

lemma alloc_no_table:
  assumes inv: "space_inv c s2 dir tabs xs" and x: "page_ok (kern_end s2) x" "x \<notin> set xs \<union> tab_pages dir tabs"
    and fx: "\<And>v. user_map (mem s2) dir v \<noteq> Some (V2P x)" and sz: "oldsz < newsz" "unat newsz \<le> 0x80000000"
  obtains s' xs' where "bnd (deallocuvm c dir newsz oldsz s2) (\<lambda>_ s. bnd (kfree c x s) (\<lambda>_ s. Ok (0 :: uint) s)) = Ok 0 s'"
    "space_inv c s' dir tabs xs'" "kern_end s' = kern_end s2" "shrunk s2 s' dir (PGROUNDUP oldsz) newsz"
    "others_kept s2 s' (insert x (set xs) \<union> tab_pages dir tabs \<union> frames_in (mem s2) dir (PGROUNDUP oldsz) newsz)"
    "set xs' = insert x (set xs \<union> frames_in (mem s2) dir (PGROUNDUP oldsz) newsz)"
proof -
  obtain s3 xs3 where s3: "deallocuvm c dir newsz oldsz s2 = Ok oldsz s3" "space_inv c s3 dir tabs xs3"
    "kern_end s3 = kern_end s2"
    "mapping (mem s3) dir = (\<lambda>v. if in_range (PGROUNDUP oldsz) newsz v then None else mapping (mem s2) dir v)"
    "set xs3 = set xs \<union> frames_in (mem s2) dir (PGROUNDUP oldsz) newsz"
    "\<forall>q y. page_aligned q \<and> q \<notin> tab_pages dir tabs \<and> q \<notin> set xs3 \<and> y - q < PGSIZE \<longrightarrow> mem s3 y = mem s2 y"
    by (rule deallocuvm_ok[OF inv sz])
  have "x \<notin> frames_in (mem s2) dir (PGROUNDUP oldsz) newsz"
  proof
    assume "x \<in> frames_in (mem s2) dir (PGROUNDUP oldsz) newsz"
    then obtain v pa fl where v: "x = P2V pa" "in_range (PGROUNDUP oldsz) newsz v" "mapping (mem s2) dir v = Some (pa, fl)"
      by (auto simp: frames_in_def)
    have "pgno v < 524288" using v(2) sz(2) by (auto simp: in_range_def)
    then show False using fx[of v] v by (simp add: user_map_def user_half)
  qed
  then have x3: "x \<notin> set xs3" using x(2) s3(5) by simp
  have "user_map (mem s3) dir v \<noteq> Some (V2P x)" for v using fx[of v] by (auto simp: user_map_def s3(4))
  then obtain s4 where s4: "kfree c x s3 = Ok () s4" "space_inv c s4 dir tabs (x # xs3)" "kern_end s4 = kern_end s3"
    "mapping (mem s4) dir = mapping (mem s3) dir"
    "\<forall>q y. page_aligned q \<and> q \<noteq> x \<and> y - q < PGSIZE \<longrightarrow> mem s4 y = mem s3 y"
    using space_inv_kfree[OF s3(2) _ _ x3] x s3(3) by auto
  have "shrunk s2 s4 dir (PGROUNDUP oldsz) newsz" by (simp only: shrunk_def s4(4) s3(4))
  moreover have "others_kept s2 s4 (insert x (set xs) \<union> tab_pages dir tabs \<union> frames_in (mem s2) dir (PGROUNDUP oldsz) newsz)"
    using s3(5,6) s4(5) by (auto simp: others_kept_def)
  ultimately show thesis using that[OF _ s4(2)] s3(1,3,5) s4(1,3) by simp
qed

lemma grown_Cons:
  assumes g: "grown s2 s' dir as free2"
    and m2: "mapping (mem s2) dir = (\<lambda>v. if pgno v = pgno a then Some (V2P x, 7) else mapping (mem s) dir v)"
    and a: "pgno a \<notin> pgno ` set as" and kept: "others_kept s2 s' A"
    and zero: "\<forall>y. y - x < PGSIZE \<longrightarrow> mem s2 y = 0" and x: "page_aligned x" "x \<notin> A"
    and free: "insert x free2 \<subseteq> free"
  shows "grown s s' dir (a # as) free"
proof -
  have "mem s' y = 0" if "y - x < PGSIZE" for y using kept x zero that unfolding others_kept_def by auto
  moreover have "mapping (mem s') dir a = Some (V2P x, 7)" using g a by (simp add: grown_def m2)
  moreover have "mapping (mem s') dir v = mapping (mem s) dir v" if "pgno v \<notin> pgno ` set (a # as)" for v
    using g that by (simp add: grown_def m2)
  ultimately show ?thesis using g free unfolding grown_def by (auto; blast)
qed

lemma allocuvm_loop_ok:
  assumes "space_inv c s dir tabs xs" and sz: "as \<noteq> [] \<longrightarrow> oldsz < newsz" "unat newsz < 0x80000000"
    and "\<forall>a\<in>set as. page_aligned a \<and> in_range (PGROUNDUP oldsz) newsz a \<and> mapping (mem s) dir a = None"
    and "distinct (map pgno as)"
  shows "alloc_result c s (allocuvm_loop c dir oldsz newsz as s) dir (PGROUNDUP oldsz) newsz as xs tabs"
  using assms(1,4,5) sz(1)
proof (induction as arbitrary: s tabs xs)
  case Nil
  then show ?case by (auto simp: alloc_result_def grown_def others_kept_def pages_needed_def)
next
  case (Cons a as)
  let ?lo = "PGROUNDUP oldsz"
  note inv = Cons.prems(1)
  have a: "page_aligned a" "in_range ?lo newsz a" "mapping (mem s) dir a = None" "oldsz < newsz"
    "pgno a \<notin> pgno ` set as" using Cons.prems by auto
  have ak: "a < KERNBASE" using a(2) sz(2) by (auto simp: in_range_def user_half)
  show ?case
  proof (cases xs)
    case Nil
    then show ?thesis using alloc_no_frame[of c s dir tabs oldsz newsz a as] inv a(4) sz(2) by simp
  next
    case xs: (Cons x ys)
    have inv': "space_inv c s dir tabs (x # ys)" using inv xs by simp
    then have vm: "vm_inv c s dir tabs (x # ys)" by (simp add: space_inv_def)
    obtain s1 where s1: "kalloc c s = Ok x s1" "x \<noteq> 0" using kalloc_zeroed[OF vm] by blast
    obtain r s2 tabs2 xs2 where
      mp: "mappages c dir a PGSIZE (V2P x) (PTE_W OR PTE_U) (s1\<lparr>mem := memset (mem s1) x 0 PGSIZE\<rparr>) = Ok r s2"
      and ke: "kern_end s2 = kern_end s" and inv2: "space_inv c s2 dir tabs2 xs2"
      and st: "insert x (set xs2 \<union> tab_pages dir tabs2) = set (x # ys) \<union> tab_pages dir tabs"
      and st2: "set xs2 \<subseteq> set ys"
      and xo: "x \<notin> set xs2 \<union> tab_pages dir tabs2" and xp: "page_ok (kern_end s) x"
      and out: "\<forall>q y. page_aligned q \<and> q \<notin> tab_pages dir tabs2 \<and> q \<noteq> x \<and> y - q < PGSIZE \<longrightarrow> mem s2 y = mem s y"
      and zero: "\<forall>y. y - x < PGSIZE \<longrightarrow> mem s2 y = 0"
      and res: "r = 0 \<and> mapping (mem s2) dir = (\<lambda>v. if pgno v = pgno a then Some (V2P x, 7) else mapping (mem s) dir v) \<and>
          dom tabs2 = insert (PDX a) (dom tabs) \<and> length ys = length xs2 + (if tabs (PDX a) = None then 1 else 0) \<or>
        r = - 1 \<and> mapping (mem s2) dir = mapping (mem s) dir \<and> tabs2 = tabs \<and> tabs (PDX a) = None \<and> ys = []"
      by (rule map_fresh_page[OF inv' a(1) ak a(3) s1(1)])
    have kept2: "others_kept s s2 (set xs \<union> tab_pages dir tabs)"
      unfolding others_kept_def
    proof (intro allI impI)
      fix q y assume q: "page_aligned q \<and> q \<notin> set xs \<union> tab_pages dir tabs \<and> y - q < PGSIZE"
      then have "q \<notin> tab_pages dir tabs2" "q \<noteq> x" using st xs by auto
      then show "mem s2 y = mem s y" using out q by blast
    qed
    show ?thesis
    proof (cases "r = 0")
      case False
      then have r: "r = - 1" and m2: "mapping (mem s2) dir = mapping (mem s) dir" and t2: "tabs2 = tabs"
        and few: "tabs (PDX a) = None" "ys = []" using res by auto
      have nd: "\<not> pages_needed tabs (a # as) \<le> length xs" using pages_needed_no_table[of tabs a as] few xs by simp
      have "user_map (mem s2) dir v \<noteq> Some (V2P x)" for v
      proof
        assume "user_map (mem s2) dir v = Some (V2P x)"
        then have "user_map (mem s) dir v = Some (V2P x)" unfolding user_map_def m2 .
        then have "P2V (V2P x) \<notin> tab_pages dir tabs \<union> set (x # ys)"
          using inv' unfolding space_inv_def frames_ok_def by blast
        then show False by simp
      qed
      from alloc_no_table[OF inv2 _ xo this a(4)] obtain s' xs' where
        s': "bnd (deallocuvm c dir newsz oldsz s2) (\<lambda>_ s. bnd (kfree c x s) (\<lambda>_ s. Ok (0 :: uint) s)) = Ok 0 s'"
        "space_inv c s' dir tabs2 xs'" "kern_end s' = kern_end s2" "shrunk s2 s' dir ?lo newsz"
        "others_kept s2 s' (insert x (set xs2) \<union> tab_pages dir tabs2 \<union> frames_in (mem s2) dir ?lo newsz)"
        "set xs' = insert x (set xs2 \<union> frames_in (mem s2) dir ?lo newsz)"
        using ke xp sz(2) by auto
      have run: "allocuvm_loop c dir oldsz newsz (a # as) s = Ok 0 s'" using s1 mp r s'(1) by simp
      have "others_kept s s' (set xs \<union> tab_pages dir tabs \<union> frames_in (mem s) dir ?lo newsz)"
        by (rule others_kept_trans[OF kept2 s'(5)]) (use st xs frames_in_cong[OF m2] in auto)
      moreover have "shrunk s s' dir ?lo newsz" using s'(4) unfolding shrunk_def m2 .
      moreover have "set xs' \<union> tab_pages dir tabs2 \<union> frames_in (mem s') dir ?lo newsz =
          set xs \<union> tab_pages dir tabs \<union> frames_in (mem s) dir ?lo newsz"
        using s'(6) st frames_in_shrunk[OF s'(4)] frames_in_cong[OF m2, of ?lo newsz] xs by auto
      ultimately show ?thesis unfolding alloc_result_def if_not_P[OF nd] using run s'(2,3) ke by (metis (no_types, lifting))
    next
      case True
      then have m2: "mapping (mem s2) dir = (\<lambda>v. if pgno v = pgno a then Some (V2P x, 7) else mapping (mem s) dir v)"
        and dm: "dom tabs2 = insert (PDX a) (dom tabs)"
        and ln: "length ys = length xs2 + (if tabs (PDX a) = None then 1 else 0)" using res by auto
      have nd: "pages_needed tabs (a # as) \<le> length xs \<longleftrightarrow> pages_needed tabs2 as \<le> length xs2"
        using pages_needed_Cons[OF dm, of as] ln xs by simp
      have fr2: "frames_in (mem s2) dir ?lo newsz = insert x (frames_in (mem s) dir ?lo newsz)"
        by (rule frames_in_add[OF m2 a(3,2)])
      have run: "allocuvm_loop c dir oldsz newsz (a # as) s = allocuvm_loop c dir oldsz newsz as s2"
        using s1 mp True by simp
      have "alloc_result c s2 (allocuvm_loop c dir oldsz newsz as s2) dir ?lo newsz as xs2 tabs2"
      proof (rule Cons.IH[OF inv2])
        show "\<forall>b\<in>set as. page_aligned b \<and> in_range ?lo newsz b \<and> mapping (mem s2) dir b = None"
          using Cons.prems(2) a(5) by (auto simp: m2 image_iff)
      qed (use Cons.prems in auto)
      then obtain r s' tabs' xs' where s': "allocuvm_loop c dir oldsz newsz as s2 = Ok r s'"
        "space_inv c s' dir tabs' xs'" "kern_end s' = kern_end s2"
        and cons: "set xs' \<union> tab_pages dir tabs' \<union> frames_in (mem s') dir ?lo newsz =
          set xs2 \<union> tab_pages dir tabs2 \<union> frames_in (mem s2) dir ?lo newsz"
        and d: "if pages_needed tabs2 as \<le> length xs2
          then r = newsz \<and> grown s2 s' dir as (set xs2) \<and> others_kept s2 s' (set xs2 \<union> tab_pages dir tabs2)
          else r = 0 \<and> shrunk s2 s' dir ?lo newsz \<and>
            others_kept s2 s' (set xs2 \<union> tab_pages dir tabs2 \<union> frames_in (mem s2) dir ?lo newsz)"
        unfolding alloc_result_def by blast
      have sub: "set xs2 \<union> tab_pages dir tabs2 \<subseteq> set xs \<union> tab_pages dir tabs" using st xs by auto
      have cons': "set xs' \<union> tab_pages dir tabs' \<union> frames_in (mem s') dir ?lo newsz =
          set xs \<union> tab_pages dir tabs \<union> frames_in (mem s) dir ?lo newsz"
        unfolding cons fr2 using st xs by auto
      have "if pages_needed tabs (a # as) \<le> length xs
          then r = newsz \<and> grown s s' dir (a # as) (set xs) \<and> others_kept s s' (set xs \<union> tab_pages dir tabs)
          else r = 0 \<and> shrunk s s' dir ?lo newsz \<and>
            others_kept s s' (set xs \<union> tab_pages dir tabs \<union> frames_in (mem s) dir ?lo newsz)"
      proof (cases "pages_needed tabs2 as \<le> length xs2")
        case True
        then have g: "r = newsz" "grown s2 s' dir as (set xs2)" "others_kept s2 s' (set xs2 \<union> tab_pages dir tabs2)"
          using d by auto
        have "others_kept s s' (set xs \<union> tab_pages dir tabs)"
          by (rule others_kept_trans[OF kept2]) (use g sub in auto)
        moreover have "grown s s' dir (a # as) (set xs)"
          by (rule grown_Cons[OF _ m2 a(5) _ zero _ xo]) (use g xs st2 xp in \<open>auto simp: page_ok_def\<close>)
        ultimately show ?thesis using g True nd by simp
      next
        case False
        then have g: "r = 0" "shrunk s2 s' dir ?lo newsz"
          "others_kept s2 s' (set xs2 \<union> tab_pages dir tabs2 \<union> frames_in (mem s2) dir ?lo newsz)" using d by auto
        have "others_kept s s' (set xs \<union> tab_pages dir tabs \<union> frames_in (mem s) dir ?lo newsz)"
          by (rule others_kept_trans[OF kept2 g(3)]) (use sub fr2 xs in auto)
        moreover have "shrunk s s' dir ?lo newsz"
          using g(2) a(2) by (auto simp: shrunk_def m2 fun_eq_iff in_range_def)
        ultimately show ?thesis using g False nd by simp
      qed
      then show ?thesis unfolding alloc_result_def run using s' ke cons' by (metis (no_types, lifting))
    qed
  qed
qed

lemma pages_from_set:
  assumes "page_aligned a" "unat hi \<le> 0x80000000"
  shows "set (pages_from a hi) = {x. page_aligned x \<and> in_range a hi x} \<and> distinct (map pgno (pages_from a hi))"
  using assms
proof (induction a hi rule: pages_from.induct)
  case (1 a hi)
  have ua: "unat a = 4096 * pgno a" by (rule pgno_aligned[OF 1(2)])
  show ?case
  proof (cases "a < hi")
    case False
    then have "\<not> in_range a hi x" for x using ua by (auto simp: in_range_def word_less_nat_alt)
    then show ?thesis using False by (simp add: pages_from.simps)
  next
    case True
    then have lt: "unat a < 0x80000000" using 1(3) by (simp add: word_less_nat_alt)
    have pl: "pgno (a + PGSIZE) = pgno a + 1" "page_aligned (a + PGSIZE)" using pgno_plus[OF 1(2)] lt by auto
    have nw: "\<not> a + PGSIZE < a" using lt by (simp add: word_less_nat_alt unat_plus_if_size word_size)
    have u: "pages_from a hi = a # pages_from (a + PGSIZE) hi"
      using True nw by (subst pages_from.simps) simp
    have IH: "set (pages_from (a + PGSIZE) hi) = {x. page_aligned x \<and> in_range (a + PGSIZE) hi x}"
      "distinct (map pgno (pages_from (a + PGSIZE) hi))" using 1(1)[OF True nw pl(2) 1(3)] by auto
    have rng: "in_range a hi x \<longleftrightarrow> pgno x = pgno a \<or> in_range (a + PGSIZE) hi x" for x
      using True ua pl(1) by (auto simp: in_range_def word_less_nat_alt)
    have same: "x = a" if "page_aligned x" "pgno x = pgno a" for x
      using pgno_aligned[OF that(1)] ua that(2) by (simp add: word_unat_eq_iff)
    show ?thesis unfolding u using IH same 1(2) pl(1) by (auto simp: rng) (auto simp: in_range_def)
  qed
qed

lemma aligned_of_page:
  assumes "in_range a hi v" "unat hi \<le> 0x80000000"
  shows "\<exists>x. page_aligned x \<and> pgno x = pgno v \<and> in_range a hi x"
proof -
  have p: "pgno (PGROUNDDOWN v) = pgno v" by (simp add: pgno_def unat_PGROUNDDOWN)
  then have "in_range a hi (PGROUNDDOWN v)" using assms by (simp add: in_range_def)
  then show ?thesis using p by (intro exI[of _ "PGROUNDDOWN v"]) simp
qed

subsection \<open>Properties\<close>

text \<open>The pages of a range, and the directory slots without a table among them.\<close>

definition frames_needed :: "(uint \<Rightarrow> uint option) \<Rightarrow> uint \<Rightarrow> uint \<Rightarrow> nat" where
  "frames_needed tabs lo hi =
     card (pgno ` {v. in_range lo hi v}) + card (PDX ` {v. in_range lo hi v} - dom tabs)"

lemma frames_needed_pages:
  assumes "page_aligned lo" "unat hi \<le> 0x80000000"
  shows "pages_needed tabs (pages_from lo hi) = frames_needed tabs lo hi"
proof -
  have ps: "set (pages_from lo hi) = {x. page_aligned x \<and> in_range lo hi x}" "distinct (map pgno (pages_from lo hi))"
    using pages_from_set[OF assms] by auto
  have ex: "\<exists>x\<in>set (pages_from lo hi). pgno x = pgno v" if "in_range lo hi v" for v
    using aligned_of_page[OF that assms(2)] ps(1) by auto
  have "pgno ` set (pages_from lo hi) = pgno ` {v. in_range lo hi v}"
    using ex unfolding image_def by (auto simp: ps(1)) (metis ex[unfolded ps(1)] mem_Collect_eq)
  moreover have "PDX ` set (pages_from lo hi) = PDX ` {v. in_range lo hi v}"
  proof (intro set_eqI iffI)
    fix d assume "d \<in> PDX ` {v. in_range lo hi v}"
    then obtain v where v: "in_range lo hi v" "d = PDX v" by auto
    from ex[OF v(1)] obtain x where x: "x \<in> set (pages_from lo hi)" "pgno x = pgno v" by auto
    then show "d \<in> PDX ` set (pages_from lo hi)" using same_page_iff[of x v] v(2) by (intro image_eqI[of _ _ x]) auto
  qed (auto simp: ps(1))
  moreover have "length (pages_from lo hi) = card (pgno ` set (pages_from lo hi))"
    using distinct_card[OF ps(2)] by simp
  ultimately show ?thesis by (simp add: pages_needed_def frames_needed_def)
qed

text \<open>
  C18 (growing an address space). From a well-formed address space with no page mapped between
  the old and the new size, \<open>allocuvm\<close> returns and the address space is well formed again. When the
  free list holds a frame for each page of the range and a table for each directory slot of the range
  that has none, it returns the new size: every page of the range is mapped, user-writable, to a
  zero-filled frame taken from the free list, two different pages to two different frames, and all
  other mappings are as before. When the free list is shorter, it returns 0 and every mapping is as
  before. In both cases no page is lost: the free pages, the pages of the table and the frames mapped
  in the range are together the free pages and table pages of the start (after a failure no frame is
  mapped in the range, so only page tables were kept). The bytes of every user page that was mapped
  before are untouched.
\<close>

theorem allocuvm_grows:
  assumes inv: "space_inv c s dir tabs xs" and sz: "oldsz \<le> newsz" "newsz < KERNBASE"
    and free: "\<forall>v. in_range (PGROUNDUP oldsz) newsz v \<longrightarrow> mapping (mem s) dir v = None"
  shows "\<exists>r s' tabs' xs'. allocuvm c dir oldsz newsz s = Ok r s' \<and> space_inv c s' dir tabs' xs' \<and>
    (if frames_needed tabs (PGROUNDUP oldsz) newsz \<le> length xs
     then r = newsz \<and>
       (\<forall>v. \<not> in_range (PGROUNDUP oldsz) newsz v \<longrightarrow> mapping (mem s') dir v = mapping (mem s) dir v) \<and>
       (\<forall>v. in_range (PGROUNDUP oldsz) newsz v \<longrightarrow> (\<exists>f\<in>set xs. mapping (mem s') dir v = Some (V2P f, 7) \<and>
          (\<forall>y. y - f < PGSIZE \<longrightarrow> mem s' y = 0)))
     else r = 0 \<and> mapping (mem s') dir = mapping (mem s) dir) \<and>
    set xs' \<union> tab_pages dir tabs' \<union> frames_in (mem s') dir (PGROUNDUP oldsz) newsz =
      set xs \<union> tab_pages dir tabs \<and>
    (\<forall>v pa y. user_map (mem s) dir v = Some pa \<and> y - P2V pa < PGSIZE \<longrightarrow> mem s' y = mem s y)"
proof -
  let ?lo = "PGROUNDUP oldsz" and ?as = "pages_from (PGROUNDUP oldsz) newsz"
  have nz: "unat newsz < 0x80000000" using sz(2) by (simp add: word_less_nat_alt)
  have ps: "set ?as = {x. page_aligned x \<and> in_range ?lo newsz x}" "distinct (map pgno ?as)"
    using pages_from_set[OF page_aligned_PGROUNDUP, of newsz oldsz] nz by auto
  have run: "allocuvm c dir oldsz newsz s = allocuvm_loop c dir oldsz newsz ?as s"
    using sz by (simp add: allocuvm_def not_le[symmetric])
  have ne: "oldsz < newsz" if "?as \<noteq> []"
  proof (rule ccontr)
    assume "\<not> oldsz < newsz"
    then have "oldsz = newsz" using sz(1) by simp
    have "hd ?as \<in> set ?as" using that by (rule hd_in_set)
    then obtain x where "page_aligned x" "in_range ?lo newsz x" unfolding ps(1) by blast
    then have "?lo \<le> x" "x < newsz"
      using pgno_aligned[of x] pgno_aligned[of ?lo] by (auto simp: in_range_def word_le_nat_alt word_less_nat_alt)
    then show False using PGROUNDUP_le_iff[of oldsz x] \<open>oldsz = newsz\<close> \<open>page_aligned x\<close> nz by auto
  qed
  have none: "frames_in (mem s) dir ?lo newsz = {}" using free by (auto simp: frames_in_def)
  have nd: "pages_needed tabs ?as = frames_needed tabs ?lo newsz"
    using frames_needed_pages[OF page_aligned_PGROUNDUP, of newsz] nz by simp
  have "alloc_result c s (allocuvm_loop c dir oldsz newsz ?as s) dir ?lo newsz ?as xs tabs"
    by (rule allocuvm_loop_ok[OF inv _ nz _ ps(2)]) (use ne ps(1) free in auto)
  then obtain r s' tabs' xs' where
    s': "allocuvm_loop c dir oldsz newsz ?as s = Ok r s'" "space_inv c s' dir tabs' xs'"
    and cons: "set xs' \<union> tab_pages dir tabs' \<union> frames_in (mem s') dir ?lo newsz = set xs \<union> tab_pages dir tabs"
    and d: "if frames_needed tabs ?lo newsz \<le> length xs then r = newsz \<and> grown s s' dir ?as (set xs)
      else r = 0 \<and> shrunk s s' dir ?lo newsz"
    and k: "others_kept s s' (set xs \<union> tab_pages dir tabs)"
    unfolding alloc_result_def none nd by (auto split: if_splits)
  have keep: "mem s' y = mem s y" if "user_map (mem s) dir v = Some pa" "y - P2V pa < PGSIZE" for v pa y
  proof -
    have "P2V pa \<notin> tab_pages dir tabs \<union> set xs" "page_ok (kern_end s) (P2V pa)"
      using inv that(1) by (auto simp: space_inv_def frames_ok_def)
    then show ?thesis using k that(2) by (auto simp: others_kept_def page_ok_def)
  qed
  have main: "if frames_needed tabs ?lo newsz \<le> length xs
      then r = newsz \<and> (\<forall>v. \<not> in_range ?lo newsz v \<longrightarrow> mapping (mem s') dir v = mapping (mem s) dir v) \<and>
        (\<forall>v. in_range ?lo newsz v \<longrightarrow> (\<exists>f\<in>set xs. mapping (mem s') dir v = Some (V2P f, 7) \<and>
          (\<forall>y. y - f < PGSIZE \<longrightarrow> mem s' y = 0)))
      else r = 0 \<and> mapping (mem s') dir = mapping (mem s) dir"
  proof (cases "frames_needed tabs ?lo newsz \<le> length xs")
    case True
    then have g: "r = newsz \<and> grown s s' dir ?as (set xs)" using d by simp
    have out: "mapping (mem s') dir v = mapping (mem s) dir v" if "\<not> in_range ?lo newsz v" for v
    proof -
      have "pgno v \<notin> pgno ` set ?as" using that unfolding ps(1) in_range_def by auto
      then show ?thesis using g unfolding grown_def by blast
    qed
    have "\<exists>f\<in>set xs. mapping (mem s') dir v = Some (V2P f, 7) \<and> (\<forall>y. y - f < PGSIZE \<longrightarrow> mem s' y = 0)"
      if v: "in_range ?lo newsz v" for v
    proof -
      obtain x where x: "x \<in> set ?as" "pgno x = pgno v" using aligned_of_page[OF v] nz ps(1) by auto
      then show ?thesis using g mapping_pgno[OF x(2)[symmetric]] unfolding grown_def by metis
    qed
    then show ?thesis using g out True by simp
  next
    case False
    then have g: "r = 0 \<and> shrunk s s' dir ?lo newsz" using d by simp
    then have "mapping (mem s') dir = mapping (mem s) dir" using free by (auto simp: shrunk_def fun_eq_iff)
    then show ?thesis using g False by simp
  qed
  have run': "allocuvm c dir oldsz newsz s = Ok r s'" using run s'(1) by simp
  show ?thesis
    by (intro exI[of _ r] exI[of _ s'] exI[of _ tabs'] exI[of _ xs'] conjI)
      (fact run', fact s'(2), fact main, fact cons, use keep in blast)
qed

text \<open>An empty page directory beside the two free pages of \<open>demo_kernel\<close>.\<close>

lemma demo_space: "space_inv 0 demo_kernel 0x80300000 (\<lambda>_. None) [0x80200000, 0x80201000]"
proof -
  have al: "page_aligned 0x80300000" "page_aligned 0x80200000" "page_aligned 0x80201000"
    by (simp_all add: page_aligned_def)
  have z: "load32 (mem demo_kernel) (0x80300000 + 4 * i) = 0" if "i < 1024" for i
    using load32_slot[OF al(1,2) that, of 0] load32_slot[OF al(1,3) that, of 0]
    by (simp add: load32_def[of "\<lambda>_. 0"])
  then have m: "mapping (mem demo_kernel) 0x80300000 v = None" for v
    using z[OF PDX_less[of v]] by (simp add: mapping_def Let_def)
  have "pt_inv (mem demo_kernel) 0x80300000 (\<lambda>_. None)" using al z by (simp add: pt_inv_def)
  moreover have "frames_ok (user_map (mem demo_kernel) 0x80300000) k A" for k A
    using m by (simp add: frames_ok_def user_map_def)
  ultimately show ?thesis
    using demo_pages[of 0] by (simp add: space_inv_def vm_inv_def tab_pages_def)
qed

lemma demo_unmapped: "mapping (mem demo_kernel) 0x80300000 v = None"
proof -
  have "pt_inv (mem demo_kernel) 0x80300000 (\<lambda>_. None)" using demo_space by (simp add: space_inv_def vm_inv_def)
  from mapping_tabs[OF this] show ?thesis by simp
qed

lemma demo_range: "in_range (PGROUNDUP 100) 5000 v \<longleftrightarrow> pgno v = 1"
    "in_range (PGROUNDUP 100) 10000 v \<longleftrightarrow> pgno v = 1 \<or> pgno v = 2"
proof -
  have "pgno (PGROUNDUP 100) = 1" by (simp add: pgno_def PGROUNDUP_def)
  then show "in_range (PGROUNDUP 100) 5000 v \<longleftrightarrow> pgno v = 1"
    "in_range (PGROUNDUP 100) 10000 v \<longleftrightarrow> pgno v = 1 \<or> pgno v = 2" by (auto simp: in_range_def)
qed

lemma demo_needed: "frames_needed (\<lambda>_. None) (PGROUNDUP 100) 5000 = 2"
    "frames_needed (\<lambda>_. None) (PGROUNDUP 100) 10000 = 3"
proof -
  have at: "pgno 4096 = 1" "pgno 8192 = 2" by (simp_all add: pgno_def)
  have z: "PDX v = 0" if "pgno v < 1024" for v using PDX_pgno[of v] that by (simp add: unat_eq_0)
  have "pgno ` {v. pgno v = 1} = {1}" using at by force
  moreover have "PDX ` {v. pgno v = 1} = {0}" using at(1) z by force
  ultimately show "frames_needed (\<lambda>_. None) (PGROUNDUP 100) 5000 = 2"
    by (simp add: frames_needed_def demo_range)
  have "pgno ` {v. pgno v = 1 \<or> pgno v = 2} = {1, 2}" using at by force
  moreover have "PDX ` {v. pgno v = 1 \<or> pgno v = 2} = {0}" using at z by force
  ultimately show "frames_needed (\<lambda>_. None) (PGROUNDUP 100) 10000 = 3"
    by (simp add: frames_needed_def demo_range)
qed

text \<open>Two free pages are enough to grow by one page, and not enough to grow by two.\<close>

theorem allocuvm_grows_witness:
  "(\<exists>s' tabs' xs' f. allocuvm 0 0x80300000 100 5000 demo_kernel = Ok 5000 s' \<and> space_inv 0 s' 0x80300000 tabs' xs' \<and>
      f \<in> {0x80200000, 0x80201000} \<and> mapping (mem s') 0x80300000 0x1000 = Some (V2P f, 7) \<and>
      mapping (mem s') 0x80300000 0x2000 = None \<and> mem s' (f + 4) = 0) \<and>
   (\<exists>s' tabs' xs'. allocuvm 0 0x80300000 100 10000 demo_kernel = Ok 0 s' \<and> space_inv 0 s' 0x80300000 tabs' xs' \<and>
      mapping (mem s') 0x80300000 0x1000 = None \<and>
      set xs' \<union> tab_pages 0x80300000 tabs' = {0x80200000, 0x80201000, 0x80300000})"
proof (intro conjI)
  have pg: "pgno 4096 = 1" "pgno 8192 = 2" by (simp_all add: pgno_def)
  have "\<forall>v. in_range (PGROUNDUP 100) n v \<longrightarrow> mapping (mem demo_kernel) 0x80300000 v = None" for n
    by (simp only: demo_unmapped) simp
  note grows = allocuvm_grows[OF demo_space _ _ this]
  from grows[of 5000, unfolded demo_needed] obtain s' tabs' xs' where
    s': "allocuvm 0 0x80300000 100 5000 demo_kernel = Ok 5000 s'" "space_inv 0 s' 0x80300000 tabs' xs'"
    "\<forall>v. \<not> in_range (PGROUNDUP 100) 5000 v \<longrightarrow> mapping (mem s') 0x80300000 v = mapping (mem demo_kernel) 0x80300000 v"
    "\<forall>v. in_range (PGROUNDUP 100) 5000 v \<longrightarrow> (\<exists>f\<in>set [0x80200000, 0x80201000].
       mapping (mem s') 0x80300000 v = Some (V2P f, 7) \<and> (\<forall>y. y - f < PGSIZE \<longrightarrow> mem s' y = 0))" by auto
  from s'(4) obtain f where f: "f \<in> set [0x80200000, 0x80201000]" "mapping (mem s') 0x80300000 0x1000 = Some (V2P f, 7)"
    "\<forall>y. y - f < PGSIZE \<longrightarrow> mem s' y = 0" using demo_range(1)[of 4096] pg by blast
  have "mapping (mem s') 0x80300000 0x2000 = None" using s'(3) demo_range(1)[of 8192] pg demo_unmapped by simp
  moreover have "mem s' (f + 4) = 0" using f(3) by simp
  ultimately show "\<exists>s' tabs' xs' f. allocuvm 0 0x80300000 100 5000 demo_kernel = Ok 5000 s' \<and>
      space_inv 0 s' 0x80300000 tabs' xs' \<and> f \<in> {0x80200000, 0x80201000} \<and>
      mapping (mem s') 0x80300000 0x1000 = Some (V2P f, 7) \<and> mapping (mem s') 0x80300000 0x2000 = None \<and>
      mem s' (f + 4) = 0" using s'(1,2) f(1,2) by auto
  from grows[of 10000, unfolded demo_needed] obtain s' tabs' xs' where
    s': "allocuvm 0 0x80300000 100 10000 demo_kernel = Ok 0 s'" "space_inv 0 s' 0x80300000 tabs' xs'"
    "mapping (mem s') 0x80300000 = mapping (mem demo_kernel) 0x80300000"
    "set xs' \<union> tab_pages 0x80300000 tabs' \<union> frames_in (mem s') 0x80300000 (PGROUNDUP 100) 10000 =
       set [0x80200000, 0x80201000] \<union> tab_pages 0x80300000 (\<lambda>_. None)" by auto
  moreover have "frames_in (mem s') 0x80300000 (PGROUNDUP 100) 10000 = {}"
    unfolding frames_in_def s'(3) demo_unmapped by simp
  moreover have "mapping (mem s') 0x80300000 0x1000 = None" unfolding s'(3) by (rule demo_unmapped)
  ultimately show "\<exists>s' tabs' xs'. allocuvm 0 0x80300000 100 10000 demo_kernel = Ok 0 s' \<and>
      space_inv 0 s' 0x80300000 tabs' xs' \<and> mapping (mem s') 0x80300000 0x1000 = None \<and>
      set xs' \<union> tab_pages 0x80300000 tabs' = {0x80200000, 0x80201000, 0x80300000}"
    by (intro exI[of _ s'] exI[of _ tabs'] exI[of _ xs']) (auto simp: tab_pages_def)
qed

text \<open>
  C19 (shrinking an address space). \<open>deallocuvm\<close> on a well-formed address space returns the new
  size and leaves it well formed: exactly the pages from the new size (rounded up) to the old size are
  unmapped, their frames, and no others, are added to the free pages, and the bytes of every user
  page that stays mapped are untouched.
\<close>

theorem deallocuvm_shrinks:
  assumes inv: "space_inv c s dir tabs xs" and sz: "newsz < oldsz" "oldsz \<le> KERNBASE"
  shows "\<exists>s' xs'. deallocuvm c dir oldsz newsz s = Ok newsz s' \<and> space_inv c s' dir tabs xs' \<and>
    (\<forall>v. mapping (mem s') dir v = (if in_range (PGROUNDUP newsz) oldsz v then None else mapping (mem s) dir v)) \<and>
    set xs' = set xs \<union> frames_in (mem s) dir (PGROUNDUP newsz) oldsz \<and>
    (\<forall>v pa y. user_map (mem s') dir v = Some pa \<and> y - P2V pa < PGSIZE \<longrightarrow> mem s' y = mem s y)"
proof -
  have oz: "unat oldsz \<le> 0x80000000" using sz(2) by (simp add: word_le_nat_alt)
  obtain s' xs' where s': "deallocuvm c dir oldsz newsz s = Ok newsz s'"
    "space_inv c s' dir tabs xs'" "kern_end s' = kern_end s"
    "mapping (mem s') dir = (\<lambda>v. if in_range (PGROUNDUP newsz) oldsz v then None else mapping (mem s) dir v)"
    "set xs' = set xs \<union> frames_in (mem s) dir (PGROUNDUP newsz) oldsz"
    "\<forall>q y. page_aligned q \<and> q \<notin> tab_pages dir tabs \<and> q \<notin> set xs' \<and> y - q < PGSIZE \<longrightarrow> mem s' y = mem s y"
    by (rule deallocuvm_ok[OF inv sz(1) oz])
  have keep: "mem s' y = mem s y" if "user_map (mem s') dir v = Some pa" "y - P2V pa < PGSIZE" for v pa y
  proof -
    have "P2V pa \<notin> tab_pages dir tabs \<union> set xs'" "page_ok (kern_end s') (P2V pa)"
      using s'(2) that(1) by (auto simp: space_inv_def frames_ok_def)
    then show ?thesis using s'(6) that(2) by (auto simp: page_ok_def)
  qed
  show ?thesis
    by (intro exI[of _ s'] exI[of _ xs'] conjI)
      (fact s'(1), fact s'(2), use s'(4) in \<open>simp add: fun_eq_iff\<close>, fact s'(5), use keep in blast)
qed


text \<open>An address space with a page mapped to the first free frame.\<close>

lemma map_first_page:
  fixes s :: "'a kmem_scheme"
  assumes inv: "space_inv c s dir tabs (x # y # ys)" and a: "page_aligned a" "a < KERNBASE" "mapping (mem s) dir a = None"
  shows "\<exists>(s' :: 'a kmem_scheme) tabs' xs'. space_inv c s' dir tabs' xs' \<and> x \<notin> set xs' \<and> mapping (mem s') dir a = Some (V2P x, 7)"
proof -
  have "vm_inv c s dir tabs (x # y # ys)" using inv by (simp add: space_inv_def)
  then obtain s1 where s1: "kalloc c s = Ok x s1" using kalloc_zeroed by blast
  show ?thesis
  proof (rule map_fresh_page[OF inv a s1])
    fix r and s' :: "'a kmem_scheme" and tabs' xs'
    assume sp: "space_inv c s' dir tabs' xs'" "x \<notin> set xs' \<union> tab_pages dir tabs'"
      and d: "r = 0 \<and> mapping (mem s') dir = (\<lambda>v. if pgno v = pgno a then Some (V2P x, 7) else mapping (mem s) dir v) \<and>
          dom tabs' = insert (PDX a) (dom tabs) \<and> length (y # ys) = length xs' + (if tabs (PDX a) = None then 1 else 0) \<or>
        r = - 1 \<and> mapping (mem s') dir = mapping (mem s) dir \<and> tabs' = tabs \<and> tabs (PDX a) = None \<and> y # ys = []"
    then have "mapping (mem s') dir a = Some (V2P x, 7)" by auto
    then show ?thesis using sp by (intro exI[of _ s'] exI[of _ tabs'] exI[of _ xs']) simp
  qed
qed

lemma demo_mapped: "\<exists>(s :: kernel) tabs xs. space_inv 0 s 0x80300000 tabs xs \<and> 0x80200000 \<notin> set xs \<and>
    mapping (mem s) 0x80300000 0x1000 = Some (V2P 0x80200000, 7)"
  using map_first_page[OF demo_space _ _ demo_unmapped, of 4096] by (simp add: page_aligned_def)

theorem deallocuvm_shrinks_witness:
  "\<exists>(s :: kernel) tabs xs s' xs'. mapping (mem s) 0x80300000 0x1000 = Some (V2P 0x80200000, 7) \<and> 0x80200000 \<notin> set xs \<and>
    deallocuvm 0 0x80300000 0x2000 100 s = Ok 100 s' \<and> space_inv 0 s' 0x80300000 tabs xs' \<and>
    mapping (mem s') 0x80300000 0x1000 = None \<and> 0x80200000 \<in> set xs' \<and> set xs \<subseteq> set xs'"
proof -
  obtain s :: kernel and tabs xs where s: "space_inv 0 s 0x80300000 tabs xs" "0x80200000 \<notin> set xs"
    "mapping (mem s) 0x80300000 0x1000 = Some (V2P 0x80200000, 7)" using demo_mapped by blast
  have r: "in_range (PGROUNDUP 100) 0x2000 0x1000" by (simp add: in_range_def pgno_def PGROUNDUP_def)
  obtain s' xs' where s': "deallocuvm 0 0x80300000 0x2000 100 s = Ok 100 s'" "space_inv 0 s' 0x80300000 tabs xs'"
    "\<forall>v. mapping (mem s') 0x80300000 v = (if in_range (PGROUNDUP 100) 0x2000 v then None else mapping (mem s) 0x80300000 v)"
    "set xs' = set xs \<union> frames_in (mem s) 0x80300000 (PGROUNDUP 100) 0x2000"
    using deallocuvm_shrinks[OF s(1), of 100 8192] by auto
  have "P2V (V2P 0x80200000) \<in> frames_in (mem s) 0x80300000 (PGROUNDUP 100) 0x2000"
    using r s(3) unfolding frames_in_def by blast
  then have "0x80200000 \<in> set xs'" "set xs \<subseteq> set xs'" using s'(4) by simp_all
  moreover have "mapping (mem s') 0x80300000 0x1000 = None" using s'(3) r by simp
  ultimately show ?thesis using s s' by blast
qed

end
