(* ===== verification/Scheduler.thy ===== *)
theory Scheduler
  imports Vm Mutex
begin

text \<open>
  The scheduler of \<open>proc.c\<close>. It runs as a coroutine of the threads: \<open>scheduler_start\<close> is the code
  before its loop, \<open>scheduler_enter\<close> the start of a round up to the \<open>swtch\<close> to the thread it picks
  (or the end of the round), \<open>scheduler_back\<close> the code from the return of that \<open>swtch\<close> up to the
  next one. The position of the two scans is the pair of the process and the thread last run.
\<close>

subsection \<open>The code\<close>

definition scheduler_start :: "nat \<Rightarrow> 'a machine_scheme \<Rightarrow> (nat, 'a machine_scheme) res" where
  "scheduler_start c s =
     bnd (mycpu c s) (\<lambda>k s. Ok k (upd_cpu k (\<lambda>x. x\<lparr>cpu_proc := None, cpu_thread := None\<rparr>) s))"

definition next_thread :: "'a kernel_scheme \<Rightarrow> nat \<Rightarrow> nat \<Rightarrow> nat option" where
  "next_thread s p t = find (\<lambda>u. t_state (thr s p u) = RUNNABLE) [t..<NTHREAD]"

fun scan_procs :: "nat \<Rightarrow> nat list \<Rightarrow> 'a kernel_scheme \<Rightarrow> (nat \<times> nat) option \<times> 'a kernel_scheme" where
  "scan_procs c [] s = (None, s)"
| "scan_procs c (p # ps) s =
     (if p_state (procs s p) \<noteq> RUNNABLE then scan_procs c ps s
      else case next_thread s p 0 of
        Some t \<Rightarrow> (Some (p, t), s)
      | None \<Rightarrow> scan_procs c ps (upd_cpu c (\<lambda>x. x\<lparr>cpu_proc := None\<rparr>) s))"

definition sched_next ::
    "nat \<Rightarrow> (nat \<times> nat) option \<Rightarrow> 'a kernel_scheme \<Rightarrow> (nat \<times> nat) option \<times> 'a kernel_scheme" where
  "sched_next c pos s =
     (case pos of None \<Rightarrow> scan_procs c [0..<NPROC] s
      | Some (p, t) \<Rightarrow> (case next_thread s p (Suc t) of
          Some u \<Rightarrow> (Some (p, u), s)
        | None \<Rightarrow> scan_procs c [Suc p..<NPROC] (upd_cpu c (\<lambda>x. x\<lparr>cpu_proc := None\<rparr>) s)))"

definition dispatch :: "nat \<Rightarrow> nat \<Rightarrow> nat \<Rightarrow> 'a kernel_scheme \<Rightarrow> (unit, 'a kernel_scheme) res" where
  "dispatch c p t s =
     (let s = upd_cpu c (\<lambda>x. x\<lparr>cpu_proc := Some p, cpu_thread := Some (p, t)\<rparr>) s in
      bnd (switchuvm c (Some p) s) (\<lambda>_ s.
      let s = upd_proc p (\<lambda>P. P\<lparr>p_state := RUNNING\<rparr>) s in
      Ok () (upd_thread p t (\<lambda>x. x\<lparr>t_state := RUNNING\<rparr>) s)))"

definition sched_pick ::
    "nat \<Rightarrow> (nat \<times> nat) option \<Rightarrow> 'a kernel_scheme \<Rightarrow> ((nat \<times> nat) option, 'a kernel_scheme) res" where
  "sched_pick c pos s =
     (case sched_next c pos s of
        (Some (p, t), s) \<Rightarrow> bnd (dispatch c p t s) (\<lambda>_ s. Ok (Some (p, t)) s)
      | (None, s) \<Rightarrow> bnd (release c ptable_lock s) (\<lambda>_ s. Ok None s))"

definition scheduler_enter ::
    "nat \<Rightarrow> 'a kernel_scheme \<Rightarrow> ((nat \<times> nat) option, 'a kernel_scheme) res" where
  "scheduler_enter c s =
     (let s = upd_cpu c (\<lambda>x. x\<lparr>if_flag := True\<rparr>) s in
      bnd (acquire c ptable_lock s) (\<lambda>_. sched_pick c None))"

definition undispatch :: "nat \<Rightarrow> 'a vmstate_scheme \<Rightarrow> 'a vmstate_scheme" where
  "undispatch c s = upd_cpu c (\<lambda>x. x\<lparr>cpu_thread := None\<rparr>) (switchkvm c s)"

definition scheduler_back ::
    "nat \<Rightarrow> nat \<times> nat \<Rightarrow> 'a vmstate_scheme \<Rightarrow> ((nat \<times> nat) option, 'a vmstate_scheme) res" where
  "scheduler_back c pos s = sched_pick c (Some pos) (undispatch c s)"

subsection \<open>Dispatching a thread\<close>

text \<open>The part of the machine that the code of CPU \<open>c\<close> leaves alone.\<close>

definition cpus_kept :: "nat \<Rightarrow> 'a machine_scheme \<Rightarrow> 'b machine_scheme \<Rightarrow> bool" where
  "cpus_kept c s s' \<longleftrightarrow> ncpu s' = ncpu s \<and> (\<forall>d. d \<noteq> c \<longrightarrow> cpus s' d = cpus s d) \<and>
     apicid (cpus s' c) = apicid (cpus s c)"

lemma cpus_kept_trans: "cpus_kept c s s' \<Longrightarrow> cpus_kept c s' s'' \<Longrightarrow> cpus_kept c s s''"
  by (simp add: cpus_kept_def)

lemma cpus_kept_ok: "cpus_kept c s s' \<Longrightarrow> cpu_ok d s \<Longrightarrow> d \<noteq> c \<Longrightarrow> cpu_ok d s'"
  by (auto simp: cpus_kept_def cpu_ok_def) metis+

lemma cpus_kept_frame [simp]:
  "cpus_kept c s s"
  "cpus_kept c s (lock_st c lk s')= cpus_kept c s s'" "cpus_kept c s (unlock_st c lk s') = cpus_kept c s s'"
  "cpus_kept c s (sect c lk s') = cpus_kept c s s'" "cpus_kept c s (cli_pass c s') = cpus_kept c s s'"
  "cpus_kept c s (upd_proc p f s'') = cpus_kept c s s''"
  "cpus_kept c s (upd_thread p t g s'') = cpus_kept c s s''"
  "cpus_kept c s (upd_mutex m h s'') = cpus_kept c s s''"
  "cpus_kept c s (sleep_upd p t ch s'') = cpus_kept c s s''"
  "(\<And>x. apicid (u x) = apicid x) \<Longrightarrow> cpus_kept c s (upd_cpu c u s') = cpus_kept c s s'"
  by (auto simp: cpus_kept_def lock_st_cpus unlock_st_cpus cli_enter_def cli_leave_def sect_cpus_raw
      cli_pass_cpus_raw upd_cpu_def)

text \<open>Between the quanta of its threads: no table lock is held and no CPU is in kernel code.\<close>

definition idle :: "'a kernel_scheme \<Rightarrow> bool" where
  "idle s \<longleftrightarrow> tables_free s \<and> (\<forall>c<ncpu s. cpu_ok c s \<and> ncli (cpus s c) = 0)"

lemma idle_kept:
  assumes "idle s" "cpus_kept c s s'" "tables_free s'" "cpu_ok c s'" "ncli (cpus s' c) = 0"
  shows "idle s'"
  unfolding idle_def
proof (intro conjI allI impI)
  fix d assume d: "d < ncpu s'"
  then have "d < ncpu s" using assms(2) by (simp add: cpus_kept_def)
  then show "cpu_ok d s'" using cpus_kept_ok[OF assms(2), of d] assms(1,4) by (cases "d = c") (auto simp: idle_def)
  show "ncli (cpus s' d) = 0"
    using assms(1,2,5) \<open>d < ncpu s\<close> by (cases "d = c") (auto simp: idle_def cpus_kept_def)
qed (fact assms(3))

definition set_running :: "nat \<Rightarrow> nat \<Rightarrow> 'a kernel_scheme \<Rightarrow> 'a kernel_scheme" where
  "set_running p t s = upd_thread p t (\<lambda>x. x\<lparr>t_state := RUNNING\<rparr>) (upd_proc p (\<lambda>P. P\<lparr>p_state := RUNNING\<rparr>) s)"

text \<open>What \<open>dispatch\<close> does to the CPU: the process, its page directory and the thread's kernel stack.\<close>

definition load_cpu :: "nat \<Rightarrow> nat \<Rightarrow> 'a kernel_scheme \<Rightarrow> cpu \<Rightarrow> cpu" where
  "load_cpu p t s x = x\<lparr>cpu_proc := Some p, cpu_thread := Some (p, t), ts_ss0 := push_bit 3 SEG_KDATA,
     ts_esp0 := kstack (thr s p t) + KSTACKSIZE, ts_iomb := 0xFFFF, cr3 := V2P (pgdir (procs s p))\<rparr>"

lemma upd_cpu_thr [simp]: "thr (upd_cpu c u s) = thr s" "procs (upd_cpu c u s) = procs s"
  "mutexes (upd_cpu c u s) = mutexes s"
  by (simp_all add: thr_def upd_cpu_def fun_eq_iff)

lemma upd_cpu_upd: "upd_cpu c f (upd_cpu c g s) = upd_cpu c (\<lambda>x. f (g x)) s"
  by (simp add: upd_cpu_def)

lemma upd_cpu_cong: "f (cpus s c) = g (cpus s c) \<Longrightarrow> upd_cpu c f s = upd_cpu c g s"
  by (simp add: upd_cpu_def)

lemma cli_pop: "0 < ncli x \<Longrightarrow> \<not> if_flag x \<Longrightarrow> cli_leave (cli_enter x) = x"
  by (rule cpu.equality) (simp_all add: cli_enter_def cli_leave_def)

lemma load_order:
  "(cli_enter (x\<lparr>cpu_proc := Some p, cpu_thread := Some (p, t)\<rparr>))\<lparr>ts_ss0 := push_bit 3 SEG_KDATA,
     ts_esp0 := kstack (thr s p t) + KSTACKSIZE, ts_iomb := 0xFFFF, cr3 := V2P (pgdir (procs s p))\<rparr>
   = cli_enter (load_cpu p t s x)"
  by (rule cpu.equality) (simp_all add: load_cpu_def cli_enter_def)

lemma dispatch_eq:
  assumes ok: "cpu_ok c s" "0 < ncli (cpus s c)" and k: "kstack (thr s p t) \<noteq> 0" "pgdir (procs s p) \<noteq> 0"
  shows "dispatch c p t s = Ok () (set_running p t (upd_cpu c (load_cpu p t s) s))"
proof -
  let ?s1 = "upd_cpu c (\<lambda>x. x\<lparr>cpu_proc := Some p, cpu_thread := Some (p, t)\<rparr>) s"
  let ?s2 = "upd_cpu c cli_enter ?s1"
  have s1: "cpu_ok c ?s1" "0 < ncli (cpus ?s1 c)" "cpu_thread (cpus ?s1 c) = Some (p, t)"
    using ok by (auto simp: cpu_ok_def upd_cpu_def)
  have s2: "cpu_ok c ?s2" "\<not> if_flag (cpus ?s2 c)"
    using ok by (auto simp: cpu_ok_def upd_cpu_def cli_enter_def)
  let ?s3 = "upd_cpu c (\<lambda>x. cli_enter (load_cpu p t s x)) s"
  have s3: "cpu_ok c ?s3" "0 < ncli (cpus ?s3 c)"
    using ok by (auto simp: cpu_ok_def upd_cpu_def cli_enter_def load_cpu_def)
  have eq: "upd_cpu c (\<lambda>x. x\<lparr>cr3 := V2P (pgdir (procs s p))\<rparr>) (upd_cpu c (\<lambda>x. x\<lparr>ts_iomb := 0xFFFF\<rparr>)
     (upd_cpu c (\<lambda>x. x\<lparr>ts_esp0 := kstack (thr s p t) + KSTACKSIZE\<rparr>)
       (upd_cpu c (\<lambda>x. x\<lparr>ts_ss0 := push_bit 3 SEG_KDATA\<rparr>) ?s2))) = ?s3"
    by (simp add: upd_cpu_upd load_order[simplified])
  have pop: "popcli c ?s3 = Ok () (upd_cpu c (load_cpu p t s) s)"
    using popcli_ok[OF s3] ok by (simp add: upd_cpu_upd) (rule upd_cpu_cong, auto simp: cli_pop load_cpu_def cpu_ok_def)
  have "switchuvm c (Some p) ?s1 = Ok () (upd_cpu c (load_cpu p t s) s)"
    using mythread_eq[OF s1(1)] s1 k pushcli_ok[OF s1(1)] mycpu_ok[OF s2] eq pop
    by (simp add: switchuvm_def cli_pass_id Let_def)
  then show ?thesis by (simp add: dispatch_def Let_def set_running_def)
qed

subsection \<open>The scan\<close>

lemma scan_procs_spec:
  "\<exists>s'. scan_procs c ps s = (map_option (\<lambda>p. (p, the (next_thread s p 0)))
       (find (\<lambda>p. p_state (procs s p) = RUNNABLE \<and> next_thread s p 0 \<noteq> None) ps), s') \<and>
     (s' = s \<or> s' = upd_cpu c (\<lambda>x. x\<lparr>cpu_proc := None\<rparr>) s)"
proof (induction ps arbitrary: s)
  case (Cons p ps)
  let ?u = "upd_cpu c (\<lambda>x. x\<lparr>cpu_proc := None\<rparr>) s"
  have "next_thread ?u = next_thread s" by (simp add: next_thread_def fun_eq_iff)
  then show ?case using Cons[of s] Cons[of ?u] by (auto simp: upd_cpu_upd split: option.splits)
qed simp

lemma next_thread_Some: "next_thread s p t = Some u \<longleftrightarrow> t \<le> u \<and> u < NTHREAD \<and> t_state (thr s p u) = RUNNABLE \<and>
    (\<forall>v. t \<le> v \<longrightarrow> v < u \<longrightarrow> t_state (thr s p v) \<noteq> RUNNABLE)"
  by (simp add: next_thread_def find_upt_Some_iff)

lemma next_thread_None: "next_thread s p 0 = None \<longleftrightarrow> (\<forall>u<NTHREAD. t_state (thr s p u) \<noteq> RUNNABLE)"
  by (auto simp: next_thread_def find_None_iff)

definition ready :: "'a kernel_scheme \<Rightarrow> nat \<Rightarrow> nat \<Rightarrow> bool" where
  "ready s p t \<longleftrightarrow> p < NPROC \<and> t < NTHREAD \<and> p_state (procs s p) = RUNNABLE \<and> t_state (thr s p t) = RUNNABLE"

lemma sched_next_start:
  "\<exists>r s'. sched_next c None s = (r, s') \<and> (s' = s \<or> s' = upd_cpu c (\<lambda>x. x\<lparr>cpu_proc := None\<rparr>) s) \<and>
     (case r of None \<Rightarrow> \<forall>p t. \<not> ready s p t
      | Some (p, t) \<Rightarrow> ready s p t \<and> (\<forall>q u. ready s q u \<longrightarrow> p < q \<or> p = q \<and> t \<le> u))"
proof -
  let ?P = "\<lambda>p. p_state (procs s p) = RUNNABLE \<and> next_thread s p 0 \<noteq> None"
  obtain s' where s': "scan_procs c [0..<NPROC] s = (map_option (\<lambda>p. (p, the (next_thread s p 0))) (find ?P [0..<NPROC]), s')"
    "s' = s \<or> s' = upd_cpu c (\<lambda>x. x\<lparr>cpu_proc := None\<rparr>) s"
    using scan_procs_spec[of c "[0..<NPROC]" s] by blast
  have P: "ready s q u \<Longrightarrow> ?P q" for q u by (auto simp: ready_def next_thread_None)
  show ?thesis
  proof (cases "find ?P [0..<NPROC]")
    case None
    then have "\<not> ready s q u" for q u using P[of q u] by (auto simp: find_None_iff ready_def)
    then show ?thesis using s' None by (simp add: sched_next_def)
  next
    case (Some p)
    then have p: "p < NPROC" "?P p" "\<forall>j<p. \<not> ?P j" by (auto simp: find_upt_Some_iff)
    then obtain t where t: "next_thread s p 0 = Some t" by blast
    have "ready s p t" using p t by (auto simp: ready_def next_thread_Some)
    moreover have "p < q \<or> p = q \<and> t \<le> u" if "ready s q u" for q u
    proof -
      have "p \<le> q" using p(3) P[OF that] by (meson not_le)
      moreover have "t \<le> u" if "p = q" using t \<open>ready s q u\<close> that by (auto simp: next_thread_Some ready_def not_less[symmetric])
      ultimately show ?thesis by auto
    qed
    ultimately show ?thesis using s' Some t by (simp add: sched_next_def)
  qed
qed

subsection \<open>Properties\<close>

text \<open>Process 0 waits for a CPU with its thread 0.\<close>

definition demo_ready :: kernel where
  "demo_ready = upd_proc 0 (\<lambda>P. P\<lparr>p_state := RUNNABLE, pgdir := 0x80300000\<rparr>)
     (upd_thread 0 0 (\<lambda>x. x\<lparr>t_state := RUNNABLE, kstack := 0x80400000\<rparr>) demo_kernel)"

text \<open>
  C23 (what the scheduler runs). A CPU that starts a round of its scheduler while \<open>ptable.lock\<close> is free
  picks the first runnable thread of the first runnable process that has one. It marks both as
  running, loads the process's page directory and the thread's kernel stack, still holding
  \<open>ptable.lock\<close>, and changes no other thread. When there is none, the round ends with the lock free,
  the tables as they were and interrupts on.
\<close>

theorem scheduler_picks:
  assumes ok: "cpu_ok c s" "ncli (cpus s c) = 0" "lock_free ptable_lock s"
    and stacks: "\<And>p t. ready s p t \<Longrightarrow> kstack (thr s p t) \<noteq> 0 \<and> pgdir (procs s p) \<noteq> 0"
  shows "(\<exists>p t s'. scheduler_enter c s = Ok (Some (p, t)) s' \<and> ready s p t \<and>
      (\<forall>q u. ready s q u \<longrightarrow> p < q \<or> p = q \<and> t \<le> u) \<and>
      t_state (thr s' p t) = RUNNING \<and> p_state (procs s' p) = RUNNING \<and> lock_held c ptable_lock s' \<and>
      cpu_proc (cpus s' c) = Some p \<and> cpu_thread (cpus s' c) = Some (p, t) \<and>
      cr3 (cpus s' c) = V2P (pgdir (procs s p)) \<and> ts_esp0 (cpus s' c) = kstack (thr s p t) + KSTACKSIZE \<and>
      (\<forall>q u. (q, u) \<noteq> (p, t) \<longrightarrow> thr s' q u = thr s q u)) \<or>
    (\<forall>p t. \<not> ready s p t) \<and> (\<exists>s'. scheduler_enter c s = Ok None s' \<and> lock_free ptable_lock s' \<and>
      procs s' = procs s \<and> if_flag (cpus s' c) \<and> ncli (cpus s' c) = 0)"
proof -
  let ?i = "upd_cpu c (\<lambda>x. x\<lparr>if_flag := True\<rparr>) s"
  let ?l = "lock_st c ptable_lock ?i"
  have i: "cpu_ok c ?i" "lock_free ptable_lock ?i"
    using ok by (auto simp: cpu_ok_def upd_cpu_def lock_free_def split: if_splits)
  obtain r s1 where s1: "sched_next c None ?l = (r, s1)" "s1 = ?l \<or> s1 = upd_cpu c (\<lambda>x. x\<lparr>cpu_proc := None\<rparr>) ?l"
    "case r of None \<Rightarrow> \<forall>p t. \<not> ready ?l p t
      | Some (p, t) \<Rightarrow> ready ?l p t \<and> (\<forall>q u. ready ?l q u \<longrightarrow> p < q \<or> p = q \<and> t \<le> u)"
    using sched_next_start[of c ?l] by blast
  have rd: "ready ?l = ready s" by (simp add: ready_def fun_eq_iff)
  have l: "cpu_ok c ?l" "ncli (cpus ?l c) = 1" "lock_held c ptable_lock ?l"
    using i ok(2) by (simp_all add: lock_st_ncli) (simp add: upd_cpu_def)
  then have m: "cpu_ok c s1" "ncli (cpus s1 c) = 1" "lock_held c ptable_lock s1" "procs s1 = procs s" "thr s1 = thr s"
    using s1(2) by (auto simp: cpu_ok_def upd_cpu_def lock_held_def thr_def fun_eq_iff split: if_splits)
  have en: "scheduler_enter c s = sched_pick c None ?l"
    using acquire_free[OF i] by (simp add: scheduler_enter_def Let_def)
  show ?thesis
  proof (cases r)
    case None
    let ?s' = "unlock_st c ptable_lock s1"
    have "scheduler_enter c s = Ok None ?s'"
      using en s1(1) None release_held[of c s1 ptable_lock] m by (simp add: sched_pick_def)
    moreover have "if_flag (cpus ?s' c)" "ncli (cpus ?s' c) = 0"
      using s1(2) ok(2) by (auto simp: unlock_st_cpus cli_leave_def lock_st_cpus cli_enter_def upd_cpu_def)
    moreover have "\<forall>p t. \<not> ready s p t" using s1(3) rd None by simp
    ultimately show ?thesis using m(4) by (intro disjI2 conjI exI[of _ ?s']) simp_all
  next
    case (Some pt)
    obtain p t where pt: "pt = (p, t)" by (cases pt)
    have r: "ready s p t" "\<forall>q u. ready s q u \<longrightarrow> p < q \<or> p = q \<and> t \<le> u" using s1(3) rd Some pt by auto
    let ?s' = "set_running p t (upd_cpu c (load_cpu p t s1) s1)"
    have "scheduler_enter c s = Ok (Some (p, t)) ?s'"
      using en s1(1) Some pt dispatch_eq[of c s1 p t] m stacks[OF r(1)] by (simp add: sched_pick_def)
    moreover have "lock_held c ptable_lock ?s'" using m(3) by (simp add: set_running_def lock_held_def upd_cpu_def)
    moreover have "cpus ?s' c = load_cpu p t s1 (cpus s1 c)" by (simp add: set_running_def upd_cpu_def)
    moreover have "p_state (procs ?s' p) = RUNNING" "t_state (thr ?s' p t) = RUNNING"
      "\<forall>q u. (q, u) \<noteq> (p, t) \<longrightarrow> thr ?s' q u = thr s q u"
      using m(4,5) by (auto simp: set_running_def thr_upd_thread thr_upd_proc)
    ultimately show ?thesis
      using r m(4,5) by (intro disjI1 exI[of _ p] exI[of _ t] exI[of _ ?s']) (simp add: load_cpu_def)
  qed
qed

theorem scheduler_picks_witness:
  "(\<exists>p t s'. scheduler_enter 1 (demo_ready) = Ok (Some (p, t)) s' \<and> ready demo_ready p t \<and>
      (\<forall>q u. ready demo_ready q u \<longrightarrow> p < q \<or> p = q \<and> t \<le> u) \<and>
      t_state (thr s' p t) = RUNNING \<and> p_state (procs s' p) = RUNNING \<and> lock_held 1 ptable_lock s' \<and>
      cpu_proc (cpus s' 1) = Some p \<and> cpu_thread (cpus s' 1) = Some (p, t) \<and>
      cr3 (cpus s' 1) = V2P (pgdir (procs demo_ready p)) \<and>
      ts_esp0 (cpus s' 1) = kstack (thr demo_ready p t) + KSTACKSIZE \<and>
      (\<forall>q u. (q, u) \<noteq> (p, t) \<longrightarrow> thr s' q u = thr demo_ready q u)) \<or>
    (\<forall>p t. \<not> ready demo_ready p t) \<and> (\<exists>s'. scheduler_enter 1 demo_ready = Ok None s' \<and> lock_free ptable_lock s' \<and>
      procs s' = procs demo_ready \<and> if_flag (cpus s' 1) \<and> ncli (cpus s' 1) = 0)"
  by (rule scheduler_picks)
    (auto simp: demo_ready_def cpu_ok_demo_kernel ready_def thr_def procs_upd_thread unused_proc_def first_proc_def idle_thread_def split: if_splits)

end
