(* ===== verification/Handover.thy ===== *)
theory Handover
  imports Mutex
begin

text \<open>
  The contract of one kernel thread mutex. \<open>Held t w\<close>: thread \<open>t\<close> has it and the threads \<open>w\<close>
  wait; \<open>Handed t w\<close>: an unlock has given it to \<open>t\<close>, whose lock call has not returned yet. The
  owner's unlock hands the mutex to the first waiting thread in the cyclic order of the slots.
\<close>

datatype amutex = Free | Held nat "nat set" | Handed nat "nat set"

datatype mutex_call = CLock | CUnlock | CResume

datatype reply = Ret int | Sleeps

definition hand :: "nat \<Rightarrow> nat set \<Rightarrow> amutex" where
  "hand t w = (case find (\<lambda>i. i \<in> w) (scan_order t) of Some i \<Rightarrow> Handed i (w - {i}) | None \<Rightarrow> Free)"

fun owner :: "amutex \<Rightarrow> nat option" where
  "owner Free = None" | "owner (Held t w) = Some t" | "owner (Handed t w) = Some t"

fun waiters :: "amutex \<Rightarrow> nat set" where
  "waiters Free = {}" | "waiters (Held t w) = w" | "waiters (Handed t w) = w"

fun amut :: "nat \<Rightarrow> mutex_call \<Rightarrow> amutex \<Rightarrow> reply \<times> amutex" where
  "amut t CLock Free = (Ret 0, Held t {})"
| "amut t CLock (Held u w) = (if t = u then (Ret (- 1), Held u w) else (Sleeps, Held u (insert t w)))"
| "amut t CLock (Handed u w) = (Sleeps, Handed u (insert t w))"
| "amut t CUnlock (Held u w) = (if t = u then (Ret 0, hand t w) else (Ret (- 1), Held u w))"
| "amut t CUnlock a = (Ret (- 1), a)"
| "amut t CResume (Handed u w) = (Ret 0, Held u w)"
| "amut t CResume a = (Ret 0, a)"

text \<open>A thread that waits, or has not returned from its lock call, makes no other call.\<close>

fun enabled :: "nat \<Rightarrow> mutex_call \<Rightarrow> amutex \<Rightarrow> bool" where
  "enabled t CResume a \<longleftrightarrow> (case a of Handed u w \<Rightarrow> t = u | _ \<Rightarrow> False)"
| "enabled t k a \<longleftrightarrow> t < NTHREAD \<and> t \<notin> waiters a \<and> (case a of Handed u w \<Rightarrow> t \<noteq> u | _ \<Rightarrow> True)"

fun aok :: "amutex \<Rightarrow> bool" where
  "aok Free \<longleftrightarrow> True"
| "aok (Held t w) \<longleftrightarrow> t < NTHREAD \<and> w \<subseteq> {..<NTHREAD} \<and> t \<notin> w"
| "aok (Handed t w) \<longleftrightarrow> t < NTHREAD \<and> w \<subseteq> {..<NTHREAD} \<and> t \<notin> w"

text \<open>The logs of calls and replies a mutex can produce.\<close>

type_synonym mlog = "(nat \<times> mutex_call \<times> reply) list"

fun accepts :: "mlog \<Rightarrow> amutex \<Rightarrow> amutex option" where
  "accepts [] a = Some a"
| "accepts ((t, k, r) # l) a =
     (if enabled t k a \<and> fst (amut t k a) = r then accepts l (snd (amut t k a)) else None)"

lemma accepts_append: "accepts (l @ l') a = Option.bind (accepts l a) (accepts l')"
  by (induction l a rule: accepts.induct) auto

subsection \<open>The cyclic order\<close>

text \<open>How many slots after \<open>i\<close> the slot \<open>j\<close> comes in the cyclic order.\<close>

definition ahead :: "nat \<Rightarrow> nat \<Rightarrow> nat" where
  "ahead i j = (if i < j then j - i else NTHREAD + j - i)"

lemma scan_order_nth: "n < length (scan_order t) \<Longrightarrow> t < NTHREAD \<Longrightarrow> ahead t (scan_order t ! n) = Suc n"
  by (auto simp: scan_order_def ahead_def nth_append)

lemma scan_order_set: "t < NTHREAD \<Longrightarrow> set (scan_order t) = {i. i < NTHREAD \<and> i \<noteq> t}"
  by (auto simp: scan_order_def)

lemma ahead_bounds: "i < NTHREAD \<Longrightarrow> j < NTHREAD \<Longrightarrow> 0 < ahead i j \<and> (i \<noteq> j \<longrightarrow> ahead i j < NTHREAD)"
  by (auto simp: ahead_def)

text \<open>The thread that gets the mutex is the nearest waiting one.\<close>

lemma find_scan_order:
  assumes t: "t < NTHREAD" and f: "find (\<lambda>i. i \<in> w) (scan_order t) = Some i"
  shows "i \<in> w \<and> i < NTHREAD \<and> i \<noteq> t \<and> (\<forall>j\<in>w. j < NTHREAD \<and> j \<noteq> t \<longrightarrow> ahead t i \<le> ahead t j)"
proof -
  obtain n where n: "n < length (scan_order t)" "scan_order t ! n \<in> w" "i = scan_order t ! n"
    "\<forall>k<n. scan_order t ! k \<notin> w" using f by (auto simp: find_Some_iff)
  have "ahead t i \<le> ahead t j" if j: "j \<in> w" "j < NTHREAD" "j \<noteq> t" for j
  proof -
    have "j \<in> set (scan_order t)" using j t by (simp add: scan_order_set)
    then obtain k where k: "k < length (scan_order t)" "j = scan_order t ! k" by (auto simp: in_set_conv_nth)
    then have "n \<le> k" using n(4) j(1) by (metis not_le)
    then show ?thesis using scan_order_nth[OF n(1) t] scan_order_nth[OF k(1) t] n(3) k(2) by simp
  qed
  moreover have "i \<in> set (scan_order t)" using n by simp
  ultimately show ?thesis using n(2,3) t by (simp add: scan_order_set)
qed

lemma ahead_step:
  assumes "t < NTHREAD" "i < NTHREAD" "j < NTHREAD" "i \<noteq> j" "ahead t i \<le> ahead t j" "j \<noteq> t"
  shows "ahead i j < ahead t j"
  using assms by (auto simp: ahead_def split: if_splits)

lemma find_waiting:
  assumes "t < NTHREAD" "w \<subseteq> {..<NTHREAD}" "t \<notin> w"
  shows "find (\<lambda>i. i \<in> w) (scan_order t) = None \<longleftrightarrow> w = {}"
  using assms by (auto simp: find_None_iff scan_order_set)

lemma aok_hand: "aok (Held t w) \<Longrightarrow> aok (hand t w)"
  using find_scan_order[of t w] by (auto simp: hand_def split: option.splits)

lemma amut_ok: "aok a \<Longrightarrow> enabled t k a \<Longrightarrow> aok (snd (amut t k a))"
  using aok_hand by (cases "(t, k, a)" rule: amut.cases) auto

subsection \<open>Mutual exclusion and bounded waiting\<close>

lemma held_until_unlock:
  assumes "accepts l (Held t w) = Some a" "(t, CUnlock, Ret 0) \<notin> set l"
  shows "\<exists>w'. a = Held t w'"
  using assms
proof (induction l arbitrary: w)
  case (Cons e l)
  obtain u k r where e: "e = (u, k, r)" by (cases e)
  obtain w' where "snd (amut u k (Held t w)) = Held t w'"
    using Cons.prems by (cases k) (auto simp: e split: if_splits)
  then show ?case using Cons.prems Cons.IH[of w'] by (auto simp: e split: if_splits)
qed auto

text \<open>A lock call that returns 0 leaves its thread the holder, and it starts from a mutex nobody holds.\<close>

lemma lock_returns:
  assumes "accepts [(t, k, Ret 0)] a = Some b" "k \<noteq> CUnlock"
  shows "(\<exists>w. b = Held t w) \<and> (\<forall>u w. a \<noteq> Held u w)"
  using assms by (cases "(t, k, a)" rule: amut.cases) (auto split: if_splits)

lemma exclusion:
  assumes acc: "accepts (l1 @ (t, k, Ret 0) # l2 @ (u, k', Ret 0) # l3) a \<noteq> None"
    and k: "k \<noteq> CUnlock" "k' \<noteq> CUnlock"
  shows "(t, CUnlock, Ret 0) \<in> set l2"
proof (rule ccontr)
  assume n: "(t, CUnlock, Ret 0) \<notin> set l2"
  have "accepts (l1 @ [(t, k, Ret 0)] @ l2 @ [(u, k', Ret 0)] @ l3) a \<noteq> None" using acc by simp
  then obtain a1 a2 a3 a4 where acc: "accepts l1 a = Some a1" "accepts [(t, k, Ret 0)] a1 = Some a2"
    "accepts l2 a2 = Some a3" "accepts [(u, k', Ret 0)] a3 = Some a4"
    unfolding accepts_append by (auto simp: bind_eq_None_conv simp del: accepts.simps)
  obtain w where "a2 = Held t w" using lock_returns[OF acc(2) k(1)] by blast
  then obtain w' where "a3 = Held t w'" using held_until_unlock acc(3) n by blast
  then show False using lock_returns[OF acc(4) k(2)] by blast
qed

definition is_release :: "nat \<times> mutex_call \<times> reply \<Rightarrow> bool" where
  "is_release e \<longleftrightarrow> fst (snd e) = CUnlock \<and> snd (snd e) = Ret 0"

lemma hand_waiter:
  assumes "aok (Held t w)" "j \<in> w"
  shows "owner (hand t w) = Some j \<or>
    (\<exists>i. owner (hand t w) = Some i \<and> j \<in> waiters (hand t w) \<and> ahead i j < ahead t j)"
proof -
  have j: "t < NTHREAD" "j < NTHREAD" "j \<noteq> t" using assms by auto
  obtain i where i: "find (\<lambda>i. i \<in> w) (scan_order t) = Some i"
    using find_waiting[of t w] assms by fastforce
  have "ahead i j < ahead t j" if "i \<noteq> j" using ahead_step find_scan_order[OF j(1) i] that j assms(2) by blast
  then show ?thesis using i assms(2) by (auto simp: hand_def)
qed

lemma amut_waiter:
  assumes "aok a" "enabled t k a" "j \<in> waiters a" "owner a = Some i"
  shows "owner (snd (amut t k a)) = Some j \<or>
    (\<exists>i'. owner (snd (amut t k a)) = Some i' \<and> j \<in> waiters (snd (amut t k a)) \<and>
      ahead i' j + (if is_release (t, k, fst (amut t k a)) then 1 else 0) \<le> ahead i j)"
  using assms hand_waiter[of t "waiters a" j]
  by (cases "(t, k, a)" rule: amut.cases) (auto simp: is_release_def)

lemma bounded_waiting:
  assumes "aok a" "accepts l a = Some b" "j \<in> waiters a" "owner a = Some i"
    and "ahead i j \<le> length (filter is_release l)"
  shows "\<exists>l1 l2 b. l = l1 @ l2 \<and> accepts l1 a = Some b \<and> owner b = Some j"
  using assms
proof (induction l arbitrary: a i)
  case Nil
  have "i < NTHREAD" "j < NTHREAD" using Nil.prems by (cases a; auto)+
  then show ?case using Nil.prems(5) ahead_bounds[of i j] by simp
next
  case (Cons e l)
  obtain t k r where e: "e = (t, k, r)" by (cases e)
  let ?a = "snd (amut t k a)"
  have en: "enabled t k a" "r = fst (amut t k a)" "accepts l ?a = Some b"
    using Cons.prems(2) by (auto simp: e split: if_splits)
  consider (got) "owner ?a = Some j" | (waits) i' where "owner ?a = Some i'" "j \<in> waiters ?a"
      "ahead i' j + (if is_release e then 1 else 0) \<le> ahead i j"
    using amut_waiter[OF Cons.prems(1) en(1) Cons.prems(3,4)] en(2) e by auto
  then show ?case
  proof cases
    case got
    then show ?thesis using en e by (intro exI[of _ "[e]"] exI[of _ l]) auto
  next
    case waits
    have "\<exists>l1 l2 b. l = l1 @ l2 \<and> accepts l1 ?a = Some b \<and> owner b = Some j"
      by (rule Cons.IH[OF amut_ok[OF Cons.prems(1) en(1)] en(3) waits(2,1)])
        (use waits(3) Cons.prems(5) in \<open>auto split: if_splits\<close>)
    then obtain l1 l2 b where "l = l1 @ l2" "accepts l1 ?a = Some b" "owner b = Some j" by blast
    then show ?thesis using en e by (intro exI[of _ "e # l1"] exI[of _ l2]) auto
  qed
qed

subsection \<open>Systems that implement the contract\<close>

text \<open>
  A system makes steps, each of which is one call on one mutex; \<open>absf m\<close> is the abstract state of
  mutex \<open>m\<close>. If each step does what the contract says to its mutex and leaves the others alone,
  then the whole log is one the contract accepts.
\<close>

type_synonym entry = "nat \<times> nat \<times> mutex_call \<times> reply"

fun run_log :: "('e \<Rightarrow> 'c \<Rightarrow> ('c \<times> entry) option) \<Rightarrow> 'e list \<Rightarrow> 'c \<Rightarrow> ('c \<times> entry list) option" where
  "run_log step [] x = Some (x, [])"
| "run_log step (e # es) x = (case step e x of None \<Rightarrow> None | Some (y, l) \<Rightarrow>
     (case run_log step es y of None \<Rightarrow> None | Some (z, ls) \<Rightarrow> Some (z, l # ls)))"

definition log_of :: "nat \<Rightarrow> entry list \<Rightarrow> mlog" where
  "log_of i ls = map snd (filter (\<lambda>e. fst e = i) ls)"

lemma log_of_simps [simp]:
  "log_of i [] = []" "log_of i (e # ls) = (if fst e = i then [snd e] else []) @ log_of i ls"
  "log_of i (ls @ ls') = log_of i ls @ log_of i ls'" "(i, x) \<in> set ls \<longleftrightarrow> x \<in> set (log_of i ls)"
  by (auto simp: log_of_def) force

locale mutex_system =
  fixes step :: "'e \<Rightarrow> 'c \<Rightarrow> ('c \<times> entry) option"
    and absf :: "nat \<Rightarrow> 'c \<Rightarrow> amutex"
    and ok :: "'c \<Rightarrow> bool"
  assumes step_ok: "ok x \<Longrightarrow> step e x = Some (y, i, t, k, r) \<Longrightarrow> ok y"
    and step_sim: "ok x \<Longrightarrow> step e x = Some (y, i, t, k, r) \<Longrightarrow>
          enabled t k (absf i x) \<and> fst (amut t k (absf i x)) = r \<and> snd (amut t k (absf i x)) = absf i y"
    and step_frame: "ok x \<Longrightarrow> step e x = Some (y, i, t, k, r) \<Longrightarrow> j \<noteq> i \<Longrightarrow> absf j y = absf j x"
    and abs_ok: "ok x \<Longrightarrow> aok (absf i x)"
begin

lemma run_accepted:
  assumes "ok x" "run_log step es x = Some (y, ls)"
  shows "ok y \<and> accepts (log_of i ls) (absf i x) = Some (absf i y)"
  using assms
proof (induction es arbitrary: x ls)
  case (Cons e es)
  obtain z j t k r ls' where st: "step e x = Some (z, j, t, k, r)" "run_log step es z = Some (y, ls')"
    "ls = (j, t, k, r) # ls'"
    using Cons.prems(2) by (auto split: option.splits prod.splits)
  then have "ok y \<and> accepts (log_of i ls') (absf i z) = Some (absf i y)"
    using Cons.IH step_ok[OF Cons.prems(1)] by blast
  then show ?case
    using step_sim[OF Cons.prems(1) st(1)] step_frame[OF Cons.prems(1) st(1), of i] st(3) by auto
qed simp

lemma run_exclusion:
  assumes "ok x" "run_log step es x = Some (y, ls1 @ (i, t, k, Ret 0) # ls2 @ (i, u, k', Ret 0) # ls3)"
    and "k \<noteq> CUnlock" "k' \<noteq> CUnlock"
  shows "(i, t, CUnlock, Ret 0) \<in> set ls2"
  using run_accepted[OF assms(1,2), of i] exclusion[OF _ assms(3,4)] by fastforce

lemma run_bounded_waiting:
  assumes "ok x" "run_log step es x = Some (y, ls)" "j \<in> waiters (absf i x)"
    and "NTHREAD - 1 \<le> length (filter is_release (log_of i ls))"
  shows "\<exists>l1 l2 b. log_of i ls = l1 @ l2 \<and> accepts l1 (absf i x) = Some b \<and> owner b = Some j"
proof -
  obtain o' where o': "owner (absf i x) = Some o'" using assms(3) by (cases "absf i x") auto
  have "o' < NTHREAD" "j < NTHREAD" "o' \<noteq> j" using abs_ok[OF assms(1), of i] assms(3) o'
    by (cases "absf i x"; auto)+
  then have "ahead o' j \<le> length (filter is_release (log_of i ls))" using ahead_bounds[of o' j] assms(4) by simp
  then show ?thesis using run_accepted[OF assms(1,2), of i] bounded_waiting abs_ok[OF assms(1)] assms(3) o' by blast
qed

end

end
