(* ===== verification/MutexSystem.thy ===== *)
theory MutexSystem
  imports Scheduler Handover
begin

text \<open>
  The kernel implements the mutex contract of \<open>Handover\<close>. The threads of one process run in quanta:
  the scheduler's dispatch, one mutex call, and the switch back, on any CPUs and in any order. Every
  quantum that starts is finished (no panic, no fault) and does what the contract says; mutual
  exclusion and bounded waiting follow for all runs.
\<close>

subsection \<open>Quanta\<close>

text \<open>
  One quantum of a thread of process \<open>p\<close>: the scheduler of CPU \<open>c\<close> takes \<open>ptable.lock\<close> and
  dispatches the thread, the thread makes one mutex call (or goes on with the lock call it sleeps
  in) and leaves the CPU, by \<open>yield\<close> when the call returns. \<open>ins t\<close> is the mutex whose lock call
  thread \<open>t\<close> is inside of.
\<close>

definition mutex_op ::
    "nat \<Rightarrow> nat \<Rightarrow> nat \<Rightarrow> nat \<Rightarrow> mutex_call \<Rightarrow> 'a vmstate_scheme \<Rightarrow> (int, 'a vmstate_scheme) res" where
  "mutex_op c p t m k s =
     (case k of
        CLock \<Rightarrow> bnd (yield_resume c (p, t) s) (\<lambda>_. kthread_mutex_lock c (int m))
      | CUnlock \<Rightarrow> bnd (yield_resume c (p, t) s) (\<lambda>_. kthread_mutex_unlock c (int m))
      | CResume \<Rightarrow> kthread_mutex_lock_resume c p (p, t) m s)"

definition leave :: "nat \<Rightarrow> reply \<Rightarrow> 'a vmstate_scheme \<Rightarrow> ('a vmstate_scheme \<times> reply) option" where
  "leave c r s = (case release c ptable_lock (undispatch c s) of Ok _ s \<Rightarrow> Some (s, r) | _ \<Rightarrow> None)"

definition turn ::
    "nat \<Rightarrow> nat \<Rightarrow> nat \<Rightarrow> nat \<Rightarrow> mutex_call \<Rightarrow> 'a vmstate_scheme \<Rightarrow> ('a vmstate_scheme \<times> reply) option" where
  "turn c p t m k s =
     (case bnd (acquire c ptable_lock s) (\<lambda>_ s. bnd (dispatch c p t s) (\<lambda>_. mutex_op c p t m k)) of
        Ok r s \<Rightarrow> (case yield c s of Switch s \<Rightarrow> leave c (Ret r) s | _ \<Rightarrow> None)
      | Switch s \<Rightarrow> leave c Sleeps s
      | _ \<Rightarrow> None)"

definition usable :: "nat \<Rightarrow> nat \<Rightarrow> 'a kernel_scheme \<Rightarrow> bool" where
  "usable p m s \<longleftrightarrow> m < MAX_MUTEXES \<and> m_allocated (mutexes s m) \<and> mid (procs s p) m"

type_synonym 'a config = "'a vmstate_scheme \<times> (nat \<Rightarrow> nat option)"

fun quantum :: "nat \<Rightarrow> nat \<times> nat \<times> nat \<times> mutex_call \<Rightarrow> 'a config \<Rightarrow> ('a config \<times> entry) option" where
  "quantum p (c, t, m, k) (s, ins) =
     (if c < ncpu s \<and> t < NTHREAD \<and> usable p m s \<and> t_state (thr s p t) = RUNNABLE \<and>
         ins t = (if k = CResume then Some m else None)
      then case turn c p t m k s of
          None \<Rightarrow> None
        | Some (s', r) \<Rightarrow> Some ((s', ins(t := (if r = Sleeps then Some m else None))), (m, t, k, r))
      else None)"

subsection \<open>What a quantum does\<close>

text \<open>Everything of process \<open>p\<close> but its state, the saved interrupt flags and the listed changes.\<close>

definition core :: "thread \<Rightarrow> int \<times> uint \<times> states \<times> bool \<times> channel option" where
  "core x = (tid x, kstack x, t_state x, blocked x, chan x)"

definition kept :: "nat \<Rightarrow> nat \<Rightarrow> 'a kernel_scheme \<Rightarrow> 'a kernel_scheme \<Rightarrow> bool" where
  "kept c p s s' \<longleftrightarrow> cpus_kept c s s' \<and> ttlock (procs s' p) = ttlock (procs s p) \<and>
     pgdir (procs s' p) = pgdir (procs s p) \<and> mid (procs s' p) = mid (procs s p)"

text \<open>CPU \<open>c\<close> runs kernel code of thread \<open>t\<close> that holds no table lock, or holds \<open>ptable.lock\<close> only.\<close>

definition calm :: "nat \<Rightarrow> 'a kernel_scheme \<Rightarrow> bool" where
  "calm c s \<longleftrightarrow> cpu_ok c s \<and> ncli (cpus s c) = 0 \<and> tables_free s"

definition in_ptable :: "nat \<Rightarrow> 'a kernel_scheme \<Rightarrow> bool" where
  "in_ptable c s \<longleftrightarrow> cpu_ok c s \<and> ncli (cpus s c) = 1 \<and> lock_held c ptable_lock s \<and>
     lock_free mtable_lock s \<and> lock_free kmem_lock s"

lemma upd_cpu_locks [simp]: "lock_free lk (upd_cpu c u s) = lock_free lk s"
  "lock_held d lk (upd_cpu c u s) = lock_held d lk s"
  by (simp_all add: lock_free_def lock_held_def upd_cpu_def)

lemma leave_eq:
  assumes "in_ptable c s"
  shows "\<exists>s'. leave c r s = Some (s', r) \<and> calm c s' \<and> cpus_kept c s s' \<and> procs s' = procs s \<and> mutexes s' = mutexes s"
proof -
  let ?u = "undispatch c s"
  have u: "cpu_ok c ?u" "0 < ncli (cpus ?u c)" "lock_held c ptable_lock ?u"
    using assms by (auto simp: in_ptable_def undispatch_def switchkvm_def cpu_ok_def) (auto simp: upd_cpu_def split: if_splits)
  have "leave c r s = Some (unlock_st c ptable_lock ?u, r)" using release_held[OF u] by (simp add: leave_def)
  moreover have "calm c (unlock_st c ptable_lock ?u)"
    using assms u by (auto simp: calm_def tables_free_def in_ptable_def unlock_st_ncli)
      (auto simp: undispatch_def switchkvm_def upd_cpu_def lock_free_def)
  moreover have "cpus_kept c s (unlock_st c ptable_lock ?u)" by (simp add: undispatch_def switchkvm_def)
  moreover have "procs ?u = procs s" "mutexes ?u = mutexes s" by (simp_all add: undispatch_def switchkvm_def)
  ultimately show ?thesis by auto
qed

lemma core_simps [simp]: "core (x\<lparr>stk_intena := b\<rparr>) = core x"
  "core (x\<lparr>t_state := st, stk_intena := b\<rparr>) = core (x\<lparr>t_state := st\<rparr>)"
  by (simp_all add: core_def)

lemma yield_leave:
  assumes run: "running c p t s" and free: "tables_free s"
  shows "\<exists>s'. (case yield c s of Switch s \<Rightarrow> leave c r s | _ \<Rightarrow> None) = Some (s', r) \<and> calm c s' \<and> kept c p s s' \<and>
    mutexes s' = mutexes s \<and> (\<forall>u. core (thr s' p u) = core (if u = t then (thr s p t)\<lparr>t_state := RUNNABLE\<rparr> else thr s p u))"
proof -
  let ?s1 = "lock_st c ptable_lock s"
  let ?s2 = "upd_thread p t (\<lambda>x. x\<lparr>t_state := RUNNABLE\<rparr>) (upd_proc p (\<lambda>P. P\<lparr>p_state := RUNNABLE\<rparr>) ?s1)"
  let ?s3 = "upd_thread p t (\<lambda>x. x\<lparr>stk_intena := intena (cpus ?s2 c)\<rparr>) ?s2"
  have r: "cpu_ok c s" "ncli (cpus s c) = 0" "cpu_proc (cpus s c) = Some p"
    "cpu_thread (cpus s c) = Some (p, t)" "lock_free ptable_lock s" "lock_free mtable_lock s" "lock_free kmem_lock s"
    using run free by (auto simp: running_def tables_free_def)
  have y: "yield c s = Switch ?s3"
    using r by (simp add: yield_def acquire_free myproc_eq mythread_eq deref_def Let_def sched_eq lock_st_ncli)
  have "in_ptable c ?s3" using r by (simp add: in_ptable_def lock_st_ncli)
  then obtain s' where s': "leave c r ?s3 = Some (s', r)" "calm c s'" "cpus_kept c ?s3 s'" "procs s' = procs ?s3"
    "mutexes s' = mutexes ?s3"
    using leave_eq by blast
  have "cpus_kept c s s'" by (rule cpus_kept_trans[OF _ s'(3)]) simp
  then have "kept c p s s'" using s'(4) by (simp add: kept_def)
  moreover have "thr s' = thr ?s3" using s'(4) by (simp add: thr_def fun_eq_iff)
  then have "core (thr s' p u) = core (if u = t then (thr s p t)\<lparr>t_state := RUNNABLE\<rparr> else thr s p u)" for u
    by (simp add: thr_upd_thread thr_upd_proc)
  ultimately show ?thesis using y s' by auto
qed

lemma enter_eq:
  assumes i: "idle s" "c < ncpu s" and p: "p < NPROC" "t < NTHREAD" "ttlock (procs s p) = Some ptable_lock"
    "kstack (thr s p t) \<noteq> 0" "pgdir (procs s p) \<noteq> 0"
  shows "\<exists>s1. bnd (acquire c ptable_lock s) (\<lambda>_ s. bnd (dispatch c p t s) f) = f () s1 \<and> in_ptable c s1 \<and>
    kept c p s s1 \<and> mutexes s1 = mutexes s \<and> cpu_proc (cpus s1 c) = Some p \<and> cpu_thread (cpus s1 c) = Some (p, t) \<and>
    (\<forall>u. core (thr s1 p u) = core (if u = t then (thr s p t)\<lparr>t_state := RUNNING\<rparr> else thr s p u))"
proof -
  have c: "cpu_ok c s" "ncli (cpus s c) = 0" "tables_free s" using i by (auto simp: idle_def)
  let ?l = "lock_st c ptable_lock s"
  let ?s1 = "set_running p t (upd_cpu c (load_cpu p t ?l) ?l)"
  have l: "cpu_ok c ?l" "0 < ncli (cpus ?l c)" using c by (auto simp: lock_st_ncli)
  have "dispatch c p t ?l = Ok () ?s1" using dispatch_eq[OF l] p by simp
  then have "bnd (acquire c ptable_lock s) (\<lambda>_ s. bnd (dispatch c p t s) f) = f () ?s1"
    using acquire_free[of c s ptable_lock] c by (simp add: tables_free_def)
  moreover have "in_ptable c ?s1"
  proof -
    have "cpu_ok c (upd_cpu c (load_cpu p t ?l) ?l)" "ncli (cpus (upd_cpu c (load_cpu p t ?l) ?l) c) = 1"
      using l c by (auto simp: upd_cpu_def cpu_ok_def load_cpu_def lock_st_ncli)
    then show ?thesis using c by (simp add: in_ptable_def tables_free_def set_running_def)
  qed
  moreover have "kept c p s ?s1" by (simp add: kept_def set_running_def load_cpu_def)
  moreover have "core (thr ?s1 p u) = core (if u = t then (thr s p t)\<lparr>t_state := RUNNING\<rparr> else thr s p u)" for u
    by (simp add: set_running_def thr_upd_thread thr_upd_proc)
  moreover have "mutexes ?s1 = mutexes s" "cpu_proc (cpus ?s1 c) = Some p" "cpu_thread (cpus ?s1 c) = Some (p, t)"
    by (simp_all add: set_running_def) (simp_all add: upd_cpu_def load_cpu_def)
  ultimately show ?thesis by blast
qed

lemma yield_resume_eq:
  assumes "in_ptable c s"
  shows "yield_resume c (p, t) s = Ok () (woken c p t s)" and "calm c (woken c p t s)" and "cpus_kept c s (woken c p t s)"
proof -
  let ?u = "upd_cpu c (\<lambda>x. x\<lparr>intena := stk_intena (thr s p t)\<rparr>) s"
  have "cpu_ok c ?u" "0 < ncli (cpus ?u c)" "lock_held c ptable_lock ?u" using assms by (auto simp: in_ptable_def)
  then show "yield_resume c (p, t) s = Ok () (woken c p t s)"
    using assms by (simp add: yield_resume_def sched_resume_eq in_ptable_def release_held woken_def)
  show "calm c (woken c p t s)" using assms by (simp add: calm_def in_ptable_def tables_free_def)
  show "cpus_kept c s (woken c p t s)" by (simp add: woken_def)
qed

lemma core_state: "core x = core y \<Longrightarrow> tid x = tid y \<and> kstack x = kstack y \<and> t_state x = t_state y \<and>
    blocked x = blocked y \<and> chan x = chan y"
  by (simp add: core_def)

lemma kept_trans: "kept c p s s' \<Longrightarrow> kept c p s' s'' \<Longrightarrow> kept c p s s''"
  using cpus_kept_trans by (auto simp: kept_def)

text \<open>The thread has come bk from \<open>yield\<close>: the state in which it makes its call.\<close>

lemma enter_call:
  assumes i: "idle s" "c < ncpu s" and p: "p < NPROC" "t < NTHREAD" "ttlock (procs s p) = Some ptable_lock"
    "kstack (thr s p t) \<noteq> 0" "pgdir (procs s p) \<noteq> 0"
  shows "\<exists>s2. bnd (acquire c ptable_lock s) (\<lambda>_ s. bnd (dispatch c p t s)
       (\<lambda>_ s. bnd (yield_resume c (p, t) s) (\<lambda>_. f))) = f s2 \<and> running c p t s2 \<and> tables_free s2 \<and>
    kept c p s s2 \<and> mutexes s2 = mutexes s \<and>
    (\<forall>u. core (thr s2 p u) = core (if u = t then (thr s p t)\<lparr>t_state := RUNNING\<rparr> else thr s p u))"
proof -
  obtain s1 where s1: "bnd (acquire c ptable_lock s) (\<lambda>_ s. bnd (dispatch c p t s)
       (\<lambda>_ s. bnd (yield_resume c (p, t) s) (\<lambda>_. f))) = bnd (yield_resume c (p, t) s1) (\<lambda>_. f)"
    "in_ptable c s1" "kept c p s s1" "mutexes s1 = mutexes s" "cpu_proc (cpus s1 c) = Some p"
    "cpu_thread (cpus s1 c) = Some (p, t)"
    "\<forall>u. core (thr s1 p u) = core (if u = t then (thr s p t)\<lparr>t_state := RUNNING\<rparr> else thr s p u)"
    using enter_eq[OF assms, of "\<lambda>_ s. bnd (yield_resume c (p, t) s) (\<lambda>_. f)"] by blast
  note y = yield_resume_eq[OF s1(2), of p t]
  have "kept c p s (woken c p t s1)"
    using s1(3) y(3) cpus_kept_trans by (auto simp: kept_def)
  moreover have "running c p t (woken c p t s1)" "tables_free (woken c p t s1)"
    using y(2) s1 p by (auto simp: running_def calm_def kept_def)
  ultimately show ?thesis
    using s1 y(1) by (intro exI[of _ "woken c p t s1"]) simp
qed

lemma kept_simps:
  "kept c p s (upd_mutex m h s') = kept c p s s'"
  "kept c p s (upd_thread q t g s') = kept c p s s'"
  "kept c p s (passed c s') = kept c p s s'" "kept c p s (sect c lk s') = kept c p s s'"
  by (simp_all add: kept_def passed_def)

lemma running_simps:
  "running c p t (upd_mutex m h s) = running c p t s"
  "running c p t (upd_thread q u g s) = running c p t s"
  "running c p t s \<Longrightarrow> running c p t (passed c s)" "running c p t s \<Longrightarrow> running c p t (sect c mtable_lock s)"
  by (auto simp: running_def passed_def)

lemma tables_free_simps:
  "tables_free (upd_mutex m h s) = tables_free s"
  "tables_free (upd_thread q u g s) = tables_free s"
  "tables_free s \<Longrightarrow> tables_free (passed c s)"
  by (auto simp: tables_free_def passed_def)

text \<open>A call that returns: the thread yields and its thread slot is as before, apart from \<open>G\<close>.\<close>

lemma turn_returns:
  assumes op: "bnd (acquire c ptable_lock s) (\<lambda>_ s. bnd (dispatch c p t s) (\<lambda>_. mutex_op c p t m k)) = Ok r s3"
    and run: "running c p t s3" "tables_free s3" and kept: "kept c p s s3" "idle s"
    and G: "core ((thr s3 p t)\<lparr>t_state := RUNNABLE\<rparr>) = core (G t)" "\<And>u. u \<noteq> t \<Longrightarrow> core (thr s3 p u) = core (G u)"
  shows "\<exists>s'. turn c p t m k s = Some (s', Ret r) \<and> idle s' \<and> kept c p s s' \<and> mutexes s' = mutexes s3 \<and>
    (\<forall>u. core (thr s' p u) = core (G u))"
proof -
  obtain s' where s': "(case yield c s3 of Switch s \<Rightarrow> leave c (Ret r) s | _ \<Rightarrow> None) = Some (s', Ret r)"
    "calm c s'" "kept c p s3 s'" "mutexes s' = mutexes s3"
    "\<forall>u. core (thr s' p u) = core (if u = t then (thr s3 p t)\<lparr>t_state := RUNNABLE\<rparr> else thr s3 p u)"
    using yield_leave[OF run] by blast
  have "kept c p s s'" using kept_trans[OF kept(1) s'(3)] .
  moreover have "idle s'" using s'(2) kept(2) \<open>kept c p s s'\<close> idle_kept by (auto simp: kept_def calm_def)
  moreover have "\<forall>u. core (thr s' p u) = core (G u)" using s'(5) G by auto
  ultimately show ?thesis using op s' by (simp add: turn_def)
qed

lemma mutex_op_call:
  "mutex_op c p t m CLock = (\<lambda>s. bnd (yield_resume c (p, t) s) (\<lambda>_. kthread_mutex_lock c (int m)))"
  "mutex_op c p t m CUnlock = (\<lambda>s. bnd (yield_resume c (p, t) s) (\<lambda>_. kthread_mutex_unlock c (int m)))"
  "mutex_op c p t m CResume = kthread_mutex_lock_resume c p (p, t) m"
  by (simp_all add: mutex_op_def fun_eq_iff)

lemma turn_lock:
  assumes i: "idle s" "c < ncpu s" and p: "p < NPROC" "t < NTHREAD" "ttlock (procs s p) = Some ptable_lock"
    "kstack (thr s p t) \<noteq> 0" "pgdir (procs s p) \<noteq> 0"
    and u: "usable p m s" "t_state (thr s p t) = RUNNABLE" "\<not> blocked (thr s p t)"
  shows "\<exists>s' r. turn c p t m CLock s = Some (s', r) \<and> idle s' \<and> kept c p s s' \<and>
    (if m_tid (mutexes s m) \<noteq> tid (thr s p t) \<and> m_locked (mutexes s m)
     then r = Sleeps \<and> mutexes s' = mutexes s \<and> (\<forall>u. core (thr s' p u) = core (if u = t
       then (thr s p t)\<lparr>blocked := True, chan := Some (ChMutex m), t_state := SLEEPING\<rparr> else thr s p u))
     else if m_tid (mutexes s m) = tid (thr s p t) then r = Ret (- 1) \<and> mutexes s' = mutexes s \<and>
       (\<forall>u. core (thr s' p u) = core (thr s p u))
     else r = Ret 0 \<and> mutexes s' = (mutexes s)(m := (mutexes s m)\<lparr>m_locked := True, m_tid := tid (thr s p t)\<rparr>) \<and>
       (\<forall>u. core (thr s' p u) = core (thr s p u)))"
proof -
  obtain s2 where s2: "bnd (acquire c ptable_lock s) (\<lambda>_ s. bnd (dispatch c p t s) (\<lambda>_. mutex_op c p t m CLock))
       = kthread_mutex_lock c (int m) s2"
    "running c p t s2" "tables_free s2" "kept c p s s2" "mutexes s2 = mutexes s"
    "\<forall>u. core (thr s2 p u) = core (if u = t then (thr s p t)\<lparr>t_state := RUNNING\<rparr> else thr s p u)"
    using enter_call[OF i p, of "kthread_mutex_lock c (int m)"]
    unfolding mutex_op_call by blast
  have us: "m < MAX_MUTEXES" "m_allocated (mutexes s2 m)" "mid (procs s2 p) m"
    using u(1) s2(4,5) by (auto simp: usable_def kept_def)
  have th: "tid (thr s2 p t) = tid (thr s p t)" "\<not> blocked (thr s2 p t)"
    using s2(6)[rule_format, of t] u(3) by (auto simp: core_def)
  note eq = mutex_lock_eq[OF s2(2,3) us(1)]
  have bk: "core ((thr s2 p t)\<lparr>t_state := RUNNABLE\<rparr>) = core (thr s p t)"
    "\<And>u. u \<noteq> t \<Longrightarrow> core (thr s2 p u) = core (thr s p u)"
    using s2(6) u(2) by (auto simp: core_def)
  consider (own) "m_tid (mutexes s m) = tid (thr s p t)"
    | (waits) "m_tid (mutexes s m) \<noteq> tid (thr s p t)" "m_locked (mutexes s m)"
    | (takes) "m_tid (mutexes s m) \<noteq> tid (thr s p t)" "\<not> m_locked (mutexes s m)" by blast
  then show ?thesis
  proof cases
    case own
    have "kthread_mutex_lock c (int m) s2 = Ok (- 1) (passed c s2)" using eq us th own s2(5) by simp
    from turn_returns[OF s2(1)[unfolded this], where G = "thr s p"] show ?thesis
      using s2 own bk by (simp add: running_simps tables_free_simps kept_simps i(1))
  next
    case takes
    have "kthread_mutex_lock c (int m) s2 = Ok 0 (upd_mutex m (\<lambda>x. x\<lparr>m_locked := True,
        m_tid := tid (thr s2 p t)\<rparr>) (passed c s2))"
      using eq us th takes s2(5) by simp
    from turn_returns[OF s2(1)[unfolded this], where G = "thr s p"] show ?thesis
      using s2 takes bk th by (simp add: running_simps tables_free_simps kept_simps i(1))
  next
    case waits
    let ?s1 = "upd_thread p t (\<lambda>x. x\<lparr>blocked := True\<rparr>) (lock_st c ptable_lock (passed c s2))"
    let ?s3 = "upd_thread p t (\<lambda>x. x\<lparr>stk_intena := intena (cpus ?s1 c)\<rparr>) (sleep_upd p t (ChMutex m) ?s1)"
    have sw: "kthread_mutex_lock c (int m) s2 = Switch ?s3"
      using eq us th waits s2(5) by (simp add: passed_def Let_def)
    have "in_ptable c ?s3" using s2(2,3)
      by (simp add: in_ptable_def running_def tables_free_def lock_st_ncli)
    then obtain s' where s': "leave c Sleeps ?s3 = Some (s', Sleeps)" "calm c s'" "cpus_kept c ?s3 s'"
      "procs s' = procs ?s3" "mutexes s' = mutexes ?s3"
      using leave_eq by blast
    have "cpus_kept c s ?s3" using s2(4) by (simp add: kept_def passed_def)
    then have "cpus_kept c s s'" using s'(3) by (rule cpus_kept_trans)
    then have k: "kept c p s s'" using s'(4) s2(4) by (simp add: kept_def sleep_upd_def)
    have "thr s' = thr ?s3" using s'(4) by (simp add: thr_def fun_eq_iff)
    then have "core (thr s' p u) = core (if u = t
       then (thr s p t)\<lparr>blocked := True, chan := Some (ChMutex m), t_state := SLEEPING\<rparr> else thr s p u)" for u
      using s2(6)[rule_format, of u] by (auto simp: core_def thr_upd_thread thr_sleep_upd)
    moreover have "turn c p t m CLock s = Some (s', Sleeps)" using s2(1) sw s'(1) by (simp add: turn_def)
    moreover have "idle s'" using s'(2) i(1) k idle_kept by (auto simp: kept_def calm_def)
    ultimately show ?thesis using waits k s'(5) s2(5) by (intro exI[of _ s'] exI[of _ Sleeps]) simp
  qed
qed


lemma turn_unlock:
  assumes i: "idle s" "c < ncpu s" and p: "p < NPROC" "t < NTHREAD" "ttlock (procs s p) = Some ptable_lock"
    "kstack (thr s p t) \<noteq> 0" "pgdir (procs s p) \<noteq> 0"
    and u: "usable p m s" "t_state (thr s p t) = RUNNABLE"
  shows "\<exists>s' r. turn c p t m CUnlock s = Some (s', r) \<and> idle s' \<and> kept c p s s' \<and>
    (if m_tid (mutexes s m) \<noteq> tid (thr s p t)
     then r = Ret (- 1) \<and> mutexes s' = mutexes s \<and> (\<forall>u. core (thr s' p u) = core (thr s p u))
     else r = Ret 0 \<and> (case find (\<lambda>i. waits_for m (thr s p i)) (scan_order t) of
       Some i \<Rightarrow> mutexes s' = (mutexes s)(m := (mutexes s m)\<lparr>m_tid := tid (thr s p i)\<rparr>) \<and>
         (\<forall>u. core (thr s' p u) = core (if u = i then (thr s p i)\<lparr>chan := None, t_state := RUNNABLE,
            blocked := False\<rparr> else thr s p u))
     | None \<Rightarrow> mutexes s' = (mutexes s)(m := (mutexes s m)\<lparr>m_locked := False, m_tid := - 1\<rparr>) \<and>
         (\<forall>u. core (thr s' p u) = core (thr s p u))))"
proof -
  obtain s2 where s2: "bnd (acquire c ptable_lock s) (\<lambda>_ s. bnd (dispatch c p t s) (\<lambda>_. mutex_op c p t m CUnlock))
       = kthread_mutex_unlock c (int m) s2"
    "running c p t s2" "tables_free s2" "kept c p s s2" "mutexes s2 = mutexes s"
    "\<forall>u. core (thr s2 p u) = core (if u = t then (thr s p t)\<lparr>t_state := RUNNING\<rparr> else thr s p u)"
    using enter_call[OF i p, of "kthread_mutex_unlock c (int m)"] unfolding mutex_op_call by blast
  have us: "m < MAX_MUTEXES" "m_allocated (mutexes s2 m)" "mid (procs s2 p) m"
    using u(1) s2(4,5) by (auto simp: usable_def kept_def)
  have th: "tid (thr s2 p j) = tid (thr s p j)" "waits_for m (thr s2 p j) = waits_for m (thr s p j)" for j
    using s2(6)[rule_format, of j] by (auto simp: core_def waits_for_def split: if_splits)
  note eq = mutex_unlock_eq[OF s2(2,3) us(1), unfolded th s2(5)]
  have bk: "core ((thr s2 p t)\<lparr>t_state := RUNNABLE\<rparr>) = core (thr s p t)"
    "\<And>u. u \<noteq> t \<Longrightarrow> core (thr s2 p u) = core (thr s p u)"
    using s2(6) u(2) by (auto simp: core_def)
  show ?thesis
  proof (cases "m_tid (mutexes s m) = tid (thr s p t)")
    case False
    have "kthread_mutex_unlock c (int m) s2 = Ok (- 1) (passed c s2)" using eq us False s2(5) by simp
    from turn_returns[OF s2(1)[unfolded this], where G = "thr s p"] show ?thesis
      using s2 False bk by (simp add: running_simps tables_free_simps kept_simps i(1))
  next
    case True
    show ?thesis
    proof (cases "find (\<lambda>i. waits_for m (thr s p i)) (scan_order t)")
      case None
      have "kthread_mutex_unlock c (int m) s2 = Ok 0 (upd_mutex m (\<lambda>x. x\<lparr>m_locked := False, m_tid := - 1\<rparr>)
          (passed c s2))"
        using eq us True None s2(5) by simp
      from turn_returns[OF s2(1)[unfolded this], where G = "thr s p"] show ?thesis
        using s2 True None bk by (simp add: running_simps tables_free_simps kept_simps i(1))
    next
      case (Some j)
      have "j \<in> set (scan_order t)" using Some by (auto simp: find_Some_iff in_set_conv_nth)
      then have jt: "j \<noteq> t" using p(2) by (simp add: scan_order_set)
      let ?s3 = "upd_mutex m (\<lambda>x. x\<lparr>m_tid := tid (thr s p j)\<rparr>) (upd_thread p j (\<lambda>x. x\<lparr>chan := None,
          t_state := RUNNABLE, blocked := False\<rparr>) (passed c s2))"
      have "kthread_mutex_unlock c (int m) s2 = Ok 0 ?s3" using eq us True Some s2(5) by simp
      note tr = turn_returns[OF s2(1)[unfolded this]]
      let ?G = "\<lambda>u. if u = j then (thr s p j)\<lparr>chan := None, t_state := RUNNABLE, blocked := False\<rparr> else thr s p u"
      have "core ((thr ?s3 p t)\<lparr>t_state := RUNNABLE\<rparr>) = core (?G t)"
        "\<And>u. u \<noteq> t \<Longrightarrow> core (thr ?s3 p u) = core (?G u)"
        using bk s2(6)[rule_format, of j] jt by (auto simp: thr_upd_thread core_def)
      with tr[where G = ?G] show ?thesis
        using s2 True Some by (simp add: running_simps tables_free_simps kept_simps i(1))
    qed
  qed
qed

lemma turn_resume:
  assumes i: "idle s" "c < ncpu s" and p: "p < NPROC" "t < NTHREAD" "ttlock (procs s p) = Some ptable_lock"
    "kstack (thr s p t) \<noteq> 0" "pgdir (procs s p) \<noteq> 0"
    and u: "t_state (thr s p t) = RUNNABLE" "\<not> blocked (thr s p t)"
  shows "\<exists>s'. turn c p t m CResume s = Some (s', Ret 0) \<and> idle s' \<and> kept c p s s' \<and>
    mutexes s' = (mutexes s)(m := (mutexes s m)\<lparr>m_locked := True, m_tid := tid (thr s p t)\<rparr>) \<and>
    (\<forall>u. core (thr s' p u) = core (if u = t then (thr s p t)\<lparr>chan := None\<rparr> else thr s p u))"
proof -
  obtain s1 where s1: "bnd (acquire c ptable_lock s) (\<lambda>_ s. bnd (dispatch c p t s) (\<lambda>_. mutex_op c p t m CResume))
       = kthread_mutex_lock_resume c p (p, t) m s1"
    "in_ptable c s1" "kept c p s s1" "mutexes s1 = mutexes s" "cpu_proc (cpus s1 c) = Some p"
    "cpu_thread (cpus s1 c) = Some (p, t)"
    "\<forall>u. core (thr s1 p u) = core (if u = t then (thr s p t)\<lparr>t_state := RUNNING\<rparr> else thr s p u)"
    using enter_eq[OF i p, of "\<lambda>_. kthread_mutex_lock_resume c p (p, t) m"] unfolding mutex_op_call by blast
  have th: "tid (thr s1 p t) = tid (thr s p t)" "\<not> blocked (thr s1 p t)"
    using s1(7)[rule_format, of t] u(2) by (auto simp: core_def)
  let ?s3 = "upd_mutex m (\<lambda>x. x\<lparr>m_locked := True, m_tid := tid (thr s p t)\<rparr>)
       (upd_thread p t (\<lambda>x. x\<lparr>chan := None\<rparr>) (passed c (woken c p t s1)))"
  have eq: "kthread_mutex_lock_resume c p (p, t) m s1 = Ok 0 ?s3"
    using mutex_lock_resume_eq[of c s1 p t m] s1 th p by (simp add: in_ptable_def kept_def)
  note y = yield_resume_eq[OF s1(2), of p t]
  have k: "kept c p s (woken c p t s1)" using s1(3) y(3) cpus_kept_trans by (auto simp: kept_def)
  have r: "running c p t (woken c p t s1)" "tables_free (woken c p t s1)"
    using y(2) s1 p by (auto simp: running_def calm_def kept_def)
  let ?G = "\<lambda>u. if u = t then (thr s p t)\<lparr>chan := None\<rparr> else thr s p u"
  have "core ((thr ?s3 p t)\<lparr>t_state := RUNNABLE\<rparr>) = core (?G t)"
    "\<And>u. u \<noteq> t \<Longrightarrow> core (thr ?s3 p u) = core (?G u)"
    using s1(7) u(1) by (auto simp: thr_upd_thread core_def)
  with turn_returns[OF s1(1)[unfolded eq], where G = ?G] show ?thesis
    using r k s1(4) by (simp add: running_simps tables_free_simps kept_simps i(1))
qed

subsection \<open>The invariant of a process that uses mutexes\<close>

text \<open>
  A thread inside a lock call is asleep on its mutex and blocked, or it has been given the mutex; a
  locked mutex has a live thread as its owner.
\<close>

definition thread_ok :: "nat \<Rightarrow> 'a kernel_scheme \<Rightarrow> (nat \<Rightarrow> nat option) \<Rightarrow> nat \<Rightarrow> bool" where
  "thread_ok p s ins t \<longleftrightarrow>
     (t_state (thr s p t) \<noteq> UNUSED \<longrightarrow> tid (thr s p t) = int t \<and> kstack (thr s p t) \<noteq> 0) \<and>
     (blocked (thr s p t) \<longrightarrow> ins t \<noteq> None) \<and>
     (\<forall>m. ins t = Some m \<longrightarrow> usable p m s \<and> m_locked (mutexes s m) \<and> t_state (thr s p t) \<noteq> UNUSED \<and>
        (if blocked (thr s p t) then t_state (thr s p t) = SLEEPING \<and> chan (thr s p t) = Some (ChMutex m) \<and>
           m_tid (mutexes s m) \<noteq> int t
         else m_tid (mutexes s m) = int t))"

definition mutex_ok :: "nat \<Rightarrow> 'a kernel_scheme \<Rightarrow> nat \<Rightarrow> bool" where
  "mutex_ok p s m \<longleftrightarrow> (usable p m s \<longrightarrow>
     (if m_locked (mutexes s m) then \<exists>t<NTHREAD. m_tid (mutexes s m) = int t \<and> t_state (thr s p t) \<noteq> UNUSED
      else m_tid (mutexes s m) = - 1))"

fun minv :: "nat \<Rightarrow> 'a config \<Rightarrow> bool" where
  "minv p (s, ins) \<longleftrightarrow> idle s \<and> p < NPROC \<and> ttlock (procs s p) = Some ptable_lock \<and> pgdir (procs s p) \<noteq> 0 \<and>
     (\<forall>t<NTHREAD. thread_ok p s ins t) \<and> (\<forall>m<MAX_MUTEXES. mutex_ok p s m)"

definition waiting :: "nat \<Rightarrow> nat \<Rightarrow> 'a kernel_scheme \<Rightarrow> nat set" where
  "waiting p m s = {t. t < NTHREAD \<and> waits_for m (thr s p t)}"

fun mutex_abs :: "nat \<Rightarrow> nat \<Rightarrow> 'a config \<Rightarrow> amutex" where
  "mutex_abs p m (s, ins) =
     (if usable p m s \<and> m_locked (mutexes s m)
      then let t = nat (m_tid (mutexes s m)) in
        if ins t = Some m then Handed t (waiting p m s) else Held t (waiting p m s)
      else Free)"

lemma usable_kept: "kept c p s s' \<Longrightarrow> m_allocated (mutexes s' m) = m_allocated (mutexes s m) \<Longrightarrow>
    usable p m s' = usable p m s"
  by (simp add: usable_def kept_def)

text \<open>The invariant only reads the core of the threads and the mutexes.\<close>

lemma thread_ok_cong:
  assumes "core (thr s' p t) = core (thr s p t)" "ins' t = ins t"
    and "\<And>m. ins t = Some m \<Longrightarrow> mutexes s' m = mutexes s m" "kept c p s s'"
  shows "thread_ok p s' ins' t = thread_ok p s ins t"
proof -
  have "usable p m s' = usable p m s" if "ins t = Some m" for m
    using usable_kept[OF assms(4)] assms(3)[OF that] by simp
  then show ?thesis using core_state[OF assms(1)] assms(2,3) unfolding thread_ok_def by auto
qed

lemma waits_inside: "thread_ok p s ins t \<Longrightarrow> waits_for m (thr s p t) \<longleftrightarrow> ins t = Some m \<and> blocked (thr s p t)"
  by (auto simp: thread_ok_def waits_for_def)

lemma mutex_ok_cong:
  assumes "mutexes s' m = mutexes s m" "kept c p s s'"
    and "\<And>t. t < NTHREAD \<Longrightarrow> t_state (thr s p t) \<noteq> UNUSED \<Longrightarrow> t_state (thr s' p t) \<noteq> UNUSED" "mutex_ok p s m"
  shows "mutex_ok p s' m"
proof -
  have "usable p m s' = usable p m s" using usable_kept[OF assms(2)] assms(1) by simp
  then show ?thesis using assms unfolding mutex_ok_def by (simp only: assms(1)) metis
qed

lemma mutex_abs_cong:
  assumes "mutexes s' m = mutexes s m" "kept c p s s'"
    and "\<And>t. t < NTHREAD \<Longrightarrow> waits_for m (thr s' p t) = waits_for m (thr s p t)"
    and "\<And>t. m_locked (mutexes s m) \<Longrightarrow> m_tid (mutexes s m) = int t \<Longrightarrow> (ins' t = Some m) = (ins t = Some m)"
    and "mutex_ok p s m"
  shows "mutex_abs p m (s', ins') = mutex_abs p m (s, ins)"
proof -
  have "usable p m s' = usable p m s" using usable_kept[OF assms(2)] assms(1) by simp
  moreover have "waiting p m s' = waiting p m s" using assms(3) by (auto simp: waiting_def)
  moreover have "(ins' (nat (m_tid (mutexes s m))) = Some m) = (ins (nat (m_tid (mutexes s m))) = Some m)"
    if "usable p m s" "m_locked (mutexes s m)"
    using that assms(4,5) by (auto simp: mutex_ok_def)
  ultimately show ?thesis using assms(1) by (auto simp: Let_def)
qed

lemma minv_mutex: "minv p (s, ins) \<Longrightarrow> mutex_ok p s m"
  by (cases "m < MAX_MUTEXES") (auto simp: mutex_ok_def usable_def)

lemma minv_owner:
  assumes "minv p (s, ins)" "usable p m s" "m_locked (mutexes s m)"
  obtains t where "t < NTHREAD" "m_tid (mutexes s m) = int t" "t_state (thr s p t) \<noteq> UNUSED"
  using minv_mutex[OF assms(1), of m] assms(2,3) by (auto simp: mutex_ok_def)

lemma abs_aok: "minv p (s, ins) \<Longrightarrow> aok (mutex_abs p m (s, ins))"
proof (cases "usable p m s \<and> m_locked (mutexes s m)")
  case True
  assume inv: "minv p (s, ins)"
  then obtain t where t: "t < NTHREAD" "m_tid (mutexes s m) = int t"
    using True minv_owner by blast
  have "thread_ok p s ins t" using inv t by simp
  then have "t \<notin> waiting p m s" using t waits_inside[of p s ins t m] by (auto simp: waiting_def thread_ok_def)
  then show ?thesis using True t by (auto simp: waiting_def)
qed auto

text \<open>A mutex that a thread can call on is not one it sleeps in.\<close>

lemma call_enabled:
  assumes inv: "minv p (s, ins)" and t: "t < NTHREAD" "ins t = None" "k \<noteq> CResume"
  shows "enabled t k (mutex_abs p m (s, ins))"
proof -
  have "thread_ok p s ins t" using inv t by simp
  then have "t \<notin> waiting p m s" using t by (auto simp: waiting_def waits_inside)
  moreover have "nat (m_tid (mutexes s m)) \<noteq> t" if "ins (nat (m_tid (mutexes s m))) = Some m"
    using that t by auto
  ultimately show ?thesis using t by (cases k) (auto simp: Let_def)
qed


subsection \<open>Every quantum implements the contract\<close>

definition implements ::
    "nat \<Rightarrow> 'a config \<Rightarrow> nat \<times> nat \<times> nat \<times> mutex_call \<Rightarrow> 'a config \<Rightarrow> entry \<Rightarrow> bool" where
  "implements p x e y l \<longleftrightarrow> quantum p e x = Some (y, l) \<and> minv p y \<and>
     (case (e, l) of ((c, t, m, k), (m', t', k', r)) \<Rightarrow> m' = m \<and> t' = t \<and> k' = k \<and>
        enabled t k (mutex_abs p m x) \<and> fst (amut t k (mutex_abs p m x)) = r \<and>
        snd (amut t k (mutex_abs p m x)) = mutex_abs p m y \<and>
        (\<forall>j. j \<noteq> m \<longrightarrow> mutex_abs p j y = mutex_abs p j x))"

text \<open>A quantum that leaves all threads and mutexes alone (a call that returns -1).\<close>

lemma implements_same:
  assumes inv: "minv p (s, ins)" and q: "quantum p (c, t, m, k) (s, ins) = Some ((s', ins), (m, t, k, r))"
    and k: "idle s'" "kept c p s s'" "mutexes s' = mutexes s" "\<forall>u. core (thr s' p u) = core (thr s p u)"
    and e: "enabled t k (mutex_abs p m (s, ins))" "amut t k (mutex_abs p m (s, ins)) = (r, mutex_abs p m (s, ins))"
  shows "implements p (s, ins) (c, t, m, k) (s', ins) (m, t, k, r)"
proof -
  have w: "waits_for i (thr s' p u) = waits_for i (thr s p u)" for i u
    using core_state[OF k(4)[rule_format, of u]] by (simp add: waits_for_def)
  have "mutex_abs p j (s', ins) = mutex_abs p j (s, ins)" for j
    using mutex_abs_cong[of s' j s c p ins ins] k w minv_mutex[OF inv] by simp
  moreover have "thread_ok p s' ins u" if "u < NTHREAD" for u
    using thread_ok_cong[of s' p u s ins ins c] k inv that by simp
  moreover have "t_state (thr s' p u) = t_state (thr s p u)" for u
    using core_state[OF k(4)[rule_format, of u]] by simp
  then have "mutex_ok p s' j" for j
    by (intro mutex_ok_cong[OF _ k(2) _ minv_mutex[OF inv]]) (simp_all add: k(3))
  ultimately show ?thesis
    using inv q k e by (simp add: implements_def kept_def)
qed

text \<open>The situation in which a quantum starts.\<close>

definition at_turn :: "nat \<Rightarrow> nat \<Rightarrow> nat \<Rightarrow> nat \<Rightarrow> 'a config \<Rightarrow> bool" where
  "at_turn p c t m x \<longleftrightarrow> minv p x \<and> c < ncpu (fst x) \<and> t < NTHREAD \<and> usable p m (fst x) \<and>
     t_state (thr (fst x) p t) = RUNNABLE"

lemma at_turnD:
  assumes "at_turn p c t m (s, ins)"
  shows "minv p (s, ins)" "idle s" "c < ncpu s" "p < NPROC" "t < NTHREAD" "ttlock (procs s p) = Some ptable_lock"
    "kstack (thr s p t) \<noteq> 0" "pgdir (procs s p) \<noteq> 0" "usable p m s" "t_state (thr s p t) = RUNNABLE"
    "tid (thr s p t) = int t" "thread_ok p s ins t" "\<not> blocked (thr s p t)"
  using assms by (auto simp: at_turn_def thread_ok_def)

lemma minv_intro:
  assumes "minv p (s, ins)" "idle s'" "kept c p s s'"
    and "\<And>u. u < NTHREAD \<Longrightarrow> thread_ok p s' ins' u" "\<And>j. mutex_ok p s' j"
  shows "minv p (s', ins')"
  using assms by (simp add: kept_def)

lemma lock_sleeps:
  assumes at: "at_turn p c t m (s, ins)" and ins: "ins t = None"
    and m: "m_tid (mutexes s m) \<noteq> int t" "m_locked (mutexes s m)"
    and s': "turn c p t m CLock s = Some (s', Sleeps)" "idle s'" "kept c p s s'" "mutexes s' = mutexes s"
      "\<forall>u. core (thr s' p u) = core (if u = t
         then (thr s p t)\<lparr>blocked := True, chan := Some (ChMutex m), t_state := SLEEPING\<rparr> else thr s p u)"
  shows "implements p (s, ins) (c, t, m, CLock) (s', ins(t := Some m)) (m, t, CLock, Sleeps)"
proof -
  note at' = at_turnD[OF at]
  have me: "tid (thr s' p t) = int t" "kstack (thr s' p t) \<noteq> 0" "t_state (thr s' p t) = SLEEPING"
    "blocked (thr s' p t)" "chan (thr s' p t) = Some (ChMutex m)"
    using s'(5)[rule_format, of t] at' by (auto simp: core_def)
  have oth: "core (thr s' p u) = core (thr s p u)" if "u \<noteq> t" for u using s'(5) that by simp
  have us: "usable p j s' = usable p j s" for j using usable_kept[OF s'(3)] s'(4) by simp
  have w: "waits_for j (thr s' p u) \<longleftrightarrow> (if u = t then j = m else waits_for j (thr s p u))" for j u
    using me core_state[OF oth, of u] by (auto simp: waits_for_def)
  have "thread_ok p s' (ins(t := Some m)) u" if "u < NTHREAD" for u
  proof (cases "u = t")
    case True
    then show ?thesis using me m at' s'(4) us by (simp add: thread_ok_def)
  next
    case False
    then show ?thesis using thread_ok_cong[of s' p u s "ins(t := Some m)" ins c] oth s' at'(1) that by simp
  qed
  moreover have "t_state (thr s p u) \<noteq> UNUSED \<Longrightarrow> t_state (thr s' p u) \<noteq> UNUSED" for u
    using me core_state[OF oth, of u] by (cases "u = t") auto
  then have "mutex_ok p s' j" for j
    by (intro mutex_ok_cong[OF _ s'(3) _ minv_mutex[OF at'(1)]]) (simp_all add: s'(4))
  ultimately have "minv p (s', ins(t := Some m))" by (intro minv_intro[OF at'(1) s'(2,3)])
  moreover have "mutex_abs p j (s', ins(t := Some m)) = mutex_abs p j (s, ins)" if "j \<noteq> m" for j
    by (rule mutex_abs_cong[OF _ s'(3) _ _ minv_mutex[OF at'(1)]])
      (use s'(4) w ins that at'(13) in \<open>auto simp: waits_for_def\<close>)
  moreover obtain o' where o': "o' < NTHREAD" "m_tid (mutexes s m) = int o'"
    using minv_owner[OF at'(1,9) m(2)] by blast
  have "waiting p m s' = insert t (waiting p m s)" using w at'(5) by (auto simp: waiting_def)
  then have "amut t CLock (mutex_abs p m (s, ins)) = (Sleeps, mutex_abs p m (s', ins(t := Some m)))"
    using m at'(9) us s'(4) o' ins by (auto simp: Let_def)
  moreover have "enabled t CLock (mutex_abs p m (s, ins))" by (rule call_enabled[OF at'(1,5) ins]) simp
  ultimately show ?thesis
    using at' ins s'(1) by (simp add: implements_def del: mutex_abs.simps minv.simps enabled.simps)
qed

lemma lock_takes:
  assumes at: "at_turn p c t m (s, ins)" and ins: "ins t = None"
    and m: "\<not> m_locked (mutexes s m)"
    and s': "turn c p t m CLock s = Some (s', Ret 0)" "idle s'" "kept c p s s'"
      "mutexes s' = (mutexes s)(m := (mutexes s m)\<lparr>m_locked := True, m_tid := int t\<rparr>)"
      "\<forall>u. core (thr s' p u) = core (thr s p u)"
  shows "implements p (s, ins) (c, t, m, CLock) (s', ins) (m, t, CLock, Ret 0)"
proof -
  note at' = at_turnD[OF at]
  have us: "usable p j s' = usable p j s" for j by (rule usable_kept[OF s'(3)]) (simp add: s'(4))
  have fields: "t_state (thr s' p u) = t_state (thr s p u)" "waits_for j (thr s' p u) = waits_for j (thr s p u)" for j u
    using core_state[OF s'(5)[rule_format, of u]] by (auto simp: waits_for_def)
  have out: "ins u \<noteq> Some m" if "u < NTHREAD" for u
    using at'(1) that m by (auto simp: thread_ok_def)
  have "thread_ok p s' ins u" if "u < NTHREAD" for u
  proof -
    have "thread_ok p s' ins u = thread_ok p s ins u"
      by (rule thread_ok_cong[OF _ _ _ s'(3)]) (use s'(4,5) out[OF that] in auto)
    then show ?thesis using at'(1) that by simp
  qed
  moreover have "mutex_ok p s' j" for j
  proof (cases "j = m")
    case True
    then show ?thesis using s'(4) fields at'(5,10) by (auto simp: mutex_ok_def)
  next
    case False
    then show ?thesis
      by (intro mutex_ok_cong[OF _ s'(3) _ minv_mutex[OF at'(1)]]) (simp_all add: s'(4) fields)
  qed
  ultimately have "minv p (s', ins)" by (intro minv_intro[OF at'(1) s'(2,3)])
  moreover have "mutex_abs p j (s', ins) = mutex_abs p j (s, ins)" if "j \<noteq> m" for j
    by (rule mutex_abs_cong[OF _ s'(3) _ _ minv_mutex[OF at'(1)]]) (use s'(4) fields that in auto)
  moreover have "waiting p m s' = {}"
  proof -
    have "\<not> waits_for m (thr s p u)" if "u < NTHREAD" for u
      using at'(1) waits_inside[of p s ins u m] out[OF that] that by simp
    then show ?thesis using fields by (auto simp: waiting_def)
  qed
  then have "amut t CLock (mutex_abs p m (s, ins)) = (Ret 0, mutex_abs p m (s', ins))"
    using m at'(9) us s'(4) ins by (auto simp: Let_def)
  moreover have "enabled t CLock (mutex_abs p m (s, ins))" by (rule call_enabled[OF at'(1,5) ins]) simp
  moreover have "ins(t := None) = ins" using ins by auto
  ultimately show ?thesis
    using at' ins s'(1) by (simp add: implements_def del: mutex_abs.simps minv.simps enabled.simps)
qed

lemma lock_implements:
  assumes at: "at_turn p c t m (s, ins)" and ins: "ins t = None"
  shows "\<exists>y l. implements p (s, ins) (c, t, m, CLock) y l"
proof -
  note at' = at_turnD[OF at]
  obtain s' r where s': "turn c p t m CLock s = Some (s', r)" "idle s'" "kept c p s s'"
    "if m_tid (mutexes s m) \<noteq> tid (thr s p t) \<and> m_locked (mutexes s m)
     then r = Sleeps \<and> mutexes s' = mutexes s \<and> (\<forall>u. core (thr s' p u) = core (if u = t
       then (thr s p t)\<lparr>blocked := True, chan := Some (ChMutex m), t_state := SLEEPING\<rparr> else thr s p u))
     else if m_tid (mutexes s m) = tid (thr s p t) then r = Ret (- 1) \<and> mutexes s' = mutexes s \<and>
       (\<forall>u. core (thr s' p u) = core (thr s p u))
     else r = Ret 0 \<and> mutexes s' = (mutexes s)(m := (mutexes s m)\<lparr>m_locked := True, m_tid := tid (thr s p t)\<rparr>) \<and>
       (\<forall>u. core (thr s' p u) = core (thr s p u))"
    using turn_lock[OF at'(2-8) at'(9,10,13)] by blast
  consider (own) "m_tid (mutexes s m) = int t"
    | (waits) "m_tid (mutexes s m) \<noteq> int t" "m_locked (mutexes s m)"
    | (takes) "m_tid (mutexes s m) \<noteq> int t" "\<not> m_locked (mutexes s m)" by blast
  then show ?thesis
  proof cases
    case own
    have r: "r = Ret (- 1)" "mutexes s' = mutexes s" "\<forall>u. core (thr s' p u) = core (thr s p u)"
      using s'(4) own at'(11) by (auto split: if_splits)
    have "ins(t := None) = ins" using ins by auto
    then have q: "quantum p (c, t, m, CLock) (s, ins) = Some ((s', ins), (m, t, CLock, r))"
      using at' ins s'(1) r by simp
    have "m_locked (mutexes s m)" using own minv_mutex[OF at'(1), of m] at'(9) by (auto simp: mutex_ok_def split: if_splits)
    then have "amut t CLock (mutex_abs p m (s, ins)) = (r, mutex_abs p m (s, ins))"
      using own ins at'(9) r(1) by (simp add: Let_def)
    then show ?thesis
      using implements_same[OF at'(1) q s'(2,3) r(2,3)] call_enabled[OF at'(1,5) ins] by blast
  next
    case waits
    then show ?thesis
      using lock_sleeps[OF at ins waits, of s'] s' at'(11) by (simp del: split_paired_Ex) blast
  next
    case takes
    then show ?thesis
      using lock_takes[OF at ins takes(2), of s'] s' at'(11) by (simp del: split_paired_Ex) blast
  qed
qed


lemma find_waits: "t < NTHREAD \<Longrightarrow>
    find (\<lambda>i. waits_for m (thr s p i)) (scan_order t) = find (\<lambda>i. i \<in> waiting p m s) (scan_order t)"
  by (rule find_cong) (auto simp: waiting_def scan_order_set)

lemma unlock_frees:
  assumes at: "at_turn p c t m (s, ins)" and ins: "ins t = None"
    and m: "m_tid (mutexes s m) = int t" "find (\<lambda>i. waits_for m (thr s p i)) (scan_order t) = None"
    and s': "turn c p t m CUnlock s = Some (s', Ret 0)" "idle s'" "kept c p s s'"
      "mutexes s' = (mutexes s)(m := (mutexes s m)\<lparr>m_locked := False, m_tid := - 1\<rparr>)"
      "\<forall>u. core (thr s' p u) = core (thr s p u)"
  shows "implements p (s, ins) (c, t, m, CUnlock) (s', ins) (m, t, CUnlock, Ret 0)"
proof -
  note at' = at_turnD[OF at]
  have us: "usable p j s' = usable p j s" for j by (rule usable_kept[OF s'(3)]) (simp add: s'(4))
  have fields: "t_state (thr s' p u) = t_state (thr s p u)" "waits_for j (thr s' p u) = waits_for j (thr s p u)" for j u
    using core_state[OF s'(5)[rule_format, of u]] by (auto simp: waits_for_def)
  have lk: "m_locked (mutexes s m)" using m minv_mutex[OF at'(1), of m] at'(9) by (auto simp: mutex_ok_def split: if_splits)
  have out: "ins u \<noteq> Some m" if "u < NTHREAD" for u
  proof
    assume u: "ins u = Some m"
    have ok: "thread_ok p s ins u" using at'(1) that by simp
    have "u \<noteq> t" using u ins by auto
    then have "\<not> waits_for m (thr s p u)" using m(2) that at'(5) by (auto simp: find_None_iff scan_order_set)
    then show False using ok u m(1) \<open>u \<noteq> t\<close> waits_inside[OF ok, of m] by (auto simp: thread_ok_def)
  qed
  have "thread_ok p s' ins u" if "u < NTHREAD" for u
  proof -
    have "thread_ok p s' ins u = thread_ok p s ins u"
      by (rule thread_ok_cong[OF _ _ _ s'(3)]) (use s'(4,5) out[OF that] in auto)
    then show ?thesis using at'(1) that by simp
  qed
  moreover have "mutex_ok p s' j" for j
  proof (cases "j = m")
    case True
    then show ?thesis using s'(4) by (auto simp: mutex_ok_def)
  next
    case False
    then show ?thesis
      by (intro mutex_ok_cong[OF _ s'(3) _ minv_mutex[OF at'(1)]]) (simp_all add: s'(4) fields)
  qed
  ultimately have "minv p (s', ins)" by (intro minv_intro[OF at'(1) s'(2,3)])
  moreover have "mutex_abs p j (s', ins) = mutex_abs p j (s, ins)" if "j \<noteq> m" for j
    by (rule mutex_abs_cong[OF _ s'(3) _ _ minv_mutex[OF at'(1)]]) (use s'(4) fields that in auto)
  moreover have "amut t CUnlock (mutex_abs p m (s, ins)) = (Ret 0, mutex_abs p m (s', ins))"
    using m lk at'(9) s'(4) ins find_waits[OF at'(5), of m s p] by (auto simp: Let_def hand_def)
  moreover have "enabled t CUnlock (mutex_abs p m (s, ins))" by (rule call_enabled[OF at'(1,5) ins]) simp
  moreover have "ins(t := None) = ins" using ins by auto
  ultimately show ?thesis
    using at' ins s'(1) by (simp add: implements_def del: mutex_abs.simps minv.simps enabled.simps)
qed

lemma unlock_hands:
  assumes at: "at_turn p c t m (s, ins)" and ins: "ins t = None"
    and m: "m_tid (mutexes s m) = int t" "find (\<lambda>i. waits_for m (thr s p i)) (scan_order t) = Some i"
    and s': "turn c p t m CUnlock s = Some (s', Ret 0)" "idle s'" "kept c p s s'"
      "mutexes s' = (mutexes s)(m := (mutexes s m)\<lparr>m_tid := tid (thr s p i)\<rparr>)"
      "\<forall>u. core (thr s' p u) = core (if u = i then (thr s p i)\<lparr>chan := None, t_state := RUNNABLE,
            blocked := False\<rparr> else thr s p u)"
  shows "implements p (s, ins) (c, t, m, CUnlock) (s', ins) (m, t, CUnlock, Ret 0)"
proof -
  note at' = at_turnD[OF at]
  have us: "usable p j s' = usable p j s" for j by (rule usable_kept[OF s'(3)]) (simp add: s'(4))
  have lk: "m_locked (mutexes s m)" using m minv_mutex[OF at'(1), of m] at'(9) by (auto simp: mutex_ok_def split: if_splits)
  have i: "i < NTHREAD" "i \<noteq> t" "waits_for m (thr s p i)"
    using find_scan_order[OF at'(5), of "waiting p m s" i] m(2) find_waits[OF at'(5), of m s p]
    by (auto simp: waiting_def)
  have tok: "thread_ok p s ins u" if "u < NTHREAD" for u using at'(1) that by simp
  have ii: "ins i = Some m" "tid (thr s p i) = int i" "kstack (thr s p i) \<noteq> 0"
    using i waits_inside[OF tok[OF i(1)]] tok[OF i(1)] by (auto simp: thread_ok_def)
  have you: "tid (thr s' p i) = int i" "kstack (thr s' p i) \<noteq> 0" "t_state (thr s' p i) = RUNNABLE"
    "\<not> blocked (thr s' p i)"
    using s'(5)[rule_format, of i] ii by (auto simp: core_def)
  have oth: "core (thr s' p u) = core (thr s p u)" if "u \<noteq> i" for u using s'(5) that by simp
  have w: "waits_for j (thr s' p u) \<longleftrightarrow> u \<noteq> i \<and> waits_for j (thr s p u)" for j u
    using you core_state[OF oth, of u] by (cases "u = i") (auto simp: waits_for_def)
  have st: "t_state (thr s p u) \<noteq> UNUSED \<Longrightarrow> t_state (thr s' p u) \<noteq> UNUSED" for u
    using you core_state[OF oth, of u] by (cases "u = i") auto
  have "thread_ok p s' ins u" if "u < NTHREAD" for u
  proof (cases "u = i")
    case True
    then show ?thesis using you ii lk at'(9) us s'(4) by (simp add: thread_ok_def)
  next
    case False
    have "ins u = Some m \<Longrightarrow> blocked (thr s p u)" using tok[OF that] m(1) ins by (auto simp: thread_ok_def split: if_splits)
    then show ?thesis
      using tok[OF that] core_state[OF oth[OF False]] s'(4) ii(2) False us by (auto simp: thread_ok_def)
  qed
  moreover have "mutex_ok p s' j" for j
  proof (cases "j = m")
    case True
    then show ?thesis using s'(4) lk ii i you by (auto simp: mutex_ok_def)
  next
    case False
    then show ?thesis
      by (intro mutex_ok_cong[OF _ s'(3) st minv_mutex[OF at'(1)]]) (simp_all add: s'(4))
  qed
  ultimately have "minv p (s', ins)" by (intro minv_intro[OF at'(1) s'(2,3)])
  moreover have "\<not> waits_for j (thr s p i)" if "j \<noteq> m" for j using i(3) that by (auto simp: waits_for_def)
  then have "mutex_abs p j (s', ins) = mutex_abs p j (s, ins)" if "j \<noteq> m" for j
    by (intro mutex_abs_cong[OF _ s'(3) _ _ minv_mutex[OF at'(1)]]) (use s'(4) w that in auto)
  moreover have "waiting p m s' = waiting p m s - {i}" using w by (auto simp: waiting_def)
  then have "amut t CUnlock (mutex_abs p m (s, ins)) = (Ret 0, mutex_abs p m (s', ins))"
    using m lk at'(9) us s'(4) ins ii find_waits[OF at'(5), of m s p] by (auto simp: Let_def hand_def)
  moreover have "enabled t CUnlock (mutex_abs p m (s, ins))" by (rule call_enabled[OF at'(1,5) ins]) simp
  moreover have "ins(t := None) = ins" using ins by auto
  ultimately show ?thesis
    using at' ins s'(1) by (simp add: implements_def del: mutex_abs.simps minv.simps enabled.simps)
qed

lemma unlock_implements:
  assumes at: "at_turn p c t m (s, ins)" and ins: "ins t = None"
  shows "\<exists>y l. implements p (s, ins) (c, t, m, CUnlock) y l"
proof -
  note at' = at_turnD[OF at]
  obtain s' r where s': "turn c p t m CUnlock s = Some (s', r)" "idle s'" "kept c p s s'"
    "if m_tid (mutexes s m) \<noteq> tid (thr s p t)
     then r = Ret (- 1) \<and> mutexes s' = mutexes s \<and> (\<forall>u. core (thr s' p u) = core (thr s p u))
     else r = Ret 0 \<and> (case find (\<lambda>i. waits_for m (thr s p i)) (scan_order t) of
       Some i \<Rightarrow> mutexes s' = (mutexes s)(m := (mutexes s m)\<lparr>m_tid := tid (thr s p i)\<rparr>) \<and>
         (\<forall>u. core (thr s' p u) = core (if u = i then (thr s p i)\<lparr>chan := None, t_state := RUNNABLE,
            blocked := False\<rparr> else thr s p u))
     | None \<Rightarrow> mutexes s' = (mutexes s)(m := (mutexes s m)\<lparr>m_locked := False, m_tid := - 1\<rparr>) \<and>
         (\<forall>u. core (thr s' p u) = core (thr s p u)))"
    using turn_unlock[OF at'(2-8) at'(9,10)] by blast
  show ?thesis
  proof (cases "m_tid (mutexes s m) = int t")
    case True
    then show ?thesis
      using s' at'(11) unlock_frees[OF at ins True, of s'] unlock_hands[OF at ins True, where s' = s']
      by (cases "find (\<lambda>i. waits_for m (thr s p i)) (scan_order t)") (simp_all del: split_paired_Ex, blast+)
  next
    case False
    then have r: "r = Ret (- 1)" "mutexes s' = mutexes s" "\<forall>u. core (thr s' p u) = core (thr s p u)"
      using s'(4) at'(11) by (auto split: if_splits)
    have "ins(t := None) = ins" using ins by auto
    then have q: "quantum p (c, t, m, CUnlock) (s, ins) = Some ((s', ins), (m, t, CUnlock, r))"
      using at' ins s'(1) r by simp
    have "amut t CUnlock (mutex_abs p m (s, ins)) = (r, mutex_abs p m (s, ins))"
    proof (cases "m_locked (mutexes s m)")
      case True
      then obtain o' where "m_tid (mutexes s m) = int o'" using minv_owner[OF at'(1,9)] by blast
      then show ?thesis using False r(1) by (auto simp: Let_def)
    qed (use r(1) in simp)
    then show ?thesis
      using implements_same[OF at'(1) q s'(2,3) r(2,3)] call_enabled[OF at'(1,5) ins] by blast
  qed
qed


lemma resume_implements:
  assumes at: "at_turn p c t m (s, ins)" and ins: "ins t = Some m"
  shows "\<exists>y l. implements p (s, ins) (c, t, m, CResume) y l"
proof -
  note at' = at_turnD[OF at]
  have m: "m_tid (mutexes s m) = int t" "m_locked (mutexes s m)"
    using at'(12,13) ins by (auto simp: thread_ok_def)
  obtain s' where s': "turn c p t m CResume s = Some (s', Ret 0)" "idle s'" "kept c p s s'"
    "mutexes s' = (mutexes s)(m := (mutexes s m)\<lparr>m_locked := True, m_tid := tid (thr s p t)\<rparr>)"
    "\<forall>u. core (thr s' p u) = core (if u = t then (thr s p t)\<lparr>chan := None\<rparr> else thr s p u)"
    using turn_resume[OF at'(2-8) at'(10,13)] by blast
  have "(mutexes s m)\<lparr>m_locked := True, m_tid := tid (thr s p t)\<rparr> = mutexes s m"
    using m at'(11) by (intro kthread_mutex.equality) simp_all
  then have mx: "mutexes s' = mutexes s" using s'(4) by simp
  have us: "usable p j s' = usable p j s" for j by (rule usable_kept[OF s'(3)]) (simp add: mx)
  have me: "tid (thr s' p t) = int t" "kstack (thr s' p t) \<noteq> 0" "t_state (thr s' p t) = RUNNABLE"
    "\<not> blocked (thr s' p t)"
    using s'(5)[rule_format, of t] at' by (auto simp: core_def)
  have oth: "core (thr s' p u) = core (thr s p u)" if "u \<noteq> t" for u using s'(5) that by simp
  have w: "waits_for j (thr s' p u) \<longleftrightarrow> waits_for j (thr s p u)" for j u
    using me at'(13) core_state[OF oth, of u] by (cases "u = t") (auto simp: waits_for_def)
  have "thread_ok p s' (ins(t := None)) u" if "u < NTHREAD" for u
  proof (cases "u = t")
    case True
    then show ?thesis using me by (simp add: thread_ok_def)
  next
    case False
    have "thread_ok p s' (ins(t := None)) u = thread_ok p s ins u"
      by (rule thread_ok_cong[OF _ _ _ s'(3)]) (use mx oth False in auto)
    then show ?thesis using at'(1) that by simp
  qed
  moreover have "t_state (thr s p u) \<noteq> UNUSED \<Longrightarrow> t_state (thr s' p u) \<noteq> UNUSED" for u
    using me core_state[OF oth, of u] by (cases "u = t") auto
  then have "mutex_ok p s' j" for j
    by (intro mutex_ok_cong[OF _ s'(3) _ minv_mutex[OF at'(1)]]) (simp_all add: mx)
  ultimately have "minv p (s', ins(t := None))" by (intro minv_intro[OF at'(1) s'(2,3)])
  moreover have "mutex_abs p j (s', ins(t := None)) = mutex_abs p j (s, ins)" if "j \<noteq> m" for j
    by (rule mutex_abs_cong[OF _ s'(3) _ _ minv_mutex[OF at'(1)]]) (use mx w ins that in auto)
  moreover have "waiting p m s' = waiting p m s" using w by (auto simp: waiting_def)
  then have "amut t CResume (mutex_abs p m (s, ins)) = (Ret 0, mutex_abs p m (s', ins(t := None)))"
    "enabled t CResume (mutex_abs p m (s, ins))"
    using m at'(9) us mx ins by (auto simp: Let_def)
  ultimately have "implements p (s, ins) (c, t, m, CResume) (s', ins(t := None)) (m, t, CResume, Ret 0)"
    using at' ins s'(1) by (simp add: implements_def del: mutex_abs.simps minv.simps enabled.simps)
  then show ?thesis by blast
qed

text \<open>Every quantum that can start is finished, and does what the contract says.\<close>

lemma quantum_implements:
  assumes "minv p (s, ins)" "c < ncpu s" "t < NTHREAD" "usable p m s" "t_state (thr s p t) = RUNNABLE"
    and "ins t = (if k = CResume then Some m else None)"
  shows "\<exists>y l. implements p (s, ins) (c, t, m, k) y l"
proof -
  have at: "at_turn p c t m (s, ins)" using assms by (simp add: at_turn_def)
  show ?thesis
    using assms(6) lock_implements[OF at] unlock_implements[OF at] resume_implements[OF at] by (cases k) auto
qed

lemma quantum_step:
  assumes inv: "minv p x" and q: "quantum p e x = Some (y, i, t, k, r)"
  shows "minv p y \<and> enabled t k (mutex_abs p i x) \<and> fst (amut t k (mutex_abs p i x)) = r \<and>
    snd (amut t k (mutex_abs p i x)) = mutex_abs p i y \<and> (\<forall>j. j \<noteq> i \<longrightarrow> mutex_abs p j y = mutex_abs p j x)"
proof -
  obtain s ins where x: "x = (s, ins)" by (cases x)
  obtain c t' m k' where e: "e = (c, t', m, k')" by (cases e) auto
  have g: "c < ncpu s \<and> t' < NTHREAD \<and> usable p m s \<and> t_state (thr s p t') = RUNNABLE \<and>
         ins t' = (if k' = CResume then Some m else None)"
    using q x e by (auto split: if_splits)
  obtain y' l where im: "implements p x e y' l" using quantum_implements[of p s ins c t' m k'] inv g x e by auto
  then have "y' = y" "l = (i, t, k, r)" using q by (auto simp: implements_def)
  then show ?thesis using im e by (auto simp: implements_def)
qed

interpretation threads: mutex_system "quantum p" "mutex_abs p" "minv p" for p
proof unfold_locales
  show "aok (mutex_abs p i x)" if "minv p x" for p i and x :: "'a config"
    using that abs_aok[of p "fst x" "snd x" i] by simp
qed (use quantum_step in \<open>blast+\<close>)

text \<open>A thread whose call has returned is ready for its next call.\<close>

lemma quantum_again:
  assumes inv: "minv p (s, ins)" and q: "quantum p (c, t, m, k) (s, ins) = Some ((s', ins'), (m, t, k, Ret r))"
  shows "at_turn p c t m (s', ins') \<and> ins' t = None"
proof -
  have g: "at_turn p c t m (s, ins)" "ins t = (if k = CResume then Some m else None)"
    "turn c p t m k s = Some (s', Ret r)" "ins' t = None"
    using q inv by (auto simp: at_turn_def split: if_splits option.splits)
  note at' = at_turnD[OF g(1)]
  have "t_state (thr s' p t) = RUNNABLE \<and> kept c p s s' \<and> m_allocated (mutexes s' m) = m_allocated (mutexes s m)"
  proof (cases k)
    case CLock
    then show ?thesis
      using turn_lock[OF at'(2-8) at'(9,10,13)] g(3) at'(10) by (auto simp: core_def split: if_splits)
  next
    case CUnlock
    note u = turn_unlock[OF at'(2-8) at'(9,10)] g(3)[unfolded CUnlock]
    show ?thesis
    proof (cases "find (\<lambda>i. waits_for m (thr s p i)) (scan_order t)")
      case None
      then have "core (thr s' p t) = core (thr s p t)" "kept c p s s'"
        "m_allocated (mutexes s' m) = m_allocated (mutexes s m)" using u by (auto split: if_splits)
      then show ?thesis using at'(10) by (simp add: core_def)
    next
      case (Some i)
      then have "i \<noteq> t" using find_scan_order[OF at'(5), of "waiting p m s"] find_waits[OF at'(5), of m s p] by auto
      then have "core (thr s' p t) = core (thr s p t)" "kept c p s s'"
        "m_allocated (mutexes s' m) = m_allocated (mutexes s m)" using u Some by (auto split: if_splits)
      then show ?thesis using at'(10) by (simp add: core_def)
    qed
  next
    case CResume
    then show ?thesis using turn_resume[OF at'(2-8) at'(10,13), of m] g(3) at'(10) by (auto simp: core_def)
  qed
  moreover have "minv p (s', ins')" using quantum_step[OF inv q] by simp
  ultimately show ?thesis
    using usable_kept[of c p s s' m] at' g(4) by (auto simp: at_turn_def kept_def cpus_kept_def)
qed

text \<open>A process with four threads and one mutex of its own, which thread 0 may hold while thread 1 waits.\<close>

definition team_proc :: "bool \<Rightarrow> proc" where
  "team_proc w = first_proc\<lparr>p_state := RUNNABLE, pgdir := 0x80300000, mid := (\<lambda>_. False)(0 := True),
     threads := (\<lambda>t. if t < 4 then idle_thread\<lparr>t_state := (if w \<and> t = 1 then SLEEPING else RUNNABLE),
       tid := int t, t_myproc := Some 0, kstack := 0x80400000, blocked := (w \<and> t = 1),
       chan := (if w \<and> t = 1 then Some (ChMutex 0) else None)\<rparr> else idle_thread)\<rparr>"

definition team :: "bool \<Rightarrow> unit config" where
  "team w = (kernel.extend (demo_kernel\<lparr>procs := (\<lambda>_. unused_proc)(0 := team_proc w),
      mutexes := (\<lambda>_. \<lparr>m_locked = False, m_allocated = False, m_name = None, m_tid = 0\<rparr>)
        (0 := \<lparr>m_locked = w, m_allocated = True, m_name = Some 0, m_tid = (if w then 0 else - 1)\<rparr>)\<rparr>)
     \<lparr>kpgdir = 0x80500000, sym_data = 0x80108000\<rparr>, (\<lambda>_. None)(1 := (if w then Some 0 else None)))"

lemma team_fields:
  "procs (fst (team w)) = (\<lambda>_. unused_proc)(0 := team_proc w)"
  "mutexes (fst (team w)) = (\<lambda>_. \<lparr>m_locked = False, m_allocated = False, m_name = None, m_tid = 0\<rparr>)
        (0 := \<lparr>m_locked = w, m_allocated = True, m_name = Some 0, m_tid = (if w then 0 else - 1)\<rparr>)"
  "cpus (fst (team w)) = cpus demo_kernel" "ncpu (fst (team w)) = 2" "locks (fst (team w)) = locks demo_kernel"
  "snd (team w) = (\<lambda>_. None)(1 := (if w then Some 0 else None))"
  by (simp_all add: team_def kernel.defs)

lemma team_thr: "thr (fst (team w)) 0 t = threads (team_proc w) t"
  by (simp add: thr_def team_fields)

lemma team_minv: "minv 0 (team w)"
proof -
  have "idle (fst (team w))"
    using cpu_ok_demo_kernel by (auto simp: idle_def tables_free_def team_fields lock_free_def cpu_ok_def boot_lock_def)
  moreover have "thread_ok 0 (fst (team w)) (snd (team w)) t" for t
    by (auto simp: thread_ok_def team_fields team_thr team_proc_def idle_thread_def usable_def)
  moreover have "mutex_ok 0 (fst (team w)) m" for m
    by (auto simp: mutex_ok_def team_fields team_thr team_proc_def idle_thread_def usable_def
        first_proc_def unused_proc_def intro!: exI[of _ "0::nat"])
  ultimately have "minv 0 (fst (team w), snd (team w))"
    by (simp add: team_fields team_proc_def first_proc_def)
  then show ?thesis by simp
qed

lemma team_turn: "c < 2 \<Longrightarrow> at_turn 0 c 0 0 (team w)"
  using team_minv by (simp add: at_turn_def team_fields team_thr team_proc_def usable_def idle_thread_def)

lemma team_abs: "mutex_abs 0 0 (team False) = Free" "mutex_abs 0 0 (team True) = Held 0 {1}"
proof -
  have "mutex_abs 0 0 (fst (team False), snd (team False)) = Free" by (simp add: team_fields)
  then show "mutex_abs 0 0 (team False) = Free" by simp
  have "waiting 0 0 (fst (team True)) = {1}"
    by (auto simp: waiting_def waits_for_def team_thr team_proc_def idle_thread_def)
  then have "mutex_abs 0 0 (fst (team True), snd (team True)) = Held 0 {1}"
    by (simp add: team_fields usable_def team_proc_def)
  then show "mutex_abs 0 0 (team True) = Held 0 {1}" by simp
qed

text \<open>One step of a log, from the situation before it.\<close>

lemma call_step:
  assumes "at_turn p c t m (s, ins)" "ins t = None" "k \<noteq> CResume"
    and "amut t k (mutex_abs p m (s, ins)) = (Ret r, a)"
  obtains s' ins' where "quantum p (c, t, m, k) (s, ins) = Some ((s', ins'), (m, t, k, Ret r))"
    "at_turn p c t m (s', ins')" "ins' t = None" "mutex_abs p m (s', ins') = a"
proof -
  note at' = at_turnD[OF assms(1)]
  obtain y l where im: "implements p (s, ins) (c, t, m, k) y l"
    using quantum_implements[OF at'(1,3,5,9,10), of k] assms(2,3) by auto
  obtain s' ins' where y: "y = (s', ins')" by (cases y)
  have q: "quantum p (c, t, m, k) (s, ins) = Some ((s', ins'), (m, t, k, Ret r))" "mutex_abs p m (s', ins') = a"
    using im y assms(4) by (auto simp: implements_def simp del: mutex_abs.simps quantum.simps)
  have "at_turn p c t m (s', ins')" "ins' t = None" using quantum_again[OF at'(1) q(1)] by simp_all
  then show thesis by (rule that[OF q(1) _ _ q(2)])
qed

lemma team_log:
  "\<exists>y. run_log (quantum 0) [(0, 0, 0, CLock), (0, 0, 0, CUnlock), (0, 0, 0, CLock)] (team False) =
     Some (y, [(0, 0, CLock, Ret 0), (0, 0, CUnlock, Ret 0), (0, 0, CLock, Ret 0)])"
proof -
  have fr: "hand 0 {} = Free" using find_waiting[of 0 "{}"] by (simp add: hand_def)
  obtain s0 ins0 where x: "team False = (s0, ins0)" by (cases "team False")
  have i0: "ins0 0 = None" using team_fields(6)[of False] x by simp
  have a0: "at_turn 0 0 0 0 (s0, ins0)" using team_turn[of 0 False] x by simp
  have m0: "mutex_abs 0 0 (s0, ins0) = Free" using team_abs(1) x by simp
  obtain s1 ins1 where 1: "quantum 0 (0, 0, 0, CLock) (s0, ins0) = Some ((s1, ins1), (0, 0, CLock, Ret 0))"
    "at_turn 0 0 0 0 (s1, ins1)" "ins1 0 = None" "mutex_abs 0 0 (s1, ins1) = Held 0 {}"
    by (rule call_step[OF a0 i0, of CLock 0 "Held 0 {}"]) (simp_all add: m0 del: mutex_abs.simps quantum.simps)
  obtain s2 ins2 where 2: "quantum 0 (0, 0, 0, CUnlock) (s1, ins1) = Some ((s2, ins2), (0, 0, CUnlock, Ret 0))"
    "at_turn 0 0 0 0 (s2, ins2)" "ins2 0 = None" "mutex_abs 0 0 (s2, ins2) = Free"
    by (rule call_step[OF 1(2,3), of CUnlock 0 Free]) (simp_all add: 1(4) fr del: mutex_abs.simps quantum.simps)
  obtain s3 ins3 where 3: "quantum 0 (0, 0, 0, CLock) (s2, ins2) = Some ((s3, ins3), (0, 0, CLock, Ret 0))"
    by (rule call_step[OF 2(2,3), of CLock 0 "Held 0 {}"]) (simp_all add: 2(4) del: mutex_abs.simps quantum.simps)
  show ?thesis using 1(1) 2(1) 3 x by (simp del: quantum.simps)
qed

subsection \<open>Properties\<close>

text \<open>
  C1 (mutual exclusion of kernel thread mutexes). In every run of the threads of a process, on any
  CPUs and in any order of quanta: when \<open>kthread_mutex_lock\<close> on a mutex has returned 0 to thread
  \<open>t\<close> and later returns 0 to a thread again (at once or after sleeping), then \<open>kthread_mutex_unlock\<close>
  on that mutex has returned 0 to \<open>t\<close> in between.
\<close>

theorem mutex_exclusion:
  assumes "minv p x" and "run_log (quantum p) es x = Some (y, ls1 @ (i, t, k, Ret 0) # ls2 @ (i, u, k', Ret 0) # ls3)"
    and "k \<noteq> CUnlock" "k' \<noteq> CUnlock"
  shows "(i, t, CUnlock, Ret 0) \<in> set ls2"
  by (rule threads.run_exclusion[OF assms])

theorem mutex_exclusion_witness:
  "\<exists>y. run_log (quantum 0) [(0, 0, 0, CLock), (0, 0, 0, CUnlock), (0, 0, 0, CLock)] (team False) =
     Some (y, [] @ (0, 0, CLock, Ret 0) # [(0, 0, CUnlock, Ret 0)] @ (0, 0, CLock, Ret 0) # []) \<and>
     (0::nat, 0::nat, CUnlock, Ret 0) \<in> set [(0, 0, CUnlock, Ret 0)]"
proof -
  obtain y where y: "run_log (quantum 0) [(0, 0, 0, CLock), (0, 0, 0, CUnlock), (0, 0, 0, CLock)] (team False) =
     Some (y, [] @ (0, 0, CLock, Ret 0) # [(0, 0, CUnlock, Ret 0)] @ (0, 0, CLock, Ret 0) # [])"
    using team_log by auto
  from mutex_exclusion[OF team_minv y] y show ?thesis by blast
qed

text \<open>
  C22 (bounded waiting). A thread \<open>j\<close> that sleeps in \<open>kthread_mutex_lock\<close> while \<open>o'\<close> owns the mutex is
  overtaken a bounded number of times: as soon as the mutex has been unlocked as often as \<open>j\<close> comes
  after \<open>o'\<close> in the cyclic order of the thread slots, which is at most 15 times, \<open>j\<close> has owned it.
\<close>

theorem mutex_bounded_waiting:
  assumes inv: "minv p x" and run: "run_log (quantum p) es x = Some (y, ls)"
    and j: "j \<in> waiters (mutex_abs p i x)" "owner (mutex_abs p i x) = Some o'"
    and n: "ahead o' j \<le> length (filter is_release (log_of i ls))"
  shows "ahead o' j < NTHREAD \<and>
    (\<exists>l1 l2 b. log_of i ls = l1 @ l2 \<and> accepts l1 (mutex_abs p i x) = Some b \<and> owner b = Some j)"
proof -
  have ok: "aok (mutex_abs p i x)" using threads.abs_ok[OF inv] .
  then have "ahead o' j < NTHREAD" using j ahead_bounds[of o' j] by (cases "mutex_abs p i x") auto
  moreover have "accepts (log_of i ls) (mutex_abs p i x) = Some (mutex_abs p i y)"
    using threads.run_accepted[OF inv run] by blast
  ultimately show ?thesis using bounded_waiting[OF ok _ j n] by blast
qed

theorem mutex_bounded_waiting_witness:
  "\<exists>y. run_log (quantum 0) [(0, 0, 0, CUnlock)] (team True) = Some (y, [(0, 0, CUnlock, Ret 0)]) \<and>
     ahead 0 1 < NTHREAD \<and> (\<exists>l1 l2 b. log_of 0 [(0, 0, CUnlock, Ret 0)] = l1 @ l2 \<and>
       accepts l1 (mutex_abs 0 0 (team True)) = Some b \<and> owner b = Some 1)"
proof -
  obtain s ins where x: "team True = (s, ins)" by (cases "team True")
  have at: "at_turn 0 0 0 0 (s, ins)" "ins 0 = None" using team_turn[of 0 True] team_fields(6)[of True] x by auto
  have ab: "mutex_abs 0 0 (s, ins) = Held 0 {1}" using team_abs x by simp
  obtain s' ins' where q: "quantum 0 (0, 0, 0, CUnlock) (s, ins) = Some ((s', ins'), (0, 0, CUnlock, Ret 0))"
    by (rule call_step[OF at, of CUnlock 0 "hand 0 {1}"]) (simp_all add: ab del: mutex_abs.simps quantum.simps)
  have r: "run_log (quantum 0) [(0, 0, 0, CUnlock)] (team True) = Some ((s', ins'), [(0, 0, CUnlock, Ret 0)])"
    using q x by (simp del: quantum.simps)
  have "ahead 0 1 \<le> length (filter is_release (log_of 0 [(0, 0, CUnlock, Ret 0)]))"
    by (simp add: ahead_def is_release_def)
  from mutex_bounded_waiting[OF team_minv r _ _ this] r show ?thesis by (auto simp: team_abs)
qed

text \<open>
  C2 (the mutex calls implement the contract). In every consistent state, a runnable thread that makes
  a lock or unlock call on a mutex of its process, or that has been given the mutex it sleeps for, is
  dispatched, and its call returns or sleeps: no panic, no fault and no spinning. The reply and the new
  state of the mutex are those of the abstract hand-over mutex, no other mutex changes, and the
  state is consistent again.
\<close>

theorem mutex_calls_refine:
  assumes "minv p (s, ins)" "c < ncpu s" "t < NTHREAD" "usable p m s" "t_state (thr s p t) = RUNNABLE"
    and "ins t = (if k = CResume then Some m else None)"
  shows "\<exists>y r. quantum p (c, t, m, k) (s, ins) = Some (y, (m, t, k, r)) \<and> minv p y \<and>
    amut t k (mutex_abs p m (s, ins)) = (r, mutex_abs p m y) \<and>
    (\<forall>j. j \<noteq> m \<longrightarrow> mutex_abs p j y = mutex_abs p j (s, ins))"
proof -
  obtain y l where im: "implements p (s, ins) (c, t, m, k) y l" using quantum_implements[OF assms] by blast
  then obtain r where l: "l = (m, t, k, r)" by (cases l) (auto simp: implements_def)
  show ?thesis using im unfolding l implements_def by (intro exI[of _ y] exI[of _ r]) (simp add: prod_eq_iff del: mutex_abs.simps quantum.simps)
qed

theorem mutex_calls_refine_witness:
  "\<exists>y r. quantum 0 (1, 0, 0, CLock) (fst (team False), snd (team False)) = Some (y, (0, 0, CLock, r)) \<and> minv 0 y \<and>
    amut 0 CLock (mutex_abs 0 0 (fst (team False), snd (team False))) = (r, mutex_abs 0 0 y) \<and>
    (\<forall>j. j \<noteq> 0 \<longrightarrow> mutex_abs 0 j y = mutex_abs 0 j (fst (team False), snd (team False)))"
  by (rule mutex_calls_refine)
    (use team_minv[of False] team_turn[of 1 False] in
      \<open>simp_all add: at_turn_def team_fields(4) del: minv.simps\<close>, simp add: team_fields(6))

end
