(* ===== verification/Tournament.thy ===== *)
theory Tournament
  imports MutexSystem
begin

text \<open>
  The user-level tournament tree of \<open>tournament_tree.c\<close>, on top of the kernel's mutex calls.
  \<open>trnmnt_tree_alloc\<close> and \<open>trnmnt_tree_dealloc\<close>, which one thread runs, are translated call by call on
  the kernel state. The arguments \<open>m1\<close>, \<open>m2\<close> of \<open>trnmnt_tree_alloc\<close> say whether its two calls of
  \<open>malloc\<close> return memory, and \<open>junk\<close> is what the uninitialised field \<open>tid\<close> holds; \<open>free\<close> and \<open>printf\<close>
  are left out. The functions that many threads run at once are user programs, and the threads of a
  process that run them, over the quanta of \<open>MutexSystem\<close>, are the step relation \<open>tree_step\<close>. Its
  states are related to a protocol over the abstract mutexes of \<open>Handover\<close>.
\<close>

subsection \<open>The code\<close>

record trnmnt_tree =
  tt_depth :: int
  tt_tree :: "int list option"
  tt_size :: int
  tt_tid :: int

fun alloc_nodes :: "nat \<Rightarrow> nat \<Rightarrow> int list \<Rightarrow> 'a kernel_scheme \<Rightarrow> (int list \<times> bool, 'a kernel_scheme) res" where
  "alloc_nodes c 0 ids s = Ok (ids, True) s"
| "alloc_nodes c (Suc n) ids s =
     bnd (kthread_mutex_alloc c s) (\<lambda>r s. if r < 0 then Ok (ids, False) s else alloc_nodes c n (ids @ [r]) s)"

definition trnmnt_tree_alloc ::
    "nat \<Rightarrow> bool \<Rightarrow> bool \<Rightarrow> int \<Rightarrow> int \<Rightarrow> 'a kernel_scheme \<Rightarrow> (trnmnt_tree option, 'a kernel_scheme) res" where
  "trnmnt_tree_alloc c m1 m2 junk depth s =
     (if depth < 1 then Ok None s
      else if depth > 30 then Fault ''signed overflow''
      else if \<not> m1 then Fault ''null pointer''
      else if \<not> m2 then Fault ''null pointer''
      else let sz = 2 * 2 ^ nat (depth - 1) - 1 in
        bnd (alloc_nodes c (nat sz) [] s) (\<lambda>(ids, done) s.
        if done then Ok (Some \<lparr>tt_depth = depth, tt_tree = Some ids, tt_size = sz, tt_tid = junk\<rparr>) s
        else bnd (for_each ids (\<lambda>i s. bnd (kthread_mutex_dealloc c i s) (\<lambda>_ s. Ok () s)) s) (\<lambda>_ s.
          Ok None s)))"

fun dealloc_nodes :: "nat \<Rightarrow> int list \<Rightarrow> 'a kernel_scheme \<Rightarrow> (int, 'a kernel_scheme) res" where
  "dealloc_nodes c [] s = Ok 0 s"
| "dealloc_nodes c (i # ids) s =
     bnd (kthread_mutex_dealloc c i s) (\<lambda>r s. if r < 0 then Ok (- 1) s else dealloc_nodes c ids s)"

definition trnmnt_tree_dealloc ::
    "nat \<Rightarrow> trnmnt_tree option \<Rightarrow> 'a kernel_scheme \<Rightarrow> (int, 'a kernel_scheme) res" where
  "trnmnt_tree_dealloc c tr s =
     (case tr of None \<Rightarrow> Ok (- 1) s
      | Some T \<Rightarrow> (case tt_tree T of None \<Rightarrow> Ok (- 1) s | Some ids \<Rightarrow> dealloc_nodes c ids s))"

subsection \<open>User programs\<close>

text \<open>
  The four functions that many threads run at once are programs: what they do up to the next
  system call or the next store to the shared \<open>tree->tid\<close>, and how they go on with what the call
  returns. Reading \<open>tree->tree[i]\<close> outside the array is a fault.
\<close>

datatype 'r uprog = URet 'r | UCall mutex_call int "int \<Rightarrow> 'r uprog" | USetTid int "'r uprog" | UFault string

primrec ubind :: "'r uprog \<Rightarrow> ('r \<Rightarrow> 'q uprog) \<Rightarrow> 'q uprog" where
  "ubind (URet r) f = f r"
| "ubind (UCall k m g) f = UCall k m (\<lambda>r. ubind (g r) f)"
| "ubind (USetTid i q) f = USetTid i (ubind q f)"
| "ubind (UFault e) f = UFault e"

definition node_call :: "mutex_call \<Rightarrow> int list \<Rightarrow> nat \<Rightarrow> int uprog" where
  "node_call k ids i = (if i < length ids then UCall k (ids ! i) URet else UFault ''tree index'')"

fun trnmnt_tree_acquire_helper :: "int list \<Rightarrow> nat \<Rightarrow> int uprog" where
  "trnmnt_tree_acquire_helper ids i =
     (if i = 0 then node_call CLock ids 0
      else ubind (node_call CLock ids i) (\<lambda>r.
        if r < 0 then URet (- 1) else trnmnt_tree_acquire_helper ids ((i - 1) div 2)))"

definition trnmnt_tree_acquire :: "trnmnt_tree option \<Rightarrow> int \<Rightarrow> int uprog" where
  "trnmnt_tree_acquire tr ID =
     (case tr of None \<Rightarrow> URet (- 1)
      | Some T \<Rightarrow> (case tt_tree T of None \<Rightarrow> URet (- 1)
        | Some ids \<Rightarrow>
          if ID < 0 \<or> ID > 16 then URet (- 1)
          else ubind (trnmnt_tree_acquire_helper ids (nat ((tt_size T + ID - 1) div 2))) (\<lambda>ans.
            if ans \<ge> 0 then USetTid ID (URet ans) else URet (- 1))))"

fun trnmnt_tree_release_helper :: "int list \<Rightarrow> nat \<Rightarrow> int uprog" where
  "trnmnt_tree_release_helper ids i =
     (if i = 0 then node_call CUnlock ids 0
      else ubind (trnmnt_tree_release_helper ids ((i - 1) div 2)) (\<lambda>r.
        if r < 0 then URet (- 1) else node_call CUnlock ids i))"

definition trnmnt_tree_release :: "trnmnt_tree option \<Rightarrow> int \<Rightarrow> int uprog" where
  "trnmnt_tree_release tr ID =
     (case tr of None \<Rightarrow> UFault ''null pointer''
      | Some T \<Rightarrow> USetTid (- 1)
        (case tt_tree T of None \<Rightarrow> URet (- 1)
         | Some ids \<Rightarrow>
           if ID < 0 \<or> ID > 16 then URet (- 1)
           else trnmnt_tree_release_helper ids (nat ((tt_size T + ID - 1) div 2))))"

definition trnmnt_tree_tid :: "trnmnt_tree option \<Rightarrow> 's \<Rightarrow> (int, 's) res" where
  "trnmnt_tree_tid tr s = deref tr (\<lambda>T s. Ok (tt_tid T) s) s"

declare trnmnt_tree_acquire_helper.simps [simp del] trnmnt_tree_release_helper.simps [simp del]

subsection \<open>The path to the root\<close>

text \<open>The nodes from a leaf to the root, in the order the acquire helper locks them.\<close>

fun tt_path :: "nat \<Rightarrow> nat list" where
  "tt_path i = (if i = 0 then [0] else i # tt_path ((i - 1) div 2))"

declare tt_path.simps [simp del]

text \<open>The leaf of a thread number in a tree of depth \<open>d\<close>: two numbers share each node of the lowest level.\<close>

definition tt_leaf :: "nat \<Rightarrow> int \<Rightarrow> nat" where
  "tt_leaf d ID = 2 ^ (d - 1) - 1 + nat ID div 2"

lemma tt_path_not_Nil [simp]: "tt_path i \<noteq> []"
  by (subst tt_path.simps) simp

text \<open>What the helpers do: the locks along the path upwards, the unlocks along it downwards.\<close>

lemma acquire_helper_bind:
  "ubind (trnmnt_tree_acquire_helper ids i) f =
     (if i < length ids then UCall CLock (ids ! i) (\<lambda>r. if i = 0 then f r else if r < 0 then f (- 1)
        else ubind (trnmnt_tree_acquire_helper ids ((i - 1) div 2)) f)
      else UFault ''tree index'')"
  by (subst trnmnt_tree_acquire_helper.simps) (auto simp: node_call_def fun_eq_iff)

primrec rel_prog :: "int list \<Rightarrow> nat list \<Rightarrow> int uprog" where
  "rel_prog ids [] = URet 0"
| "rel_prog ids (i # is) =
     UCall CUnlock (ids ! i) (\<lambda>r. if is = [] then URet r else if r < 0 then URet (- 1) else rel_prog ids is)"

lemma rel_prog_snoc: "is \<noteq> [] \<Longrightarrow>
    ubind (rel_prog ids is) (\<lambda>r. if r < 0 then URet (- 1) else UCall CUnlock (ids ! i) URet) = rel_prog ids (is @ [i])"
  by (induction "is") (auto simp: fun_eq_iff)

lemma tt_path_le: "j \<in> set (tt_path i) \<Longrightarrow> j \<le> i"
proof (induction i rule: tt_path.induct)
  case (1 i)
  then show ?case by (subst (asm) (2) tt_path.simps) (fastforce split: if_splits)
qed

lemma tt_path_self [simp]: "i \<in> set (tt_path i)"
  by (subst tt_path.simps) simp

lemma tt_path_root: "0 \<in> set (tt_path i)"
proof (induction i rule: tt_path.induct)
  case (1 i)
  then show ?case by (subst tt_path.simps) simp
qed

text \<open>After node \<open>i\<close> of a path comes its parent: no other node of the path lies between them.\<close>

lemma tt_path_next:
  assumes "i \<in> set (tt_path l)" "j \<in> set (tt_path l)" "j < i"
  shows "j \<le> (i - 1) div 2 \<and> (i - 1) div 2 \<in> set (tt_path l)"
  using assms
proof (induction l rule: tt_path.induct)
  case (1 l)
  show ?case
  proof (cases "l = 0")
    case True
    then show ?thesis using 1(2-4) by (subst (asm) tt_path.simps) (auto simp: tt_path.simps)
  next
    case False
    have p: "set (tt_path l) = insert l (set (tt_path ((l - 1) div 2)))" by (subst tt_path.simps) (simp add: False)
    show ?thesis
    proof (cases "i = l")
      case True
      then show ?thesis using 1(3,4) p tt_path_le by auto
    next
      case False
      then have "i \<in> set (tt_path ((l - 1) div 2))" using 1(2) p by simp
      moreover have "j \<noteq> l" using 1(4) tt_path_le[OF \<open>i \<in> set (tt_path l)\<close>] by simp
      then have "j \<in> set (tt_path ((l - 1) div 2))" using 1(3) p by simp
      ultimately show ?thesis using 1(1)[OF \<open>l \<noteq> 0\<close>] 1(4) p by simp
    qed
  qed
qed

lemma tt_path_distinct: "distinct (tt_path i)"
proof (induction i rule: tt_path.induct)
  case (1 i)
  have "i \<notin> set (tt_path ((i - 1) div 2))" if "i \<noteq> 0" using tt_path_le[of i "(i - 1) div 2"] that by auto
  then show ?case using 1 by (subst tt_path.simps) simp
qed

lemma release_helper_eq:
  "i < length ids \<Longrightarrow> trnmnt_tree_release_helper ids i = rel_prog ids (rev (tt_path i))"
proof (induction i rule: tt_path.induct)
  case (1 i)
  show ?case
  proof (cases "i = 0")
    case True
    then show ?thesis using 1(2)
      by (subst trnmnt_tree_release_helper.simps, subst tt_path.simps) (simp add: node_call_def fun_eq_iff)
  next
    case False
    have "(i - 1) div 2 < length ids" using 1(2) by linarith
    from 1(1)[OF False this] show ?thesis
      using False 1(2) rel_prog_snoc[of "rev (tt_path ((i - 1) div 2))" ids i]
      by (subst trnmnt_tree_release_helper.simps, subst tt_path.simps) (simp add: node_call_def cong: if_cong)
  qed
qed

subsection \<open>The protocol\<close>

text \<open>
  The protocol of the tree, over abstract mutexes. Where a thread is: outside, about to lock node
  \<open>i\<close>, asleep in that lock call, in the critical section, or with nodes still to unlock. \<open>lf t\<close> is the
  node at which thread \<open>t\<close> starts. The lemmas say what each mutex call does to the invariant.
\<close>

datatype tt_pc = Out | Acq nat | Asleep nat | In | Rel "nat list"

record tt_sys =
  nodes :: "nat \<Rightarrow> amutex"
  pcs :: "nat \<Rightarrow> tt_pc"

definition locked_node :: "nat \<Rightarrow> tt_pc" where
  "locked_node i = (if i = 0 then In else Acq ((i - 1) div 2))"

definition put :: "nat \<Rightarrow> amutex \<Rightarrow> nat \<Rightarrow> tt_pc \<Rightarrow> tt_sys \<Rightarrow> tt_sys" where
  "put i a t pc x = x\<lparr>nodes := (nodes x)(i := a), pcs := (pcs x)(t := pc)\<rparr>"

text \<open>The nodes a thread has locked.\<close>

fun held_nodes :: "nat \<Rightarrow> tt_pc \<Rightarrow> nat set" where
  "held_nodes l Out = {}"
| "held_nodes l (Acq i) = {j \<in> set (tt_path l). i < j}"
| "held_nodes l (Asleep i) = {j \<in> set (tt_path l). i < j}"
| "held_nodes l In = set (tt_path l)"
| "held_nodes l (Rel is) = set is"

definition inside :: "nat \<Rightarrow> amutex \<Rightarrow> bool" where
  "inside t a \<longleftrightarrow> t \<in> waiters a \<or> (\<exists>w. a = Handed t w)"

definition tt_inv :: "(nat \<Rightarrow> nat) \<Rightarrow> tt_sys \<Rightarrow> bool" where
  "tt_inv lf x \<longleftrightarrow>
     (\<forall>i. aok (nodes x i)) \<and>
     (\<forall>t i. pcs x t \<in> {Acq i, Asleep i} \<longrightarrow> i \<in> set (tt_path (lf t))) \<and>
     (\<forall>t is. pcs x t = Rel is \<longrightarrow> is \<noteq> [] \<and> distinct is) \<and>
     (\<forall>t i. (\<exists>w. nodes x i = Held t w) \<longleftrightarrow> i \<in> held_nodes (lf t) (pcs x t)) \<and>
     (\<forall>t i. inside t (nodes x i) \<longleftrightarrow> pcs x t = Asleep i)"

lemma tt_invD:
  assumes "tt_inv lf x"
  shows "aok (nodes x i)" "pcs x t = Acq i \<Longrightarrow> i \<in> set (tt_path (lf t))"
    "pcs x t = Asleep i \<Longrightarrow> i \<in> set (tt_path (lf t))" "pcs x t = Rel is \<Longrightarrow> is \<noteq> [] \<and> distinct is"
    "(\<exists>w. nodes x i = Held t w) \<longleftrightarrow> i \<in> held_nodes (lf t) (pcs x t)" "inside t (nodes x i) \<longleftrightarrow> pcs x t = Asleep i"
  using assms unfolding tt_inv_def by blast+

lemma held_locked: "i \<in> set (tt_path l) \<Longrightarrow> held_nodes l (locked_node i) = insert i {j \<in> set (tt_path l). i < j}"
proof (cases "i = 0")
  case True
  then show ?thesis using tt_path_root by (auto simp: locked_node_def)
next
  case False
  assume i: "i \<in> set (tt_path l)"
  have "(i - 1) div 2 < j \<longleftrightarrow> j = i \<or> i < j" if "j \<in> set (tt_path l)" for j
  proof (cases "j < i")
    case True
    then show ?thesis using tt_path_next[OF i that] by linarith
  qed (use False in linarith)
  then show ?thesis using i False by (auto simp: locked_node_def)
qed

text \<open>
  The invariant after a step that changes node \<open>i\<close> to \<open>a\<close> and the place of thread \<open>t\<close> to \<open>pc\<close>: only
  thread \<open>t\<close> and node \<open>i\<close> have to be looked at.
\<close>

lemma tt_inv_put:
  assumes inv: "tt_inv lf x" and a: "aok a"
    and pc: "\<And>j. pc \<in> {Acq j, Asleep j} \<Longrightarrow> j \<in> set (tt_path (lf t))" "\<And>is. pc = Rel is \<Longrightarrow> is \<noteq> [] \<and> distinct is"
    and own: "\<And>u. u \<noteq> t \<Longrightarrow> (\<exists>w. a = Held u w) \<longleftrightarrow> (\<exists>w. nodes x i = Held u w)"
    and wait: "\<And>u. u \<noteq> t \<Longrightarrow> inside u a \<longleftrightarrow> inside u (nodes x i)"
    and me: "(\<exists>w. a = Held t w) \<longleftrightarrow> i \<in> held_nodes (lf t) pc" "inside t a \<longleftrightarrow> pc = Asleep i"
    and others: "\<And>j. j \<noteq> i \<Longrightarrow> j \<in> held_nodes (lf t) pc \<longleftrightarrow> j \<in> held_nodes (lf t) (pcs x t)"
      "\<And>j. j \<noteq> i \<Longrightarrow> pc \<noteq> Asleep j" "\<And>j. j \<noteq> i \<Longrightarrow> pcs x t \<noteq> Asleep j"
  shows "tt_inv lf (put i a t pc x)"
proof -
  note d = tt_invD[OF inv]
  have "(\<exists>w. nodes (put i a t pc x) j = Held u w) \<longleftrightarrow> j \<in> held_nodes (lf u) (pcs (put i a t pc x) u)" for u j
    using d(5)[of j u] own[of u] me(1) others(1)[of j] d(5)[of i u] by (cases "u = t"; cases "j = i") (auto simp: put_def)
  moreover have "inside u (nodes (put i a t pc x) j) \<longleftrightarrow> pcs (put i a t pc x) u = Asleep j" for u j
    using d(6)[of u j] wait[of u] me(2) others(2,3)[of j] by (cases "u = t"; cases "j = i") (auto simp: put_def)
  ultimately show ?thesis
    unfolding tt_inv_def using d(1-4) a pc by (auto simp: put_def)
qed


lemma locked_node_pc [simp]: "locked_node i \<noteq> Asleep j" "locked_node i \<noteq> Out" "locked_node i \<noteq> Rel is"
  by (simp_all add: locked_node_def)

lemma locked_node_path: "i \<in> set (tt_path l) \<Longrightarrow> locked_node i = Acq j \<Longrightarrow> j \<in> set (tt_path l)"
  using tt_path_next[of i l 0] tt_path_root[of l] by (auto simp: locked_node_def split: if_splits)

lemma tt_lock_inv:
  assumes inv: "tt_inv lf x" and t: "t < NTHREAD" "pcs x t = Acq i" and r: "amut t CLock (nodes x i) = (r, a)"
  shows "r \<in> {Ret 0, Sleeps}"
    and "tt_inv lf (put i a t (case r of Sleeps \<Rightarrow> Asleep i | Ret v \<Rightarrow> if v < 0 then Out else locked_node i) x)"
proof -
  note d = tt_invD[OF inv]
  have p: "i \<in> set (tt_path (lf t))" using d(2) t(2) by blast
  have n: "\<not> (\<exists>w. nodes x i = Held t w)" "\<not> inside t (nodes x i)" using d(5)[of i t] d(6)[of t i] t(2) by auto
  have en: "enabled t CLock (nodes x i)" using n t(1) by (auto simp: inside_def split: amutex.split)
  have ok: "aok a" using amut_ok[OF d(1) en] r by simp
  have "r \<in> {Ret 0, Sleeps} \<and>
    tt_inv lf (put i a t (case r of Sleeps \<Rightarrow> Asleep i | Ret v \<Rightarrow> if v < 0 then Out else locked_node i) x)"
  proof (cases "nodes x i")
    case Free
    then have a: "r = Ret 0" "a = Held t {}" using r by auto
    have "tt_inv lf (put i a t (locked_node i) x)"
      by (rule tt_inv_put[OF inv ok])
        (use a Free t p held_locked[OF p] locked_node_path[OF p] in \<open>auto simp: inside_def\<close>)
    then show ?thesis using a by simp
  next
    case (Held u w)
    then have a: "r = Sleeps" "a = Held u (insert t w)" "u \<noteq> t" using r n by auto
    have "tt_inv lf (put i a t (Asleep i) x)"
      by (rule tt_inv_put[OF inv ok]) (use a Held t p n in \<open>auto simp: inside_def\<close>)
    then show ?thesis using a by simp
  next
    case (Handed u w)
    then have a: "r = Sleeps" "a = Handed u (insert t w)" "u \<noteq> t" using r n by (auto simp: inside_def)
    have "tt_inv lf (put i a t (Asleep i) x)"
      by (rule tt_inv_put[OF inv ok]) (use a Handed t p n in \<open>auto simp: inside_def\<close>)
    then show ?thesis using a by simp
  qed
  then show "r \<in> {Ret 0, Sleeps}"
    and "tt_inv lf (put i a t (case r of Sleeps \<Rightarrow> Asleep i | Ret v \<Rightarrow> if v < 0 then Out else locked_node i) x)"
    by auto
qed

lemma tt_resume_inv:
  assumes inv: "tt_inv lf x" and t: "t < NTHREAD" "pcs x t = Asleep i" "enabled t CResume (nodes x i)"
    and r: "amut t CResume (nodes x i) = (Ret v, a)"
  shows "v = 0" and "tt_inv lf (put i a t (if v < 0 then Out else locked_node i) x)"
proof -
  note d = tt_invD[OF inv]
  have p: "i \<in> set (tt_path (lf t))" using d(3) t(2) by blast
  obtain w where w: "nodes x i = Handed t w" using t(3) by (auto split: amutex.splits)
  then have a: "v = 0" "a = Held t w" using r by auto
  have ok: "aok a" using d(1)[of i] w a by simp
  have "tt_inv lf (put i a t (locked_node i) x)"
    by (rule tt_inv_put[OF inv ok])
      (use a w t p held_locked[OF p] locked_node_path[OF p] d(1)[of i] in \<open>auto simp: inside_def\<close>)
  then show "v = 0" and "tt_inv lf (put i a t (if v < 0 then Out else locked_node i) x)" using a by simp_all
qed

lemma tt_unlock_inv:
  assumes inv: "tt_inv lf x" and t: "t < NTHREAD" "pcs x t = Rel (i # is)"
    and r: "amut t CUnlock (nodes x i) = (Ret v, a)"
  shows "v = 0" and "tt_inv lf (put i a t (if v < 0 \<or> is = [] then Out else Rel is) x)"
proof -
  note d = tt_invD[OF inv]
  obtain w where w: "nodes x i = Held t w" using d(5)[of i t] t(2) by auto
  then have a: "v = 0" "a = hand t w" using r by auto
  have wt: "t \<notin> w" "w \<subseteq> {..<NTHREAD}" using d(1)[of i] w by auto
  have ok: "aok a" using aok_hand[of t w] d(1)[of i] w a by simp
  have h: "a \<noteq> Held u w'" "u \<noteq> t \<Longrightarrow> inside u a \<longleftrightarrow> u \<in> w" "\<not> inside t a" for u w'
    using find_scan_order[OF t(1), of w] find_waiting[OF t(1) wt(2,1)] wt
    by (auto simp: a hand_def inside_def split: option.splits)
  have dis: "i \<notin> set is" "distinct is" using d(4)[OF t(2)] by auto
  have "tt_inv lf (put i a t (if is = [] then Out else Rel is) x)"
    by (rule tt_inv_put[OF inv ok]) (use h w t dis in \<open>auto simp: inside_def split: if_splits\<close>)
  then show "v = 0" and "tt_inv lf (put i a t (if v < 0 \<or> is = [] then Out else Rel is) x)" using a by simp_all
qed

lemma tt_pc_inv:
  assumes inv: "tt_inv lf x" and pc: "pcs x t = Out \<and> pc = Acq (lf t) \<or> pcs x t = In \<and> pc = Rel (rev (tt_path (lf t)))"
  shows "tt_inv lf (x\<lparr>pcs := (pcs x)(t := pc)\<rparr>)"
proof -
  note d = tt_invD[OF inv]
  have "held_nodes (lf t) pc = held_nodes (lf t) (pcs x t)" using pc tt_path_le by (auto simp: not_less[symmetric])
  then have "(\<exists>w. nodes x j = Held u w) \<longleftrightarrow> j \<in> held_nodes (lf u) (if u = t then pc else pcs x u)" for u j
    using d(5)[of j u] by simp
  moreover have "inside u (nodes x j) \<longleftrightarrow> (if u = t then pc else pcs x u) = Asleep j" for u j
    using d(6)[of u j] pc by (auto split: if_splits)
  ultimately show ?thesis unfolding tt_inv_def using d(1-4) pc tt_path_distinct by auto
qed


subsection \<open>Threads of a process at the tree\<close>

text \<open>
  The threads of process \<open>p\<close> share one tree. A thread is outside, inside \<open>trnmnt_tree_acquire\<close> with
  its thread number and the rest of the program, in the critical section, or inside
  \<open>trnmnt_tree_release\<close>. One step is one action of one thread: a call of \<open>trnmnt_tree_acquire\<close> with a
  number of \<open>I\<close>, a store to \<open>tree->tid\<close>, one quantum of the kernel with the mutex call the program
  is at (or with the lock call it sleeps in), a return, or the call of \<open>trnmnt_tree_release\<close> with
  the number the thread has acquired the tree with.
\<close>

datatype uthread = Outside | Acquiring int "int uprog" | Critical int | Releasing int "int uprog"

fun uprog_of :: "uthread \<Rightarrow> int uprog option" where
  "uprog_of (Acquiring ID q) = Some q"
| "uprog_of (Releasing ID q) = Some q"
| "uprog_of Outside = None"
| "uprog_of (Critical ID) = None"

fun upd_uprog :: "int uprog \<Rightarrow> uthread \<Rightarrow> uthread" where
  "upd_uprog q (Acquiring ID _) = Acquiring ID q"
| "upd_uprog q (Releasing ID _) = Releasing ID q"
| "upd_uprog q Outside = Outside"
| "upd_uprog q (Critical ID) = Critical ID"

record 'a world =
  w_conf :: "'a config"
  w_tree :: trnmnt_tree
  w_thr :: "nat \<Rightarrow> uthread"

definition set_thr :: "nat \<Rightarrow> uthread \<Rightarrow> 'a world \<Rightarrow> 'a world" where
  "set_thr t h w = w\<lparr>w_thr := (w_thr w)(t := h)\<rparr>"

inductive tree_step :: "nat \<Rightarrow> int set \<Rightarrow> nat \<Rightarrow> 'a world \<Rightarrow> 'a world \<Rightarrow> bool" for p I where
  enter: "t < NTHREAD \<Longrightarrow> w_thr w t = Outside \<Longrightarrow> t_state (thr (fst (w_conf w)) p t) = RUNNABLE \<Longrightarrow> ID \<in> I \<Longrightarrow>
    tree_step p I t w (set_thr t (Acquiring ID (trnmnt_tree_acquire (Some (w_tree w)) ID)) w)"
| set_tid: "uprog_of (w_thr w t) = Some (USetTid i q) \<Longrightarrow>
    tree_step p I t w (set_thr t (upd_uprog q (w_thr w t)) (w\<lparr>w_tree := (w_tree w)\<lparr>tt_tid := i\<rparr>\<rparr>))"
| call: "uprog_of (w_thr w t) = Some (UCall k m g) \<Longrightarrow> 0 \<le> m \<Longrightarrow>
    quantum p (c, t, nat m, if snd (w_conf w) t = None then k else CResume) (w_conf w) = Some (y, (m', t', k', r)) \<Longrightarrow>
    tree_step p I t w (set_thr t (case r of Ret v \<Rightarrow> upd_uprog (g v) (w_thr w t) | Sleeps \<Rightarrow> w_thr w t)
      (w\<lparr>w_conf := y\<rparr>))"
| acquired: "w_thr w t = Acquiring ID (URet v) \<Longrightarrow>
    tree_step p I t w (set_thr t (if v \<ge> 0 then Critical ID else Outside) w)"
| leave: "w_thr w t = Critical ID \<Longrightarrow>
    tree_step p I t w (set_thr t (Releasing ID (trnmnt_tree_release (Some (w_tree w)) ID)) w)"
| released: "w_thr w t = Releasing ID (URet v) \<Longrightarrow> tree_step p I t w (set_thr t Outside w)"

inductive_cases tree_stepE: "tree_step p I t w w'"

definition tree_run :: "nat \<Rightarrow> int set \<Rightarrow> 'a world \<Rightarrow> 'a world \<Rightarrow> bool" where
  "tree_run p I = (\<lambda>w w'. \<exists>t. tree_step p I t w w')\<^sup>*\<^sup>*"

text \<open>The thread numbers a tree of depth \<open>d\<close> has a leaf for, among those the calls accept.\<close>

definition tt_ids :: "nat \<Rightarrow> int set" where
  "tt_ids d = {ID. 0 \<le> ID \<and> ID < 2 ^ d \<and> ID \<le> 16}"

text \<open>The start: a tree as \<open>trnmnt_tree_alloc\<close> returns it, and no thread at it.\<close>

definition is_tree :: "nat \<Rightarrow> nat \<Rightarrow> int list \<Rightarrow> trnmnt_tree \<Rightarrow> 'a kernel_scheme \<Rightarrow> bool" where
  "is_tree p d ids T s \<longleftrightarrow> 1 \<le> d \<and> tt_tree T = Some ids \<and> tt_size T = int (length ids) \<and> length ids = 2 ^ d - 1 \<and>
     distinct ids \<and> (\<forall>i\<in>set ids. 0 \<le> i \<and> usable p (nat i) s)"

definition tree_start :: "nat \<Rightarrow> nat \<Rightarrow> 'a world \<Rightarrow> bool" where
  "tree_start p d w \<longleftrightarrow> minv p (w_conf w) \<and> 0 < ncpu (fst (w_conf w)) \<and> w_thr w = (\<lambda>_. Outside) \<and>
     snd (w_conf w) = (\<lambda>_. None) \<and> (\<exists>ids. is_tree p d ids (w_tree w) (fst (w_conf w)) \<and>
       (\<forall>i\<in>set ids. \<not> m_locked (mutexes (fst (w_conf w)) (nat i))))"

subsection \<open>The threads follow the protocol\<close>

text \<open>A thread that is not blocked on a mutex can be scheduled.\<close>

definition can_run :: "thread \<Rightarrow> bool" where
  "can_run x \<longleftrightarrow> blocked x \<or> t_state x = RUNNABLE"

lemma can_run_core: "core x = core y \<Longrightarrow> can_run x = can_run y"
  using core_state[of x y] by (simp add: can_run_def)

lemma turn_kept:
  assumes at: "at_turn p c t m (s, ins)" and q: "turn c p t m k s = Some (s', r)"
  obtains G where "kept c p s s'" "\<forall>j. m_allocated (mutexes s' j) = m_allocated (mutexes s j)"
    "\<forall>u. core (thr s' p u) = core (G u)" "\<forall>u. can_run (thr s p u) \<longrightarrow> can_run (G u)"
proof -
  note at' = at_turnD[OF at]
  show thesis
  proof (cases k)
    case CLock
    note tl = turn_lock[OF at'(2-8) at'(9,10,13)] q[unfolded CLock]
    show thesis
    proof (cases "m_tid (mutexes s m) \<noteq> tid (thr s p t) \<and> m_locked (mutexes s m)")
      case True
      let ?G = "\<lambda>u. if u = t then (thr s p t)\<lparr>blocked := True, chan := Some (ChMutex m), t_state := SLEEPING\<rparr> else thr s p u"
      show thesis by (rule that[where G = ?G]) (use tl True in \<open>auto simp: can_run_def\<close>)
    next
      case False
      show thesis by (rule that[where G = "thr s p"]) (use tl False in \<open>auto split: if_splits\<close>)
    qed
  next
    case CUnlock
    note tu = turn_unlock[OF at'(2-8) at'(9,10)] q[unfolded CUnlock]
    show thesis
    proof (cases "m_tid (mutexes s m) = tid (thr s p t) \<and> find (\<lambda>i. waits_for m (thr s p i)) (scan_order t) \<noteq> None")
      case True
      then obtain i where i: "find (\<lambda>i. waits_for m (thr s p i)) (scan_order t) = Some i" by auto
      let ?G = "\<lambda>u. if u = i then (thr s p i)\<lparr>chan := None, t_state := RUNNABLE, blocked := False\<rparr> else thr s p u"
      show thesis by (rule that[where G = ?G]) (use tu True i in \<open>auto simp: can_run_def\<close>)
    next
      case False
      show thesis by (rule that[where G = "thr s p"]) (use tu False in \<open>auto split: if_splits\<close>)
    qed
  next
    case CResume
    let ?G = "\<lambda>u. if u = t then (thr s p t)\<lparr>chan := None\<rparr> else thr s p u"
    show thesis
      by (rule that[where G = ?G]) (use turn_resume[OF at'(2-8) at'(10,13), of m] q[unfolded CResume] in \<open>auto simp: can_run_def\<close>)
  qed
qed

lemma quantum_frame:
  assumes inv: "minv p (s, ins)" and q: "quantum p (c, t, m, k) (s, ins) = Some ((s', ins'), (m', t', k', r))"
  shows "usable p j s' = usable p j s" "ncpu s' = ncpu s" "can_run (thr s p u) \<Longrightarrow> can_run (thr s' p u)"
    "ins' = ins(t := (if r = Sleeps then Some m else None))"
proof -
  have g: "at_turn p c t m (s, ins)" "turn c p t m k s = Some (s', r)"
    and i': "ins' = ins(t := (if r = Sleeps then Some m else None))"
    using q inv by (auto simp: at_turn_def split: if_splits option.splits)
  obtain G where G: "kept c p s s'" "\<forall>j. m_allocated (mutexes s' j) = m_allocated (mutexes s j)"
    "\<forall>u. core (thr s' p u) = core (G u)" "\<forall>u. can_run (thr s p u) \<longrightarrow> can_run (G u)"
    by (rule turn_kept[OF g])
  then show "usable p j s' = usable p j s" "ncpu s' = ncpu s" "can_run (thr s p u) \<Longrightarrow> can_run (thr s' p u)"
    using usable_kept[of c p s s' j] can_run_core[OF G(3)[rule_format, of u]] by (auto simp: kept_def cpus_kept_def)
  show "ins' = ins(t := (if r = Sleeps then Some m else None))" by (rule i')
qed

lemma leaf_index:
  assumes "1 \<le> d" "n = 2 ^ d - (1 :: nat)" "0 \<le> ID"
  shows "nat ((int n + ID - 1) div 2) = tt_leaf d ID"
proof -
  obtain e where e: "d = Suc e" using assms(1) by (cases d) auto
  obtain i where i: "ID = int i" using assms(3) nonneg_int_cases by blast
  have "int n + ID - 1 = 2 * (2 ^ e - 1) + int i" using assms(2) by (simp add: e i of_nat_diff)
  then have "(int n + ID - 1) div 2 = 2 ^ e - 1 + int i div 2" by simp
  moreover have "int (2 ^ e - 1) = 2 ^ e - 1" by (simp add: of_nat_diff)
  ultimately have "(int n + ID - 1) div 2 = int (2 ^ e - 1 + i div 2)" by (simp only: of_nat_add zdiv_int of_nat_numeral)
  then show ?thesis by (simp add: tt_leaf_def e i)
qed

lemma tt_leaf_less:
  assumes "1 \<le> d" "0 \<le> ID" "ID < 2 ^ d"
  shows "tt_leaf d ID < 2 ^ d - 1"
proof -
  obtain e where e: "d = Suc e" using assms(1) by (cases d) auto
  have "nat ID < 2 * 2 ^ e" using assms(2,3) by (simp add: e nat_less_iff)
  then have "nat ID div 2 < 2 ^ e" by linarith
  then show ?thesis by (simp add: tt_leaf_def e)
qed

lemma tt_path_bound: "j \<in> set (tt_path (tt_leaf d ID)) \<Longrightarrow> 1 \<le> d \<Longrightarrow> ID \<in> tt_ids d \<Longrightarrow> j < 2 ^ d - 1"
  using tt_path_le[of j "tt_leaf d ID"] tt_leaf_less[of d ID] by (auto simp: tt_ids_def)

definition acq_end :: "int \<Rightarrow> int \<Rightarrow> int uprog" where
  "acq_end ID ans = (if ans \<ge> 0 then USetTid ID (URet ans) else URet (- 1))"

lemma tree_progs:
  assumes T: "tt_tree T = Some ids" "tt_size T = int (length ids)" "length ids = 2 ^ d - 1" "1 \<le> d"
    and ID: "0 \<le> ID" "ID \<le> 16"
  shows "trnmnt_tree_acquire (Some T) ID = ubind (trnmnt_tree_acquire_helper ids (tt_leaf d ID)) (acq_end ID)"
    and "ID < 2 ^ d \<Longrightarrow> trnmnt_tree_release (Some T) ID = USetTid (- 1) (rel_prog ids (rev (tt_path (tt_leaf d ID))))"
proof -
  have l: "nat ((tt_size T + ID - 1) div 2) = tt_leaf d ID" using leaf_index[OF T(4,3) ID(1)] T(2) by simp
  show "trnmnt_tree_acquire (Some T) ID = ubind (trnmnt_tree_acquire_helper ids (tt_leaf d ID)) (acq_end ID)"
    using T ID l by (simp add: trnmnt_tree_acquire_def acq_end_def[abs_def])
  show "trnmnt_tree_release (Some T) ID = USetTid (- 1) (rel_prog ids (rev (tt_path (tt_leaf d ID))))" if "ID < 2 ^ d"
    using T ID l release_helper_eq[of "tt_leaf d ID" ids] tt_leaf_less[OF T(4) ID(1) that]
    by (simp add: trnmnt_tree_release_def)
qed

lemma tree_calls:
  assumes "is_tree p d ids T s" "ID \<in> tt_ids d"
  shows "trnmnt_tree_acquire (Some T) ID = ubind (trnmnt_tree_acquire_helper ids (tt_leaf d ID)) (acq_end ID)"
    and "trnmnt_tree_release (Some T) ID = USetTid (- 1) (rel_prog ids (rev (tt_path (tt_leaf d ID))))"
  using assms tree_progs[of T ids d ID] by (auto simp: is_tree_def tt_ids_def)

text \<open>The abstract mutex of each node, and the place in the protocol of a thread of the system.\<close>

definition abs_nodes :: "nat \<Rightarrow> int list \<Rightarrow> 'a config \<Rightarrow> nat \<Rightarrow> amutex" where
  "abs_nodes p ids x i = (if i < length ids then mutex_abs p (nat (ids ! i)) x else Free)"

fun at_pc :: "int list \<Rightarrow> nat option \<Rightarrow> nat \<Rightarrow> uthread \<Rightarrow> tt_pc \<Rightarrow> bool" where
  "at_pc ids n l Outside pc \<longleftrightarrow> n = None \<and> pc = Out"
| "at_pc ids n l (Acquiring ID q) pc \<longleftrightarrow>
     n = None \<and> pc = In \<and> q \<in> {USetTid ID (URet 0), URet 0} \<or>
     (\<exists>i. q = ubind (trnmnt_tree_acquire_helper ids i) (acq_end ID) \<and>
        (n = None \<and> pc = Acq i \<or> n = Some (nat (ids ! i)) \<and> pc = Asleep i))"
| "at_pc ids n l (Critical ID) pc \<longleftrightarrow> n = None \<and> pc = In"
| "at_pc ids n l (Releasing ID q) pc \<longleftrightarrow> n = None \<and>
     (pc = In \<and> q = USetTid (- 1) (rel_prog ids (rev (tt_path l))) \<or> pc = Out \<and> q = URet 0 \<or>
      (\<exists>is. pc = Rel is \<and> q = rel_prog ids is))"

fun id_of :: "uthread \<Rightarrow> int option" where
  "id_of Outside = None"
| "id_of (Acquiring ID q) = Some ID" | "id_of (Critical ID) = Some ID" | "id_of (Releasing ID q) = Some ID"

lemma id_of_upd [simp]: "id_of (upd_uprog q h) = id_of h"
  by (cases h) simp_all

definition thr_ok :: "nat \<Rightarrow> nat \<Rightarrow> (nat \<Rightarrow> nat) \<Rightarrow> int list \<Rightarrow> 'a config \<Rightarrow> tt_sys \<Rightarrow> nat \<Rightarrow> uthread \<Rightarrow> bool" where
  "thr_ok p d lf ids x z t h \<longleftrightarrow> at_pc ids (snd x t) (lf t) h (pcs z t) \<and>
     (\<forall>ID. id_of h = Some ID \<longrightarrow> ID \<in> tt_ids d \<and> lf t = tt_leaf d ID \<and> t < NTHREAD \<and> can_run (thr (fst x) p t))"

definition winv :: "nat \<Rightarrow> nat \<Rightarrow> int list \<Rightarrow> (nat \<Rightarrow> nat) \<Rightarrow> tt_sys \<Rightarrow> 'a world \<Rightarrow> bool" where
  "winv p d ids lf z w \<longleftrightarrow> minv p (w_conf w) \<and> 0 < ncpu (fst (w_conf w)) \<and>
     is_tree p d ids (w_tree w) (fst (w_conf w)) \<and> tt_inv lf z \<and> nodes z = abs_nodes p ids (w_conf w) \<and>
     (\<forall>t. thr_ok p d lf ids (w_conf w) z t (w_thr w t)) \<and>
     (\<forall>t ID. w_thr w t \<in> {Acquiring ID (URet 0), Critical ID} \<longrightarrow> tt_tid (w_tree w) = ID)"

lemma winvD:
  assumes "winv p d ids lf z w"
  shows "minv p (w_conf w)" "0 < ncpu (fst (w_conf w))" "is_tree p d ids (w_tree w) (fst (w_conf w))"
    "tt_inv lf z" "nodes z = abs_nodes p ids (w_conf w)" "thr_ok p d lf ids (w_conf w) z t (w_thr w t)"
    "w_thr w t \<in> {Acquiring ID (URet 0), Critical ID} \<Longrightarrow> tt_tid (w_tree w) = ID"
  using assms unfolding winv_def by blast+

text \<open>Two threads that have locked the root are the same.\<close>

lemma tt_inside_one: "tt_inv lf z \<Longrightarrow> pcs z t = In \<Longrightarrow> pcs z u = In \<Longrightarrow> t = u"
  using tt_invD(5)[of lf z 0 t] tt_invD(5)[of lf z 0 u] tt_path_root by auto

text \<open>One quantum on a node changes that node the way the contract says and no other node.\<close>

lemma quantum_node:
  assumes inv: "minv p x" and T: "is_tree p d ids T s" and i: "i < length ids"
    and q: "quantum p (c, t, nat (ids ! i), k) x = Some (y, (m', t', k', r))"
  shows "minv p y" "enabled t k (abs_nodes p ids x i)"
    "amut t k (abs_nodes p ids x i) = (r, snd (amut t k (abs_nodes p ids x i)))"
    "abs_nodes p ids y = (abs_nodes p ids x)(i := snd (amut t k (abs_nodes p ids x i)))"
proof -
  have e: "m' = nat (ids ! i)" "t' = t" "k' = k"
    using q by (cases x; auto split: if_splits option.splits)+
  note st = quantum_step[OF inv q, unfolded e]
  have dis: "nat (ids ! j) \<noteq> nat (ids ! i)" if "j < length ids" "j \<noteq> i" for j
  proof -
    have "0 \<le> ids ! j" "0 \<le> ids ! i" using T i that by (auto simp: is_tree_def)
    moreover have "ids ! j \<noteq> ids ! i" using T i that by (simp add: is_tree_def nth_eq_iff_index_eq)
    ultimately show ?thesis by (simp add: nat_eq_iff)
  qed
  show "minv p y" using st by simp
  show "enabled t k (abs_nodes p ids x i)" "amut t k (abs_nodes p ids x i) = (r, snd (amut t k (abs_nodes p ids x i)))"
    using st i by (simp_all add: abs_nodes_def prod_eq_iff)
  show "abs_nodes p ids y = (abs_nodes p ids x)(i := snd (amut t k (abs_nodes p ids x i)))"
    using st i dis by (auto simp: abs_nodes_def fun_eq_iff)
qed

text \<open>Where a thread inside one of the two calls can be.\<close>

definition acq_next :: "int list \<Rightarrow> int \<Rightarrow> nat \<Rightarrow> int \<Rightarrow> int uprog" where
  "acq_next ids ID i r = (if i = 0 then acq_end ID r else if r < 0 then acq_end ID (- 1)
     else ubind (trnmnt_tree_acquire_helper ids ((i - 1) div 2)) (acq_end ID))"

lemma acquiring_cases:
  assumes inv: "winv p d ids lf z w" and t: "w_thr w t = Acquiring ID q"
  obtains (has) "snd (w_conf w) t = None" "pcs z t = In" "q = USetTid ID (URet 0) \<or> q = URet 0"
  | (locks) i where "i < length ids" "q = UCall CLock (ids ! i) (acq_next ids ID i)"
      "q = ubind (trnmnt_tree_acquire_helper ids i) (acq_end ID)"
      "snd (w_conf w) t = None \<and> pcs z t = Acq i \<or> snd (w_conf w) t = Some (nat (ids ! i)) \<and> pcs z t = Asleep i"
proof -
  note d = winvD[OF inv]
  have ok: "at_pc ids (snd (w_conf w) t) (lf t) (Acquiring ID q) (pcs z t)" "ID \<in> tt_ids d" "lf t = tt_leaf d ID"
    using d(6)[of t] t by (auto simp: thr_ok_def)
  have len: "length ids = 2 ^ d - 1" "1 \<le> d" using d(3) by (auto simp: is_tree_def)
  have "i < length ids" if "pcs z t = Acq i \<or> pcs z t = Asleep i" for i
    using tt_invD(2,3)[OF d(4), of t i] that ok(2,3) tt_path_bound[of i d ID] len by auto
  then show thesis
    using ok(1) has locks acquire_helper_bind[of ids _ "acq_end ID"]
    by (auto simp: acq_next_def[abs_def])
qed

lemma releasing_cases:
  assumes inv: "winv p d ids lf z w" and t: "w_thr w t = Releasing ID q"
  obtains (starts) "pcs z t = In" "q = USetTid (- 1) (rel_prog ids (rev (tt_path (lf t))))"
  | (finished) "pcs z t = Out" "q = URet 0"
  | (unlocks) i "is" where "pcs z t = Rel (i # is)" "i < length ids" "q = rel_prog ids (i # is)"
proof -
  note d = winvD[OF inv]
  have "at_pc ids (snd (w_conf w) t) (lf t) (Releasing ID q) (pcs z t)"
    using d(6)[of t] unfolding thr_ok_def t by blast
  then consider "pcs z t = In" "q = USetTid (- 1) (rel_prog ids (rev (tt_path (lf t))))" | "pcs z t = Out" "q = URet 0"
    | "is" where "pcs z t = Rel is" "q = rel_prog ids is" by auto
  then show thesis
  proof cases
    case (3 "is")
    then obtain i is' where i: "is = i # is'" using tt_invD(4)[OF d(4) 3(1)] by (cases "is") auto
    then have "nodes z i \<noteq> Free" using tt_invD(5)[OF d(4), of i t] 3(1) by auto
    then have "i < length ids" using d(5) by (auto simp: abs_nodes_def split: if_splits)
    then show thesis using unlocks 3 i by blast
  qed (use starts finished in auto)
qed

lemma outside_out: "winv p d ids lf z w \<Longrightarrow> w_thr w t = Outside \<Longrightarrow> pcs z t = Out \<and> snd (w_conf w) t = None"
  using winvD(6)[of p d ids lf z w t] by (simp add: thr_ok_def)

lemma critical_in: "winv p d ids lf z w \<Longrightarrow> w_thr w t = Critical ID \<Longrightarrow> pcs z t = In \<and> snd (w_conf w) t = None"
  using winvD(6)[of p d ids lf z w t] by (simp add: thr_ok_def)

text \<open>A step of thread \<open>t\<close> keeps the invariant when it keeps the protocol's and puts \<open>t\<close> in a place that fits.\<close>

lemma winv_move:
  assumes inv: "winv p d ids lf z w" and z: "tt_inv lf z'" "nodes z' = abs_nodes p ids y" "pcs z' = (pcs z)(t := pc)"
    and y: "minv p y" "0 < ncpu (fst y)" "\<And>j. usable p j (fst y) = usable p j (fst (w_conf w))"
      "\<And>u. u \<noteq> t \<Longrightarrow> snd y u = snd (w_conf w) u"
      "\<And>u. can_run (thr (fst (w_conf w)) p u) \<Longrightarrow> can_run (thr (fst y) p u)"
    and h: "at_pc ids (snd y t) (lf t) h pc" "h = Outside \<or> id_of h = id_of (w_thr w t)"
    and tid: "\<And>u ID. u \<noteq> t \<Longrightarrow> w_thr w u \<in> {Acquiring ID (URet 0), Critical ID} \<Longrightarrow> i = ID"
      "\<And>ID. h \<in> {Acquiring ID (URet 0), Critical ID} \<Longrightarrow> i = ID"
  shows "winv p d ids lf z' (set_thr t h (w\<lparr>w_conf := y, w_tree := (w_tree w)\<lparr>tt_tid := i\<rparr>\<rparr>))"
proof -
  note d = winvD[OF inv]
  have "thr_ok p d lf ids y z' u (if u = t then h else w_thr w u)" for u
    using d(6)[of u] y(4)[of u] y(5)[of u] h z(3) by (auto simp: thr_ok_def)
  moreover have "is_tree p d ids ((w_tree w)\<lparr>tt_tid := i\<rparr>) (fst y)" using d(3) y(3) by (simp add: is_tree_def)
  moreover have "i = ID" if "(if u = t then h else w_thr w u) \<in> {Acquiring ID (URet 0), Critical ID}" for u ID
    using that tid by (cases "u = t") auto
  ultimately show ?thesis using z(1,2) y(1,2) by (auto simp: winv_def set_thr_def split: if_splits)
qed

text \<open>A step that neither calls the kernel nor stores to the tree.\<close>

lemma winv_local:
  assumes inv: "winv p d ids lf z w"
    and h: "at_pc ids (snd (w_conf w) t) (lf t) h (pcs z t)" "h = Outside \<or> id_of h = id_of (w_thr w t)"
    and tid: "\<And>ID. h \<in> {Acquiring ID (URet 0), Critical ID} \<Longrightarrow> tt_tid (w_tree w) = ID"
  shows "winv p d ids lf z (set_thr t h w)"
proof -
  note d = winvD[OF inv]
  have "winv p d ids lf z (set_thr t h (w\<lparr>w_conf := w_conf w, w_tree := (w_tree w)\<lparr>tt_tid := tt_tid (w_tree w)\<rparr>\<rparr>))"
    by (rule winv_move[OF inv d(4,5), where pc = "pcs z t"]) (use d h tid in auto)
  then show ?thesis by (simp add: set_thr_def)
qed

lemma tt_inv_leaf:
  assumes inv: "tt_inv lf z" and o: "pcs z t = Out"
  shows "tt_inv (lf(t := l)) z"
proof -
  note d = tt_invD[OF inv]
  have "held_nodes ((lf(t := l)) u) (pcs z u) = held_nodes (lf u) (pcs z u)" for u using o by simp
  moreover have "pcs z u = Acq j \<or> pcs z u = Asleep j \<Longrightarrow> j \<in> set (tt_path ((lf(t := l)) u))" for u j
    using d(2,3)[of u j] o by (cases "u = t") auto
  ultimately show ?thesis unfolding tt_inv_def using d(1,4,5,6) by auto
qed

lemma winv_enter:
  assumes inv: "winv p d ids lf z w" and t: "t < NTHREAD" "w_thr w t = Outside"
    "t_state (thr (fst (w_conf w)) p t) = RUNNABLE" and ID: "ID \<in> tt_ids d"
  shows "\<exists>lf z. winv p d ids lf z (set_thr t (Acquiring ID (trnmnt_tree_acquire (Some (w_tree w)) ID)) w)"
proof -
  note d = winvD[OF inv]
  let ?lf = "lf(t := tt_leaf d ID)" and ?z = "z\<lparr>pcs := (pcs z)(t := Acq (tt_leaf d ID))\<rparr>"
  let ?h = "Acquiring ID (ubind (trnmnt_tree_acquire_helper ids (tt_leaf d ID)) (acq_end ID))"
  have o: "pcs z t = Out" "snd (w_conf w) t = None" using outside_out[OF inv t(2)] by auto
  have z: "tt_inv ?lf ?z" using tt_pc_inv[OF tt_inv_leaf[OF d(4) o(1)], of t "Acq (tt_leaf d ID)" "tt_leaf d ID"] o(1) by simp
  have ok: "thr_ok p d ?lf ids (w_conf w) ?z u (if u = t then ?h else w_thr w u)" for u
    using d(6)[of u] t o ID by (auto simp: thr_ok_def can_run_def)
  have tid: "tt_tid (w_tree w) = i" if u: "(if u = t then ?h else w_thr w u) \<in> {Acquiring i (URet 0), Critical i}" for u i
  proof -
    have "tt_leaf d ID < length ids" using d(3) ID tt_leaf_less[of d ID] by (auto simp: is_tree_def tt_ids_def)
    then have "?h \<notin> {Acquiring i (URet 0), Critical i}" by (simp add: acquire_helper_bind)
    then have "w_thr w u \<in> {Acquiring i (URet 0), Critical i}" using u by (cases "u = t") (simp_all only: if_True if_False simp_thms)
    then show ?thesis by (rule d(7))
  qed
  have thr: "w_thr (set_thr t ?h w) u = (if u = t then ?h else w_thr w u)" for u by (simp add: set_thr_def)
  have "winv p d ids ?lf ?z (set_thr t ?h w)"
    unfolding winv_def thr using d(1-3,5) z ok tid by (simp add: set_thr_def del: insert_iff)
  then show ?thesis using tree_calls(1)[OF d(3) ID] by auto
qed

text \<open>A quantum on node \<open>i\<close>.\<close>

lemma winv_quantum:
  assumes inv: "winv p d ids lf z w" and i: "i < length ids"
    and q: "quantum p (c, t, nat (ids ! i), k) (w_conf w) = Some (y, (m', t', k', r))"
    and a: "amut t k (nodes z i) = (r, a)" and z: "tt_inv lf (put i a t pc z)"
    and h: "at_pc ids (if r = Sleeps then Some (nat (ids ! i)) else None) (lf t) h pc" "id_of h = id_of (w_thr w t)"
      "\<And>ID. h \<noteq> Acquiring ID (URet 0) \<and> h \<noteq> Critical ID"
  shows "winv p d ids lf (put i a t pc z) (set_thr t h (w\<lparr>w_conf := y\<rparr>))"
proof -
  note d = winvD[OF inv]
  obtain s ins s' ins' where x: "w_conf w = (s, ins)" "y = (s', ins')" by (cases "w_conf w"; cases y)
  note qn = quantum_node[OF d(1,3) i q] and qf = quantum_frame[OF d(1)[unfolded x] q[unfolded x]]
  have "winv p d ids lf (put i a t pc z)
    (set_thr t h (w\<lparr>w_conf := y, w_tree := (w_tree w)\<lparr>tt_tid := tt_tid (w_tree w)\<rparr>\<rparr>))"
  proof (rule winv_move[OF inv z])
    show "nodes (put i a t pc z) = abs_nodes p ids y" using qn(4) a d(5) by (simp add: put_def)
    show "pcs (put i a t pc z) = (pcs z)(t := pc)" by (simp add: put_def)
    show "at_pc ids (snd y t) (lf t) h pc" using h(1) qf(4) x by simp
    show "h = Outside \<or> id_of h = id_of (w_thr w t)" using h(2) by simp
    show "tt_tid (w_tree w) = ID" if "w_thr w u \<in> {Acquiring ID (URet 0), Critical ID}" for u ID by (rule d(7)[OF that])
  qed (use qn(1) qf x d(2) h(3) in auto)
  then show ?thesis by (simp add: set_thr_def)
qed

lemma acquiring_call:
  assumes inv: "winv p d ids lf z w" and h: "w_thr w t = Acquiring ID (UCall k m g)"
  shows "\<exists>i. i < length ids \<and> k = CLock \<and> m = ids ! i \<and> g = acq_next ids ID i \<and>
    UCall k m g = ubind (trnmnt_tree_acquire_helper ids i) (acq_end ID) \<and>
    (snd (w_conf w) t = None \<and> pcs z t = Acq i \<or> snd (w_conf w) t = Some (nat (ids ! i)) \<and> pcs z t = Asleep i)"
proof (rule acquiring_cases[OF inv h])
  fix i
  assume i: "i < length ids" "UCall k m g = UCall CLock (ids ! i) (acq_next ids ID i)"
    "UCall k m g = ubind (trnmnt_tree_acquire_helper ids i) (acq_end ID)"
    "snd (w_conf w) t = None \<and> pcs z t = Acq i \<or> snd (w_conf w) t = Some (nat (ids ! i)) \<and> pcs z t = Asleep i"
  then have "k = CLock" "m = ids ! i" "g = acq_next ids ID i" by (simp_all only: uprog.inject)
  then show ?thesis using i(1,3,4) by (intro exI[of _ i]) blast
next
  assume "UCall k m g = USetTid ID (URet 0) \<or> UCall k m g = URet 0"
  then show ?thesis by simp
qed

lemma winv_call_acquire:
  assumes inv: "winv p d ids lf z w" and h: "w_thr w t = Acquiring ID (UCall k m g)"
    and q: "quantum p (c, t, nat m, if snd (w_conf w) t = None then k else CResume) (w_conf w) = Some (y, (m', t', k', r))"
  shows "\<exists>z'. winv p d ids lf z' (set_thr t (case r of Ret v \<Rightarrow> Acquiring ID (g v) | Sleeps \<Rightarrow> w_thr w t)
    (w\<lparr>w_conf := y\<rparr>))"
proof -
  note d = winvD[OF inv]
  obtain i where i: "i < length ids" "k = CLock" "m = ids ! i" "g = acq_next ids ID i"
    "UCall k m g = ubind (trnmnt_tree_acquire_helper ids i) (acq_end ID)"
    "snd (w_conf w) t = None \<and> pcs z t = Acq i \<or> snd (w_conf w) t = Some (nat (ids ! i)) \<and> pcs z t = Asleep i"
    using acquiring_call[OF inv h] by blast
  have tN: "t < NTHREAD" using d(6)[of t] h by (simp add: thr_ok_def)
  have nx: "at_pc ids None (lf t) (Acquiring ID (acq_next ids ID i 0)) (locked_node i)"
    "acq_next ids ID i 0 \<noteq> URet 0"
    using i(1) by (auto simp: acq_next_def acq_end_def locked_node_def acquire_helper_bind)
  show ?thesis
  proof (cases "snd (w_conf w) t = None")
    case True
    then have pc: "pcs z t = Acq i" using i(6) by auto
    have q': "quantum p (c, t, nat (ids ! i), CLock) (w_conf w) = Some (y, (m', t', k', r))" using q True i(2,3) by simp
    obtain a where a: "amut t CLock (nodes z i) = (r, a)" using quantum_node(3)[OF d(1,3) i(1) q'] d(5) by metis
    note li = tt_lock_inv[OF d(4) tN pc a]
    from li(1) consider "r = Ret 0" | "r = Sleeps" by auto
    then show ?thesis
    proof cases
      case 1
      have "winv p d ids lf (put i a t (locked_node i) z) (set_thr t (Acquiring ID (g 0)) (w\<lparr>w_conf := y\<rparr>))"
        by (rule winv_quantum[OF inv i(1) q' a]) (use li(2) 1 nx i(4) h in \<open>simp_all del: at_pc.simps\<close>)
      then show ?thesis using 1 by auto
    next
      case 2
      have "at_pc ids (Some (nat (ids ! i))) (lf t) (w_thr w t) (Asleep i)" unfolding h i(5) by auto
      then have "winv p d ids lf (put i a t (Asleep i) z) (set_thr t (w_thr w t) (w\<lparr>w_conf := y\<rparr>))"
        by (intro winv_quantum[OF inv i(1) q' a]) (use li(2) 2 h in \<open>simp_all del: at_pc.simps\<close>)
      then show ?thesis using 2 by auto
    qed
  next
    case False
    then have pc: "pcs z t = Asleep i" using i(6) by auto
    have q': "quantum p (c, t, nat (ids ! i), CResume) (w_conf w) = Some (y, (m', t', k', r))" using q False i(3) by simp
    note qn = quantum_node[OF d(1,3) i(1) q', folded d(5)]
    obtain v a where a: "amut t CResume (nodes z i) = (Ret v, a)" "r = Ret v"
      using qn(2,3) by (cases "nodes z i") auto
    note ri = tt_resume_inv[OF d(4) tN pc qn(2) a(1)]
    have "winv p d ids lf (put i a t (locked_node i) z) (set_thr t (Acquiring ID (g 0)) (w\<lparr>w_conf := y\<rparr>))"
      by (rule winv_quantum[OF inv i(1) q' a(1)[folded a(2)]]) (use ri a(2) nx i(4) h in \<open>simp_all del: at_pc.simps\<close>)
    then show ?thesis using a(2) ri(1) by auto
  qed
qed

lemma releasing_awake: "winv p d ids lf z w \<Longrightarrow> w_thr w t = Releasing ID q \<Longrightarrow> snd (w_conf w) t = None"
  using winvD(6)[of p d ids lf z w t] by (simp add: thr_ok_def)

lemma releasing_call:
  assumes inv: "winv p d ids lf z w" and h: "w_thr w t = Releasing ID (UCall k m g)"
  shows "\<exists>i is. i < length ids \<and> pcs z t = Rel (i # is) \<and> k = CUnlock \<and> m = ids ! i \<and>
    g 0 = (if is = [] then URet 0 else rel_prog ids is)"
proof (rule releasing_cases[OF inv h])
  fix i "is"
  assume "pcs z t = Rel (i # is)" "i < length ids" "UCall k m g = rel_prog ids (i # is)"
  then show ?thesis by (intro exI[of _ i] exI[of _ "is"]) simp
qed simp_all

lemma winv_call_release:
  assumes inv: "winv p d ids lf z w" and h: "w_thr w t = Releasing ID (UCall k m g)"
    and q: "quantum p (c, t, nat m, if snd (w_conf w) t = None then k else CResume) (w_conf w) = Some (y, (m', t', k', r))"
  shows "\<exists>z'. winv p d ids lf z' (set_thr t (case r of Ret v \<Rightarrow> Releasing ID (g v) | Sleeps \<Rightarrow> w_thr w t)
    (w\<lparr>w_conf := y\<rparr>))"
proof -
  note d = winvD[OF inv]
  obtain i "is" where i: "i < length ids" "pcs z t = Rel (i # is)" "k = CUnlock" "m = ids ! i"
    "g 0 = (if is = [] then URet 0 else rel_prog ids is)" using releasing_call[OF inv h] by blast
  have tN: "t < NTHREAD" using d(6)[of t] h by (simp add: thr_ok_def)
  have q': "quantum p (c, t, nat (ids ! i), CUnlock) (w_conf w) = Some (y, (m', t', k', r))"
    using q releasing_awake[OF inv h] i(3,4) by simp
  obtain v a where a: "amut t CUnlock (nodes z i) = (Ret v, a)" "r = Ret v"
    using quantum_node(3)[OF d(1,3) i(1) q', folded d(5)] by (cases "nodes z i") (auto split: if_splits)
  note ui = tt_unlock_inv[OF d(4) tN i(2) a(1)]
  have "winv p d ids lf (put i a t (if is = [] then Out else Rel is) z) (set_thr t (Releasing ID (g 0)) (w\<lparr>w_conf := y\<rparr>))"
    by (rule winv_quantum[OF inv i(1) q' a(1)[folded a(2)]]) (use ui a(2) i(5) h in auto)
  then show ?thesis using a(2) ui(1) by auto
qed

lemma inside_in:
  assumes inv: "winv p d ids lf z w" and u: "w_thr w u \<in> {Acquiring ID (URet v), Critical ID}"
  shows "pcs z u = In \<and> (w_thr w u = Acquiring ID (URet v) \<longrightarrow> v = 0)"
proof (cases "w_thr w u = Critical ID")
  case True
  then show ?thesis using critical_in[OF inv] by simp
next
  case False
  then have h: "w_thr w u = Acquiring ID (URet v)" using u by simp
  show ?thesis by (rule acquiring_cases[OF inv h]) auto
qed

lemma winv_store:
  assumes inv: "winv p d ids lf z w" and z: "tt_inv lf z'" "nodes z' = nodes z" "pcs z' = (pcs z)(t := pc)"
    and "pcs z t = In" "at_pc ids (snd (w_conf w) t) (lf t) h pc" "id_of h = id_of (w_thr w t)"
    and "\<And>ID. h \<in> {Acquiring ID (URet 0), Critical ID} \<Longrightarrow> i = ID"
  shows "winv p d ids lf z' (set_thr t h (w\<lparr>w_tree := (w_tree w)\<lparr>tt_tid := i\<rparr>\<rparr>))"
proof -
  note d = winvD[OF inv]
  have "u = t" if "w_thr w u \<in> {Acquiring ID (URet 0), Critical ID}" for u ID
    using tt_inside_one[OF d(4)] inside_in[OF inv that] assms(5) by blast
  then have "winv p d ids lf z' (set_thr t h (w\<lparr>w_conf := w_conf w, w_tree := (w_tree w)\<lparr>tt_tid := i\<rparr>\<rparr>))"
    using assms d(5) by (intro winv_move[OF inv z(1) _ z(3) d(1,2)]) auto
  then show ?thesis by (simp add: set_thr_def)
qed

lemma winv_set_tid:
  assumes inv: "winv p d ids lf z w" and h: "uprog_of (w_thr w t) = Some (USetTid i q)"
  shows "\<exists>z'. winv p d ids lf z' (set_thr t (upd_uprog q (w_thr w t)) (w\<lparr>w_tree := (w_tree w)\<lparr>tt_tid := i\<rparr>\<rparr>))"
proof -
  note d = winvD[OF inv]
  from h consider ID where "w_thr w t = Acquiring ID (USetTid i q)" | ID where "w_thr w t = Releasing ID (USetTid i q)"
    by (cases "w_thr w t") auto
  then show ?thesis
  proof cases
    case (1 ID)
    have "snd (w_conf w) t = None \<and> pcs z t = In \<and> i = ID \<and> q = URet 0"
      by (rule acquiring_cases[OF inv 1]) auto
    then have "winv p d ids lf z (set_thr t (Acquiring ID (URet 0)) (w\<lparr>w_tree := (w_tree w)\<lparr>tt_tid := i\<rparr>\<rparr>))"
      using 1 by (intro winv_store[OF inv d(4), where pc = In]) auto
    then show ?thesis using 1 \<open>_ \<and> _ \<and> _ \<and> q = URet 0\<close> by auto
  next
    case (2 ID)
    have e: "pcs z t = In \<and> i = - 1 \<and> q = rel_prog ids (rev (tt_path (lf t)))"
      by (rule releasing_cases[OF inv 2]) auto
    let ?z = "z\<lparr>pcs := (pcs z)(t := Rel (rev (tt_path (lf t))))\<rparr>"
    have "tt_inv lf ?z" using tt_pc_inv[OF d(4), of t "Rel (rev (tt_path (lf t)))"] e by simp
    then have "winv p d ids lf ?z (set_thr t (Releasing ID q) (w\<lparr>w_tree := (w_tree w)\<lparr>tt_tid := i\<rparr>\<rparr>))"
      using 2 e releasing_awake[OF inv 2] by (intro winv_store[OF inv, where pc = "Rel (rev (tt_path (lf t)))"]) auto
    then show ?thesis using 2 by auto
  qed
qed

text \<open>Every step of the system keeps the invariant.\<close>

lemma winv_step:
  assumes inv: "winv p d ids lf z w" and step: "tree_step p (tt_ids d) t w w'"
  shows "\<exists>lf' z'. winv p d ids lf' z' w'"
  using step
proof cases
  case (enter ID)
  then show ?thesis using winv_enter[OF inv enter(2-5)] by simp
next
  case (set_tid i q)
  then show ?thesis using winv_set_tid[OF inv set_tid(2)] by auto
next
  case (call k m g c y m' t' k' r)
  from call(2) consider ID where "w_thr w t = Acquiring ID (UCall k m g)" | ID where "w_thr w t = Releasing ID (UCall k m g)"
    by (cases "w_thr w t") auto
  then show ?thesis
  proof cases
    case 1
    then show ?thesis using winv_call_acquire[OF inv 1 call(4), unfolded 1] unfolding call(1) 1 upd_uprog.simps by blast
  next
    case 2
    then show ?thesis using winv_call_release[OF inv 2 call(4), unfolded 2] unfolding call(1) 2 upd_uprog.simps by blast
  qed
next
  case (acquired ID v)
  have "pcs z t = In \<and> snd (w_conf w) t = None \<and> v = 0" by (rule acquiring_cases[OF inv acquired(2)]) auto
  moreover from this have "tt_tid (w_tree w) = ID" using winvD(7)[OF inv, of t ID] acquired(2) by simp
  ultimately have "winv p d ids lf z (set_thr t (Critical ID) w)"
    using acquired(2) by (intro winv_local[OF inv]) auto
  then show ?thesis using acquired(1) \<open>_ \<and> _ \<and> v = 0\<close> by auto
next
  case (leave ID)
  have id: "ID \<in> tt_ids d" "lf t = tt_leaf d ID" using winvD(6)[OF inv, of t] leave(2) by (auto simp: thr_ok_def)
  have "winv p d ids lf z (set_thr t (Releasing ID (trnmnt_tree_release (Some (w_tree w)) ID)) w)"
    using critical_in[OF inv leave(2)] leave(2) tree_calls(2)[OF winvD(3)[OF inv] id(1)] id(2)
    by (intro winv_local[OF inv]) auto
  then show ?thesis using leave(1) by blast
next
  case (released ID v)
  have "pcs z t = Out \<and> snd (w_conf w) t = None"
    by (rule releasing_cases[OF inv released(2)]) (use releasing_awake[OF inv released(2)] in auto)
  then have "winv p d ids lf z (set_thr t Outside w)" by (intro winv_local[OF inv]) auto
  then show ?thesis using released(1) by blast
qed

lemma winv_start:
  assumes "tree_start p d w"
  shows "\<exists>ids lf z. winv p d ids lf z w"
proof -
  obtain ids where ids: "is_tree p d ids (w_tree w) (fst (w_conf w))"
    "\<forall>i\<in>set ids. \<not> m_locked (mutexes (fst (w_conf w)) (nat i))" using assms by (auto simp: tree_start_def)
  have f: "abs_nodes p ids (w_conf w) i = Free" for i
    using ids(2) by (cases "w_conf w") (auto simp: abs_nodes_def)
  let ?z = "\<lparr>nodes = abs_nodes p ids (w_conf w), pcs = \<lambda>_. Out\<rparr>"
  have "tt_inv (\<lambda>_. 0) ?z" by (simp add: tt_inv_def f inside_def)
  then have "winv p d ids (\<lambda>_. 0) ?z w" using assms ids(1) by (auto simp: winv_def tree_start_def thr_ok_def)
  then show ?thesis by blast
qed

lemma winv_run:
  assumes "tree_run p (tt_ids d) w w'" "tree_start p d w"
  shows "\<exists>ids lf z. winv p d ids lf z w'"
  using assms(1) unfolding tree_run_def
proof (induction rule: rtranclp_induct)
  case base
  then show ?case by (rule winv_start[OF assms(2)])
next
  case (step w1 w2)
  then show ?case using winv_step by metis
qed

subsection \<open>Progress\<close>



subsection \<open>Properties\<close>

text \<open>
  C5 (the tournament tree excludes). A process has a tree of depth \<open>d\<close> as \<open>trnmnt_tree_alloc\<close> returns
  it, and its threads call \<open>trnmnt_tree_acquire\<close> with any numbers the tree has a leaf for, and
  \<open>trnmnt_tree_release\<close> with the number they acquired it with, over the kernel's mutex calls in any
  interleaving. Then never are two threads in the critical section, while one is there \<open>tree->tid\<close>
  is its number, every call of the two functions that returns returns 0, and no thread reads
  outside the array of nodes.
\<close>

theorem tt_exclusion:
  assumes "tree_start p d w0" and "tree_run p (tt_ids d) w0 w"
  shows "(w_thr w t = Critical a \<and> w_thr w u = Critical b \<longrightarrow> t = u) \<and>
    (w_thr w t = Critical a \<longrightarrow> tt_tid (w_tree w) = a) \<and>
    (uprog_of (w_thr w t) = Some (URet v) \<longrightarrow> v = 0) \<and> uprog_of (w_thr w t) \<noteq> Some (UFault e)"
proof -
  obtain ids lf z where inv: "winv p d ids lf z w" using winv_run[OF assms(2,1)] by blast
  have "t = u" if "w_thr w t = Critical a" "w_thr w u = Critical b"
    using tt_inside_one[OF winvD(4)[OF inv]] critical_in[OF inv that(1)] critical_in[OF inv that(2)] by blast
  moreover have "tt_tid (w_tree w) = a" if "w_thr w t = Critical a" using winvD(7)[OF inv, of t a] that by simp
  moreover have "(q = URet v \<longrightarrow> v = 0) \<and> q \<noteq> UFault e" if "uprog_of (w_thr w t) = Some q" for q
  proof (cases "w_thr w t")
    case (Acquiring ID q')
    then have h: "w_thr w t = Acquiring ID q" using that by simp
    show ?thesis by (rule acquiring_cases[OF inv h]) auto
  next
    case (Releasing ID q')
    then have h: "w_thr w t = Releasing ID q" using that by simp
    show ?thesis by (rule releasing_cases[OF inv h]) auto
  qed (use that in simp_all)
  ultimately show ?thesis by blast
qed

text \<open>Two threads of the process \<open>team\<close> and a tree of one node.\<close>

definition pair :: "unit world" where
  "pair = \<lparr>w_conf = team False, w_tree = \<lparr>tt_depth = 1, tt_tree = Some [0], tt_size = 1, tt_tid = 7\<rparr>,
     w_thr = \<lambda>_. Outside\<rparr>"

lemma pair_start: "tree_start 0 1 pair"
  using team_minv[of False]
  by (auto simp: tree_start_def pair_def is_tree_def usable_def team_fields team_proc_def)

lemma pair_acquire:
  assumes "ID \<in> {0, 1}"
  shows "trnmnt_tree_acquire (Some (w_tree pair)) ID = UCall CLock 0 (acq_next [0] ID 0)"
proof -
  have "is_tree 0 1 [0] (w_tree pair) (fst (team False))" using pair_start by (auto simp: tree_start_def pair_def is_tree_def)
  then show ?thesis
    using tree_calls(1)[of 0 1 "[0]" "w_tree pair" _ ID] assms
    by (auto simp: tt_ids_def tt_leaf_def acquire_helper_bind acq_next_def[abs_def] fun_eq_iff)
qed

lemma pair_quantum: "\<exists>y. quantum 0 (0, 0, 0, CLock) (team False) = Some (y, (0, 0, CLock, Ret 0))"
proof -
  obtain s ins where x: "team False = (s, ins)" by (cases "team False")
  have "mutex_abs 0 0 (team False) = Free" using x team_fields(2)[of False] by simp
  moreover have "ins 0 = None" using x team_fields(6)[of False] by simp
  then obtain y l where "implements 0 (team False) (0, 0, 0, CLock) y l"
    using lock_implements[of 0 0 0 0 s ins] team_turn[of 0 False] x by auto
  ultimately show ?thesis by (cases l) (auto simp: implements_def)
qed

lemma pair_run: "\<exists>w. tree_run 0 (tt_ids 1) pair w \<and> w_thr w 0 = Critical 0 \<and> w_thr w 1 \<noteq> Outside"
proof -
  let ?R = "\<lambda>w w'. \<exists>t. tree_step 0 (tt_ids 1) t w w'"
  let ?h = "\<lambda>ID. Acquiring ID (UCall CLock 0 (acq_next [0] ID 0))"
  obtain y where y: "quantum 0 (0, 0, 0, CLock) (team False) = Some (y, (0, 0, CLock, Ret 0))" using pair_quantum by blast
  define a where "a = set_thr 1 (?h 1) pair"
  define b where "b = set_thr 0 (?h 0) a"
  define c where "c = set_thr 0 (Acquiring 0 (USetTid 0 (URet 0))) (b\<lparr>w_conf := y\<rparr>)"
  define e where "e = set_thr 0 (Acquiring 0 (URet 0)) (c\<lparr>w_tree := (w_tree c)\<lparr>tt_tid := 0\<rparr>\<rparr>)"
  define f where "f = set_thr 0 (Critical 0) e"
  have run: "t_state (thr (fst (w_conf pair)) 0 t) = RUNNABLE" if "t < 2" for t
    using that by (simp add: pair_def team_thr team_proc_def)
  have w: "w_thr pair = (\<lambda>_. Outside)" "w_conf pair = team False" "snd (team False) = (\<lambda>_. None)"
    by (simp_all add: pair_def team_fields)
  have "?R pair a" using tree_step.enter[of 1 pair 0 1 "tt_ids 1"] run[of 1] pair_acquire[of 1] w
    by (auto simp: a_def tt_ids_def)
  moreover have "?R a b" using tree_step.enter[of 0 a 0 0 "tt_ids 1"] run[of 0] pair_acquire[of 0] w
    by (auto simp: a_def b_def tt_ids_def set_thr_def)
  moreover have "?R b c"
    using tree_step.call[of b 0 CLock 0 "acq_next [0] 0 0" 0 0 y 0 0 CLock "Ret 0" "tt_ids 1"] y w
    by (auto simp: a_def b_def c_def set_thr_def acq_next_def acq_end_def)
  moreover have "?R c e" using tree_step.set_tid[of c 0 0 "URet 0" 0 "tt_ids 1"] by (auto simp: c_def e_def set_thr_def)
  moreover have "?R e f" using tree_step.acquired[of e 0 0 0 0 "tt_ids 1"] by (auto simp: e_def f_def set_thr_def)
  ultimately have "tree_run 0 (tt_ids 1) pair f"
    unfolding tree_run_def by (metis (no_types, lifting) rtranclp.rtrancl_refl rtranclp.rtrancl_into_rtrancl)
  moreover have "w_thr f 0 = Critical 0" "w_thr f 1 \<noteq> Outside"
    by (simp_all add: a_def b_def c_def e_def f_def set_thr_def)
  ultimately show ?thesis by blast
qed

theorem tt_exclusion_witness:
  "\<exists>w. tree_run 0 (tt_ids 1) pair w \<and> w_thr w 0 = Critical 0 \<and> w_thr w 1 \<noteq> Outside \<and>
     (\<nexists>b. w_thr w 1 = Critical b) \<and> tt_tid (w_tree w) = 0"
proof -
  obtain w where w: "tree_run 0 (tt_ids 1) pair w" "w_thr w 0 = Critical 0" "w_thr w 1 \<noteq> Outside" using pair_run by blast
  note x = tt_exclusion[OF pair_start w(1), of 0 0 1]
  have "\<nexists>b. w_thr w 1 = Critical b" using x w(2) by auto
  moreover have "tt_tid (w_tree w) = 0" using x w(2) by blast
  ultimately show ?thesis using w by blast
qed



subsection \<open>Allocating the nodes\<close>

definition free_mutexes :: "'a kernel_scheme \<Rightarrow> nat set" where
  "free_mutexes s = {m. m < MAX_MUTEXES \<and> \<not> m_allocated (mutexes s m)}"

text \<open>Thread \<open>t\<close> of process \<open>p\<close> runs user code on CPU \<open>c\<close> and makes system calls.\<close>

definition in_user :: "nat \<Rightarrow> nat \<Rightarrow> nat \<Rightarrow> 'a kernel_scheme \<Rightarrow> bool" where
  "in_user c p t s \<longleftrightarrow> running c p t s \<and> tables_free s"

text \<open>Mutex \<open>m\<close> belongs to process \<open>p\<close> and is unlocked.\<close>

definition own_unlocked :: "nat \<Rightarrow> nat \<Rightarrow> 'a kernel_scheme \<Rightarrow> bool" where
  "own_unlocked p m s \<longleftrightarrow> m < MAX_MUTEXES \<and> m_allocated (mutexes s m) \<and> mid (procs s p) m \<and> \<not> m_locked (mutexes s m)"

lemma in_user_upd:
  assumes "in_user c p t s"
  shows "in_user c p t (upd_proc p (\<lambda>P. P\<lparr>mid := f P\<rparr>) (upd_mutex m h (passed c s)))"
  using assms by (auto simp: in_user_def running_def tables_free_def passed_def)

lemma alloc_step:
  assumes u: "in_user c p t s" and f: "free_mutexes s \<noteq> {}"
  obtains m s' where "kthread_mutex_alloc c s = Ok (int m) s'" "in_user c p t s'" "m \<in> free_mutexes s"
    "free_mutexes s' = free_mutexes s - {m}" "own_unlocked p m s'"
    "\<forall>j. own_unlocked p j s \<longrightarrow> own_unlocked p j s'"
proof -
  obtain m where m: "first_index (\<lambda>m. \<not> m_allocated (mutexes s m)) MAX_MUTEXES = Some m"
    using f by (cases "first_index (\<lambda>m. \<not> m_allocated (mutexes s m)) MAX_MUTEXES")
      (auto simp: first_index_None_iff free_mutexes_def)
  let ?s' = "upd_proc p (\<lambda>P. P\<lparr>mid := (mid P)(m := True)\<rparr>)
        (upd_mutex m (\<lambda>x. x\<lparr>m_allocated := True, m_name := Some p, m_locked := False, m_tid := - 1\<rparr>) (passed c s))"
  have "kthread_mutex_alloc c s = Ok (int m) ?s'"
    using mutex_alloc_eq[of c p t s] u m by (simp add: in_user_def)
  moreover have "m < MAX_MUTEXES" "\<not> m_allocated (mutexes s m)" using m by (auto simp: first_index_Some_iff)
  ultimately show thesis
    using in_user_upd[OF u] by (intro that) (auto simp: free_mutexes_def own_unlocked_def split: if_splits)
qed

lemma alloc_full:
  assumes u: "in_user c p t s" and f: "free_mutexes s = {}"
  obtains s' where "kthread_mutex_alloc c s = Ok (- 1) s'" "in_user c p t s'" "mutexes s' = mutexes s" "procs s' = procs s"
proof -
  have "first_index (\<lambda>m. \<not> m_allocated (mutexes s m)) MAX_MUTEXES = None"
    using f by (auto simp: first_index_None_iff free_mutexes_def)
  then have "kthread_mutex_alloc c s = Ok (- 1) (sect c mtable_lock s)"
    using mutex_alloc_eq[of c p t s] u by (simp add: in_user_def)
  moreover have "in_user c p t (sect c mtable_lock s)"
    using u by (auto simp: in_user_def running_def tables_free_def)
  ultimately show thesis by (intro that[of "sect c mtable_lock s"]) simp_all
qed

lemma alloc_nodes_ok:
  assumes "in_user c p t s" "\<And>i. i \<in> set ids \<Longrightarrow> own_unlocked p (nat i) s"
  obtains ids' b s' where "alloc_nodes c n ids s = Ok (ids @ ids', b) s'" "in_user c p t s'" "distinct ids'"
    "set ids' \<subseteq> int ` free_mutexes s" "free_mutexes s' = free_mutexes s - nat ` set ids'"
    "\<forall>i\<in>set (ids @ ids'). own_unlocked p (nat i) s'"
    "b \<longleftrightarrow> length ids' = n" "\<not> b \<longrightarrow> free_mutexes s' = {}"
  using assms
proof (induction n arbitrary: ids s thesis)
  case 0
  show ?case by (rule 0(1)[of "[]" True s]) (use 0(2,3) in auto)
next
  case (Suc n)
  show ?case
  proof (cases "free_mutexes s = {}")
    case True
    obtain s' where s': "kthread_mutex_alloc c s = Ok (- 1) s'" "in_user c p t s'" "mutexes s' = mutexes s" "procs s' = procs s"
      using alloc_full[OF Suc.prems(2) True] .
    show ?thesis
      by (rule Suc.prems(1)[of "[]" False s']) (use s' Suc.prems(3) True in \<open>auto simp: free_mutexes_def own_unlocked_def\<close>)
  next
    case False
    obtain m s1 where s1: "kthread_mutex_alloc c s = Ok (int m) s1" "in_user c p t s1" "m \<in> free_mutexes s"
      "free_mutexes s1 = free_mutexes s - {m}" "own_unlocked p m s1" "\<forall>j. own_unlocked p j s \<longrightarrow> own_unlocked p j s1"
      by (rule alloc_step[OF Suc.prems(2) False])
    have own: "own_unlocked p (nat i) s1" if "i \<in> set (ids @ [int m])" for i using that s1 Suc.prems(3) by auto
    obtain ids' b s' where r: "alloc_nodes c n (ids @ [int m]) s1 = Ok ((ids @ [int m]) @ ids', b) s'" "in_user c p t s'"
      "distinct ids'" "set ids' \<subseteq> int ` free_mutexes s1" "free_mutexes s' = free_mutexes s1 - nat ` set ids'"
      "\<forall>i\<in>set ((ids @ [int m]) @ ids'). own_unlocked p (nat i) s'"
      "b \<longleftrightarrow> length ids' = n" "\<not> b \<longrightarrow> free_mutexes s' = {}"
      by (rule Suc.IH[OF _ s1(2) own])
    have m: "int m \<notin> set ids'" using r(4) s1(4) by auto
    show ?thesis
    proof (rule Suc.prems(1)[of "int m # ids'" b s'])
      show "alloc_nodes c (Suc n) ids s = Ok (ids @ int m # ids', b) s'" using s1(1) r(1) by simp
      show "set (int m # ids') \<subseteq> int ` free_mutexes s" using r(4) s1(3,4) by auto
      show "free_mutexes s' = free_mutexes s - nat ` set (int m # ids')" using r(5) s1(4) by auto
    qed (use r m in simp_all)
  qed
qed

lemma alloc_nodes_length: "alloc_nodes c n ids s = Ok (ids', b) s' \<Longrightarrow> length ids' \<le> length ids + n"
proof (induction n arbitrary: ids s)
  case (Suc n)
  then show ?case by (cases "kthread_mutex_alloc c s") (fastforce split: if_splits)+
qed simp

lemma dealloc_step:
  assumes u: "in_user c p t s" and m: "own_unlocked p m s"
  obtains s' where "kthread_mutex_dealloc c (int m) s = Ok 0 s'" "in_user c p t s'"
    "free_mutexes s' = insert m (free_mutexes s)" "\<forall>j. j \<noteq> m \<and> own_unlocked p j s \<longrightarrow> own_unlocked p j s'"
proof -
  let ?s' = "upd_proc p (\<lambda>P. P\<lparr>mid := (mid P)(m := False)\<rparr>)
        (upd_mutex m (\<lambda>x. x\<lparr>m_allocated := False, m_name := None, m_locked := False, m_tid := - 1\<rparr>) (passed c s))"
  have "kthread_mutex_dealloc c (int m) s = Ok 0 ?s'"
    using mutex_dealloc_eq[of c p t s m] u m by (simp add: in_user_def own_unlocked_def)
  then show thesis
    using in_user_upd[OF u] m by (intro that) (auto simp: free_mutexes_def own_unlocked_def split: if_splits)
qed

lemma dealloc_all:
  assumes "in_user c p t s" "distinct ids" "\<And>i. i \<in> set ids \<Longrightarrow> 0 \<le> i \<and> own_unlocked p (nat i) s"
  obtains s' where "for_each ids (\<lambda>i s. bnd (kthread_mutex_dealloc c i s) (\<lambda>_ s. Ok () s)) s = Ok () s'"
    "dealloc_nodes c ids s = Ok 0 s'" "in_user c p t s'" "free_mutexes s' = nat ` set ids \<union> free_mutexes s"
  using assms
proof (induction ids arbitrary: s thesis)
  case (Cons i ids)
  have i: "0 \<le> i" "own_unlocked p (nat i) s" using Cons.prems(4) by auto
  obtain s1 where s1: "kthread_mutex_dealloc c (int (nat i)) s = Ok 0 s1" "in_user c p t s1"
    "free_mutexes s1 = insert (nat i) (free_mutexes s)" "\<forall>j. j \<noteq> nat i \<and> own_unlocked p j s \<longrightarrow> own_unlocked p j s1"
    by (rule dealloc_step[OF Cons.prems(2) i(2)])
  have own: "0 \<le> j \<and> own_unlocked p (nat j) s1" if "j \<in> set ids" for j
    using Cons.prems(3,4) that s1(4)[rule_format, of "nat j"] i(1) by (auto simp: nat_eq_iff)
  obtain s' where "for_each ids (\<lambda>i s. bnd (kthread_mutex_dealloc c i s) (\<lambda>_ s. Ok () s)) s1 = Ok () s'"
    "dealloc_nodes c ids s1 = Ok 0 s'" "in_user c p t s'" "free_mutexes s' = nat ` set ids \<union> free_mutexes s1"
    using Cons.IH[OF _ s1(2) _ own] Cons.prems(3) by auto
  then show ?case using s1 i(1) by (intro Cons.prems(1)[of s']) auto
qed simp


text \<open>
  C24 (a tree is allocated whole or not at all). If there are enough free mutexes for a tree of the
  given depth, \<open>trnmnt_tree_alloc\<close> returns a tree whose nodes are as many distinct mutexes of the
  calling process, unlocked and free before; otherwise it returns null and exactly the mutexes that
  were free before are free again.
\<close>

theorem tt_alloc_all_or_nothing:
  assumes u: "in_user c p t s" and d: "1 \<le> d" "d \<le> 30"
  shows "\<exists>r s'. trnmnt_tree_alloc c True True junk d s = Ok r s' \<and> in_user c p t s' \<and>
    (if 2 ^ nat d - 1 \<le> card (free_mutexes s)
     then \<exists>T ids. r = Some T \<and> tt_tree T = Some ids \<and> tt_size T = int (length ids) \<and> length ids = 2 ^ nat d - 1 \<and>
       distinct ids \<and> set ids \<subseteq> int ` free_mutexes s \<and> (\<forall>i\<in>set ids. own_unlocked p (nat i) s')
     else r = None \<and> free_mutexes s' = free_mutexes s)"
proof -
  define n :: nat where "n = 2 ^ nat d - 1"
  have nd: "nat d = Suc (nat (d - 1))" using d by simp
  have sz: "2 * 2 ^ nat (d - 1) - 1 = int n" unfolding n_def nd by (simp add: of_nat_diff)
  have fin: "finite (free_mutexes s)" by (simp add: free_mutexes_def)
  obtain ids b s1 where a: "alloc_nodes c n [] s = Ok ([] @ ids, b) s1" "in_user c p t s1" "distinct ids"
    "set ids \<subseteq> int ` free_mutexes s" "free_mutexes s1 = free_mutexes s - nat ` set ids"
    "\<forall>i\<in>set ([] @ ids). own_unlocked p (nat i) s1" "b \<longleftrightarrow> length ids = n" "\<not> b \<longrightarrow> free_mutexes s1 = {}"
    by (rule alloc_nodes_ok[OF u, of "[]" n]) simp
  have pos: "0 \<le> i \<and> nat i \<in> free_mutexes s" if "i \<in> set ids" for i using a(4) that by auto
  have "inj_on nat (set ids)" using pos by (intro inj_onI) (metis int_nat_eq)
  then have sub: "nat ` set ids \<subseteq> free_mutexes s" "card (nat ` set ids) = length ids"
    using pos a(3) by (auto simp: card_image distinct_card)
  have n: "2 ^ nat d - 1 = n" "2 ^ nat d - Suc 0 = n" by (simp_all add: n_def)
  show ?thesis
  proof (cases b)
    case True
    have "length ids \<le> card (free_mutexes s)" using card_mono[OF fin sub(1)] sub(2) by simp
    then show ?thesis
      using True a d sz n by (simp add: trnmnt_tree_alloc_def Let_def)
  next
    case False
    then have eq: "nat ` set ids = free_mutexes s" using a(5,8) sub(1) by blast
    have le: "length ids' \<le> m" if "alloc_nodes c m [] s' = Ok (ids', b') s''" for m ids' b' s' s''
      using that alloc_nodes_length[of c m "[]" s' ids' b' s''] by simp
    have "\<not> n \<le> card (free_mutexes s)" using eq sub(2) False a(1,7) le[of n s ids b s1] by simp
    moreover obtain s2 where "for_each ids (\<lambda>i s. bnd (kthread_mutex_dealloc c i s) (\<lambda>_ s. Ok () s)) s1 = Ok () s2"
      "in_user c p t s2" "free_mutexes s2 = nat ` set ids \<union> free_mutexes s1"
      by (rule dealloc_all[OF a(2,3)]) (use a(4,6) in auto)
    ultimately show ?thesis
      using False a(1,8) d sz eq n by (simp add: trnmnt_tree_alloc_def Let_def)
  qed
qed

theorem tt_alloc_all_or_nothing_witness:
  "\<exists>r s'. trnmnt_tree_alloc 0 True True 7 2 demo_kernel = Ok r s' \<and> in_user 0 0 0 s' \<and>
    (if 2 ^ nat 2 - 1 \<le> card (free_mutexes demo_kernel)
     then \<exists>T ids. r = Some T \<and> tt_tree T = Some ids \<and> tt_size T = int (length ids) \<and> length ids = 2 ^ nat 2 - 1 \<and>
       distinct ids \<and> set ids \<subseteq> int ` free_mutexes demo_kernel \<and> (\<forall>i\<in>set ids. own_unlocked 0 (nat i) s')
     else r = None \<and> free_mutexes s' = free_mutexes demo_kernel)"
  by (rule tt_alloc_all_or_nothing)
    (simp_all add: in_user_def running_def tables_free_def cpu_ok_demo_kernel first_proc_def)

subsection \<open>The calls of one thread\<close>

text \<open>The mutex calls a program makes when the kernel replies as \<open>a\<close> says, and its result or fault.\<close>

primrec ucalls :: "(mutex_call \<Rightarrow> int \<Rightarrow> int) \<Rightarrow> 'r uprog \<Rightarrow> (mutex_call \<times> int) list \<times> (string + 'r)" where
  "ucalls a (URet r) = ([], Inr r)"
| "ucalls a (UCall k m g) = apfst (Cons (k, m)) (ucalls a (g (a k m)))"
| "ucalls a (USetTid i q) = ucalls a q"
| "ucalls a (UFault e) = ([], Inl e)"

lemma ucalls_end: "ucalls a (acq_end ID 0) = ([], Inr 0)" "snd (ucalls a (acq_end ID v)) \<noteq> Inl e"
  by (simp_all add: acq_end_def)

lemma ucalls_acquire:
  assumes "i < length ids"
  shows "ucalls (\<lambda>_ _. 0) (ubind (trnmnt_tree_acquire_helper ids i) (acq_end ID)) =
      (map (\<lambda>j. (CLock, ids ! j)) (tt_path i), Inr 0)"
    and "snd (ucalls a (ubind (trnmnt_tree_acquire_helper ids i) (acq_end ID))) \<noteq> Inl e"
  using assms
proof (induction i rule: tt_path.induct)
  case (1 i)
  {
    case 1
    then show ?case using "1.IH"(1)
      by (subst tt_path.simps, subst acquire_helper_bind) (auto simp: ucalls_end)
  next
    case 2
    then show ?case using "1.IH"(2)
      by (subst acquire_helper_bind) (auto simp: ucalls_end)
  }
qed

lemma ucalls_release: "is \<noteq> [] \<Longrightarrow> ucalls (\<lambda>_ _. 0) (rel_prog ids is) = (map (\<lambda>j. (CUnlock, ids ! j)) is, Inr 0)"
  by (induction "is") auto

lemma tt_path_length: "2 ^ k \<le> Suc i \<Longrightarrow> Suc i < 2 ^ Suc k \<Longrightarrow> length (tt_path i) = Suc k"
proof (induction k arbitrary: i)
  case 0
  then show ?case by (subst tt_path.simps) simp
next
  case (Suc k)
  have "(1 :: nat) \<le> 2 ^ k" by simp
  then have i: "i \<noteq> 0" using Suc.prems(1) unfolding power_Suc by linarith
  have "length (tt_path ((i - 1) div 2)) = Suc k" by (rule Suc.IH) (use Suc.prems i in auto)
  then show ?case using i by (subst tt_path.simps) simp
qed

lemma tt_leaf_depth:
  assumes "1 \<le> d" "0 \<le> ID" "ID < 2 ^ d"
  shows "length (tt_path (tt_leaf d ID)) = d"
proof -
  obtain e where e: "d = Suc e" using assms(1) by (cases d) auto
  have "2 ^ e \<le> Suc (tt_leaf d ID)" by (simp add: tt_leaf_def e)
  moreover have "Suc (tt_leaf d ID) < 2 ^ Suc e" using tt_leaf_less[OF assms] by (simp add: e)
  ultimately show ?thesis using tt_path_length[of e "tt_leaf d ID"] e by simp
qed

text \<open>
  C25 (thread numbers and the tree). A tree of depth \<open>d\<close> has a place for the thread numbers below
  \<open>2 ^ d\<close> and only for them. For those, \<open>trnmnt_tree_acquire\<close> locks the \<open>d\<close> nodes from the leaf
  that the number shares with its neighbour up to the root, \<open>trnmnt_tree_release\<close> unlocks the same
  nodes in the opposite order, and whatever the kernel replies no node outside the array is read.
  For the others that the call accepts, up to 16, \<open>trnmnt_tree_acquire\<close> reads past the end of the
  array before it has made any call.
\<close>

theorem tt_id_bounds:
  assumes T: "tt_tree T = Some ids" "tt_size T = int (length ids)" "length ids = 2 ^ d - 1" and d: "1 \<le> d"
    and ID: "0 \<le> ID" "ID \<le> 16"
  shows "if ID < 2 ^ d
    then ucalls (\<lambda>_ _. 0) (trnmnt_tree_acquire (Some T) ID) =
        (map (\<lambda>j. (CLock, ids ! j)) (tt_path (2 ^ (d - 1) - 1 + nat ID div 2)), Inr 0) \<and>
      ucalls (\<lambda>_ _. 0) (trnmnt_tree_release (Some T) ID) =
        (map (\<lambda>j. (CUnlock, ids ! j)) (rev (tt_path (2 ^ (d - 1) - 1 + nat ID div 2))), Inr 0) \<and>
      length (tt_path (2 ^ (d - 1) - 1 + nat ID div 2)) = d \<and>
      (\<forall>a e. snd (ucalls a (trnmnt_tree_acquire (Some T) ID)) \<noteq> Inl e)
    else trnmnt_tree_acquire (Some T) ID = UFault ''tree index''"
proof (cases "ID < 2 ^ d")
  case True
  note pr = tree_progs[OF T d ID]
  have l: "tt_leaf d ID < length ids" using tt_leaf_less[OF d ID(1) True] T(3) by simp
  show ?thesis unfolding tt_leaf_def[symmetric]
    using True pr ucalls_acquire[OF l] ucalls_release[of "rev (tt_path (tt_leaf d ID))" ids]
      tt_leaf_depth[OF d ID(1) True] by simp
next
  case False
  obtain e where e: "d = Suc e" using d by (cases d) auto
  have "2 * 2 ^ e \<le> nat ID" using False ID(1) by (simp add: e le_nat_iff)
  then have "2 ^ e \<le> nat ID div 2" by linarith
  then have "\<not> tt_leaf d ID < length ids" using T(3) by (simp add: tt_leaf_def e)
  then have "trnmnt_tree_acquire (Some T) ID = UFault ''tree index''"
    using tree_progs(1)[OF T d ID] acquire_helper_bind[of ids "tt_leaf d ID"] by simp
  then show ?thesis using False by simp
qed

theorem tt_id_bounds_witness:
  "ucalls (\<lambda>_ _. 0) (trnmnt_tree_acquire (Some \<lparr>tt_depth = 3, tt_tree = Some [10,11,12,13,14,15,16],
      tt_size = 7, tt_tid = 0\<rparr>) 7) = ([(CLock, 16), (CLock, 12), (CLock, 10)], Inr 0) \<and>
   trnmnt_tree_acquire (Some \<lparr>tt_depth = 3, tt_tree = Some [10,11,12,13,14,15,16], tt_size = 7, tt_tid = 0\<rparr>) 8 =
     UFault ''tree index''"
proof -
  let ?T = "\<lparr>tt_depth = 3, tt_tree = Some [10,11,12,13,14,15,16], tt_size = 7, tt_tid = 0\<rparr>"
  have p: "tt_path 6 = [6, 2, 0]" by (simp add: tt_path.simps)
  note b = tt_id_bounds[of ?T "[10,11,12,13,14,15,16]" 3]
  have "ucalls (\<lambda>_ _. 0) (trnmnt_tree_acquire (Some ?T) 7) = ([(CLock, 16), (CLock, 12), (CLock, 10)], Inr 0)"
    using b[of 7] by (simp add: p)
  moreover have "trnmnt_tree_acquire (Some ?T) 8 = UFault ''tree index''" using b[of 8] by simp
  ultimately show ?thesis by blast
qed

end
