(* ===== verification/Grep.thy ===== *)
theory Grep
  imports Main
begin

text \<open>
  The pattern matcher and the main loop of \<open>grep.c\<close>. A C string is the list of its characters before
  the terminating NUL. The file descriptor is the list of the characters still to read; \<open>rd r l\<close> is
  the number of bytes that \<open>read\<close> returns when it is asked for \<open>r\<close> and \<open>l\<close> are left, so that short
  reads are possible. The lines that \<open>grep\<close> writes are returned as a list.
\<close>

subsection \<open>The code\<close>

function matchhere :: "string \<Rightarrow> string \<Rightarrow> bool" and matchstar :: "char \<Rightarrow> string \<Rightarrow> string \<Rightarrow> bool" where
  "matchhere re tx =
     (case re of [] \<Rightarrow> True
      | a # re1 \<Rightarrow>
        if re1 \<noteq> [] \<and> hd re1 = CHR ''*'' then matchstar a (tl re1) tx
        else if a = CHR ''$'' \<and> re1 = [] then tx = []
        else case tx of [] \<Rightarrow> False
          | x # tx1 \<Rightarrow> (a = CHR ''.'' \<or> a = x) \<and> matchhere re1 tx1)"
| "matchstar c re tx =
     (if matchhere re tx then True
      else case tx of [] \<Rightarrow> False
        | x # tx1 \<Rightarrow> (x = c \<or> c = CHR ''.'') \<and> matchstar c re tx1)"
  by pat_completeness auto
termination
  by (relation "measures [\<lambda>x. case x of Inl (re, t) \<Rightarrow> length re | Inr (c, re, t) \<Rightarrow> length re,
       \<lambda>x. case x of Inl (re, t) \<Rightarrow> length t | Inr (c, re, t) \<Rightarrow> length t,
       \<lambda>x. case x of Inl _ \<Rightarrow> 0 | Inr _ \<Rightarrow> 1]") auto

declare matchhere.simps [simp del] matchstar.simps [simp del]

fun match_from :: "string \<Rightarrow> string \<Rightarrow> bool" where
  "match_from re tx =
     (if matchhere re tx then True else case tx of [] \<Rightarrow> False | x # tx1 \<Rightarrow> match_from re tx1)"

declare match_from.simps [simp del]

definition match :: "string \<Rightarrow> string \<Rightarrow> bool" where
  "match re tx =
     (case re of CHR ''^'' # re1 \<Rightarrow> matchhere re1 tx | _ \<Rightarrow> match_from re tx)"

text \<open>The inner loop: the lines found by \<open>strchr(p, '\n')\<close>, and what is left at \<open>p\<close>.\<close>

fun grep_lines :: "string \<Rightarrow> string \<Rightarrow> string \<Rightarrow> string list \<times> string" where
  "grep_lines pat line [] = ([], line)"
| "grep_lines pat line (x # xs) =
     (if x = CHR 0x00 then ([], line @ x # xs)
      else if x = CHR 0x0A then
        (let (out, rest) = grep_lines pat [] xs in ((if match pat line then [line @ [x]] else []) @ out, rest))
      else grep_lines pat (line @ [x]) xs)"

abbreviation (input) GREPBUF :: nat where "GREPBUF \<equiv> 1024"

function grep :: "(nat \<Rightarrow> nat \<Rightarrow> nat) \<Rightarrow> string \<Rightarrow> string \<Rightarrow> string \<Rightarrow> string list" where
  "grep rd pat buf input =
     (let r = GREPBUF - length buf - 1; n = min (rd r (length input)) (min r (length input)) in
      if n = 0 then []
      else let b = buf @ take n input; (out, p) = grep_lines pat [] b in
        out @ grep rd pat (if length p = length b then [] else p) (drop n input))"
  by pat_completeness auto
termination
  by (relation "measure (\<lambda>(rd, pat, buf, input). length input)") auto

declare grep.simps [simp del]

subsection \<open>What a pattern means\<close>

text \<open>
  A pattern is a list of items, each a character or a starred character, and may be anchored at the
  end; \<open>.\<close> stands for any character. \<open>lang\<close> is the set of strings that the items describe.
\<close>

datatype item = One char | Star char

fun items :: "string \<Rightarrow> item list" where
  "items [] = []"
| "items [a] = (if a = CHR ''$'' then [] else [One a])"
| "items (a # b # re) = (if b = CHR ''*'' then Star a # items re else One a # items (b # re))"

fun at_end :: "string \<Rightarrow> bool" where
  "at_end [] \<longleftrightarrow> False"
| "at_end [a] \<longleftrightarrow> a = CHR ''$''"
| "at_end (a # b # re) \<longleftrightarrow> (if b = CHR ''*'' then at_end re else at_end (b # re))"

definition fits :: "char \<Rightarrow> char \<Rightarrow> bool" where
  "fits a x \<longleftrightarrow> a = CHR ''.'' \<or> a = x"

fun item_lang :: "item \<Rightarrow> string set" where
  "item_lang (One a) = {[x] | x. fits a x}"
| "item_lang (Star a) = {w. \<forall>x\<in>set w. fits a x}"

fun lang :: "item list \<Rightarrow> string set" where
  "lang [] = {[]}"
| "lang (i # is) = {u @ v | u v. u \<in> item_lang i \<and> v \<in> lang is}"

definition here :: "string \<Rightarrow> string \<Rightarrow> bool" where
  "here re tx \<longleftrightarrow> (\<exists>v w. tx = v @ w \<and> v \<in> lang (items re) \<and> (at_end re \<longrightarrow> w = []))"

lemma lang_One: "v \<in> lang (One a # is) \<longleftrightarrow> (\<exists>x v'. v = x # v' \<and> fits a x \<and> v' \<in> lang is)"
  and lang_Star: "v \<in> lang (Star a # is) \<longleftrightarrow> (\<exists>u v'. v = u @ v' \<and> (\<forall>x\<in>set u. fits a x) \<and> v' \<in> lang is)"
proof -
  show "v \<in> lang (One a # is) \<longleftrightarrow> (\<exists>x v'. v = x # v' \<and> fits a x \<and> v' \<in> lang is)"
  proof
    assume "\<exists>x v'. v = x # v' \<and> fits a x \<and> v' \<in> lang is"
    then obtain x v' where "v = [x] @ v'" "fits a x" "v' \<in> lang is" by auto
    then show "v \<in> lang (One a # is)" unfolding lang.simps item_lang.simps by blast
  qed auto
qed auto

lemma here_Nil [simp]: "here [] tx"
  by (simp add: here_def)

lemma here_Dollar: "here [CHR ''$''] tx \<longleftrightarrow> tx = []"
  by (auto simp: here_def)

lemma here_One:
  assumes "re1 = [] \<and> a \<noteq> CHR ''$'' \<or> re1 \<noteq> [] \<and> hd re1 \<noteq> CHR ''*''"
  shows "here (a # re1) tx \<longleftrightarrow> (\<exists>x tx1. tx = x # tx1 \<and> fits a x \<and> here re1 tx1)"
proof -
  have i: "items (a # re1) = One a # items re1" "at_end (a # re1) = at_end re1"
    using assms by (cases re1; auto)+
  show ?thesis
  proof
    assume "here (a # re1) tx"
    then obtain v w x where "tx = (x # v) @ w" "fits a x" "v \<in> lang (items re1)" "at_end re1 \<longrightarrow> w = []"
      unfolding here_def i lang_One by blast
    then show "\<exists>x tx1. tx = x # tx1 \<and> fits a x \<and> here re1 tx1" by (auto simp: here_def)
  next
    assume "\<exists>x tx1. tx = x # tx1 \<and> fits a x \<and> here re1 tx1"
    then obtain x v w where "tx = x # v @ w" "fits a x" "v \<in> lang (items re1)" "at_end re1 \<longrightarrow> w = []"
      by (auto simp: here_def)
    then show "here (a # re1) tx"
      unfolding here_def i lang_One by (intro exI[of _ "x # v"] exI[of _ w]) simp
  qed
qed

lemma star_items: "items (a # CHR ''*'' # re) = Star a # items re" "at_end (a # CHR ''*'' # re) = at_end re"
  by simp_all

lemma here_Star:
  "here (a # CHR ''*'' # re) tx \<longleftrightarrow> (\<exists>u t. tx = u @ t \<and> (\<forall>x\<in>set u. fits a x) \<and> here re t)"
proof
  assume "here (a # CHR ''*'' # re) tx"
  then obtain u v w where "tx = (u @ v) @ w" "\<forall>x\<in>set u. fits a x" "v \<in> lang (items re)" "at_end re \<longrightarrow> w = []"
    unfolding here_def star_items lang_Star by blast
  then show "\<exists>u t. tx = u @ t \<and> (\<forall>x\<in>set u. fits a x) \<and> here re t"
    by (intro exI[of _ u] exI[of _ "v @ w"]) (auto simp: here_def)
next
  assume "\<exists>u t. tx = u @ t \<and> (\<forall>x\<in>set u. fits a x) \<and> here re t"
  then obtain u v w where "tx = u @ v @ w" "\<forall>x\<in>set u. fits a x" "v \<in> lang (items re)" "at_end re \<longrightarrow> w = []"
    unfolding here_def by auto
  then show "here (a # CHR ''*'' # re) tx"
    unfolding here_def star_items lang_Star by (intro exI[of _ "u @ v"] exI[of _ w]) auto
qed

lemma star_unfold:
  "(\<exists>u t. tx = u @ t \<and> (\<forall>x\<in>set u. fits a x) \<and> P t) \<longleftrightarrow>
   P tx \<or> (\<exists>x tx1. tx = x # tx1 \<and> fits a x \<and> (\<exists>u t. tx1 = u @ t \<and> (\<forall>x\<in>set u. fits a x) \<and> P t))"
proof
  assume "\<exists>u t. tx = u @ t \<and> (\<forall>x\<in>set u. fits a x) \<and> P t"
  then obtain u t where "tx = u @ t" "\<forall>x\<in>set u. fits a x" "P t" by blast
  then show "P tx \<or> (\<exists>x tx1. tx = x # tx1 \<and> fits a x \<and> (\<exists>u t. tx1 = u @ t \<and> (\<forall>x\<in>set u. fits a x) \<and> P t))"
    by (cases u) auto
next
  assume "P tx \<or> (\<exists>x tx1. tx = x # tx1 \<and> fits a x \<and> (\<exists>u t. tx1 = u @ t \<and> (\<forall>x\<in>set u. fits a x) \<and> P t))"
  then consider "P tx" | x u t where "tx = x # u @ t" "fits a x" "\<forall>x\<in>set u. fits a x" "P t" by blast
  then show "\<exists>u t. tx = u @ t \<and> (\<forall>x\<in>set u. fits a x) \<and> P t"
  proof cases
    case 1
    then show ?thesis by (intro exI[of _ "[]"] exI[of _ tx]) auto
  next
    case 2
    then show ?thesis by (intro exI[of _ "x # u"] exI[of _ t]) auto
  qed
qed

lemma matchhere_here:
  "matchhere re tx \<longleftrightarrow> here re tx"
  "matchstar c re tx \<longleftrightarrow> (\<exists>u t. tx = u @ t \<and> (\<forall>x\<in>set u. fits c x) \<and> here re t)"
proof (induction re tx and c re tx rule: matchhere_matchstar.induct)
  case (1 re tx)
  show ?case
  proof (cases re)
    case Nil
    then show ?thesis by (simp add: matchhere.simps)
  next
    case (Cons a re1)
    consider (star) re2 where "re1 = CHR ''*'' # re2" | (dollar) "re1 = []" "a = CHR ''$''"
      | (one) "re1 = [] \<and> a \<noteq> CHR ''$'' \<or> re1 \<noteq> [] \<and> hd re1 \<noteq> CHR ''*''"
      by (cases re1) auto
    then show ?thesis
    proof cases
      case star
      then show ?thesis using 1(1)[OF Cons] Cons by (subst matchhere.simps) (simp add: here_Star)
    next
      case dollar
      then show ?thesis using Cons by (subst matchhere.simps) (simp add: here_Dollar)
    next
      case one
      then have e: "matchhere re tx = (case tx of [] \<Rightarrow> False | x # t \<Rightarrow> fits a x \<and> matchhere re1 t)"
        using Cons by (subst matchhere.simps) (auto simp: fits_def split: list.split)
      have "matchhere re1 t = here re1 t" if "tx = x # t" "fits a x" for x t
        by (rule 1(2)[OF Cons]) (use one that in \<open>auto simp: fits_def\<close>)
      then show ?thesis using here_One[OF one, of tx] Cons by (subst e) (auto split: list.split)
    qed
  qed
next
  case (2 c re tx)
  have "matchstar c re tx \<longleftrightarrow> here re tx \<or> (\<exists>x t. tx = x # t \<and> fits c x \<and> matchstar c re t)"
    using 2(1) by (subst matchstar.simps) (auto simp: fits_def split: list.split)
  also have "\<dots> \<longleftrightarrow> here re tx \<or> (\<exists>x t. tx = x # t \<and> fits c x \<and>
      (\<exists>u t'. t = u @ t' \<and> (\<forall>x\<in>set u. fits c x) \<and> here re t'))"
  proof (cases "here re tx")
    case False
    have "matchstar c re t = (\<exists>u t'. t = u @ t' \<and> (\<forall>x\<in>set u. fits c x) \<and> here re t')" if "tx = x # t" "fits c x" for x t
      by (rule 2(2)) (use False 2(1) that in \<open>auto simp: fits_def\<close>)
    then show ?thesis by (simp cong: conj_cong)
  qed simp
  also have "\<dots> \<longleftrightarrow> (\<exists>u t. tx = u @ t \<and> (\<forall>x\<in>set u. fits c x) \<and> here re t)"
    by (subst star_unfold[of tx c "here re"]) simp
  finally show ?case .
qed

lemma match_from_here: "match_from re tx \<longleftrightarrow> (\<exists>u t. tx = u @ t \<and> here re t)"
proof (induction tx)
  case Nil
  then show ?case by (subst match_from.simps) (simp add: matchhere_here)
next
  case (Cons x tx)
  have "match_from re (x # tx) \<longleftrightarrow> here re (x # tx) \<or> (\<exists>u t. tx = u @ t \<and> here re t)"
    using Cons by (subst match_from.simps) (simp add: matchhere_here)
  then show ?case by (auto simp: Cons_eq_append_conv)
qed


subsection \<open>Lines\<close>

abbreviation NL :: char where "NL \<equiv> CHR 0x0A"
abbreviation NUL :: char where "NUL \<equiv> CHR 0x00"

definition unlines :: "string list \<Rightarrow> string" where
  "unlines ls = concat (map (\<lambda>l. l @ [NL]) ls)"

lemma unlines_simps [simp]: "unlines [] = []" "unlines (l # ls) = l @ NL # unlines ls"
  "unlines (ls @ ls') = unlines ls @ unlines ls'"
  by (simp_all add: unlines_def)

definition plain :: "string \<Rightarrow> bool" where
  "plain l \<longleftrightarrow> NL \<notin> set l \<and> NUL \<notin> set l"

lemma first_line:
  assumes "NL \<notin> set l" "NL \<notin> set l'" "l @ NL # xs = l' @ NL # xs'"
  shows "l = l' \<and> xs = xs'"
proof -
  have "takeWhile (\<lambda>c. c \<noteq> NL) (l @ NL # xs) = l" "takeWhile (\<lambda>c. c \<noteq> NL) (l' @ NL # xs') = l'"
    using assms(1,2) by (auto simp: takeWhile_append)
  then show ?thesis using assms(3) by auto
qed

lemma unlines_prefix:
  assumes "unlines ls1 @ q = unlines ls @ rest" "NL \<notin> set rest" "\<forall>l\<in>set ls1 \<union> set ls. NL \<notin> set l"
  shows "\<exists>ls2. ls = ls1 @ ls2 \<and> q = unlines ls2 @ rest"
  using assms
proof (induction ls1 arbitrary: ls)
  case (Cons l ls1)
  show ?case
  proof (cases ls)
    case Nil
    have "NL \<in> set rest" using Cons.prems(1) Nil by (metis append_Nil in_set_conv_decomp unlines_simps(1,2) append_Cons append_assoc)
    then show ?thesis using Cons.prems(2) by simp
  next
    case (Cons l' ls')
    have "l = l' \<and> unlines ls1 @ q = unlines ls' @ rest"
      using Cons.prems(1,3) Cons by (intro first_line) auto
    moreover have "\<exists>ls2. ls' = ls1 @ ls2 \<and> q = unlines ls2 @ rest"
      using Cons.IH[of ls'] calculation Cons.prems Cons by auto
    ultimately show ?thesis using Cons by auto
  qed
qed simp

lemma grep_lines_plain: "plain b \<Longrightarrow> grep_lines pat line b = ([], line @ b)"
  by (induction b arbitrary: line) (auto simp: plain_def)

lemma grep_lines_spec:
  assumes "NUL \<notin> set b" "NL \<notin> set line"
  obtains ls p where "grep_lines pat line b = (map (\<lambda>l. l @ [NL]) (filter (match pat) ls), p)"
    "line @ b = unlines ls @ p" "NL \<notin> set p" "\<forall>l\<in>set ls. NL \<notin> set l"
  using assms
proof (induction b arbitrary: line thesis)
  case Nil
  show ?case by (rule Nil(1)[of "[]" line]) (use Nil in simp_all)
next
  case (Cons x b)
  show ?case
  proof (cases "x = NL")
    case True
    obtain ls p where i: "grep_lines pat [] b = (map (\<lambda>l. l @ [NL]) (filter (match pat) ls), p)"
      "[] @ b = unlines ls @ p" "NL \<notin> set p" "\<forall>l\<in>set ls. NL \<notin> set l"
      by (rule Cons.IH[of "[]"]) (use Cons.prems in simp_all)
    show ?thesis
      by (rule Cons.prems(1)[of "line # ls" p]) (use i True Cons.prems(3) in \<open>simp_all\<close>)
  next
    case False
    obtain ls p where i: "grep_lines pat (line @ [x]) b = (map (\<lambda>l. l @ [NL]) (filter (match pat) ls), p)"
      "(line @ [x]) @ b = unlines ls @ p" "NL \<notin> set p" "\<forall>l\<in>set ls. NL \<notin> set l"
      by (rule Cons.IH[of "line @ [x]"]) (use Cons.prems(2,3) False in simp_all)
    show ?thesis
      by (rule Cons.prems(1)[of ls p]) (use i False Cons.prems(2) in auto)
  qed
qed

lemma grep_spec:
  assumes full: "\<And>r l. min r l \<le> rd r l"
    and buf: "NL \<notin> set buf" "length buf < GREPBUF - 1"
    and inp: "buf @ input = unlines ls @ rest" "\<forall>l\<in>set ls. plain l \<and> length l < GREPBUF - 1" "plain rest"
  shows "grep rd pat buf input = map (\<lambda>l. l @ [NL]) (filter (match pat) ls)"
  using buf inp(1,2,3)
proof (induction "length input" arbitrary: buf input ls rest rule: less_induct)
  case less
  let ?r = "GREPBUF - length buf - 1"
  define n where "n = min ?r (length input)"
  have n: "min (rd ?r (length input)) (min ?r (length input)) = n" using full[of ?r "length input"] by (simp add: n_def)
  have nonl: "\<forall>l\<in>set ls. NL \<notin> set l" "NL \<notin> set rest" using less.prems(4,5) by (auto simp: plain_def)
  have nonul: "NUL \<notin> set (buf @ input)"
    unfolding less.prems(3) using less.prems(4,5) by (auto simp: plain_def unlines_def)
  show ?case
  proof (cases "n = 0")
    case True
    then have "length input = 0" using less.prems(2) unfolding n_def by linarith
    then have "input = []" by simp
    then have "ls = []" using less.prems(1,3) by (cases ls) auto
    then show ?thesis using True n by (subst grep.simps) (simp add: Let_def)
  next
    case False
    let ?b = "buf @ take n input"
    obtain ls1 p where g: "grep_lines pat [] ?b = (map (\<lambda>l. l @ [NL]) (filter (match pat) ls1), p)"
      "[] @ ?b = unlines ls1 @ p" "NL \<notin> set p" "\<forall>l\<in>set ls1. NL \<notin> set l"
      by (rule grep_lines_spec[of ?b "[]" pat]) (use nonul in \<open>auto dest: in_set_takeD\<close>)
    have "unlines ls1 @ p @ drop n input = unlines ls @ rest"
      using g(2) less.prems(3) by (metis append.assoc append_Nil append_take_drop_id)
    then obtain ls2 where ls2: "ls = ls1 @ ls2" "p @ drop n input = unlines ls2 @ rest"
      using unlines_prefix[of ls1 "p @ drop n input" ls rest] nonl g(4) by auto
    have step: "grep rd pat buf input = map (\<lambda>l. l @ [NL]) (filter (match pat) ls1) @
        grep rd pat (if length p = length ?b then [] else p) (drop n input)"
      using False n g(1) by (subst grep.simps) (simp add: Let_def)
    have sh: "length (drop n input) < length input" using False by (auto simp: n_def)
    show ?thesis
    proof (cases "length p = length ?b")
      case True
      then have p: "ls1 = []" "p = ?b" using g(2) by (cases ls1; auto)+
      have "ls2 = []"
      proof (rule ccontr)
        assume "ls2 \<noteq> []"
        then obtain l ls3 where l: "ls2 = l # ls3" by (cases ls2) auto
        have "length l < GREPBUF - 1" using less.prems(4) ls2(1) l by simp
        have "n = length input \<or> length ?b = GREPBUF - 1" using less.prems(2) by (auto simp: n_def)
        then show False
        proof
          assume "n = length input"
          then have "NL \<in> set p" using ls2(2) l by (metis append_Nil2 drop_all in_set_conv_decomp order_refl unlines_simps(2) append_assoc append_Cons)
          then show False using g(3) by simp
        next
          assume b: "length ?b = GREPBUF - 1"
          have "length l < length p" using b p(2) \<open>length l < GREPBUF - 1\<close> by simp
          have "p ! length l = (p @ drop n input) ! length l" using \<open>length l < length p\<close> by (simp add: nth_append)
          also have "\<dots> = NL" using ls2(2) l by simp
          finally show False using g(3) \<open>length l < length p\<close> nth_mem by metis
        qed
      qed
      then have "drop n input = unlines [] @ drop n input" "p @ drop n input = rest" using ls2(2) by auto
      then have "plain (drop n input)" using less.prems(5) by (auto simp: plain_def)
      then have "grep rd pat [] (drop n input) = map (\<lambda>l. l @ [NL]) (filter (match pat) [])"
        using less.hyps[OF sh, of "[]" "[]" "drop n input"] by simp
      then show ?thesis using step True p ls2 \<open>ls2 = []\<close> by simp
    next
      case False
      have "length p < length ?b" using False arg_cong[OF g(2), of length] by simp
      also have "\<dots> \<le> GREPBUF - 1" using less.prems(2) by (simp add: n_def)
      finally have "length p < GREPBUF - 1" .
      then have "grep rd pat p (drop n input) = map (\<lambda>l. l @ [NL]) (filter (match pat) ls2)"
        using less.hyps[OF sh g(3) _ ls2(2)] less.prems(4,5) ls2(1) by simp
      then show ?thesis using step False ls2 by simp
    qed
  qed
qed


subsection \<open>Properties\<close>

definition anchored :: "string \<Rightarrow> bool" where
  "anchored re \<longleftrightarrow> re \<noteq> [] \<and> hd re = CHR ''^''"

definition body :: "string \<Rightarrow> string" where
  "body re = (if anchored re then tl re else re)"

text \<open>
  C26 (what \<open>grep\<close> matches). \<open>match(re, text)\<close> holds exactly if some part of the text is in the language
  that the pattern's items describe, where the part has to start the text if the pattern begins with
  \<open>^\<close> and to end it if the pattern ends in an unstarred \<open>$\<close>.
\<close>

theorem match_iff_lang:
  "match re s \<longleftrightarrow> (\<exists>u v w. s = u @ v @ w \<and> v \<in> lang (items (body re)) \<and> (anchored re \<longrightarrow> u = []) \<and>
     (at_end (body re) \<longrightarrow> w = []))"
proof (cases "anchored re")
  case True
  then obtain re1 where re: "re = CHR ''^'' # re1" by (cases re) (auto simp: anchored_def)
  have "match re s = here re1 s" by (simp add: match_def re matchhere_here)
  then show ?thesis using True re by (auto simp: here_def body_def)
next
  case False
  then have "match re s = match_from re s"
    by (auto simp: match_def anchored_def split: list.split char.splits bool.splits)
  then show ?thesis using False by (auto simp: match_from_here here_def body_def)
qed

theorem match_iff_lang_witness:
  "match ''^ab*c$'' ''abbc'' \<longleftrightarrow> (\<exists>u v w. ''abbc'' = u @ v @ w \<and> v \<in> lang (items (body ''^ab*c$'')) \<and>
     (anchored ''^ab*c$'' \<longrightarrow> u = []) \<and> (at_end (body ''^ab*c$'') \<longrightarrow> w = []))"
  by (rule match_iff_lang)

text \<open>
  C30 (what \<open>grep\<close> prints). When every \<open>read\<close> fills the buffer as far as the file goes, and no line is
  longer than 1022 characters, \<open>grep\<close> prints exactly the lines that match, in order, each with its
  newline; a last line without a newline is not printed.
\<close>

theorem grep_prints_matching_lines:
  assumes "\<And>r l. min r l \<le> rd r l" and "\<forall>l\<in>set ls. plain l \<and> length l < GREPBUF - 1" and "plain rest"
  shows "grep rd pat [] (unlines ls @ rest) = map (\<lambda>l. l @ [NL]) (filter (match pat) ls)"
  using grep_spec[of rd "[]" "unlines ls @ rest" ls rest pat] assms by simp

theorem grep_prints_matching_lines_witness:
  "grep (\<lambda>r l. r) ''b'' [] (unlines [''abc'', ''xyz'', ''b''] @ ''tab'') =
     map (\<lambda>l. l @ [NL]) (filter (match ''b'') [''abc'', ''xyz'', ''b''])"
  by (rule grep_prints_matching_lines) (auto simp: plain_def)

text \<open>
  C31 (short reads lose characters). When a \<open>read\<close> into the empty buffer returns before the end of the line, as
  it may on a pipe or the console, \<open>grep\<close> throws the characters away: whatever comes next, it prints what it
  would print had they never been in the input.
\<close>

theorem grep_short_reads:
  assumes "xs \<noteq> []" "length xs \<le> GREPBUF - 1" "plain xs" and "rd (GREPBUF - 1) (length (xs @ rest)) = length xs"
  shows "grep rd pat [] (xs @ rest) = grep rd pat [] rest"
proof -
  have "grep_lines pat [] xs = ([], xs)" using grep_lines_plain[OF assms(3), of pat "[]"] by simp
  then show ?thesis using assms by (subst grep.simps) (simp add: Let_def)
qed

theorem grep_short_reads_witness:
  "match ''a'' ''ab'' \<and> grep (\<lambda>r l. if l = 3 then 1 else r) ''a'' [] (''a'' @ unlines [''b'']) = []"
proof
  show "match ''a'' ''ab''" by code_simp
  have "grep (\<lambda>r l. if l = 3 then 1 else r) ''a'' [] (unlines [''b'']) = []" by code_simp
  then show "grep (\<lambda>r l. if l = 3 then 1 else r) ''a'' [] (''a'' @ unlines [''b'']) = []"
    using grep_short_reads[of "''a''" "\<lambda>r l. if l = 3 then 1 else r" "unlines [''b'']" "''a''"]
    by (simp add: plain_def unlines_def)
qed

end
