(* ===== verification/Ulib.thy ===== *)
theory Ulib
  imports Prelude
begin

text \<open>
  User library and filters: string functions of \<open>ulib.c\<close>, the formatted output of \<open>printf.c\<close>, the
  kernel's own copy of it in \<open>console.c\<close>, and the loops of \<open>wc.c\<close> and \<open>cat.c\<close>. A C string is the list
  of its characters before the NUL; \<open>args\<close> gives the words of the argument area by index and \<open>str\<close>
  the string at an address. What is written to the file descriptor is the returned string.
\<close>

subsection \<open>Strings\<close>

fun strcmp :: "string \<Rightarrow> string \<Rightarrow> int" where
  "strcmp [] [] = 0"
| "strcmp [] (y # q) = 0 - of_char y"
| "strcmp (x # p) [] = of_char x"
| "strcmp (x # p) (y # q) = (if x = y then strcmp p q else of_char x - of_char y)"

fun strchr :: "string \<Rightarrow> char \<Rightarrow> string option" where
  "strchr [] c = None"
| "strchr (x # s) c = (if x = c then Some (x # s) else strchr s c)"

text \<open>\<open>gets\<close> reads from a file that has the characters \<open>inp\<close> left; the rest of them is returned too.\<close>

fun gets_loop :: "nat \<Rightarrow> string \<Rightarrow> string \<times> string" where
  "gets_loop 0 inp = ([], inp)"
| "gets_loop (Suc n) [] = ([], [])"
| "gets_loop (Suc n) (c # inp) =
     (if c = CHR 0x0A \<or> c = CHR 0x0D then ([c], inp)
      else let (s, rest) = gets_loop n inp in (c # s, rest))"

definition gets :: "int \<Rightarrow> string \<Rightarrow> string \<times> string" where
  "gets mx inp = gets_loop (nat (mx - 1)) inp"

definition digit :: "char \<Rightarrow> bool" where
  "digit c \<longleftrightarrow> of_char CHR ''0'' \<le> (of_char c :: int) \<and> (of_char c :: int) \<le> of_char CHR ''9''"

fun atoi_loop :: "uint \<Rightarrow> string \<Rightarrow> uint" where
  "atoi_loop n [] = n"
| "atoi_loop n (c # s) = (if digit c then atoi_loop (n * 10 + of_char c - of_char CHR ''0'') s else n)"

definition atoi :: "string \<Rightarrow> uint" where
  "atoi s = atoi_loop 0 s"

subsection \<open>Formatted output\<close>

text \<open>
  The digits of \<open>x\<close>, least significant first. The second test holds for every base of at least two;
  with base one the C loop would not end.
\<close>

fun digits_rev :: "string \<Rightarrow> nat \<Rightarrow> nat \<Rightarrow> string" where
  "digits_rev ds base x =
     ds ! (x mod base) # (if x div base \<noteq> 0 \<and> x div base < x then digits_rev ds base (x div base) else [])"

declare digits_rev.simps [simp del]

definition printint :: "uint \<Rightarrow> nat \<Rightarrow> bool \<Rightarrow> string" where
  "printint xx base sg =
     (let neg = (sg \<and> sint xx < 0); x = (if neg then - xx else xx) in
      rev (digits_rev ''0123456789ABCDEF'' base (unat x) @ (if neg then ''-'' else [])))"

definition null_str :: "(uint \<Rightarrow> string) \<Rightarrow> uint \<Rightarrow> string" where
  "null_str str a = (if a = 0 then ''(null)'' else str a)"

text \<open>The flag is the variable \<open>state\<close>: whether the last character was a percent sign.\<close>

fun printf_loop :: "(uint \<Rightarrow> string) \<Rightarrow> (nat \<Rightarrow> uint) \<Rightarrow> nat \<Rightarrow> bool \<Rightarrow> string \<Rightarrow> string" where
  "printf_loop str args ap st [] = []"
| "printf_loop str args ap False (c # fmt) =
     (if c = CHR ''%'' then printf_loop str args ap True fmt else c # printf_loop str args ap False fmt)"
| "printf_loop str args ap True (c # fmt) =
     (if c = CHR ''d'' then printint (args ap) 10 True @ printf_loop str args (Suc ap) False fmt
      else if c = CHR ''x'' \<or> c = CHR ''p'' then printint (args ap) 16 False @ printf_loop str args (Suc ap) False fmt
      else if c = CHR ''s'' then null_str str (args ap) @ printf_loop str args (Suc ap) False fmt
      else if c = CHR ''c'' then char_of (unat (args ap)) # printf_loop str args (Suc ap) False fmt
      else if c = CHR ''%'' then c # printf_loop str args ap False fmt
      else CHR ''%'' # c # printf_loop str args ap False fmt)"

definition printf :: "(uint \<Rightarrow> string) \<Rightarrow> string \<Rightarrow> (nat \<Rightarrow> uint) \<Rightarrow> string" where
  "printf str fmt args = printf_loop str args 0 False fmt"

definition cons_printint :: "uint \<Rightarrow> nat \<Rightarrow> bool \<Rightarrow> string" where
  "cons_printint xx base sign =
     (let sign = (sign \<and> sint xx < 0); x = (if sign then - xx else xx) in
      rev (digits_rev ''0123456789abcdef'' base (unat x) @ (if sign then ''-'' else [])))"

fun cprintf_loop :: "(uint \<Rightarrow> string) \<Rightarrow> (nat \<Rightarrow> uint) \<Rightarrow> nat \<Rightarrow> string \<Rightarrow> string" where
  "cprintf_loop str args ap [] = []"
| "cprintf_loop str args ap [c] = (if c = CHR ''%'' then [] else [c])"
| "cprintf_loop str args ap (c # d # fmt) =
     (if c \<noteq> CHR ''%'' then c # cprintf_loop str args ap (d # fmt)
      else if d = CHR ''d'' then cons_printint (args ap) 10 True @ cprintf_loop str args (Suc ap) fmt
      else if d = CHR ''x'' \<or> d = CHR ''p'' then cons_printint (args ap) 16 False @ cprintf_loop str args (Suc ap) fmt
      else if d = CHR ''s'' then null_str str (args ap) @ cprintf_loop str args (Suc ap) fmt
      else if d = CHR ''%'' then CHR ''%'' # cprintf_loop str args ap fmt
      else CHR ''%'' # d # cprintf_loop str args ap fmt)"

subsection \<open>Filters\<close>

text \<open>
  \<open>wc\<close> and \<open>cat\<close> read a file in chunks (\<open>None\<close> is a read error). The counters of \<open>wc\<close> are lines,
  words, characters and the flag \<open>inword\<close>; they are C \<open>int\<close>s, 32-bit words here, and wrap around.
\<close>

definition wc_char :: "char \<Rightarrow> uint \<times> uint \<times> uint \<times> bool \<Rightarrow> uint \<times> uint \<times> uint \<times> bool" where
  "wc_char x st = (case st of (l, w, c, inword) \<Rightarrow>
     let c = c + 1; l = (if x = CHR 0x0A then l + 1 else l) in
     if strchr [CHR '' '', CHR 0x0D, CHR 0x09, CHR 0x0A, CHR 0x0B] x \<noteq> None then (l, w, c, False)
     else if \<not> inword then (l, w + 1, c, True) else (l, w, c, inword))"

fun wc_loop :: "string option list \<Rightarrow> uint \<times> uint \<times> uint \<times> bool \<Rightarrow> (uint \<times> uint \<times> uint) option" where
  "wc_loop [] st = (case st of (l, w, c, _) \<Rightarrow> Some (l, w, c))"
| "wc_loop (None # rs) st = None"
| "wc_loop (Some buf # rs) st =
     (if buf = [] then (case st of (l, w, c, _) \<Rightarrow> Some (l, w, c)) else wc_loop rs (fold wc_char buf st))"

definition wc :: "string option list \<Rightarrow> (uint \<times> uint \<times> uint) option" where
  "wc rs = wc_loop rs (0, 0, 0, False)"

text \<open>\<open>cat\<close>: the output so far and whether it ended without an error; \<open>ws\<close> are the results of \<open>write\<close>.\<close>

fun cat :: "string option list \<Rightarrow> nat list \<Rightarrow> string \<times> bool" where
  "cat [] ws = ([], True)"
| "cat (None # rs) ws = ([], False)"
| "cat (Some buf # rs) ws =
     (if buf = [] then ([], True)
      else case ws of [] \<Rightarrow> ([], False)
        | n # ws1 \<Rightarrow> if n \<noteq> length buf then (take n buf, False)
            else let (out, ok) = cat rs ws1 in (buf @ out, ok))"

subsection \<open>Digits\<close>

lemma digits_rev_step:
  "1 < base \<Longrightarrow> digits_rev ds base x = ds ! (x mod base) # (if x div base \<noteq> 0 then digits_rev ds base (x div base) else [])"
proof -
  assume "1 < base"
  then have "x div base < x" if "x div base \<noteq> 0" using that by (intro div_less_dividend) (auto intro: Nat.gr0I)
  then show ?thesis by (subst digits_rev.simps) auto
qed

lemma digits_rev_length:
  assumes "1 < base"
  shows "x < base ^ k \<Longrightarrow> 0 < k \<Longrightarrow> length (digits_rev ds base x) \<le> k"
proof (induction k arbitrary: x)
  case (Suc k)
  show ?case
  proof (cases "x div base = 0")
    case False
    have "x div base < base ^ k" using Suc.prems(1) assms by (simp add: div_less_iff_less_mult mult.commute)
    moreover have "0 < k" using False calculation by (cases k) auto
    ultimately show ?thesis using Suc.IH[of "x div base"] False digits_rev_step[OF assms, of ds x] by simp
  qed (simp add: digits_rev_step[OF assms])
qed simp

text \<open>The value of a list of decimal digits, least significant first.\<close>

fun decimal :: "string \<Rightarrow> nat" where
  "decimal [] = 0"
| "decimal (c # s) = (of_char c - of_char CHR ''0'') + 10 * decimal s"

lemma digit_of: "d < 10 \<Longrightarrow> of_char (''0123456789ABCDEF'' ! d) = (48 + d :: nat) \<and> digit (''0123456789ABCDEF'' ! d)"
  by (auto simp: less_Suc_eq numeral_eq_Suc digit_def)


lemma decimal_digits: "decimal (digits_rev ''0123456789ABCDEF'' 10 x) = x \<and>
    (\<forall>c\<in>set (digits_rev ''0123456789ABCDEF'' 10 x). digit c)"
proof (induction x rule: less_induct)
  case (less x)
  note d = digit_of[of "x mod 10"]
  show ?case
  proof (cases "x div 10 = 0")
    case False
    then have "x div 10 < x" by simp
    then have "decimal (digits_rev ''0123456789ABCDEF'' 10 x) = x mod 10 + 10 * (x div 10)"
      using less.IH d False by (subst digits_rev_step) simp_all
    moreover have "\<forall>c\<in>set (digits_rev ''0123456789ABCDEF'' 10 x). digit c"
      using less.IH[OF \<open>x div 10 < x\<close>] d False by (subst digits_rev_step) simp_all
    ultimately show ?thesis by simp
  next
    case True
    then show ?thesis using d by (subst (1 2) digits_rev_step) simp_all
  qed
qed

lemma atoi_loop_digits:
  "\<forall>c\<in>set s. digit c \<Longrightarrow> atoi_loop n (rev s) = n * 10 ^ length s + of_nat (decimal s)"
proof (induction s arbitrary: n)
  case (Cons c s)
  have app: "\<forall>c\<in>set s1. digit c \<Longrightarrow> atoi_loop m (s1 @ s2) = atoi_loop (atoi_loop m s1) s2" for m s1 s2
    by (induction s1 arbitrary: m) auto
  have dg: "digit c" using Cons.prems by simp
  then have c: "of_char CHR ''0'' \<le> (of_char c :: nat)"
    by (simp add: digit_def) (metis of_nat_le_iff of_nat_numeral of_nat_of_char)
  have w: "(of_char c :: uint) - of_char CHR ''0'' = of_nat (of_char c - of_char CHR ''0'')"
    using c by (simp add: of_nat_diff of_nat_of_char)
  have "atoi_loop n (rev (c # s)) = (n * 10 ^ length s + of_nat (decimal s)) * 10 + of_char c - of_char CHR ''0''"
    using Cons app[of "rev s" n "[c]"] dg by simp
  also have "\<dots> = (n * 10 ^ length s + of_nat (decimal s)) * 10 + (of_char c - of_char CHR ''0'')" by simp
  also have "\<dots> = n * 10 ^ length (c # s) + of_nat (decimal (c # s))"
    unfolding w by (simp add: algebra_simps)
  finally show ?case .
qed simp

lemma atoi_printint_unsigned: "atoi (rev (digits_rev ''0123456789ABCDEF'' 10 (unat x))) = x"
  using atoi_loop_digits[of "digits_rev ''0123456789ABCDEF'' 10 (unat x)" 0] decimal_digits[of "unat x"]
  by (simp add: atoi_def)

subsection \<open>Formats\<close>

text \<open>The usual notation of a number in a base, most significant digit first.\<close>

fun base_repr :: "nat \<Rightarrow> nat \<Rightarrow> string" where
  "base_repr b n = (if n < b \<or> b < 2 then [''0123456789ABCDEF'' ! n] else base_repr b (n div b) @ [''0123456789ABCDEF'' ! (n mod b)])"

declare base_repr.simps [simp del]

lemma rev_digits_rev: "1 < b \<Longrightarrow> rev (digits_rev ''0123456789ABCDEF'' b n) = base_repr b n"
proof (induction n rule: less_induct)
  case (less n)
  show ?case
  proof (cases "n < b")
    case True
    then show ?thesis using less.prems by (subst digits_rev_step, simp, subst base_repr.simps) simp
  next
    case False
    then have "n div b < n" "n div b \<noteq> 0" using less.prems by (simp_all add: div_eq_0_iff)
    then show ?thesis
      using less.IH[of "n div b"] less.prems False by (subst digits_rev_step, simp, subst base_repr.simps) simp
  qed
qed

lemma printint_repr:
  "printint x 16 False = base_repr 16 (unat x)"
  "printint x 10 True = (if sint x < 0 then CHR ''-'' # base_repr 10 (unat (- x)) else base_repr 10 (unat x))"
  by (simp_all add: printint_def Let_def rev_digits_rev)

text \<open>
  The pieces of a format with the values that are printed: how they are written in the format, the words
  they take from the argument area, and what they stand for in the output.
\<close>

datatype piece = Lit char | Dec int | Hex nat | Ptr nat | Str uint string | Null | Chr char | Percent | Unknown char

fun piece_fmt :: "piece \<Rightarrow> string" where
  "piece_fmt (Lit c) = [c]"
| "piece_fmt (Dec i) = ''%d''"
| "piece_fmt (Hex n) = ''%x''"
| "piece_fmt (Ptr n) = ''%p''"
| "piece_fmt (Str a s) = ''%s''"
| "piece_fmt Null = ''%s''"
| "piece_fmt (Chr c) = ''%c''"
| "piece_fmt Percent = ''%%''"
| "piece_fmt (Unknown c) = [CHR ''%'', c]"

fun piece_args :: "piece \<Rightarrow> uint list" where
  "piece_args (Dec i) = [word_of_int i]"
| "piece_args (Hex n) = [of_nat n]"
| "piece_args (Ptr n) = [of_nat n]"
| "piece_args (Str a s) = [a]"
| "piece_args Null = [0]"
| "piece_args (Chr c) = [of_char c]"
| "piece_args _ = []"

fun piece_out :: "piece \<Rightarrow> string" where
  "piece_out (Lit c) = [c]"
| "piece_out (Dec i) = (if i < 0 then CHR ''-'' # base_repr 10 (nat (- i)) else base_repr 10 (nat i))"
| "piece_out (Hex n) = base_repr 16 n"
| "piece_out (Ptr n) = base_repr 16 n"
| "piece_out (Str a s) = s"
| "piece_out Null = ''(null)''"
| "piece_out (Chr c) = [c]"
| "piece_out Percent = ''%''"
| "piece_out (Unknown c) = [CHR ''%'', c]"

fun piece_ok :: "(uint \<Rightarrow> string) \<Rightarrow> piece \<Rightarrow> bool" where
  "piece_ok str (Lit c) = (c \<noteq> CHR ''%'')"
| "piece_ok str (Dec i) = (- (2 ^ 31) \<le> i \<and> i < 2 ^ 31)"
| "piece_ok str (Hex n) = (n < 2 ^ 32)"
| "piece_ok str (Ptr n) = (n < 2 ^ 32)"
| "piece_ok str (Str a s) = (a \<noteq> 0 \<and> str a = s)"
| "piece_ok str (Unknown c) = (c \<notin> {CHR ''d'', CHR ''x'', CHR ''p'', CHR ''s'', CHR ''c'', CHR ''%''})"
| "piece_ok str _ = True"

lemma printint_dec:
  assumes "- (2 ^ 31) \<le> i" "i < 2 ^ 31"
  shows "printint (word_of_int i) 10 True = piece_out (Dec i)"
proof -
  have s: "sint (word_of_int i :: uint) = i" using assms by (simp add: signed_of_int signed_take_bit_int_eq_self)
  have u: "unat (word_of_int k :: uint) = nat k" if "0 \<le> k" "k \<le> 2 ^ 31" for k
    using that by (simp add: unsigned_of_int take_bit_int_eq_self)
  show ?thesis
  proof (cases "i < 0")
    case True
    then have "unat (- word_of_int i :: uint) = nat (- i)" using u[of "- i"] assms by (simp flip: wi_hom_neg)
    then show ?thesis using True s by (simp add: printint_repr)
  qed (use s u[of i] assms in \<open>simp add: printint_repr\<close>)
qed

lemma printint_hex: "n < 2 ^ 32 \<Longrightarrow> printint (of_nat n) 16 False = base_repr 16 n"
  by (simp add: printint_repr unsigned_of_nat take_bit_nat_eq_self)

lemma char_of_of_char: "char_of (unat (of_char c :: uint)) = c"
proof -
  have "(of_char c :: nat) < 2 ^ 32" by (rule less_trans[OF nat_of_char_less_256]) simp
  then have "take_bit 32 (of_char c :: nat) = of_char c" by (rule take_bit_nat_eq_self)
  then have "unat (of_nat (of_char c) :: uint) = of_char c" by (simp add: unsigned_of_nat)
  then show ?thesis by (simp add: of_nat_of_char)
qed

lemma printf_loop_pieces:
  assumes "\<forall>p\<in>set ps. piece_ok str p"
  shows "printf_loop str (\<lambda>k. (pre @ concat (map piece_args ps)) ! k) (length pre) False (concat (map piece_fmt ps)) =
    concat (map piece_out ps)"
  using assms
proof (induction ps arbitrary: pre)
  case (Cons p ps)
  have ok: "piece_ok str p" using Cons.prems by simp
  have step: "printf_loop str (\<lambda>k. (pre @ v # concat (map piece_args ps)) ! k) (Suc (length pre)) False (concat (map piece_fmt ps)) =
      concat (map piece_out ps)" for v
    using Cons.IH[of "pre @ [v]"] Cons.prems by simp
  have none: "printf_loop str (\<lambda>k. (pre @ concat (map piece_args ps)) ! k) (length pre) False (concat (map piece_fmt ps)) =
      concat (map piece_out ps)"
    using Cons.IH[of pre] Cons.prems by simp
  show ?case
    using ok step none printint_dec printint_hex
    by (cases p) (auto simp: null_str_def char_of_of_char simp del: piece_out.simps(2))
qed simp

subsection \<open>Words\<close>

definition blank :: "char \<Rightarrow> bool" where
  "blank x \<longleftrightarrow> x \<in> {CHR '' '', CHR 0x0D, CHR 0x09, CHR 0x0A, CHR 0x0B}"

function words :: "string \<Rightarrow> string list" where
  "words s = (let t = dropWhile blank s in
     if t = [] then [] else takeWhile (\<lambda>x. \<not> blank x) t # words (dropWhile (\<lambda>x. \<not> blank x) t))"
  by pat_completeness auto
termination
proof (relation "measure length")
  fix s t assume t: "t = dropWhile blank s" "t \<noteq> []"
  have "\<not> blank (hd t)" using t hd_dropWhile by metis
  then have "length (dropWhile (\<lambda>x. \<not> blank x) t) < length t"
    using t(2) by (cases t) (auto simp: le_imp_less_Suc length_dropWhile_le)
  also have "\<dots> \<le> length s" using t(1) by (simp add: length_dropWhile_le)
  finally show "(dropWhile (\<lambda>x. \<not> blank x) t, s) \<in> measure length" by simp
qed simp

declare words.simps [simp del]

lemma words_Nil [simp]: "words [] = []"
  by (subst words.simps) simp

lemma words_blank: "blank x \<Longrightarrow> words (x # s) = words s"
  by (subst words.simps, subst (2) words.simps) simp

definition in_word :: "string \<Rightarrow> bool" where
  "in_word s \<longleftrightarrow> s \<noteq> [] \<and> \<not> blank (hd s)"

lemma words_word: "\<not> blank x \<Longrightarrow>
    words (x # s) = (x # takeWhile (\<lambda>x. \<not> blank x) s) # words (dropWhile (\<lambda>x. \<not> blank x) s)"
  by (subst words.simps) simp

lemma words_letter: "\<not> blank x \<Longrightarrow> length (words (x # s)) = (if in_word s then length (words s) else Suc (length (words s)))"
proof -
  assume x: "\<not> blank x"
  note w = words_word[OF x, of s]
  show ?thesis
  proof (cases "in_word s")
    case True
    then have "words s = takeWhile (\<lambda>x. \<not> blank x) s # words (dropWhile (\<lambda>x. \<not> blank x) s)"
      by (cases s) (auto simp: in_word_def words_word)
    then show ?thesis using w True by simp
  next
    case False
    then have "dropWhile (\<lambda>x. \<not> blank x) s = s" by (cases s) (auto simp: in_word_def)
    then show ?thesis using w False by simp
  qed
qed

lemma words_length: "length (words s) \<le> length s"
proof (induction s)
  case (Cons x s)
  then show ?case by (cases "blank x") (simp_all add: words_blank words_letter)
qed simp

lemma strchr_blank: "strchr [CHR '' '', CHR 0x0D, CHR 0x09, CHR 0x0A, CHR 0x0B] x \<noteq> None \<longleftrightarrow> blank x"
  by (auto simp: blank_def)

lemma fold_wc_char:
  "\<exists>b'. fold wc_char s (l, w, c, b) =
     (l + of_nat (count_list s (CHR 0x0A)), w + of_nat (length (words s)) - (if b \<and> in_word s then 1 else 0),
      c + of_nat (length s), b') \<and> (s \<noteq> [] \<longrightarrow> b' = (\<not> blank (last s))) \<and> (s = [] \<longrightarrow> b' = b)"
proof (induction s arbitrary: l w c b)
  case (Cons x s)
  show ?case
  proof (cases "blank x")
    case True
    then have "wc_char x (l, w, c, b) = (if x = CHR 0x0A then l + 1 else l, w, c + 1, False)"
      unfolding wc_char_def strchr_blank by simp
    then show ?thesis
      using Cons[of "if x = CHR 0x0A then l + 1 else l" w "c + 1" False] True
      by (auto simp: words_blank in_word_def)
  next
    case False
    then have "x \<noteq> CHR 0x0A" by (auto simp: blank_def)
    then have "wc_char x (l, w, c, b) = (l, if b then w else w + 1, c + 1, True)"
      unfolding wc_char_def strchr_blank using False by simp
    then show ?thesis
      using Cons[of l "if b then w else w + 1" "c + 1" True] False \<open>x \<noteq> CHR 0x0A\<close>
      by (auto simp: words_letter in_word_def)
  qed
qed (simp add: in_word_def)

lemma wc_loop_concat:
  "[] \<notin> set bufs \<Longrightarrow> wc_loop (map Some bufs) st = (case fold wc_char (concat bufs) st of (l, w, c, b) \<Rightarrow> Some (l, w, c))"
  by (induction bufs arbitrary: st) auto

subsection \<open>Properties\<close>

text \<open>
  C32 (printing and reading back). What \<open>printf\<close> prints for \<open>%d\<close> fits the buffer of \<open>printint\<close> and is read
  back by \<open>atoi\<close>: the number itself if it is not negative, and after a minus sign its negation.
  Hexadecimal output fits as well.
\<close>

theorem printint_atoi:
  "length (printint x 10 True) \<le> 16 \<and> length (printint x 16 False) \<le> 16 \<and>
   (if sint x < 0 then hd (printint x 10 True) = CHR ''-'' \<and> atoi (tl (printint x 10 True)) = - x
    else atoi (printint x 10 True) = x)"
proof -
  have b: "unat y < 10 ^ 10" "unat y < 16 ^ 8" for y :: uint using unsigned_less[of y, where 'a = nat] by simp_all
  have d10: "length (digits_rev ''0123456789ABCDEF'' 10 (unat y)) \<le> 10" for y :: uint
    using digits_rev_length[of 10 "unat y" 10] b by simp
  have d16: "length (digits_rev ''0123456789ABCDEF'' 16 (unat y)) \<le> 8" for y :: uint
    using digits_rev_length[of 16 "unat y" 8] b by simp
  have "length (printint x 10 True) \<le> 16" "length (printint x 16 False) \<le> 16"
    using d10[of x] d10[of "- x"] d16[of x] by (simp_all add: printint_def Let_def)
  then show ?thesis using atoi_printint_unsigned[of x] atoi_printint_unsigned[of "- x"] by (simp add: printint_def Let_def)
qed

text \<open>
  C33 (what \<open>printf\<close> prints). A format made of literal characters, of the conversions \<open>%d\<close>, \<open>%x\<close>, \<open>%p\<close>, \<open>%s\<close>,
  \<open>%c\<close> and \<open>%%\<close> and of unknown conversions, with the values in the argument area in their order, prints the
  pieces one after the other: numbers in the usual notation of their base, with a minus sign for negative
  ones, strings and characters as they are, \<open>(null)\<close> for a null pointer, and unknown conversions
  unchanged. (The comment above the function says that it only understands \<open>%d\<close>, \<open>%x\<close>, \<open>%p\<close> and \<open>%s\<close>.)
\<close>

theorem printf_renders:
  assumes "\<forall>p\<in>set ps. piece_ok str p"
  shows "printf str (concat (map piece_fmt ps)) (\<lambda>k. concat (map piece_args ps) ! k) = concat (map piece_out ps)"
  using printf_loop_pieces[OF assms, of "[]"] by (simp add: printf_def)

theorem printf_renders_witness:
  "printf (\<lambda>_. ''sh'') ''pid %d %s%%'' (\<lambda>k. [- 12, 4096] ! k) = ''pid -12 sh%''"
proof -
  have "base_repr 10 12 = ''12''" by (subst base_repr.simps, simp, subst base_repr.simps, simp)
  then show ?thesis
    using printf_renders[of "[Lit CHR ''p'', Lit CHR ''i'', Lit CHR ''d'', Lit CHR '' '', Dec (- 12), Lit CHR '' '', Str 4096 ''sh'', Percent]" "\<lambda>_. ''sh''"]
    by simp
qed

text \<open>
  C34 (what \<open>wc\<close> counts). However the file arrives in pieces, \<open>wc\<close> returns its number of newlines, of
  maximal runs of non-blank characters, and of characters, each modulo \<open>2 ^ 32\<close>. For less than \<open>2 ^ 31\<close>
  characters the values it prints with \<open>%d\<close> are the numbers themselves.
\<close>

theorem wc_counts:
  assumes "[] \<notin> set bufs"
  shows "\<exists>l w c. wc (map Some bufs) = Some (l, w, c) \<and> l = of_nat (count_list (concat bufs) (CHR 0x0A)) \<and>
    w = of_nat (length (words (concat bufs))) \<and> c = of_nat (length (concat bufs)) \<and>
    (length (concat bufs) < 2 ^ 31 \<longrightarrow> sint l = int (count_list (concat bufs) (CHR 0x0A)) \<and>
       sint w = int (length (words (concat bufs))) \<and> sint c = int (length (concat bufs)))"
proof -
  have small: "sint (of_nat n :: uint) = int n" if "n < 2 ^ 31" for n
    using that by (simp add: signed_of_nat signed_take_bit_int_eq_self)
  note le = count_le_length[of "concat bufs" "CHR 0x0A"] words_length[of "concat bufs"]
  have "wc (map Some bufs) = Some (of_nat (count_list (concat bufs) (CHR 0x0A)), of_nat (length (words (concat bufs))),
      of_nat (length (concat bufs)))"
    using wc_loop_concat[OF assms, of "(0, 0, 0, False)"] fold_wc_char[of "concat bufs" 0 0 0 False]
    by (auto simp: wc_def)
  then show ?thesis
    using small[of "length (concat bufs)"] small[of "length (words (concat bufs))"] small[of "count_list (concat bufs) (CHR 0x0A)"] le
    by auto
qed

theorem wc_counts_witness:
  "\<exists>l w c. wc (map Some [''ab c'', ''d'']) = Some (l, w, c) \<and> sint l = 0 \<and> sint w = 2 \<and> sint c = 5"
proof -
  have "length (words ''ab cd'') = 2" by (simp add: words_letter words_blank in_word_def blank_def)
  then show ?thesis using wc_counts[of "[''ab c'', ''d'']"] by auto
qed

end
