(* ===== verification/Shell.thy ===== *)
theory Shell
  imports Prelude
begin

text \<open>
  The command parser of \<open>sh.c\<close>. A pointer into the command line is the suffix of the line it points at,
  so that \<open>s < es\<close> means that the suffix is not empty. The command structures are the datatype \<open>cmd\<close>;
  a token is kept as its two pointers \<open>q\<close> and \<open>eq\<close>, as the structures do. \<open>parseexec\<close> fills the
  argument list of a command that \<open>parseredirs\<close> has already wrapped; here the redirections are
  collected in order and wrapped around the finished command. \<open>malloc\<close> is taken to succeed.

  The parsing functions call each other; they take a number that bounds the depth of these calls, and
  give \<open>Deep\<close> beyond it. \<open>parsecmd\<close> starts with four times the length of the line plus four.
\<close>

subsection \<open>The code\<close>

datatype cmd =
    EXEC "(string \<times> string) list"
  | REDIR cmd string string int int
  | PIPE cmd cmd
  | LIST cmd cmd
  | BACK cmd

abbreviation (input) MAXARGS :: nat where "MAXARGS \<equiv> 10"
abbreviation (input) O_RDONLY :: int where "O_RDONLY \<equiv> 0"
abbreviation (input) O_WRONLY_CREATE :: int where "O_WRONLY_CREATE \<equiv> 0x201"

definition whitespace :: "char \<Rightarrow> bool" where
  "whitespace x \<longleftrightarrow> x = CHR '' '' \<or> x = CHR 0x09 \<or> x = CHR 0x0D \<or> x = CHR 0x0A \<or> x = CHR 0x0B"

definition symbols :: "char \<Rightarrow> bool" where
  "symbols x \<longleftrightarrow> x \<in> set ''<|>&;()''"

abbreviation skip :: "string \<Rightarrow> string" where
  "skip s \<equiv> dropWhile whitespace s"

definition wordchar :: "char \<Rightarrow> bool" where
  "wordchar x \<longleftrightarrow> \<not> whitespace x \<and> \<not> symbols x"

text \<open>The result is the token's kind, its two pointers and the new \<open>*ps\<close>.\<close>

definition scan_token :: "string \<Rightarrow> char \<times> string" where
  "scan_token s =
     (case s of [] \<Rightarrow> (CHR 0x00, s)
      | c # r \<Rightarrow>
        if c \<in> set ''|();&<'' then (c, r)
        else if c = CHR ''>'' then (case r of d # r1 \<Rightarrow> if d = CHR ''>'' then (CHR ''+'', r1) else (c, r)
           | [] \<Rightarrow> (c, r))
        else (CHR ''a'', dropWhile wordchar s))"

definition gettoken :: "string \<Rightarrow> char \<times> string \<times> string \<times> string" where
  "gettoken ps =
     (let s = skip ps; q = s; (ret, s) = scan_token s in (ret, q, s, skip s))"

definition peek :: "string \<Rightarrow> string \<Rightarrow> string \<times> bool" where
  "peek ps toks = (let s = skip ps in (s, s \<noteq> [] \<and> hd s \<in> set toks))"

datatype 'a parse = Parsed 'a string | Error string | Deep

type_synonym redir = "string \<times> string \<times> int \<times> int"

lemma skip_le: "length (skip s) \<le> length s"
  by (rule length_dropWhile_le)

lemma scan_token_le: "length (snd (scan_token s)) \<le> length s"
  using length_dropWhile_le[of wordchar s] by (auto simp: scan_token_def split: list.split)

lemma scan_token_less:
  assumes "s \<noteq> []" "\<not> whitespace (hd s)"
  shows "length (snd (scan_token s)) < length s"
proof -
  obtain c r where c: "s = c # r" using assms(1) by (cases s) auto
  show ?thesis
  proof (cases "wordchar c")
    case True
    then have "c \<notin> set ''|();&<''" "c \<noteq> CHR ''>''" by (auto simp: wordchar_def symbols_def)
    then have "snd (scan_token s) = dropWhile wordchar r" using c True by (auto simp: scan_token_def)
    then show ?thesis using c length_dropWhile_le[of wordchar r] by simp
  next
    case False
    then have "c \<in> set ''|();&<'' \<or> c = CHR ''>''" using assms(2) c by (auto simp: wordchar_def symbols_def)
    then show ?thesis using c by (auto simp: scan_token_def split: list.splits if_splits)
  qed
qed

lemma gettoken_fields: "gettoken ps = (fst (scan_token (skip ps)), skip ps, snd (scan_token (skip ps)),
    skip (snd (scan_token (skip ps))))"
  by (simp add: gettoken_def Let_def split: prod.split)

lemma gettoken_le: "gettoken s = (tok, q, eq, s') \<Longrightarrow> length s' \<le> length s"
  using skip_le[of s] scan_token_le[of "skip s"] skip_le[of "snd (scan_token (skip s))"]
  by (auto simp: gettoken_fields)

lemma gettoken_less: "gettoken s = (tok, q, eq, s') \<Longrightarrow> skip s \<noteq> [] \<Longrightarrow> length s' < length s"
  using skip_le[of s] scan_token_less[of "skip s"] skip_le[of "snd (scan_token (skip s))"] hd_dropWhile[of whitespace s]
  by (auto simp: gettoken_fields)

lemma skip_skip [simp]: "skip (skip s) = skip s"
  by (induction s) auto

lemma peek_fields: "peek s toks = (skip s, skip s \<noteq> [] \<and> hd (skip s) \<in> set toks)"
  by (simp add: peek_def Let_def)

lemma gettoken_zero: "fst (gettoken s) = CHR 0x00 \<Longrightarrow> skip s = [] \<or> hd (skip s) = CHR 0x00"
  by (auto simp: gettoken_fields scan_token_def split: list.splits if_splits)

lemma redir_shrinks:
  assumes "(s1, True) = peek s toks" "(tok, x, y, s2) = gettoken s1" "(t, q, eq, s3) = gettoken s2"
  shows "length s3 < length s"
proof -
  have "skip s1 \<noteq> []" "length s1 \<le> length s" using assms(1) skip_le[of s] by (auto simp: peek_fields)
  then show ?thesis using gettoken_less[OF assms(2)[symmetric]] gettoken_le[OF assms(3)[symmetric]] by simp
qed

function parseredirs :: "redir list \<Rightarrow> string \<Rightarrow> redir list parse" where
  "parseredirs rs s =
     (case peek s ''<>'' of (s, b) \<Rightarrow>
      if \<not> b then Parsed rs s
      else case gettoken s of (tok, _, _, s) \<Rightarrow>
        (case gettoken s of (t, q, eq, s) \<Rightarrow>
         if t \<noteq> CHR ''a'' then Error ''missing file for redirection''
         else if tok = CHR ''<'' then parseredirs (rs @ [(q, eq, O_RDONLY, 0)]) s
         else parseredirs (rs @ [(q, eq, O_WRONLY_CREATE, 1)]) s))"
  by pat_completeness auto
termination
  by (relation "measure (\<lambda>(rs, s). length s)") (auto dest: redir_shrinks)


declare parseredirs.simps [simp del]

lemma peek_shrinks:
  "(s1, True) = peek s toks \<Longrightarrow> (tok, x, y, s2) = gettoken s1 \<Longrightarrow> length s2 < length s"
  using skip_le[of s] gettoken_less[of s1 tok x y s2] by (auto simp: peek_fields)

lemma parseredirs_le: "parseredirs rs s = Parsed rs' s' \<Longrightarrow> length s' \<le> length s"
proof (induction "length s" arbitrary: rs s rule: less_induct)
  case less
  obtain s1 b where p: "peek s ''<>'' = (s1, b)" by (cases "peek s ''<>''")
  obtain tok x y s2 where g1: "gettoken s1 = (tok, x, y, s2)" by (cases "gettoken s1") auto
  obtain t q eq s3 where g2: "gettoken s2 = (t, q, eq, s3)" by (cases "gettoken s2") auto
  show ?case
  proof (cases b)
    case False
    then show ?thesis using less.prems p skip_le[of s] by (subst (asm) parseredirs.simps) (auto simp: peek_fields)
  next
    case True
    then have "length s3 < length s" using redir_shrinks p g1 g2 by metis
    moreover obtain rs1 where "parseredirs rs1 s3 = Parsed rs' s'"
      using less.prems p g1 g2 True by (subst (asm) parseredirs.simps) (auto split: if_splits)
    ultimately show ?thesis using less.hyps[of s3] by fastforce
  qed
qed

function exec_loop :: "(string \<times> string) list \<Rightarrow> redir list \<Rightarrow> string \<Rightarrow> ((string \<times> string) list \<times> redir list) parse" where
  "exec_loop argv rs s =
     (case peek s ''|)&;'' of (s, b) \<Rightarrow>
      if b then Parsed (argv, rs) s
      else case gettoken s of (tok, q, eq, s) \<Rightarrow>
        if tok = CHR 0x00 then Parsed (argv, rs) s
        else if tok \<noteq> CHR ''a'' then Error ''syntax''
        else let argv = argv @ [(q, eq)] in
          if length argv \<ge> MAXARGS then Error ''too many args''
          else case parseredirs rs s of Parsed rs s \<Rightarrow> exec_loop argv rs s | Error e \<Rightarrow> Error e | Deep \<Rightarrow> Deep)"
  by pat_completeness auto
termination
  by (relation "measure (\<lambda>(argv, rs, s). MAXARGS - length argv)") auto

declare exec_loop.simps [simp del]

function parse_backs :: "cmd \<Rightarrow> string \<Rightarrow> cmd \<times> string" where
  "parse_backs c s =
     (case peek s ''&'' of (s, b) \<Rightarrow>
      if b then (case gettoken s of (_, _, _, s) \<Rightarrow> parse_backs (BACK c) s) else (c, s))"
  by pat_completeness auto
termination
  by (relation "measure (\<lambda>(c, s). length s)") (auto dest: peek_shrinks)

declare parse_backs.simps [simp del]

definition wrap :: "redir list \<Rightarrow> cmd \<Rightarrow> cmd" where
  "wrap rs c = fold (\<lambda>(q, eq, mode, fd) c. REDIR c q eq mode fd) rs c"

fun parseline :: "nat \<Rightarrow> string \<Rightarrow> cmd parse"
  and parsepipe :: "nat \<Rightarrow> string \<Rightarrow> cmd parse"
  and parseexec :: "nat \<Rightarrow> string \<Rightarrow> cmd parse"
  and parseblock :: "nat \<Rightarrow> string \<Rightarrow> cmd parse" where
  "parseline 0 s = Deep"
| "parseline (Suc n) s =
     (case parsepipe n s of Error e \<Rightarrow> Error e | Deep \<Rightarrow> Deep
      | Parsed c s \<Rightarrow>
        (case parse_backs c s of (c, s) \<Rightarrow>
         case peek s '';'' of (s, b) \<Rightarrow>
         if \<not> b then Parsed c s
         else case gettoken s of (_, _, _, s) \<Rightarrow>
           (case parseline n s of Error e \<Rightarrow> Error e | Deep \<Rightarrow> Deep | Parsed d s \<Rightarrow> Parsed (LIST c d) s)))"
| "parsepipe 0 s = Deep"
| "parsepipe (Suc n) s =
     (case parseexec n s of Error e \<Rightarrow> Error e | Deep \<Rightarrow> Deep
      | Parsed c s \<Rightarrow>
        (case peek s ''|'' of (s, b) \<Rightarrow>
         if \<not> b then Parsed c s
         else case gettoken s of (_, _, _, s) \<Rightarrow>
           (case parsepipe n s of Error e \<Rightarrow> Error e | Deep \<Rightarrow> Deep | Parsed d s \<Rightarrow> Parsed (PIPE c d) s)))"
| "parseexec 0 s = Deep"
| "parseexec (Suc n) s =
     (case peek s ''('' of (s, b) \<Rightarrow>
      if b then parseblock n s
      else case parseredirs [] s of Error e \<Rightarrow> Error e | Deep \<Rightarrow> Deep
        | Parsed rs s \<Rightarrow>
          (case exec_loop [] rs s of Error e \<Rightarrow> Error e | Deep \<Rightarrow> Deep
           | Parsed (argv, rs) s \<Rightarrow> Parsed (wrap rs (EXEC argv)) s))"
| "parseblock 0 s = Deep"
| "parseblock (Suc n) s =
     (case peek s ''('' of (s, b) \<Rightarrow>
      if \<not> b then Error ''parseblock''
      else case gettoken s of (_, _, _, s) \<Rightarrow>
        (case parseline n s of Error e \<Rightarrow> Error e | Deep \<Rightarrow> Deep
         | Parsed c s \<Rightarrow>
           (case peek s '')'' of (s, b) \<Rightarrow>
            if \<not> b then Error ''syntax - missing )''
            else case gettoken s of (_, _, _, s) \<Rightarrow>
              (case parseredirs [] s of Error e \<Rightarrow> Error e | Deep \<Rightarrow> Deep
               | Parsed rs s \<Rightarrow> Parsed (wrap rs c) s))))"

text \<open>Writing a NUL at the pointer \<open>p\<close> into the line \<open>buf\<close>; the line's own NUL is behind the list.\<close>

definition put_nul :: "string \<Rightarrow> string \<Rightarrow> string" where
  "put_nul p buf = buf[length buf - length p := CHR 0x00]"

fun nulterminate :: "cmd \<Rightarrow> string \<Rightarrow> string" where
  "nulterminate (EXEC argv) buf = fold (\<lambda>(q, eq) buf. put_nul eq buf) argv buf"
| "nulterminate (REDIR c q eq mode fd) buf = put_nul eq (nulterminate c buf)"
| "nulterminate (PIPE l r) buf = nulterminate r (nulterminate l buf)"
| "nulterminate (LIST l r) buf = nulterminate r (nulterminate l buf)"
| "nulterminate (BACK c) buf = nulterminate c buf"

text \<open>The command and the line as \<open>nulterminate\<close> leaves it.\<close>

definition parsecmd :: "string \<Rightarrow> (cmd \<times> string) parse" where
  "parsecmd s =
     (case parseline (4 * length s + 4) s of Error e \<Rightarrow> Error e | Deep \<Rightarrow> Deep
      | Parsed c r \<Rightarrow>
        (case peek r [] of (r, _) \<Rightarrow>
         if r \<noteq> [] then Error ''syntax'' else Parsed (c, nulterminate c s) r))"

subsection \<open>The parser ends\<close>

lemma peek_lt: "peek s toks = (s1, True) \<Longrightarrow> gettoken s1 = (tok, x, y, s2) \<Longrightarrow> length s2 < length s"
  using peek_shrinks by metis

lemma peek_le: "peek s toks = (s1, b) \<Longrightarrow> length s1 \<le> length s"
  using skip_le[of s] by (auto simp: peek_fields)

lemma parseredirs_not_Deep: "parseredirs rs s \<noteq> Deep"
proof (induction "length s" arbitrary: rs s rule: less_induct)
  case less
  obtain s1 b where p: "peek s ''<>'' = (s1, b)" by (cases "peek s ''<>''")
  obtain tok x y s2 where g1: "gettoken s1 = (tok, x, y, s2)" by (cases "gettoken s1") auto
  obtain t q eq s3 where g2: "gettoken s2 = (t, q, eq, s3)" by (cases "gettoken s2") auto
  have "b \<Longrightarrow> length s3 < length s" using redir_shrinks p g1 g2 by metis
  then show ?case using less.hyps[of s3] p g1 g2 by (subst parseredirs.simps) auto
qed

lemma exec_loop_ends: "exec_loop argv rs s \<noteq> Deep \<and> (exec_loop argv rs s = Parsed x s' \<longrightarrow> length s' \<le> length s)"
proof (induction "MAXARGS - length argv" arbitrary: argv rs s rule: less_induct)
  case less
  obtain s1 b where p: "peek s ''|)&;'' = (s1, b)" by (cases "peek s ''|)&;''")
  obtain tok q eq s2 where g: "gettoken s1 = (tok, q, eq, s2)" by (cases "gettoken s1") auto
  have l: "length s1 \<le> length s" "length s2 \<le> length s" using peek_le[OF p] gettoken_le[OF g] by auto
  let ?argv = "argv @ [(q, eq)]"
  have ih: "exec_loop ?argv rs1 s3 \<noteq> Deep \<and> (exec_loop ?argv rs1 s3 = Parsed x s' \<longrightarrow> length s' \<le> length s)"
    if "length ?argv < MAXARGS" "parseredirs rs s2 = Parsed rs1 s3" for rs1 s3
  proof -
    have "MAXARGS - length ?argv < MAXARGS - length argv" using that(1) by simp
    then show ?thesis using less.hyps[of ?argv rs1 s3] parseredirs_le[OF that(2)] l(2) by fastforce
  qed
  show ?case
    using p g l ih parseredirs_not_Deep[of rs s2]
    by (subst (1 2) exec_loop.simps) (auto split: parse.splits if_splits)
qed

lemma parse_backs_le: "parse_backs c s = (c', s') \<Longrightarrow> length s' \<le> length s"
proof (induction "length s" arbitrary: c s rule: less_induct)
  case less
  obtain s1 b where p: "peek s ''&'' = (s1, b)" by (cases "peek s ''&''")
  obtain tok q eq s2 where g: "gettoken s1 = (tok, q, eq, s2)" by (cases "gettoken s1") auto
  show ?case
  proof (cases b)
    case True
    then have "length s2 < length s" using peek_lt[OF _ g] p by fastforce
    then show ?thesis using less.hyps[of s2 "BACK c"] less.prems p g True by (subst (asm) parse_backs.simps) auto
  next
    case False
    then show ?thesis using less.prems p peek_le[OF p] by (subst (asm) parse_backs.simps) auto
  qed
qed

definition ends :: "nat \<Rightarrow> (string \<Rightarrow> 'a parse) \<Rightarrow> nat \<Rightarrow> bool" where
  "ends k f n \<longleftrightarrow> (\<forall>s. 4 * length s + k < n \<longrightarrow> f s \<noteq> Deep \<and> (\<forall>c s'. f s = Parsed c s' \<longrightarrow> length s' \<le> length s))"

lemma endsD: "ends k f n \<Longrightarrow> 4 * length s + k < n \<Longrightarrow> f s \<noteq> Deep"
  "ends k f n \<Longrightarrow> 4 * length s + k < n \<Longrightarrow> f s = Parsed c s' \<Longrightarrow> length s' \<le> length s"
  by (auto simp: ends_def)

lemma parseline_ends:
  assumes "ends 2 (parsepipe n) n" "ends 3 (parseline n) n"
  shows "ends 3 (parseline (Suc n)) (Suc n)"
  unfolding ends_def
proof (intro allI impI)
  fix s :: string assume s: "4 * length s + 3 < Suc n"
  show "parseline (Suc n) s \<noteq> Deep \<and> (\<forall>c s'. parseline (Suc n) s = Parsed c s' \<longrightarrow> length s' \<le> length s)"
  proof (cases "parsepipe n s")
    case (Parsed c s1)
    then have l1: "length s1 \<le> length s" using endsD(2)[OF assms(1)] s by simp
    obtain c2 s2 where b: "parse_backs c s1 = (c2, s2)" by (cases "parse_backs c s1")
    obtain s3 t where p: "peek s2 '';'' = (s3, t)" by (cases "peek s2 '';''")
    obtain tok q eq s4 where g: "gettoken s3 = (tok, q, eq, s4)" by (cases "gettoken s3") auto
    have l: "length s2 \<le> length s" "length s3 \<le> length s"
      using l1 parse_backs_le[OF b] peek_le[OF p] by auto
    have l4: "length s4 < length s" if t using peek_lt[OF _ g] p that l by fastforce
    then have "t \<Longrightarrow> parseline n s4 \<noteq> Deep \<and> (\<forall>c s'. parseline n s4 = Parsed c s' \<longrightarrow> length s' \<le> length s)"
      using endsD[OF assms(2), of s4] s by fastforce
    then show ?thesis using Parsed b p g l by (auto split: parse.splits)
  qed (use endsD(1)[OF assms(1), of s] s in auto)
qed

lemma parsepipe_ends:
  assumes "ends 1 (parseexec n) n" "ends 2 (parsepipe n) n"
  shows "ends 2 (parsepipe (Suc n)) (Suc n)"
  unfolding ends_def
proof (intro allI impI)
  fix s :: string assume s: "4 * length s + 2 < Suc n"
  show "parsepipe (Suc n) s \<noteq> Deep \<and> (\<forall>c s'. parsepipe (Suc n) s = Parsed c s' \<longrightarrow> length s' \<le> length s)"
  proof (cases "parseexec n s")
    case (Parsed c s1)
    then have l1: "length s1 \<le> length s" using endsD(2)[OF assms(1)] s by simp
    obtain s3 t where p: "peek s1 ''|'' = (s3, t)" by (cases "peek s1 ''|''")
    obtain tok q eq s4 where g: "gettoken s3 = (tok, q, eq, s4)" by (cases "gettoken s3") auto
    have l: "length s3 \<le> length s" using l1 peek_le[OF p] by auto
    have l4: "length s4 < length s" if t using peek_lt[OF _ g] p that l1 by fastforce
    then have "t \<Longrightarrow> parsepipe n s4 \<noteq> Deep \<and> (\<forall>c s'. parsepipe n s4 = Parsed c s' \<longrightarrow> length s' \<le> length s)"
      using endsD[OF assms(2), of s4] s by fastforce
    then show ?thesis using Parsed p g l by (auto split: parse.splits)
  qed (use endsD(1)[OF assms(1), of s] s in auto)
qed

lemma parseblock_ends:
  assumes "ends 3 (parseline n) n"
  shows "ends 0 (parseblock (Suc n)) (Suc n)"
  unfolding ends_def
proof (intro allI impI)
  fix s :: string assume s: "4 * length s + 0 < Suc n"
  obtain s1 b where p: "peek s ''('' = (s1, b)" by (cases "peek s ''(''")
  obtain tok q eq s2 where g: "gettoken s1 = (tok, q, eq, s2)" by (cases "gettoken s1") auto
  show "parseblock (Suc n) s \<noteq> Deep \<and> (\<forall>c s'. parseblock (Suc n) s = Parsed c s' \<longrightarrow> length s' \<le> length s)"
  proof (cases b)
    case True
    then have l2: "length s2 < length s" using peek_lt[OF _ g] p by fastforce
    then have n: "4 * length s2 + 3 < n" using s by simp
    show ?thesis
    proof (cases "parseline n s2")
      case (Parsed c s3)
      then have l3: "length s3 \<le> length s2" using endsD(2)[OF assms n] by simp
      obtain s4 b4 where p4: "peek s3 '')'' = (s4, b4)" by (cases "peek s3 '')''")
      obtain tok q eq s5 where g5: "gettoken s4 = (tok, q, eq, s5)" by (cases "gettoken s4") auto
      have "length s5 \<le> length s" using peek_le[OF p4] gettoken_le[OF g5] l2 l3 by simp
      then show ?thesis
        using Parsed True p g p4 g5 parseredirs_not_Deep[of "[]" s5] parseredirs_le[of "[]" s5]
        by (auto split: parse.splits intro: le_trans)
    qed (use True p g endsD(1)[OF assms n] in auto)
  qed (use p g in auto)
qed

lemma parseexec_ends:
  assumes "ends 0 (parseblock n) n"
  shows "ends 1 (parseexec (Suc n)) (Suc n)"
  unfolding ends_def
proof (intro allI impI)
  fix s :: string assume s: "4 * length s + 1 < Suc n"
  obtain s1 b where p: "peek s ''('' = (s1, b)" by (cases "peek s ''(''")
  have l1: "length s1 \<le> length s" using peek_le[OF p] .
  show "parseexec (Suc n) s \<noteq> Deep \<and> (\<forall>c s'. parseexec (Suc n) s = Parsed c s' \<longrightarrow> length s' \<le> length s)"
  proof (cases b)
    case True
    have "4 * length s1 + 0 < n" using l1 s by simp
    then have "parseblock n s1 \<noteq> Deep \<and> (\<forall>c s'. parseblock n s1 = Parsed c s' \<longrightarrow> length s' \<le> length s)"
      using endsD[OF assms, of s1] l1 by (meson le_trans)
    then show ?thesis using True p by auto
  next
    case False
    have "exec_loop [] rs s2 \<noteq> Deep \<and> (\<forall>x s'. exec_loop [] rs s2 = Parsed x s' \<longrightarrow> length s' \<le> length s)"
      if "parseredirs [] s1 = Parsed rs s2" for rs s2
      using exec_loop_ends[of "[]" rs s2] parseredirs_le[OF that] l1 by (meson le_trans)
    then show ?thesis
      using False p parseredirs_not_Deep[of "[]" s1] by (auto split: parse.splits prod.splits)
  qed
qed

lemma parse_ends:
  "ends 3 (parseline n) n \<and> ends 2 (parsepipe n) n \<and> ends 1 (parseexec n) n \<and> ends 0 (parseblock n) n"
proof (induction n)
  case (Suc n)
  then show ?case using parseline_ends parsepipe_ends parseexec_ends parseblock_ends by blast
qed (simp add: ends_def)

subsection \<open>Tokens\<close>

definition suf :: "string \<Rightarrow> string \<Rightarrow> bool" where
  "suf s buf \<longleftrightarrow> (\<exists>u. buf = u @ s)"

text \<open>The two pointers of a token bound a non-empty run of word characters that cannot be extended.\<close>

definition token_ok :: "string \<Rightarrow> string \<times> string \<Rightarrow> bool" where
  "token_ok buf t \<longleftrightarrow> (case t of (q, eq) \<Rightarrow> suf q buf \<and>
     (\<exists>w. q = w @ eq \<and> w \<noteq> [] \<and> (\<forall>x\<in>set w. wordchar x)) \<and> (eq = [] \<or> \<not> wordchar (hd eq)))"

fun tokens :: "cmd \<Rightarrow> (string \<times> string) list" where
  "tokens (EXEC argv) = argv"
| "tokens (REDIR c q eq mode fd) = (q, eq) # tokens c"
| "tokens (PIPE l r) = tokens l @ tokens r"
| "tokens (LIST l r) = tokens l @ tokens r"
| "tokens (BACK c) = tokens c"

definition redir_tokens :: "redir list \<Rightarrow> (string \<times> string) list" where
  "redir_tokens rs = map (\<lambda>(q, eq, mode, fd). (q, eq)) rs"

lemma suf_refl [simp]: "suf s s"
  by (simp add: suf_def)

lemma suf_skip: "suf s buf \<Longrightarrow> suf (skip s) buf"
  by (metis suf_def append.assoc takeWhile_dropWhile_id)

lemma suf_drop: "suf s buf \<Longrightarrow> suf (dropWhile P s) buf"
  by (metis suf_def append.assoc takeWhile_dropWhile_id)

lemma suf_tl: "suf (c # s) buf \<Longrightarrow> suf s buf"
  by (metis suf_def append_Cons append.assoc append_Nil)

lemma scan_token_suf: "suf s buf \<Longrightarrow> suf (snd (scan_token s)) buf"
  using suf_drop[of s buf wordchar] by (auto simp: scan_token_def dest!: suf_tl split: list.split)

lemma gettoken_suf: "gettoken s = (tok, q, eq, s') \<Longrightarrow> suf s buf \<Longrightarrow> suf s' buf"
  using scan_token_suf[of "skip s" buf] suf_skip by (auto simp: gettoken_fields)

lemma peek_suf: "peek s toks = (s', b) \<Longrightarrow> suf s buf \<Longrightarrow> suf s' buf"
  using suf_skip by (auto simp: peek_fields)

lemma gettoken_word:
  assumes g: "gettoken s = (CHR ''a'', q, eq, s')" and s: "suf s buf"
  shows "token_ok buf (q, eq)"
proof -
  have st: "fst (scan_token (skip s)) = CHR ''a''" "q = skip s" "eq = snd (scan_token (skip s))"
    using g by (auto simp: gettoken_fields)
  obtain c r where c: "skip s = c # r" using st(1) by (cases "skip s") (auto simp: scan_token_def)
  have nw: "\<not> whitespace c" using c hd_dropWhile[of whitespace s] by auto
  have "c \<notin> set ''|();&<''" "c \<noteq> CHR ''>''"
    using st(1) c by (auto simp: scan_token_def split: if_splits list.splits)
  then have e: "eq = dropWhile wordchar q" "wordchar c"
    using st c nw by (auto simp: scan_token_def wordchar_def symbols_def)
  have "takeWhile wordchar q \<noteq> []" using e(2) c st(2) by simp
  moreover have "q = takeWhile wordchar q @ eq" using e(1) by simp
  moreover have "eq = [] \<or> \<not> wordchar (hd eq)" using e(1) hd_dropWhile[of wordchar q] by auto
  ultimately show ?thesis
    using suf_skip[OF s] st(2) by (auto simp: token_ok_def dest: set_takeWhileD)
qed

lemma parseredirs_tokens:
  assumes "parseredirs rs s = Parsed rs' s'" "suf s buf" "\<forall>t\<in>set (redir_tokens rs). token_ok buf t"
  shows "suf s' buf \<and> (\<forall>t\<in>set (redir_tokens rs'). token_ok buf t)"
  using assms
proof (induction "length s" arbitrary: rs s rule: less_induct)
  case less
  obtain s1 b where p: "peek s ''<>'' = (s1, b)" by (cases "peek s ''<>''")
  obtain tok x y s2 where g1: "gettoken s1 = (tok, x, y, s2)" by (cases "gettoken s1") auto
  obtain t q eq s3 where g2: "gettoken s2 = (t, q, eq, s3)" by (cases "gettoken s2") auto
  have suf: "suf s1 buf" "suf s2 buf" "suf s3 buf"
    using peek_suf[OF p] gettoken_suf[OF g1] gettoken_suf[OF g2] less.prems(2) by auto
  show ?case
  proof (cases b)
    case False
    then show ?thesis using less.prems p suf by (subst (asm) parseredirs.simps) auto
  next
    case True
    then have l: "length s3 < length s" using redir_shrinks p g1 g2 by metis
    have t: "t = CHR ''a''"
      using less.prems(1) p g1 g2 True by (subst (asm) parseredirs.simps) (auto split: if_splits)
    have ok: "token_ok buf (q, eq)" using gettoken_word g2 t suf(2) by blast
    obtain m fd where r: "parseredirs (rs @ [(q, eq, m, fd)]) s3 = Parsed rs' s'"
      using less.prems(1) p g1 g2 True by (subst (asm) parseredirs.simps) (auto split: if_splits)
    have "\<forall>t\<in>set (redir_tokens (rs @ [(q, eq, m, fd)])). token_ok buf t"
      using ok less.prems(3) by (simp add: redir_tokens_def)
    then show ?thesis by (rule less.hyps[OF l r suf(3)])
  qed
qed

lemma exec_loop_tokens:
  assumes "exec_loop argv rs s = Parsed (argv', rs') s'" "suf s buf"
    and "\<forall>t\<in>set argv \<union> set (redir_tokens rs). token_ok buf t"
  shows "suf s' buf \<and> (\<forall>t\<in>set argv' \<union> set (redir_tokens rs'). token_ok buf t)"
  using assms
proof (induction "MAXARGS - length argv" arbitrary: argv rs s rule: less_induct)
  case less
  obtain s1 b where p: "peek s ''|)&;'' = (s1, b)" by (cases "peek s ''|)&;''")
  obtain tok q eq s2 where g: "gettoken s1 = (tok, q, eq, s2)" by (cases "gettoken s1") auto
  have suf: "suf s1 buf" "suf s2 buf" using peek_suf[OF p] gettoken_suf[OF g] less.prems(2) by auto
  show ?case
  proof (cases "b \<or> tok = CHR 0x00")
    case True
    then show ?thesis using less.prems p g suf by (subst (asm) exec_loop.simps) (auto split: if_splits)
  next
    case False
    let ?argv = "argv @ [(q, eq)]"
    obtain rs1 s3 where r: "tok = CHR ''a''" "length ?argv < MAXARGS" "parseredirs rs s2 = Parsed rs1 s3"
      "exec_loop ?argv rs1 s3 = Parsed (argv', rs') s'"
      using less.prems(1) p g False
      by (subst (asm) exec_loop.simps) (auto simp: Let_def split: if_splits parse.splits)
    have "token_ok buf (q, eq)" using gettoken_word g r(1) suf(1) by blast
    moreover have "suf s3 buf \<and> (\<forall>t\<in>set (redir_tokens rs1). token_ok buf t)"
      using parseredirs_tokens[OF r(3) suf(2)] less.prems(3) by blast
    ultimately have "\<forall>t\<in>set ?argv \<union> set (redir_tokens rs1). token_ok buf t" "suf s3 buf"
      using less.prems(3) by auto
    moreover have "MAXARGS - length ?argv < MAXARGS - length argv" using r(2) by simp
    ultimately show ?thesis using less.hyps[OF _ r(4)] by blast
  qed
qed

lemma parse_backs_tokens:
  "parse_backs c s = (c', s') \<Longrightarrow> suf s buf \<Longrightarrow> suf s' buf \<and> set (tokens c') = set (tokens c)"
proof (induction "length s" arbitrary: c s rule: less_induct)
  case less
  obtain s1 b where p: "peek s ''&'' = (s1, b)" by (cases "peek s ''&''")
  obtain tok q eq s2 where g: "gettoken s1 = (tok, q, eq, s2)" by (cases "gettoken s1") auto
  show ?case
  proof (cases b)
    case True
    then have "length s2 < length s" using peek_lt[OF _ g] p by fastforce
    then show ?thesis
      using less.hyps[of s2 "BACK c"] less.prems p g True gettoken_suf[OF g] peek_suf[OF p]
      by (subst (asm) parse_backs.simps) auto
  next
    case False
    then show ?thesis using less.prems p peek_suf[OF p] by (subst (asm) parse_backs.simps) auto
  qed
qed

lemma tokens_wrap: "set (tokens (wrap rs c)) = set (redir_tokens rs) \<union> set (tokens c)"
  unfolding wrap_def redir_tokens_def by (induction rs arbitrary: c) auto

definition good :: "string \<Rightarrow> cmd \<Rightarrow> string \<Rightarrow> bool" where
  "good buf c s' \<longleftrightarrow> suf s' buf \<and> (\<forall>t\<in>set (tokens c). token_ok buf t)"

lemma parse_tokens:
  "parseline n s = Parsed c s' \<Longrightarrow> suf s buf \<Longrightarrow> good buf c s'"
  "parsepipe n s = Parsed c s' \<Longrightarrow> suf s buf \<Longrightarrow> good buf c s'"
  "parseexec n s = Parsed c s' \<Longrightarrow> suf s buf \<Longrightarrow> good buf c s'"
  "parseblock n s = Parsed c s' \<Longrightarrow> suf s buf \<Longrightarrow> good buf c s'"
proof (induction n arbitrary: s c s')
  case (Suc n)
  {
    case 1
    obtain c1 s1 where a: "parsepipe n s = Parsed c1 s1" using 1 by (auto split: parse.splits)
    obtain c2 s2 where b: "parse_backs c1 s1 = (c2, s2)" by (cases "parse_backs c1 s1")
    obtain s3 t where p: "peek s2 '';'' = (s3, t)" by (cases "peek s2 '';''")
    obtain tok q eq s4 where g: "gettoken s3 = (tok, q, eq, s4)" by (cases "gettoken s3") auto
    have c1: "good buf c1 s1" using Suc.IH(2)[OF a 1(2)] .
    then have s2: "good buf c2 s2" using parse_backs_tokens[OF b] by (auto simp: good_def)
    then have s3: "suf s3 buf" "suf s4 buf" using peek_suf[OF p] gettoken_suf[OF g] by (auto simp: good_def)
    show ?case
    proof (cases t)
      case True
      then obtain d where d: "parseline n s4 = Parsed d s'" "c = LIST c2 d"
        using 1(1) a b p g by (auto split: parse.splits)
      then show ?thesis using Suc.IH(1)[OF d(1) s3(2)] s2 by (auto simp: good_def)
    qed (use 1(1) a b p s2 s3 in \<open>auto simp: good_def\<close>)
  next
    case 2
    obtain c1 s1 where a: "parseexec n s = Parsed c1 s1" using 2 by (auto split: parse.splits)
    obtain s3 t where p: "peek s1 ''|'' = (s3, t)" by (cases "peek s1 ''|''")
    obtain tok q eq s4 where g: "gettoken s3 = (tok, q, eq, s4)" by (cases "gettoken s3") auto
    have c1: "good buf c1 s1" using Suc.IH(3)[OF a 2(2)] .
    then have s3: "suf s3 buf" "suf s4 buf" using peek_suf[OF p] gettoken_suf[OF g] by (auto simp: good_def)
    show ?case
    proof (cases t)
      case True
      then obtain d where d: "parsepipe n s4 = Parsed d s'" "c = PIPE c1 d"
        using 2(1) a p g by (auto split: parse.splits)
      then show ?thesis using Suc.IH(2)[OF d(1) s3(2)] c1 by (auto simp: good_def)
    qed (use 2(1) a p c1 s3 in \<open>auto simp: good_def\<close>)
  next
    case 3
    obtain s1 b where p: "peek s ''('' = (s1, b)" by (cases "peek s ''(''")
    have s1: "suf s1 buf" using peek_suf[OF p 3(2)] .
    show ?case
    proof (cases b)
      case True
      then show ?thesis using 3(1) p Suc.IH(4)[OF _ s1] by simp
    next
      case False
      then obtain rs1 s2 argv rs where r: "parseredirs [] s1 = Parsed rs1 s2" "exec_loop [] rs1 s2 = Parsed (argv, rs) s'"
        "c = wrap rs (EXEC argv)"
        using 3(1) p by (auto split: parse.splits prod.splits)
      have "suf s2 buf \<and> (\<forall>t\<in>set (redir_tokens rs1). token_ok buf t)"
        using parseredirs_tokens[OF r(1) s1] by (simp add: redir_tokens_def)
      then show ?thesis using exec_loop_tokens[OF r(2)] r(3) by (auto simp: good_def tokens_wrap)
    qed
  next
    case 4
    obtain s1 b where p: "peek s ''('' = (s1, b)" by (cases "peek s ''(''")
    obtain tok q eq s2 where g: "gettoken s1 = (tok, q, eq, s2)" by (cases "gettoken s1") auto
    have s2: "suf s2 buf" using peek_suf[OF p 4(2)] gettoken_suf[OF g] by simp
    obtain c1 s3 where a: "parseline n s2 = Parsed c1 s3" using 4(1) p g by (auto split: parse.splits if_splits)
    obtain s4 b4 where p4: "peek s3 '')'' = (s4, b4)" by (cases "peek s3 '')''")
    obtain tok q eq s5 where g5: "gettoken s4 = (tok, q, eq, s5)" by (cases "gettoken s4") auto
    have c1: "good buf c1 s3" using Suc.IH(1)[OF a s2] .
    have s5: "suf s5 buf" using peek_suf[OF p4] gettoken_suf[OF g5] c1 by (simp add: good_def)
    obtain rs where r: "parseredirs [] s5 = Parsed rs s'" "c = wrap rs c1"
      using 4(1) p g a p4 g5 by (auto split: parse.splits if_splits)
    show ?case using parseredirs_tokens[OF r(1) s5] r(2) c1 by (auto simp: good_def tokens_wrap redir_tokens_def)
  }
qed simp_all

subsection \<open>Terminating the strings\<close>

definition cut :: "string \<times> string \<Rightarrow> string \<Rightarrow> nat \<Rightarrow> bool" where
  "cut t buf i \<longleftrightarrow> i = length buf - length (snd t)"

lemma put_nul_length [simp]: "length (put_nul p buf) = length buf"
  by (simp add: put_nul_def)

lemma put_nul_nth: "i < length buf \<Longrightarrow> put_nul p buf ! i = (if i = length buf - length p then CHR 0x00 else buf ! i)"
  by (auto simp: put_nul_def)

lemma fold_put_nul:
  "length (fold (\<lambda>(q, eq) buf. put_nul eq buf) ts buf) = length buf \<and>
   (\<forall>i<length buf. fold (\<lambda>(q, eq) buf. put_nul eq buf) ts buf ! i =
      (if \<exists>t\<in>set ts. cut t buf i then CHR 0x00 else buf ! i))"
proof (induction ts arbitrary: buf)
  case (Cons t ts)
  have "cut t' (put_nul (snd t) buf) i = cut t' buf i" for t' i by (simp add: cut_def)
  then show ?case using Cons[of "put_nul (snd t) buf"]
    by (auto simp: case_prod_beta put_nul_nth cut_def)
qed simp

lemma nulterminate_nth:
  "length (nulterminate c buf) = length buf \<and> (\<forall>i<length buf. nulterminate c buf ! i =
     (if \<exists>t\<in>set (tokens c). cut t buf i then CHR 0x00 else buf ! i))"
proof (induction c arbitrary: buf)
  case (EXEC argv)
  then show ?case using fold_put_nul[of argv buf] by simp
next
  case (REDIR c q eq mode fd)
  have l: "length (nulterminate c buf) = length buf" using REDIR[of buf] by simp
  show ?case using REDIR[of buf] by (auto simp: l put_nul_nth cut_def)
next
  case (PIPE l r)
  then show ?case using PIPE(1)[of buf] PIPE(2)[of "nulterminate l buf"] by (auto simp: cut_def)
next
  case (LIST l r)
  then show ?case using LIST(1)[of buf] LIST(2)[of "nulterminate l buf"] by (auto simp: cut_def)
qed auto

lemma terminated_token:
  assumes nul: "CHR 0x00 \<notin> set buf" and ts: "\<forall>t\<in>set (tokens c). token_ok buf t" and t: "(q, eq) \<in> set (tokens c)"
  shows "takeWhile (\<lambda>x. x \<noteq> CHR 0x00) (drop (length buf - length q) (nulterminate c buf)) = take (length q - length eq) q"
proof -
  obtain u w where w: "buf = u @ q" "q = w @ eq" "\<forall>x\<in>set w. wordchar x"
    using ts t by (fastforce simp: token_ok_def suf_def)
  let ?b = "nulterminate c buf"
  note nt = nulterminate_nth[of c buf]
  have no: "\<not> (\<exists>t\<in>set (tokens c). cut t buf (length u + i))" if i: "i < length w" for i
  proof
    assume "\<exists>t\<in>set (tokens c). cut t buf (length u + i)"
    then obtain q' eq' where t': "(q', eq') \<in> set (tokens c)" "length u + i = length buf - length eq'"
      by (auto simp: cut_def)
    obtain v where v: "buf = v @ eq'" "eq' = [] \<or> \<not> wordchar (hd eq')"
      using ts t'(1) by (fastforce simp: token_ok_def suf_def)
    have ne: "eq' \<noteq> []" using t'(2) i w(1,2) by auto
    then have "buf ! (length u + i) = hd eq'" unfolding t'(2) using v(1) by (simp add: hd_conv_nth nth_append)
    moreover have "buf ! (length u + i) = w ! i" using w i by (simp add: nth_append)
    ultimately show False using v(2) ne w(3) i by (metis nth_mem)
  qed
  have word: "take (length w) (drop (length u) ?b) = w"
    by (rule nth_equalityI) (use nt no w in \<open>auto simp: nth_append\<close>)
  have stop: "drop (length u + length w) ?b = [] \<or> hd (drop (length u + length w) ?b) = CHR 0x00"
  proof (cases "eq = []")
    case False
    have "cut (q, eq) buf (length u + length w)" using w by (simp add: cut_def)
    then have "?b ! (length u + length w) = CHR 0x00" using nt t w False by auto
    then show ?thesis using nt w False by (simp add: hd_drop_conv_nth)
  qed (use nt w in simp)
  have "drop (length u) ?b = w @ drop (length u + length w) ?b"
    using word by (metis append_take_drop_id drop_drop add.commute)
  moreover have "CHR 0x00 \<notin> set w" using nul w by auto
  ultimately have "takeWhile (\<lambda>x. x \<noteq> CHR 0x00) (drop (length u) ?b) = w"
    using stop by (cases "drop (length u + length w) ?b") (auto simp: takeWhile_append)
  then show ?thesis using w by simp
qed

subsection \<open>Properties\<close>

text \<open>
  C28 (the parser ends). On every command line the parser returns: it gives a command or reports an
  error, and never runs out of the call depth it starts with.
\<close>

theorem parsecmd_ends: "parsecmd s \<noteq> Deep"
  using endsD(1)[of 3 "parseline (4 * length s + 4)" "4 * length s + 4" s] parse_ends[of "4 * length s + 4"]
  by (auto simp: parsecmd_def split: parse.split prod.split)

text \<open>
  C29 (the strings of a parsed command). After \<open>parsecmd\<close> every argument and file name of the command is,
  read as a C string in the line with the NULs that \<open>nulterminate\<close> has written, exactly the word
  between its two pointers, although all strings share the one line.
\<close>

theorem nulterminate_strings:
  assumes p: "parsecmd buf = Parsed (c, buf') r" and nul: "CHR 0x00 \<notin> set buf" and t: "(q, eq) \<in> set (tokens c)"
  shows "takeWhile (\<lambda>x. x \<noteq> CHR 0x00) (drop (length buf - length q) buf') = take (length q - length eq) q \<and>
    take (length q - length eq) q \<noteq> [] \<and> (\<forall>x\<in>set (take (length q - length eq) q). wordchar x)"
proof -
  obtain s' where a: "parseline (4 * length buf + 4) buf = Parsed c s'" "buf' = nulterminate c buf"
    using p by (auto simp: parsecmd_def split: parse.splits prod.splits if_splits)
  have g: "\<forall>t\<in>set (tokens c). token_ok buf t" using parse_tokens(1)[OF a(1), of buf] by (simp add: good_def)
  have "token_ok buf (q, eq)" using g t by blast
  then have "take (length q - length eq) q \<noteq> [] \<and> (\<forall>x\<in>set (take (length q - length eq) q). wordchar x)"
    by (auto simp: token_ok_def)
  then show ?thesis using terminated_token[OF nul g t] a(2) by simp
qed

theorem nulterminate_strings_witness:
  "\<exists>c buf' r. parsecmd ''cat<in|wc'' = Parsed (c, buf') r \<and> (''cat<in|wc'', ''<in|wc'') \<in> set (tokens c) \<and>
    takeWhile (\<lambda>x. x \<noteq> CHR 0x00) (drop (length ''cat<in|wc'' - length ''cat<in|wc'') buf') =
      take (length ''cat<in|wc'' - length ''<in|wc'') ''cat<in|wc'' \<and>
    take (length ''cat<in|wc'' - length ''<in|wc'') ''cat<in|wc'' \<noteq> [] \<and>
    (\<forall>x\<in>set (take (length ''cat<in|wc'' - length ''<in|wc'') ''cat<in|wc''). wordchar x)"
proof -
  let ?c = "PIPE (REDIR (EXEC [(''cat<in|wc'', ''<in|wc'')]) ''in|wc'' ''|wc'' 0 0) (EXEC [(''wc'', [])])"
  have b: "parsecmd ''cat<in|wc'' = Parsed (?c, nulterminate ?c ''cat<in|wc'') []" by code_simp
  have t: "(''cat<in|wc'', ''<in|wc'') \<in> set (tokens ?c)" by simp
  have n: "CHR 0x00 \<notin> set ''cat<in|wc''" by simp
  show ?thesis using b t nulterminate_strings[OF b n t] by blast
qed

subsection \<open>Printing commands\<close>

text \<open>
  Commands with strings in place of pointers, and how to write them down: level 0 is a line, 1 what
  may be followed by \<open>&\<close>, 2 a pipeline, 3 a simple command or a block. The flag of a redirection
  says whether it is an output.
\<close>

datatype scmd = SExec "string list" | SRedir scmd string bool | SPipe scmd scmd | SList scmd scmd | SBack scmd

definition word_of :: "string \<times> string \<Rightarrow> string" where
  "word_of t = take (length (fst t) - length (snd t)) (fst t)"



definition show_redir :: "string \<times> bool \<Rightarrow> string" where
  "show_redir r = CHR '' '' # (if snd r then CHR ''>'' else CHR ''<'') # fst r"


definition word :: "string \<Rightarrow> bool" where
  "word w \<longleftrightarrow> w \<noteq> [] \<and> (\<forall>x\<in>set w. wordchar x)"


subsection \<open>Reading tokens\<close>

lemma blank_space [simp]: "whitespace CHR '' ''"
  by (simp add: whitespace_def)

lemma not_blank [simp]:
  "\<not> whitespace CHR ''|''" "\<not> whitespace CHR ''(''" "\<not> whitespace CHR '')''" "\<not> whitespace CHR '';''"
  "\<not> whitespace CHR ''&''" "\<not> whitespace CHR ''<''" "\<not> whitespace CHR ''>''"
  by (simp_all add: whitespace_def)



lemma peek_skip_eq [simp]: "peek (skip s) toks = peek s toks"
  by (simp add: peek_fields)










definition show_redirs :: "(string \<times> bool) list \<Rightarrow> string" where
  "show_redirs rs = concat (map show_redir rs)"

definition redir_strings :: "redir \<Rightarrow> string \<times> bool" where
  "redir_strings r = (case r of (q, eq, mode, fd) \<Rightarrow> (word_of (q, eq), mode \<noteq> O_RDONLY))"

lemma redir_strings_simp [simp]: "redir_strings (q, eq, mode, fd) = (word_of (q, eq), mode \<noteq> O_RDONLY)"
  by (simp add: redir_strings_def)


lemma word_of_append [simp]: "word_of (w @ t, t) = w"
  by (simp add: word_of_def)






subsection \<open>Reading back what was printed\<close>



definition add_redirs :: "(string \<times> bool) list \<Rightarrow> scmd \<Rightarrow> scmd" where
  "add_redirs R c = fold (\<lambda>(f, out) c. SRedir c f out) R c"






lemma add_redirs_Nil [simp]: "add_redirs [] c = c"
  by (simp add: add_redirs_def)

lemma show_redirs_simps [simp]: "show_redirs [] = []" "show_redirs (r # R) = show_redir r @ show_redirs R"
  by (simp_all add: show_redirs_def)














end
