(* ===== verification/Sleeplock.thy ===== *)
theory Sleeplock
  imports Vm
begin

text \<open>
  \<open>sleeplock.c\<close>, and the way the rest of the file system code is reasoned about. The state of the
  storage components is one field \<open>fsd\<close> of the kernel state; it is an extensible record of its own,
  to which each component adds its data.

  A call that would have to wait has the outcome \<open>Switch\<close>. The relation \<open>runs\<close> describes a call made
  by a thread that meets no contention: it returns, leaves the processor as it found it, and takes
  the storage data from \<open>d\<close> to \<open>d'\<close>. Calls in sequence compose, so that a proof about a longer
  piece of code executes it step by step on the storage data alone.
\<close>

record 'd sys = vmstate +
  fsd :: 'd

datatype slid = SBuf nat | SInode nat

fun sl_lk :: "slid \<Rightarrow> lockid" where
  "sl_lk (SBuf i) = buf_lk i"
| "sl_lk (SInode i) = inode_lk i"

fun sl_chan :: "slid \<Rightarrow> channel" where
  "sl_chan (SBuf i) = ChBufLock i"
| "sl_chan (SInode i) = ChInodeLock i"

record sleeplock =
  sl_locked :: bool
  sl_name :: string
  sl_pid :: int

record slocks =
  sleeplocks :: "slid \<Rightarrow> sleeplock"

subsection \<open>The code\<close>

definition upd_fsd :: "('d \<Rightarrow> 'd) \<Rightarrow> ('d, 'a) sys_scheme \<Rightarrow> ('d, 'a) sys_scheme" where
  "upd_fsd f s = s\<lparr>fsd := f (fsd s)\<rparr>"

definition upd_sl :: "slid \<Rightarrow> (sleeplock \<Rightarrow> sleeplock) \<Rightarrow> 'x slocks_scheme \<Rightarrow> 'x slocks_scheme" where
  "upd_sl k f d = d\<lparr>sleeplocks := (sleeplocks d)(k := f (sleeplocks d k))\<rparr>"

definition initsleeplock :: "slid \<Rightarrow> string \<Rightarrow> ('x slocks_scheme, 'a) sys_scheme \<Rightarrow> ('x slocks_scheme, 'a) sys_scheme" where
  "initsleeplock k name s =
     upd_fsd (upd_sl k (\<lambda>l. l\<lparr>sl_name := name, sl_locked := False, sl_pid := 0\<rparr>)) (initlock (sl_lk k) ''sleep lock'' s)"

text \<open>The loop of \<open>acquiresleep\<close>: one test; a thread that has to sleep tests again when it is resumed.\<close>

definition acquiresleep_loop :: "nat \<Rightarrow> slid \<Rightarrow> ('x slocks_scheme, 'a) sys_scheme \<Rightarrow>
    (unit, ('x slocks_scheme, 'a) sys_scheme) res" where
  "acquiresleep_loop c k s =
     (if sl_locked (sleeplocks (fsd s) k) then sleep c (sl_chan k) (Some (sl_lk k)) s
      else
        let s = upd_fsd (upd_sl k (\<lambda>l. l\<lparr>sl_locked := True\<rparr>)) s in
        bnd (myproc c s) (\<lambda>p s. deref p (\<lambda>p s.
        release c (sl_lk k) (upd_fsd (upd_sl k (\<lambda>l. l\<lparr>sl_pid := pid (procs s p)\<rparr>)) s)) s))"

definition acquiresleep :: "nat \<Rightarrow> slid \<Rightarrow> ('x slocks_scheme, 'a) sys_scheme \<Rightarrow>
    (unit, ('x slocks_scheme, 'a) sys_scheme) res" where
  "acquiresleep c k s = bnd (acquire c (sl_lk k) s) (\<lambda>_. acquiresleep_loop c k)"

definition acquiresleep_resume :: "nat \<Rightarrow> nat \<times> nat \<Rightarrow> slid \<Rightarrow> ('x slocks_scheme, 'a) sys_scheme \<Rightarrow>
    (unit, ('x slocks_scheme, 'a) sys_scheme) res" where
  "acquiresleep_resume c qt k s = bnd (sleep_resume c qt (sl_lk k) s) (\<lambda>_. acquiresleep_loop c k)"

definition releasesleep :: "nat \<Rightarrow> slid \<Rightarrow> ('x slocks_scheme, 'a) sys_scheme \<Rightarrow>
    (unit, ('x slocks_scheme, 'a) sys_scheme) res" where
  "releasesleep c k s =
     bnd (acquire c (sl_lk k) s) (\<lambda>_ s.
     let s = upd_fsd (upd_sl k (\<lambda>l. l\<lparr>sl_locked := False, sl_pid := 0\<rparr>)) s in
     bnd (wakeup c (sl_chan k) s) (\<lambda>_. release c (sl_lk k)))"

definition holdingsleep :: "nat \<Rightarrow> slid \<Rightarrow> ('x slocks_scheme, 'a) sys_scheme \<Rightarrow>
    (bool, ('x slocks_scheme, 'a) sys_scheme) res" where
  "holdingsleep c k s =
     bnd (acquire c (sl_lk k) s) (\<lambda>_ s.
     bnd (if sl_locked (sleeplocks (fsd s) k)
          then bnd (myproc c s) (\<lambda>p s. deref p (\<lambda>p s. Ok (sl_pid (sleeplocks (fsd s) k) = pid (procs s p)) s) s)
          else Ok False s) (\<lambda>r s.
     bnd (release c (sl_lk k) s) (\<lambda>_ s. Ok r s)))"

subsection \<open>Fields and frames\<close>

lemma upd_fsd_simps [simp]:
  "fsd (upd_fsd f s) = f (fsd s)" "cpus (upd_fsd f s) = cpus s" "locks (upd_fsd f s) = locks s"
  "ncpu (upd_fsd f s) = ncpu s" "mem (upd_fsd f s) = mem s" "use_lock (upd_fsd f s) = use_lock s"
  "freelist (upd_fsd f s) = freelist s" "kern_end (upd_fsd f s) = kern_end s"
  "procs (upd_fsd f s) = procs s" "mutexes (upd_fsd f s) = mutexes s" "thr (upd_fsd f s) = thr s"
  "initproc (upd_fsd f s) = initproc s" "nextpid (upd_fsd f s) = nextpid s"
  "cpu_ok c (upd_fsd f s) = cpu_ok c s" "lock_free lk (upd_fsd f s) = lock_free lk s"
  "lock_held c lk (upd_fsd f s) = lock_held c lk s"
  by (simp_all add: upd_fsd_def cpu_ok_def lock_free_def lock_held_def thr_def fun_eq_iff)

lemma fsd_frame [simp]:
  "fsd (lock_st c lk s) = fsd s" "fsd (unlock_st c lk s) = fsd s" "fsd (sect c lk s) = fsd s"
  "fsd (cli_pass c s) = fsd s" "fsd (upd_proc p g s) = fsd s" "fsd (upd_thread p t h s) = fsd s"
  "fsd (wakeup1 ch s) = fsd s" "fsd (kmem_pass c s) = fsd s"
  by (simp_all add: lock_st_def unlock_st_def sect_def cli_pass_def upd_lock_def upd_cpu_def upd_proc_def
      upd_thread_def wakeup1_eq kmem_pass_def del: unlock_lock_sect)

lemma upd_fsd_out [simp]:
  "lock_st c lk (upd_fsd f s) = upd_fsd f (lock_st c lk s)"
  "unlock_st c lk (upd_fsd f s) = upd_fsd f (unlock_st c lk s)"
  "sect c lk (upd_fsd f s) = upd_fsd f (sect c lk s)"
  "cli_pass c (upd_fsd f s) = upd_fsd f (cli_pass c s)"
  "upd_fsd f (upd_fsd g s) = upd_fsd (\<lambda>d. f (g d)) s"
  by (simp_all add: upd_fsd_def lock_st_def unlock_st_def sect_def cli_pass_def upd_lock_def upd_cpu_def
      del: unlock_lock_sect)

lemma wakeup1_upd_fsd [simp]: "wakeup1 ch (upd_fsd f s) = upd_fsd f (wakeup1 ch s)"
  by (simp add: wakeup1_eq upd_fsd_def cong: if_cong)

lemma upd_fsd_id: "f (fsd s) = fsd s \<Longrightarrow> upd_fsd f s = s"
  by (simp add: upd_fsd_def)

lemma sleeplocks_upd_sl [simp]:
  "sleeplocks (upd_sl k f d) = (sleeplocks d)(k := f (sleeplocks d k))"
  "upd_sl k f (upd_sl k g d) = upd_sl k (\<lambda>l. f (g l)) d" "slocks.more (upd_sl k f d) = slocks.more d"
  by (simp_all add: upd_sl_def)

lemma sl_lk_neq [simp]: "sl_lk k \<noteq> ptable_lock" "sl_lk k \<noteq> bcache_lock"
  by (cases k; simp)+

subsection \<open>Calls without contention\<close>

text \<open>The processor, the process and the thread a call is made by, and the process's own data.\<close>

type_synonym task = "nat \<times> nat \<times> nat \<times> proc"

definition cpu_of :: "task \<Rightarrow> nat" where "cpu_of w = fst w"
definition self :: "task \<Rightarrow> proc" where "self w = snd (snd (snd w))"
definition pid_of :: "task \<Rightarrow> int" where "pid_of w = pid (self w)"

text \<open>Wakeups change nothing but states of processes and threads.\<close>

definition same_thread :: "thread \<Rightarrow> thread \<Rightarrow> bool" where
  "same_thread x y \<longleftrightarrow> y = x\<lparr>t_state := t_state y\<rparr>"

definition same_proc :: "proc \<Rightarrow> proc \<Rightarrow> bool" where
  "same_proc P Q \<longleftrightarrow> Q = P\<lparr>p_state := p_state Q, threads := threads Q\<rparr> \<and>
     (\<forall>t. same_thread (threads P t) (threads Q t))"

definition core :: "('d, 'a) sys_scheme \<Rightarrow> ('d, 'a) sys_scheme \<Rightarrow> bool" where
  "core s s' \<longleftrightarrow> mem s' = mem s \<and> freelist s' = freelist s \<and> use_lock s' = use_lock s \<and>
     kern_end s' = kern_end s \<and> mutexes s' = mutexes s \<and> initproc s' = initproc s \<and>
     nextpid s' = nextpid s \<and> (\<forall>q. same_proc (procs s q) (procs s' q))"

definition quiet :: "task \<Rightarrow> ('d, 'a) sys_scheme \<Rightarrow> bool" where
  "quiet w s \<longleftrightarrow> (case w of (c, p, t, P) \<Rightarrow>
     running c p t s \<and> (\<forall>lk. lock_free lk s) \<and> same_proc P (procs s p))"

definition runs :: "task \<Rightarrow> (('d, 'a) sys_scheme \<Rightarrow> ('r, ('d, 'a) sys_scheme) res) \<Rightarrow> 'd \<Rightarrow> 'r \<Rightarrow> 'd \<Rightarrow> bool" where
  "runs w m d r d' \<longleftrightarrow> (\<forall>s. quiet w s \<and> fsd s = d \<longrightarrow>
     (\<exists>s'. m s = Ok r s' \<and> quiet w s' \<and> core s s' \<and> fsd s' = d'))"

lemma same_thread_trans: "same_thread x y \<Longrightarrow> same_thread y z \<Longrightarrow> same_thread x z"
  by (cases x; cases y; cases z) (auto simp: same_thread_def)

lemma same_proc_trans: "same_proc P Q \<Longrightarrow> same_proc Q R \<Longrightarrow> same_proc P R"
  by (cases P; cases Q; cases R) (auto simp: same_proc_def intro: same_thread_trans)

lemma same_proc_refl [simp]: "same_proc P P"
  by (simp add: same_proc_def same_thread_def)

lemma same_procD:
  "same_proc P Q \<Longrightarrow> pid Q = pid P" "same_proc P Q \<Longrightarrow> cwd Q = cwd P" "same_proc P Q \<Longrightarrow> ofile Q = ofile P"
  "same_proc P Q \<Longrightarrow> p_killed Q = p_killed P" "same_proc P Q \<Longrightarrow> ttlock Q = ttlock P"
  "same_proc P Q \<Longrightarrow> sz Q = sz P" "same_proc P Q \<Longrightarrow> pgdir Q = pgdir P"
  by (cases P; cases Q; simp add: same_proc_def)+

lemma core_refl [simp]: "core s s"
  by (simp add: core_def)

lemma core_trans: "core s s1 \<Longrightarrow> core s1 s2 \<Longrightarrow> core s s2"
  by (auto simp: core_def intro: same_proc_trans)

lemma same_proc_wakeup: "same_proc (procs s q) (procs (wakeup1 ch s) q)"
proof -
  have "procs (wakeup1 ch s) q = (procs s q)\<lparr>p_state := p_state (procs (wakeup1 ch s) q),
      threads := threads (procs (wakeup1 ch s) q)\<rparr>"
    by (auto simp: wakeup1_eq wakeup_proc_def fold_wakeup_thread)
  moreover have "same_thread (threads (procs s q) t) (threads (procs (wakeup1 ch s) q) t)" for t
    using thr_wakeup1[of ch s q t] by (simp add: same_thread_def thr_def)
  ultimately show ?thesis by (simp add: same_proc_def)
qed

lemma quiet_upd_fsd [simp]: "quiet w (upd_fsd f s) = quiet w s"
  by (auto simp: quiet_def running_def split: prod.splits)

lemma quietD:
  "quiet w s \<Longrightarrow> cpu_ok (cpu_of w) s" "quiet w s \<Longrightarrow> lock_free lk s" "quiet w s \<Longrightarrow> ncli (cpus s (cpu_of w)) = 0"
  by (auto simp: quiet_def running_def cpu_of_def split: prod.splits)

lemma quiet_myproc:
  assumes "quiet w s"
  obtains p where "cpu_proc (cpus s (cpu_of w)) = Some p" "same_proc (self w) (procs s p)"
  using assms that by (auto simp: quiet_def running_def cpu_of_def self_def split: prod.splits)

lemma quiet_sect [simp]: "quiet w s \<Longrightarrow> quiet w (sect (cpu_of w) lk s)"
  by (auto simp: quiet_def running_def cpu_of_def split: prod.splits)

lemma quiet_cli_pass [simp]: "quiet w s \<Longrightarrow> quiet w (cli_pass (cpu_of w) s)"
  by (auto simp: quiet_def running_def cpu_of_def split: prod.splits)

lemma quiet_wakeup1 [simp]: "quiet w s \<Longrightarrow> quiet w (wakeup1 ch s)"
  using same_procD(5)[OF same_proc_wakeup[of s _ ch]]
  by (auto simp: quiet_def running_def cpu_of_def intro: same_proc_trans[OF _ same_proc_wakeup] split: prod.splits)

lemma core_steps [simp]:
  "core s (upd_fsd f s') = core s s'" "core s (sect c lk s') = core s s'" "core s (cli_pass c s') = core s s'"
  by (simp_all add: core_def)

lemma core_wakeup1 [simp]: "core s s' \<Longrightarrow> core s (wakeup1 ch s')"
  by (auto simp: core_def intro: same_proc_trans[OF _ same_proc_wakeup]) (simp_all add: wakeup1_eq)

lemma runsI: "(\<And>s. quiet w s \<Longrightarrow> fsd s = d \<Longrightarrow> \<exists>s'. m s = Ok r s' \<and> quiet w s' \<and> core s s' \<and> fsd s' = d') \<Longrightarrow>
   runs w m d r d'"
  by (auto simp: runs_def)

lemma runsE:
  assumes "runs w m d r d'" "quiet w s" "fsd s = d"
  obtains s' where "m s = Ok r s'" "quiet w s'" "core s s'" "fsd s' = d'"
  using assms by (auto simp: runs_def)

lemma runs_Ok: "runs w (Ok r) d r d"
  by (auto simp: runs_def)

lemma runs_upd: "runs w (\<lambda>s. Ok r (upd_fsd f s)) d r (f d)"
  by (auto simp: runs_def)

lemma runs_bnd:
  assumes "runs w m d a d1" "runs w (f a) d1 r d2"
  shows "runs w (\<lambda>s. bnd (m s) f) d r d2"
proof (rule runsI)
  fix s :: "('a, 'b) sys_scheme" assume s: "quiet w s" "fsd s = d"
  obtain s1 where 1: "m s = Ok a s1" "quiet w s1" "core s s1" "fsd s1 = d1" by (rule runsE[OF assms(1) s])
  obtain s2 where 2: "f a s1 = Ok r s2" "quiet w s2" "core s1 s2" "fsd s2 = d2" by (rule runsE[OF assms(2) 1(2,4)])
  show "\<exists>s'. bnd (m s) f = Ok r s' \<and> quiet w s' \<and> core s s' \<and> fsd s' = d2"
    using 1 2 core_trans[OF 1(3) 2(3)] by auto
qed

text \<open>Code that looks at the storage data goes on with what it sees.\<close>

lemma runs_at: "runs w (g d) d r d' \<Longrightarrow> runs w (\<lambda>s. g (fsd s) s) d r d'"
  by (auto simp: runs_def)

lemma runs_cong: "(\<And>s. fsd s = d \<Longrightarrow> m s = m' s) \<Longrightarrow> runs w m' d r d' \<Longrightarrow> runs w m d r d'"
  by (auto simp: runs_def)

lemma runs_upd_bnd: "runs w m (f d) r d' \<Longrightarrow> runs w (\<lambda>s. m (upd_fsd f s)) d r d'"
proof (rule runsI)
  fix s :: "('a, 'b) sys_scheme" assume m: "runs w m (f d) r d'" and s: "quiet w s" "fsd s = d"
  then obtain s' where "m (upd_fsd f s) = Ok r s'" "quiet w s'" "core (upd_fsd f s) s'" "fsd s' = d'"
    using runsE[OF m, of "upd_fsd f s"] by auto
  then show "\<exists>s'. m (upd_fsd f s) = Ok r s' \<and> quiet w s' \<and> core s s' \<and> fsd s' = d'"
    by (auto simp: core_def)
qed

subsection \<open>Sleep locks without contention\<close>

lemma acquiresleep_runs:
  fixes d :: "'x slocks_scheme"
  assumes "\<not> sl_locked (sleeplocks d k)"
  shows "runs w (acquiresleep (cpu_of w) k) d () (upd_sl k (\<lambda>l. l\<lparr>sl_locked := True, sl_pid := pid_of w\<rparr>) d)"
proof (rule runsI)
  fix s :: "('x slocks_scheme, 'a) sys_scheme" assume s: "quiet w s" "fsd s = d"
  obtain p where p: "cpu_proc (cpus s (cpu_of w)) = Some p" "same_proc (self w) (procs s p)"
    by (rule quiet_myproc[OF s(1)])
  have "acquiresleep (cpu_of w) k s =
      Ok () (upd_fsd (upd_sl k (\<lambda>l. l\<lparr>sl_locked := True, sl_pid := pid_of w\<rparr>)) (sect (cpu_of w) (sl_lk k) s))"
    using assms s p same_procD(1)[OF p(2)] quietD[OF s(1)]
    by (simp add: acquiresleep_def acquiresleep_loop_def acquire_free release_held myproc_eq deref_def pid_of_def Let_def)
  then show "\<exists>s'. acquiresleep (cpu_of w) k s = Ok () s' \<and> quiet w s' \<and> core s s' \<and>
      fsd s' = upd_sl k (\<lambda>l. l\<lparr>sl_locked := True, sl_pid := pid_of w\<rparr>) d"
    using s by simp
qed

lemma releasesleep_runs:
  fixes d :: "'x slocks_scheme"
  shows "runs w (releasesleep (cpu_of w) k) d () (upd_sl k (\<lambda>l. l\<lparr>sl_locked := False, sl_pid := 0\<rparr>) d)"
proof (rule runsI)
  fix s :: "('x slocks_scheme, 'a) sys_scheme" assume s: "quiet w s" "fsd s = d"
  have "releasesleep (cpu_of w) k s = Ok () (upd_fsd (upd_sl k (\<lambda>l. l\<lparr>sl_locked := False, sl_pid := 0\<rparr>))
      (wakeup1 (sl_chan k) (sect (cpu_of w) (sl_lk k) (sect (cpu_of w) ptable_lock s))))"
    using s quietD[OF s(1)] by (simp add: releasesleep_def acquire_free release_held wakeup_eq Let_def)
  then show "\<exists>s'. releasesleep (cpu_of w) k s = Ok () s' \<and> quiet w s' \<and> core s s' \<and>
      fsd s' = upd_sl k (\<lambda>l. l\<lparr>sl_locked := False, sl_pid := 0\<rparr>) d"
    using s by simp
qed

lemma holdingsleep_runs:
  fixes d :: "'x slocks_scheme"
  shows "runs w (holdingsleep (cpu_of w) k) d (sl_locked (sleeplocks d k) \<and> sl_pid (sleeplocks d k) = pid_of w) d"
proof (rule runsI)
  fix s :: "('x slocks_scheme, 'a) sys_scheme" assume s: "quiet w s" "fsd s = d"
  obtain p where p: "cpu_proc (cpus s (cpu_of w)) = Some p" "same_proc (self w) (procs s p)"
    by (rule quiet_myproc[OF s(1)])
  have "holdingsleep (cpu_of w) k s =
      Ok (sl_locked (sleeplocks d k) \<and> sl_pid (sleeplocks d k) = pid_of w) (sect (cpu_of w) (sl_lk k) s)"
    using s p same_procD(1)[OF p(2)] quietD[OF s(1)]
    by (auto simp: holdingsleep_def acquire_free release_held myproc_eq deref_def pid_of_def)
  then show "\<exists>s'. holdingsleep (cpu_of w) k s = Ok (sl_locked (sleeplocks d k) \<and> sl_pid (sleeplocks d k) = pid_of w) s' \<and>
      quiet w s' \<and> core s s' \<and> fsd s' = d"
    using s by simp
qed

subsection \<open>A thread for the examples\<close>

definition demo_task :: task where
  "demo_task = (0, 0, 0, first_proc)"

definition demo_sys :: "'d \<Rightarrow> 'd sys" where
  "demo_sys d = kernel.extend demo_kernel \<lparr>kpgdir = 0, sym_data = 0, fsd = d\<rparr>"

lemma demo_sys_simps [simp]:
  "procs (demo_sys d) = procs demo_kernel" "cpus (demo_sys d) = cpus demo_kernel" "ncpu (demo_sys d) = 2"
  "locks (demo_sys d) = locks demo_kernel" "fsd (demo_sys d) = d" "lock_free lk (demo_sys d)"
proof -
  show "ncpu (demo_sys d) = 2" unfolding demo_kernel_simps(12)[symmetric] by (simp add: demo_sys_def kernel.defs)
  have "locks (demo_sys d) = locks demo_kernel" by (simp add: demo_sys_def kernel.defs)
  then show "lock_free lk (demo_sys d)" using demo_kernel_simps(8)[of lk] by (simp add: lock_free_def)
qed (simp_all add: demo_sys_def kernel.defs)

lemma demo_task_simps [simp]: "cpu_of demo_task = 0" "pid_of demo_task = 1" "self demo_task = first_proc"
  by (simp_all add: demo_task_def cpu_of_def pid_of_def self_def first_proc_def)

lemma quiet_demo: "quiet demo_task (demo_sys d)"
proof -
  have "cpu_ok 0 demo_kernel" by (rule cpu_ok_demo_kernel) simp
  moreover have "ncpu demo_kernel = 2" by simp
  ultimately have "cpu_ok 0 (demo_sys d)" by (simp add: cpu_ok_def)
  then show ?thesis by (simp add: quiet_def demo_task_def running_def first_proc_def)
qed

end
