(* ===== verification/Bio.thy ===== *)
theory Bio
  imports Sleeplock
begin

text \<open>
  \<open>bio.c\<close>, the buffer cache, over the disk of \<open>memide.c\<close>. A buffer is its index in \<open>bcache.buf\<close>; index
  \<open>NBUF\<close> is \<open>bcache.head\<close>. The list of all buffers runs through the fields \<open>prev\<close> and \<open>next\<close>. The bytes
  of a block are a function of their offset, of which only offsets below \<open>BSIZE\<close> are used; copying
  \<open>BSIZE\<close> bytes copies the function.

  \<open>dwrites\<close> is not a variable of the code: it records the writes that reached the disk, in their order.
\<close>

type_synonym block = memory

abbreviation (input) NBUF :: nat where "NBUF \<equiv> 30"
abbreviation (input) BSIZE :: uint where "BSIZE \<equiv> 512"
abbreviation (input) ROOTDEV :: uint where "ROOTDEV \<equiv> 1"

record buf =
  b_valid :: bool
  b_dirty :: bool
  b_dev :: uint
  b_blockno :: uint
  b_refcnt :: uint
  b_prev :: nat
  b_next :: nat
  b_data :: block

record disk = slocks +
  bufs :: "nat \<Rightarrow> buf"
  memdisk :: "uint \<Rightarrow> block"
  disksize :: uint
  dwrites :: "(uint \<times> block) list"

definition upd_buf :: "nat \<Rightarrow> (buf \<Rightarrow> buf) \<Rightarrow> 'x disk_scheme \<Rightarrow> 'x disk_scheme" where
  "upd_buf b f d = d\<lparr>bufs := (bufs d)(b := f (bufs d b))\<rparr>"

subsection \<open>The memory disk\<close>

definition ideinit :: "(uint \<Rightarrow> block) \<Rightarrow> uint \<Rightarrow> 'x disk_scheme \<Rightarrow> 'x disk_scheme" where
  "ideinit fs_img_start fs_img_size d = d\<lparr>memdisk := fs_img_start, disksize := fs_img_size div BSIZE\<rparr>"

text \<open>The copy between a buffer and its place on the disk, with the flags.\<close>

definition ide_transfer :: "nat \<Rightarrow> 'x disk_scheme \<Rightarrow> 'x disk_scheme" where
  "ide_transfer b d =
     (let n = b_blockno (bufs d b) in
      upd_buf b (\<lambda>x. x\<lparr>b_valid := True\<rparr>)
        (if b_dirty (bufs d b)
         then (upd_buf b (\<lambda>x. x\<lparr>b_dirty := False\<rparr>) d)\<lparr>memdisk := (memdisk d)(n := b_data (bufs d b)),
                dwrites := dwrites d @ [(n, b_data (bufs d b))]\<rparr>
         else upd_buf b (\<lambda>x. x\<lparr>b_data := memdisk d n\<rparr>) d))"

definition iderw :: "nat \<Rightarrow> nat \<Rightarrow> ('x disk_scheme, 'a) sys_scheme \<Rightarrow> (unit, ('x disk_scheme, 'a) sys_scheme) res" where
  "iderw c b s =
     bnd (holdingsleep c (SBuf b) s) (\<lambda>h s.
     let x = bufs (fsd s) b in
     if \<not> h then Panic ''iderw: buf not locked''
     else if b_valid x \<and> \<not> b_dirty x then Panic ''iderw: nothing to do''
     else if b_dev x \<noteq> 1 then Panic ''iderw: request not for disk 1''
     else if b_blockno x \<ge> disksize (fsd s) then Panic ''iderw: block out of range''
     else Ok () (upd_fsd (ide_transfer b) s))"

subsection \<open>The buffer cache\<close>

definition binit_buf :: "nat \<Rightarrow> ('x disk_scheme, 'a) sys_scheme \<Rightarrow> ('x disk_scheme, 'a) sys_scheme" where
  "binit_buf b s =
     (let s = upd_fsd (\<lambda>d. upd_buf b (\<lambda>x. x\<lparr>b_next := b_next (bufs d NBUF), b_prev := NBUF\<rparr>) d) s;
          s = initsleeplock (SBuf b) ''buffer'' s;
          s = upd_fsd (\<lambda>d. upd_buf (b_next (bufs d NBUF)) (\<lambda>x. x\<lparr>b_prev := b\<rparr>) d) s
      in upd_fsd (upd_buf NBUF (\<lambda>x. x\<lparr>b_next := b\<rparr>)) s)"

definition binit :: "('x disk_scheme, 'a) sys_scheme \<Rightarrow> ('x disk_scheme, 'a) sys_scheme" where
  "binit s =
     (let s = initlock bcache_lock ''bcache'' s;
          s = upd_fsd (upd_buf NBUF (\<lambda>x. x\<lparr>b_prev := NBUF, b_next := NBUF\<rparr>)) s
      in fold binit_buf [0..<NBUF] s)"

text \<open>
  The loops over the list: \<open>None\<close> when they do not get back to the head within the number of steps
  given, \<open>Some None\<close> when they do without a match.
\<close>

fun scan :: "(nat \<Rightarrow> nat) \<Rightarrow> (nat \<Rightarrow> bool) \<Rightarrow> nat \<Rightarrow> nat \<Rightarrow> nat option option" where
  "scan nxt P 0 b = None"
| "scan nxt P (Suc k) b =
     (if b = NBUF then Some None else if P b then Some (Some b) else scan nxt P k (nxt b))"

definition bget :: "nat \<Rightarrow> uint \<Rightarrow> uint \<Rightarrow> ('x disk_scheme, 'a) sys_scheme \<Rightarrow> (nat, ('x disk_scheme, 'a) sys_scheme) res" where
  "bget c dev blockno s =
     bnd (acquire c bcache_lock s) (\<lambda>_ s.
     let B = bufs (fsd s) in
     case scan (\<lambda>b. b_next (B b)) (\<lambda>b. b_dev (B b) = dev \<and> b_blockno (B b) = blockno) (Suc NBUF) (b_next (B NBUF)) of
       None \<Rightarrow> Fault ''bcache list''
     | Some (Some b) \<Rightarrow>
         let s = upd_fsd (upd_buf b (\<lambda>x. x\<lparr>b_refcnt := b_refcnt x + 1\<rparr>)) s in
         bnd (release c bcache_lock s) (\<lambda>_ s.
         bnd (acquiresleep c (SBuf b) s) (\<lambda>_ s. Ok b s))
     | Some None \<Rightarrow>
        (case scan (\<lambda>b. b_prev (B b)) (\<lambda>b. b_refcnt (B b) = 0 \<and> \<not> b_dirty (B b)) (Suc NBUF) (b_prev (B NBUF)) of
           None \<Rightarrow> Fault ''bcache list''
         | Some None \<Rightarrow> Panic ''bget: no buffers''
         | Some (Some b) \<Rightarrow>
             let s = upd_fsd (upd_buf b (\<lambda>x. x\<lparr>b_dev := dev, b_blockno := blockno, b_valid := False,
                       b_dirty := False, b_refcnt := 1\<rparr>)) s in
             bnd (release c bcache_lock s) (\<lambda>_ s.
             bnd (acquiresleep c (SBuf b) s) (\<lambda>_ s. Ok b s))))"

definition bread :: "nat \<Rightarrow> uint \<Rightarrow> uint \<Rightarrow> ('x disk_scheme, 'a) sys_scheme \<Rightarrow> (nat, ('x disk_scheme, 'a) sys_scheme) res" where
  "bread c dev blockno s =
     bnd (bget c dev blockno s) (\<lambda>b s.
     bnd (if \<not> b_valid (bufs (fsd s) b) then iderw c b s else Ok () s) (\<lambda>_ s. Ok b s))"

definition bwrite :: "nat \<Rightarrow> nat \<Rightarrow> ('x disk_scheme, 'a) sys_scheme \<Rightarrow> (unit, ('x disk_scheme, 'a) sys_scheme) res" where
  "bwrite c b s =
     bnd (holdingsleep c (SBuf b) s) (\<lambda>h s.
     if \<not> h then Panic ''bwrite''
     else iderw c b (upd_fsd (upd_buf b (\<lambda>x. x\<lparr>b_dirty := True\<rparr>)) s))"

text \<open>Moving a buffer to the front of the list.\<close>

definition to_front :: "nat \<Rightarrow> 'x disk_scheme \<Rightarrow> 'x disk_scheme" where
  "to_front b d =
     (let d = upd_buf (b_next (bufs d b)) (\<lambda>x. x\<lparr>b_prev := b_prev (bufs d b)\<rparr>) d;
          d = upd_buf (b_prev (bufs d b)) (\<lambda>x. x\<lparr>b_next := b_next (bufs d b)\<rparr>) d;
          d = upd_buf b (\<lambda>x. x\<lparr>b_next := b_next (bufs d NBUF)\<rparr>) d;
          d = upd_buf b (\<lambda>x. x\<lparr>b_prev := NBUF\<rparr>) d;
          d = upd_buf (b_next (bufs d NBUF)) (\<lambda>x. x\<lparr>b_prev := b\<rparr>) d
      in upd_buf NBUF (\<lambda>x. x\<lparr>b_next := b\<rparr>) d)"

definition brelse :: "nat \<Rightarrow> nat \<Rightarrow> ('x disk_scheme, 'a) sys_scheme \<Rightarrow> (unit, ('x disk_scheme, 'a) sys_scheme) res" where
  "brelse c b s =
     bnd (holdingsleep c (SBuf b) s) (\<lambda>h s.
     if \<not> h then Panic ''brelse''
     else
       bnd (releasesleep c (SBuf b) s) (\<lambda>_ s.
       bnd (acquire c bcache_lock s) (\<lambda>_ s.
       let s = upd_fsd (upd_buf b (\<lambda>x. x\<lparr>b_refcnt := b_refcnt x - 1\<rparr>)) s;
           s = (if b_refcnt (bufs (fsd s) b) = 0 then upd_fsd (to_front b) s else s)
       in release c bcache_lock s)))"

subsection \<open>The list of buffers\<close>

lemma upd_buf_simps [simp]:
  "bufs (upd_buf b f d) = (bufs d)(b := f (bufs d b))" "memdisk (upd_buf b f d) = memdisk d"
  "disksize (upd_buf b f d) = disksize d" "dwrites (upd_buf b f d) = dwrites d"
  "sleeplocks (upd_buf b f d) = sleeplocks d" "disk.more (upd_buf b f d) = disk.more d"
  "bufs (upd_sl k g d) = bufs d" "memdisk (upd_sl k g d) = memdisk d" "disksize (upd_sl k g d) = disksize d"
  "dwrites (upd_sl k g d) = dwrites d" "disk.more (upd_sl k g d) = disk.more d"
  by (simp_all add: upd_buf_def upd_sl_def)

text \<open>The doubly linked list from \<open>a\<close> over the buffers \<open>xs\<close> to \<open>z\<close>.\<close>

fun chain :: "(nat \<Rightarrow> nat) \<Rightarrow> (nat \<Rightarrow> nat) \<Rightarrow> nat \<Rightarrow> nat list \<Rightarrow> nat \<Rightarrow> bool" where
  "chain nx pv a [] z \<longleftrightarrow> nx a = z \<and> pv z = a"
| "chain nx pv a (x # xs) z \<longleftrightarrow> nx a = x \<and> pv x = a \<and> chain nx pv x xs z"

lemma chain_append: "chain nx pv a (xs @ y # ys) z \<longleftrightarrow> chain nx pv a xs y \<and> chain nx pv y ys z"
  by (induction xs arbitrary: a) auto

lemma chain_rev: "chain nx pv a xs z \<longleftrightarrow> chain pv nx z (rev xs) a"
proof (induction xs arbitrary: a)
  case (Cons x xs)
  then show ?case using chain_append[of pv nx z "rev xs" x "[]" a] by auto
qed auto

lemma chain_cong:
  assumes "\<And>x. x \<in> insert a (set xs) \<Longrightarrow> nx' x = nx x" "\<And>x. x \<in> insert z (set xs) \<Longrightarrow> pv' x = pv x"
  shows "chain nx' pv' a xs z = chain nx pv a xs z"
  using assms by (induction xs arbitrary: a) auto

lemma chain_ends:
  "chain nx pv a xs z \<Longrightarrow> nx a = hd (xs @ [z])" "chain nx pv a xs z \<Longrightarrow> pv z = last (a # xs)"
proof -
  show "chain nx pv a xs z \<Longrightarrow> nx a = hd (xs @ [z])" by (cases xs) auto
  show "chain nx pv a xs z \<Longrightarrow> pv z = last (a # xs)" by (induction xs arbitrary: a) auto
qed

text \<open>The loops find the first match in list order.\<close>

lemma scan_chain:
  assumes "chain nx pv a xs NBUF" "NBUF \<notin> set xs" "length xs < k"
  shows "scan nx P k (nx a) = Some (find P xs)"
  using assms
proof (induction xs arbitrary: a k)
  case Nil
  then show ?case by (cases k) auto
next
  case (Cons x xs)
  then obtain j where "k = Suc j" by (cases k) auto
  then show ?case using Cons by auto
qed

definition nexts :: "'x disk_scheme \<Rightarrow> nat \<Rightarrow> nat" where "nexts d b = b_next (bufs d b)"
definition prevs :: "'x disk_scheme \<Rightarrow> nat \<Rightarrow> nat" where "prevs d b = b_prev (bufs d b)"

definition lru :: "'x disk_scheme \<Rightarrow> nat list \<Rightarrow> bool" where
  "lru d xs \<longleftrightarrow> chain (nexts d) (prevs d) NBUF xs NBUF \<and> distinct xs \<and> set xs = {..<NBUF}"

text \<open>Taking an element out of the middle, and putting one in front.\<close>

lemma chain_unlink:
  assumes c: "chain nx pv a (us @ b # vs) z" and b: "b \<noteq> a" "b \<noteq> z" and d: "distinct (us @ b # vs)"
    and az: "a \<notin> set (us @ b # vs)" "z \<notin> set (us @ b # vs)"
  shows "chain (nx(pv b := nx b)) (pv(nx b := pv b)) a (us @ vs) z"
proof -
  have c1: "chain nx pv a us b" "chain nx pv b vs z" using c by (auto simp: chain_append)
  have pb: "pv b = last (a # us)" and nb: "nx b = hd (vs @ [z])"
    using chain_ends(2)[OF c1(1)] chain_ends(1)[OF c1(2)] by auto
  show ?thesis
  proof (cases us rule: rev_cases)
    case Nil
    then have pa: "pv b = a" using pb by simp
    show ?thesis
    proof (cases vs)
      case Nil
      then show ?thesis using \<open>us = []\<close> pa nb by simp
    next
      case (Cons v ws)
      then have "chain (nx(a := v)) (pv(v := a)) v ws z = chain nx pv v ws z"
        by (intro chain_cong) (use az d Cons in auto)
      then show ?thesis using \<open>us = []\<close> Cons pa nb c1(2) by simp
    qed
  next
    case (snoc ts u)
    then have pu: "pv b = u" using pb by simp
    have head: "chain (nx(u := nx b)) (pv(nx b := u)) a ts u"
    proof -
      have "chain nx pv a ts u" using c1(1) snoc chain_append[of nx pv a ts u "[]" b] by simp
      moreover have "chain (nx(u := nx b)) (pv(nx b := u)) a ts u = chain nx pv a ts u"
        by (rule chain_cong) (use nb az d snoc in \<open>(cases vs; auto)+\<close>)
      ultimately show ?thesis by simp
    qed
    have tail: "chain (nx(u := nx b)) (pv(nx b := u)) u vs z"
    proof (cases vs)
      case Nil
      then show ?thesis using nb by simp
    next
      case (Cons v ws)
      then have "chain (nx(u := v)) (pv(v := u)) v ws z = chain nx pv v ws z"
        by (intro chain_cong) (use az d snoc Cons in auto)
      then show ?thesis using Cons nb c1(2) by simp
    qed
    have "chain (nx(u := nx b)) (pv(nx b := u)) a (ts @ u # vs) z" using head tail by (simp add: chain_append)
    then show ?thesis using snoc pu by simp
  qed
qed

lemma chain_push:
  assumes c: "chain nx pv a xs z" and b: "b \<noteq> a" "b \<noteq> z" "b \<notin> set xs" and az: "a \<notin> set xs" "z \<notin> set xs"
    and d: "distinct xs"
  shows "chain (nx(b := nx a, a := b)) ((pv(b := a))(nx a := b)) a (b # xs) z"
proof (cases xs)
  case Nil
  then show ?thesis using c b by auto
next
  case (Cons x ys)
  then have "chain (nx(b := x, a := b)) ((pv(b := a))(x := b)) x ys z = chain nx pv x ys z"
    by (intro chain_cong) (use b az d Cons in auto)
  then show ?thesis using c b Cons by auto
qed

lemma to_front_lists:
  assumes "b \<noteq> NBUF" "nexts d b \<noteq> b" "prevs d b \<noteq> b"
  shows "nexts (to_front b d) = (let nx = (nexts d)(prevs d b := nexts d b) in nx(b := nx NBUF, NBUF := b))"
    "prevs (to_front b d) = (let nx = (nexts d)(prevs d b := nexts d b);
        pv = (prevs d)(nexts d b := prevs d b) in (pv(b := NBUF))(nx NBUF := b))"
  using assms by (auto simp: to_front_def nexts_def prevs_def Let_def fun_eq_iff)

lemma to_front_lru:
  assumes l: "lru d xs" and b: "b < NBUF"
  shows "lru (to_front b d) (b # remove1 b xs)"
proof -
  have x: "chain (nexts d) (prevs d) NBUF xs NBUF" "distinct xs" "set xs = {..<NBUF}" using l by (auto simp: lru_def)
  then obtain us vs where uv: "xs = us @ b # vs" "b \<notin> set us" using b split_list_first[of b xs] by auto
  then have rm: "remove1 b xs = us @ vs" by (simp add: remove1_append)
  have N: "NBUF \<notin> set xs" using x by auto
  have c1: "chain (nexts d) (prevs d) NBUF us b" "chain (nexts d) (prevs d) b vs NBUF"
    using x(1) uv by (auto simp: chain_append)
  have nb: "nexts d b = hd (vs @ [NBUF])" "prevs d b = last (NBUF # us)"
    using chain_ends(2)[OF c1(1)] chain_ends(1)[OF c1(2)] by auto
  have ne: "nexts d b \<noteq> b" "prevs d b \<noteq> b"
    using nb x(2) uv b by (cases vs; auto)+
  let ?nx = "(nexts d)(prevs d b := nexts d b)" and ?pv = "(prevs d)(nexts d b := prevs d b)"
  have "chain ?nx ?pv NBUF (us @ vs) NBUF"
    by (rule chain_unlink) (use x(1,2) uv N b in auto)
  then have "chain (?nx(b := ?nx NBUF, NBUF := b)) ((?pv(b := NBUF))(?nx NBUF := b)) NBUF (b # us @ vs) NBUF"
    by (rule chain_push) (use x(2) uv N b in auto)
  then have "chain (nexts (to_front b d)) (prevs (to_front b d)) NBUF (b # us @ vs) NBUF"
    using to_front_lists[of b d] ne b by (simp add: Let_def)
  then show ?thesis using x uv rm by (auto simp: lru_def)
qed

subsection \<open>The invariant\<close>

text \<open>Buffer \<open>b\<close> holds block \<open>n\<close>; what a reader of block \<open>n\<close> gets: the cached copy, else the disk's.\<close>

definition holds_block :: "'x disk_scheme \<Rightarrow> uint \<Rightarrow> nat \<Rightarrow> bool" where
  "holds_block d n b \<longleftrightarrow> b_valid (bufs d b) \<and> b_blockno (bufs d b) = n"

definition view :: "'x disk_scheme \<Rightarrow> uint \<Rightarrow> block" where
  "view d n = (case first_index (holds_block d n) NBUF of Some b \<Rightarrow> b_data (bufs d b) | None \<Rightarrow> memdisk d n)"

text \<open>
  The state of one buffer, for a thread of process \<open>n\<close> that holds the buffers \<open>H\<close> and no other thread
  holding any: a buffer that nobody holds and that is not dirty has the bytes of the disk.
\<close>

definition buf_ok :: "int \<Rightarrow> nat set \<Rightarrow> 'x disk_scheme \<Rightarrow> nat \<Rightarrow> bool" where
  "buf_ok n H d b \<longleftrightarrow>
     b_refcnt (bufs d b) = (if b \<in> H then 1 else 0) \<and>
     sl_locked (sleeplocks d (SBuf b)) = (b \<in> H) \<and>
     (b \<in> H \<longrightarrow> sl_pid (sleeplocks d (SBuf b)) = n \<and> b_valid (bufs d b)) \<and>
     (b_dirty (bufs d b) \<longrightarrow> b_valid (bufs d b)) \<and>
     (if b_valid (bufs d b) then b_dev (bufs d b) = 1 \<and> b_blockno (bufs d b) < disksize d else b_dev (bufs d b) = 0) \<and>
     (b \<notin> H \<and> b_valid (bufs d b) \<and> \<not> b_dirty (bufs d b) \<longrightarrow> b_data (bufs d b) = memdisk d (b_blockno (bufs d b)))"

definition bio_inv :: "int \<Rightarrow> nat set \<Rightarrow> 'x disk_scheme \<Rightarrow> bool" where
  "bio_inv n H d \<longleftrightarrow> (\<exists>xs. lru d xs) \<and> H \<subseteq> {..<NBUF} \<and> (\<forall>b<NBUF. buf_ok n H d b) \<and>
     (\<forall>m a b. a < NBUF \<and> b < NBUF \<and> holds_block d m a \<and> holds_block d m b \<longrightarrow> a = b)"

lemma bio_invD:
  "bio_inv n H d \<Longrightarrow> b < NBUF \<Longrightarrow> buf_ok n H d b"
  "bio_inv n H d \<Longrightarrow> a < NBUF \<Longrightarrow> b < NBUF \<Longrightarrow> holds_block d m a \<Longrightarrow> holds_block d m b \<Longrightarrow> a = b"
  "bio_inv n H d \<Longrightarrow> b \<in> H \<Longrightarrow> b < NBUF"
  by (auto simp: bio_inv_def)

lemma view_held:
  assumes "bio_inv n H d" "b < NBUF" "holds_block d m b"
  shows "view d m = b_data (bufs d b)"
proof -
  obtain k where k: "first_index (holds_block d m) NBUF = Some k" "k < NBUF" "holds_block d m k"
    using assms(2,3) first_index_ex[of b NBUF "holds_block d m"] by auto
  then have "k = b" using bio_invD(2)[OF assms(1) _ assms(2) _ assms(3)] by simp
  then show ?thesis using k(1) by (simp add: view_def)
qed

lemma view_absent: "(\<And>b. b < NBUF \<Longrightarrow> \<not> holds_block d m b) \<Longrightarrow> view d m = memdisk d m"
  by (simp add: view_def first_index_None_iff[THEN iffD2])

lemma view_clean:
  assumes "bio_inv n H d" "\<And>b. b < NBUF \<Longrightarrow> holds_block d m b \<Longrightarrow> b \<notin> H \<and> \<not> b_dirty (bufs d b)"
  shows "view d m = memdisk d m"
proof (cases "\<exists>b<NBUF. holds_block d m b")
  case True
  then obtain b where b: "b < NBUF" "holds_block d m b" by auto
  then show ?thesis using view_held[OF assms(1) b] bio_invD(1)[OF assms(1) b(1)] assms(2)[OF b]
    by (auto simp: buf_ok_def holds_block_def)
qed (use view_absent in auto)

subsection \<open>Finding a buffer\<close>

lemma lru_scan:
  assumes "lru d xs"
  shows "scan (\<lambda>b. b_next (bufs d b)) P (Suc NBUF) (b_next (bufs d NBUF)) = Some (find P xs)"
    "scan (\<lambda>b. b_prev (bufs d b)) P (Suc NBUF) (b_prev (bufs d NBUF)) = Some (find P (rev xs))"
proof -
  have c: "chain (nexts d) (prevs d) NBUF xs NBUF" "NBUF \<notin> set xs" using assms by (auto simp: lru_def)
  have l: "length xs < Suc NBUF" using assms distinct_card[of xs] by (simp add: lru_def)
  show "scan (\<lambda>b. b_next (bufs d b)) P (Suc NBUF) (b_next (bufs d NBUF)) = Some (find P xs)"
    using scan_chain[OF c l, of P] by (simp only: nexts_def[abs_def])
  have "chain (prevs d) (nexts d) NBUF (rev xs) NBUF" using c(1) by (simp add: chain_rev[of "prevs d"])
  then show "scan (\<lambda>b. b_prev (bufs d b)) P (Suc NBUF) (b_prev (bufs d NBUF)) = Some (find P (rev xs))"
    using scan_chain[of "prevs d" "nexts d" NBUF "rev xs" "Suc NBUF" P] c(2) l by (simp only: prevs_def[abs_def]) simp
qed

definition take_buf :: "int \<Rightarrow> nat \<Rightarrow> 'x disk_scheme \<Rightarrow> 'x disk_scheme" where
  "take_buf n b d = upd_sl (SBuf b) (\<lambda>l. l\<lparr>sl_locked := True, sl_pid := n\<rparr>) d"

lemma find_SomeD: "find P xs = Some x \<Longrightarrow> x \<in> set xs \<and> P x"
  by (induction xs) (auto split: if_splits)

lemma find_eq: "x \<in> set xs \<Longrightarrow> find (\<lambda>y. y = x) xs = Some x"
  by (induction xs) auto

text \<open>Both ways \<open>bget\<close> ends: the buffer is chosen under \<open>bcache.lock\<close>, then locked.\<close>

lemma bget_end:
  fixes d :: "'x disk_scheme"
  assumes "\<And>s :: ('x disk_scheme, 'a) sys_scheme. quiet w s \<Longrightarrow> fsd s = d \<Longrightarrow>
      bget (cpu_of w) dev m s = bnd (acquiresleep (cpu_of w) (SBuf b) (upd_fsd (upd_buf b f) (sect (cpu_of w) bcache_lock s)))
        (\<lambda>_ s. Ok b s)"
    and "\<not> sl_locked (sleeplocks d (SBuf b))"
  shows "runs w (bget (cpu_of w) dev m :: ('x disk_scheme, 'a) sys_scheme \<Rightarrow> _) d b (take_buf (pid_of w) b (upd_buf b f d))"
proof -
  let ?d1 = "upd_buf b f d"
  have 1: "runs w (\<lambda>s :: ('x disk_scheme, 'a) sys_scheme. bnd (acquiresleep (cpu_of w) (SBuf b) s) (\<lambda>_ s. Ok b s)) ?d1 b
      (take_buf (pid_of w) b ?d1)"
    unfolding take_buf_def by (rule runs_bnd[OF acquiresleep_runs runs_Ok]) (simp add: assms(2))
  show ?thesis
  proof (rule runsI)
    fix s :: "('x disk_scheme, 'a) sys_scheme" assume s: "quiet w s" "fsd s = d"
    let ?s = "upd_fsd (upd_buf b f) (sect (cpu_of w) bcache_lock s)"
    obtain s' where "bnd (acquiresleep (cpu_of w) (SBuf b) ?s) (\<lambda>_ s. Ok b s) = Ok b s'" "quiet w s'"
        "core ?s s'" "fsd s' = take_buf (pid_of w) b ?d1"
      by (rule runsE[OF 1, of ?s]) (use s in auto)
    then show "\<exists>s'. bget (cpu_of w) dev m s = Ok b s' \<and> quiet w s' \<and> core s s' \<and>
        fsd s' = take_buf (pid_of w) b ?d1"
      using assms(1)[OF s] by (auto simp: core_def)
  qed
qed

lemma bget_hit:
  fixes d :: "'x disk_scheme"
  assumes inv: "bio_inv (pid_of w) H d" and b: "b < NBUF" "holds_block d m b" "b \<notin> H"
  shows "runs w (bget (cpu_of w) 1 m) d b (take_buf (pid_of w) b (upd_buf b (\<lambda>x. x\<lparr>b_refcnt := b_refcnt x + 1\<rparr>) d))"
proof (rule bget_end)
  let ?P = "\<lambda>i. b_dev (bufs d i) = 1 \<and> b_blockno (bufs d i) = m"
  obtain xs where xs: "lru d xs" using inv by (auto simp: bio_inv_def)
  have ok: "buf_ok (pid_of w) H d i" if "i < NBUF" for i by (rule bio_invD(1)[OF inv that])
  have P: "?P i \<longleftrightarrow> i = b" if "i < NBUF" for i
    using ok[OF that] ok[OF b(1)] b(2) bio_invD(2)[OF inv that b(1) _ b(2)]
    by (auto simp: buf_ok_def holds_block_def split: if_splits)
  have "find ?P xs = find (\<lambda>i. i = b) xs" by (rule find_cong) (use xs P in \<open>auto simp: lru_def\<close>)
  then have scan: "scan (\<lambda>i. b_next (bufs d i)) ?P (Suc NBUF) (b_next (bufs d NBUF)) = Some (Some b)"
    using lru_scan(1)[OF xs, of ?P] find_eq[of b xs] xs b(1) by (simp add: lru_def)
  show "\<not> sl_locked (sleeplocks d (SBuf b))" using ok[OF b(1)] b(3) by (simp add: buf_ok_def)
  fix s :: "('x disk_scheme, 'a) sys_scheme" assume s: "quiet w s" "fsd s = d"
  show "bget (cpu_of w) 1 m s = bnd (acquiresleep (cpu_of w) (SBuf b)
      (upd_fsd (upd_buf b (\<lambda>x. x\<lparr>b_refcnt := b_refcnt x + 1\<rparr>)) (sect (cpu_of w) bcache_lock s))) (\<lambda>_ s. Ok b s)"
    using s quietD[OF s(1)] scan by (simp add: bget_def acquire_free release_held Let_def)
qed

abbreviation (input) fresh_buf :: "uint \<Rightarrow> uint \<Rightarrow> buf \<Rightarrow> buf" where
  "fresh_buf dev m \<equiv> \<lambda>x. x\<lparr>b_dev := dev, b_blockno := m, b_valid := False, b_dirty := False, b_refcnt := 1\<rparr>"

lemma bget_miss:
  fixes d :: "'x disk_scheme"
  assumes inv: "bio_inv (pid_of w) H d" and no: "\<And>b. b < NBUF \<Longrightarrow> \<not> holds_block d m b"
    and free: "a < NBUF" "a \<notin> H" "\<not> b_dirty (bufs d a)"
  obtains b where "b < NBUF" "b \<notin> H" "\<not> b_dirty (bufs d b)"
    "runs w (bget (cpu_of w) 1 m :: ('x disk_scheme, 'a) sys_scheme \<Rightarrow> _) d b (take_buf (pid_of w) b (upd_buf b (fresh_buf 1 m) d))"
proof -
  let ?P = "\<lambda>i. b_dev (bufs d i) = 1 \<and> b_blockno (bufs d i) = m"
  let ?Q = "\<lambda>i. b_refcnt (bufs d i) = 0 \<and> \<not> b_dirty (bufs d i)"
  obtain xs where xs: "lru d xs" using inv by (auto simp: bio_inv_def)
  have ok: "buf_ok (pid_of w) H d i" if "i < NBUF" for i by (rule bio_invD(1)[OF inv that])
  have "\<not> ?P i" if "i < NBUF" for i using ok[OF that] no[OF that] by (auto simp: buf_ok_def holds_block_def split: if_splits)
  then have "find ?P xs = None" using xs by (auto simp: lru_def find_None_iff)
  then have scan: "scan (\<lambda>i. b_next (bufs d i)) ?P (Suc NBUF) (b_next (bufs d NBUF)) = Some None"
    using lru_scan(1)[OF xs, of ?P] by simp
  have "?Q a" using ok[OF free(1)] free by (simp add: buf_ok_def)
  moreover have "a \<in> set (rev xs)" using xs free(1) by (auto simp: lru_def)
  ultimately obtain b where b: "find ?Q (rev xs) = Some b"
    by (cases "find ?Q (rev xs)") (auto simp: find_None_iff)
  then have "b \<in> set (rev xs)" "?Q b" by (auto dest: find_SomeD)
  then have b': "b < NBUF" "?Q b" using xs by (auto simp: lru_def)
  then have bH: "b \<notin> H" using ok[OF b'(1)] by (auto simp: buf_ok_def)
  have scan2: "scan (\<lambda>i. b_prev (bufs d i)) ?Q (Suc NBUF) (b_prev (bufs d NBUF)) = Some (Some b)"
    using lru_scan(2)[OF xs, of ?Q] b by simp
  show thesis
  proof (rule that[OF b'(1) bH])
    show "\<not> b_dirty (bufs d b)" using b' by simp
    show "runs w (bget (cpu_of w) 1 m :: ('x disk_scheme, 'a) sys_scheme \<Rightarrow> _) d b (take_buf (pid_of w) b (upd_buf b (fresh_buf 1 m) d))"
    proof (rule bget_end)
      show "\<not> sl_locked (sleeplocks d (SBuf b))" using ok[OF b'(1)] bH by (simp add: buf_ok_def)
      fix s :: "('x disk_scheme, 'a) sys_scheme" assume s: "quiet w s" "fsd s = d"
      show "bget (cpu_of w) 1 m s = bnd (acquiresleep (cpu_of w) (SBuf b)
          (upd_fsd (upd_buf b (fresh_buf 1 m)) (sect (cpu_of w) bcache_lock s))) (\<lambda>_ s. Ok b s)"
        using s quietD[OF s(1)] scan scan2 by (simp add: bget_def acquire_free release_held Let_def)
    qed
  qed
qed

lemma iderw_runs:
  fixes d :: "'x disk_scheme"
  assumes "sl_locked (sleeplocks d (SBuf b))" "sl_pid (sleeplocks d (SBuf b)) = pid_of w"
    "\<not> b_valid (bufs d b) \<or> b_dirty (bufs d b)" "b_dev (bufs d b) = 1" "b_blockno (bufs d b) < disksize d"
  shows "runs w (iderw (cpu_of w) b) d () (ide_transfer b d)"
  unfolding iderw_def
proof (rule runs_bnd[where a = True])
  show "runs w (holdingsleep (cpu_of w) (SBuf b)) d True d" using holdingsleep_runs[of w "SBuf b" d] assms by simp
qed (rule runs_cong[OF _ runs_upd], use assms in \<open>auto simp: Let_def\<close>)

subsection \<open>Reading, writing and releasing a block\<close>

text \<open>
  What \<open>bread\<close> of block \<open>m\<close> does: buffer \<open>b\<close> becomes held and has the current bytes of the block, the other
  buffers and the disk are as they were.
\<close>

definition got :: "nat set \<Rightarrow> 'x disk_scheme \<Rightarrow> uint \<Rightarrow> nat \<Rightarrow> 'x disk_scheme \<Rightarrow> bool" where
  "got H d m b d' \<longleftrightarrow> b < NBUF \<and> b \<notin> H \<and> holds_block d' m b \<and> b_data (bufs d' b) = view d m \<and>
     (\<forall>i. i \<noteq> b \<longrightarrow> bufs d' i = bufs d i) \<and> (\<forall>i. b_dirty (bufs d' i) = b_dirty (bufs d i)) \<and>
     (b_dirty (bufs d b) \<longrightarrow> holds_block d m b) \<and> (\<forall>k. k \<noteq> SBuf b \<longrightarrow> sleeplocks d' k = sleeplocks d k) \<and>
     memdisk d' = memdisk d \<and> disksize d' = disksize d \<and> dwrites d' = dwrites d \<and> disk.more d' = disk.more d"

lemma lru_cong: "nexts d' = nexts d \<Longrightarrow> prevs d' = prevs d \<Longrightarrow> lru d' xs = lru d xs"
  by (simp add: lru_def)

lemma list_fields_same:
  "(\<And>i. b_next (bufs d' i) = b_next (bufs d i)) \<Longrightarrow> nexts d' = nexts d"
  "(\<And>i. b_prev (bufs d' i) = b_prev (bufs d i)) \<Longrightarrow> prevs d' = prevs d"
  by (simp_all add: nexts_def prevs_def fun_eq_iff)

lemma bread_runs:
  fixes d :: "'x disk_scheme"
  assumes inv: "bio_inv (pid_of w) H d" and m: "m < disksize d"
    and new: "\<And>b. b \<in> H \<Longrightarrow> b_blockno (bufs d b) \<noteq> m"
    and room: "(\<exists>b<NBUF. holds_block d m b) \<or> (\<exists>a<NBUF. a \<notin> H \<and> \<not> b_dirty (bufs d a))"
  obtains b d' where "runs w (bread (cpu_of w) 1 m :: ('x disk_scheme, 'a) sys_scheme \<Rightarrow> _) d b d'"
    "got H d m b d'" "bio_inv (pid_of w) (insert b H) d'"
proof (cases "\<exists>b<NBUF. holds_block d m b")
  case True
  then obtain b where b: "b < NBUF" "holds_block d m b" by auto
  then have bH: "b \<notin> H" using new by (auto simp: holds_block_def)
  let ?d = "take_buf (pid_of w) b (upd_buf b (\<lambda>x. x\<lparr>b_refcnt := b_refcnt x + 1\<rparr>) d)"
  have ok: "buf_ok (pid_of w) H d b" by (rule bio_invD(1)[OF inv b(1)])
  have "runs w (bread (cpu_of w) 1 m :: ('x disk_scheme, 'a) sys_scheme \<Rightarrow> _) d b ?d" unfolding bread_def
  proof (rule runs_bnd[OF bget_hit[OF inv b bH]])
    show "runs w (\<lambda>s :: ('x disk_scheme, 'a) sys_scheme. bnd (if \<not> b_valid (bufs (fsd s) b) then iderw (cpu_of w) b s else Ok () s) (\<lambda>_. Ok b)) ?d b ?d"
      by (rule runs_cong[OF _ runs_Ok]) (use b(2) in \<open>simp add: take_buf_def holds_block_def\<close>)
  qed
  moreover have "got H d m b ?d"
    using b bH view_held[OF inv b] by (auto simp: got_def take_buf_def holds_block_def)
  moreover have "bio_inv (pid_of w) (insert b H) ?d"
  proof -
    have "lru ?d xs = lru d xs" for xs by (rule lru_cong) (auto intro!: list_fields_same simp: take_buf_def)
    moreover have "buf_ok (pid_of w) (insert b H) ?d i" if "i < NBUF" for i
      using bio_invD(1)[OF inv that] ok b bH by (auto simp: buf_ok_def take_buf_def holds_block_def)
    moreover have "holds_block ?d n i = holds_block d n i" for n i by (simp add: holds_block_def take_buf_def)
    ultimately show ?thesis using inv b(1) by (auto simp: bio_inv_def)
  qed
  ultimately show thesis by (rule that)
next
  case False
  then have no: "\<And>b. b < NBUF \<Longrightarrow> \<not> holds_block d m b" by auto
  obtain a where a: "a < NBUF" "a \<notin> H" "\<not> b_dirty (bufs d a)" using room False by auto
  obtain b where b: "b < NBUF" "b \<notin> H" "\<not> b_dirty (bufs d b)" and
    get: "runs w (bget (cpu_of w) 1 m :: ('x disk_scheme, 'a) sys_scheme \<Rightarrow> _) d b (take_buf (pid_of w) b (upd_buf b (fresh_buf 1 m) d))"
    using bget_miss[OF inv no a] by blast
  let ?d = "take_buf (pid_of w) b (upd_buf b (fresh_buf 1 m) d)"
  let ?e = "ide_transfer b ?d"
  have "runs w (bread (cpu_of w) 1 m :: ('x disk_scheme, 'a) sys_scheme \<Rightarrow> _) d b ?e" unfolding bread_def
  proof (rule runs_bnd[OF get])
    have "runs w (iderw (cpu_of w) b :: ('x disk_scheme, 'a) sys_scheme \<Rightarrow> _) ?d () ?e"
      by (rule iderw_runs) (use m in \<open>simp_all add: take_buf_def\<close>)
    then have "runs w (\<lambda>s :: ('x disk_scheme, 'a) sys_scheme. if \<not> b_valid (bufs (fsd s) b) then iderw (cpu_of w) b s else Ok () s) ?d () ?e"
      by (rule runs_cong[rotated]) (simp add: take_buf_def)
    then show "runs w (\<lambda>s :: ('x disk_scheme, 'a) sys_scheme. bnd (if \<not> b_valid (bufs (fsd s) b) then iderw (cpu_of w) b s else Ok () s) (\<lambda>_. Ok b)) ?d b ?e"
      by (rule runs_bnd) (rule runs_Ok)
  qed
  moreover have "got H d m b ?e"
    using b view_absent[OF no] by (auto simp: got_def take_buf_def holds_block_def ide_transfer_def Let_def upd_buf_def upd_sl_def)
  moreover have "bio_inv (pid_of w) (insert b H) ?e"
  proof -
    have "lru ?e xs = lru d xs" for xs
      by (rule lru_cong) (auto intro!: list_fields_same simp: take_buf_def ide_transfer_def Let_def)
    moreover have "buf_ok (pid_of w) (insert b H) ?e i" if "i < NBUF" for i
      using bio_invD(1)[OF inv that] b m by (auto simp: buf_ok_def take_buf_def ide_transfer_def Let_def)
    moreover have "holds_block ?e n i = (if i = b then n = m else holds_block d n i)" for n i
      by (auto simp: holds_block_def take_buf_def ide_transfer_def Let_def)
    ultimately show ?thesis using inv b(1) no by (auto simp: bio_inv_def)
  qed
  ultimately show thesis by (rule that)
qed

lemma got_view:
  assumes g: "got H d m b d'" and inv: "bio_inv n H d" and inv': "bio_inv n (insert b H) d'"
  shows "view d' = view d"
proof
  fix k
  have b: "b < NBUF" "holds_block d' m b" "b_data (bufs d' b) = view d m" "b \<notin> H" using g by (auto simp: got_def)
  show "view d' k = view d k"
  proof (cases "k = m")
    case True
    then show ?thesis using view_held[OF inv' b(1,2)] b(3) by simp
  next
    case False
    have same: "holds_block d' k i = holds_block d k i" "bufs d' i = bufs d i" if "i \<noteq> b" for i
      using g that by (auto simp: got_def holds_block_def)
    have nb: "\<not> holds_block d' k b" using b(2) False by (simp add: holds_block_def)
    show ?thesis
    proof (cases "\<exists>i<NBUF. i \<noteq> b \<and> holds_block d k i")
      case True
      then obtain i where "i < NBUF" "i \<noteq> b" "holds_block d k i" by auto
      then show ?thesis using view_held[OF inv, of i k] view_held[OF inv', of i k] same[of i] by simp
    next
      case False
      have "view d' k = memdisk d' k" by (rule view_absent) (metis False nb same(1))
      moreover have "view d k = memdisk d k"
      proof (rule view_clean[OF inv])
        fix i assume "i < NBUF" "holds_block d k i"
        then have "i = b" using False by auto
        then show "i \<notin> H \<and> \<not> b_dirty (bufs d i)"
          using g b(4) \<open>holds_block d k i\<close> \<open>k \<noteq> m\<close> by (auto simp: got_def holds_block_def)
      qed
      ultimately show ?thesis using g by (simp add: got_def)
    qed
  qed
qed

text \<open>A holder changes the bytes of its buffer.\<close>

lemma bio_inv_data:
  assumes inv: "bio_inv n H d" and b: "b \<in> H"
  shows "bio_inv n H (upd_buf b (\<lambda>x. x\<lparr>b_data := f x\<rparr>) d)"
proof -
  let ?d = "upd_buf b (\<lambda>x. x\<lparr>b_data := f x\<rparr>) d"
  have "lru ?d xs = lru d xs" for xs by (rule lru_cong) (auto intro!: list_fields_same)
  moreover have "buf_ok n H ?d i" if "i < NBUF" for i using bio_invD(1)[OF inv that] b by (auto simp: buf_ok_def)
  moreover have "holds_block ?d k i = holds_block d k i" for k i by (simp add: holds_block_def)
  ultimately show ?thesis using inv by (auto simp: bio_inv_def)
qed

lemma bio_inv_dirty:
  assumes inv: "bio_inv n H d" and b: "b \<in> H"
  shows "bio_inv n H (upd_buf b (\<lambda>x. x\<lparr>b_dirty := True\<rparr>) d)"
proof -
  let ?d = "upd_buf b (\<lambda>x. x\<lparr>b_dirty := True\<rparr>) d"
  have "lru ?d xs = lru d xs" for xs by (rule lru_cong) (auto intro!: list_fields_same)
  moreover have "buf_ok n H ?d i" if "i < NBUF" for i using bio_invD(1)[OF inv that] b by (auto simp: buf_ok_def)
  moreover have "holds_block ?d k i = holds_block d k i" for k i by (simp add: holds_block_def)
  ultimately show ?thesis using inv by (auto simp: bio_inv_def)
qed

text \<open>The effect of \<open>bwrite\<close> on a held buffer.\<close>

definition wrote :: "nat \<Rightarrow> 'x disk_scheme \<Rightarrow> 'x disk_scheme" where
  "wrote b d = (upd_buf b (\<lambda>x. x\<lparr>b_dirty := False\<rparr>) d)
     \<lparr>memdisk := (memdisk d)(b_blockno (bufs d b) := b_data (bufs d b)),
      dwrites := dwrites d @ [(b_blockno (bufs d b), b_data (bufs d b))]\<rparr>"

lemma wrote_simps [simp]:
  "bufs (wrote b d) = (bufs d)(b := (bufs d b)\<lparr>b_dirty := False\<rparr>)"
  "memdisk (wrote b d) = (memdisk d)(b_blockno (bufs d b) := b_data (bufs d b))"
  "dwrites (wrote b d) = dwrites d @ [(b_blockno (bufs d b), b_data (bufs d b))]"
  "disksize (wrote b d) = disksize d" "sleeplocks (wrote b d) = sleeplocks d" "disk.more (wrote b d) = disk.more d"
  by (simp_all add: wrote_def)

lemma bwrite_runs:
  fixes d :: "'x disk_scheme"
  assumes inv: "bio_inv (pid_of w) H d" and b: "b \<in> H"
  shows "runs w (bwrite (cpu_of w) b) d () (wrote b d)"
proof -
  have ok: "buf_ok (pid_of w) H d b" using bio_invD(1,3)[OF inv] b by auto
  let ?d1 = "upd_buf b (\<lambda>x. x\<lparr>b_dirty := True\<rparr>) d"
  have e: "ide_transfer b ?d1 = wrote b d"
    using ok b by (auto simp: ide_transfer_def wrote_def upd_buf_def buf_ok_def Let_def fun_upd_def fun_eq_iff
        intro!: disk.equality)
  have "runs w (iderw (cpu_of w) b) ?d1 () (wrote b d)"
    unfolding e[symmetric] by (rule iderw_runs) (use ok b in \<open>auto simp: buf_ok_def\<close>)
  then have 1: "runs w (\<lambda>s. iderw (cpu_of w) b (upd_fsd (upd_buf b (\<lambda>x. x\<lparr>b_dirty := True\<rparr>)) s)) d () (wrote b d)"
    by (rule runs_upd_bnd)
  show ?thesis unfolding bwrite_def
  proof (rule runs_bnd[where a = True])
    show "runs w (holdingsleep (cpu_of w) (SBuf b)) d True d"
      using holdingsleep_runs[of w "SBuf b" d] ok b by (simp add: buf_ok_def)
  qed (use 1 in simp)
qed

lemma wrote_inv:
  assumes inv: "bio_inv n H d" and b: "b \<in> H"
  shows "bio_inv n H (wrote b d)"
proof -
  let ?d = "wrote b d"
  have bN: "b < NBUF" and v: "b_valid (bufs d b)" using bio_invD(3,1)[OF inv] b by (auto simp: buf_ok_def)
  have "lru ?d xs = lru d xs" for xs by (rule lru_cong) (auto intro!: list_fields_same)
  moreover have "buf_ok n H ?d i" if i: "i < NBUF" for i
  proof -
    have "b_blockno (bufs d i) = b_blockno (bufs d b) \<Longrightarrow> b_valid (bufs d i) \<Longrightarrow> i = b"
      using bio_invD(2)[OF inv i bN, of "b_blockno (bufs d b)"] v by (simp add: holds_block_def)
    then show ?thesis using bio_invD(1)[OF inv i] b by (auto simp: buf_ok_def)
  qed
  moreover have "holds_block ?d k i = holds_block d k i" for k i by (simp add: holds_block_def)
  ultimately show ?thesis using inv by (auto simp: bio_inv_def)
qed

text \<open>The effect of \<open>brelse\<close>.\<close>

definition freed :: "nat \<Rightarrow> 'x disk_scheme \<Rightarrow> 'x disk_scheme" where
  "freed b d = to_front b (upd_buf b (\<lambda>x. x\<lparr>b_refcnt := 0\<rparr>)
     (upd_sl (SBuf b) (\<lambda>l. l\<lparr>sl_locked := False, sl_pid := 0\<rparr>) d))"

text \<open>Changes of the list only.\<close>

definition same_cache :: "'x disk_scheme \<Rightarrow> 'x disk_scheme \<Rightarrow> bool" where
  "same_cache d d' \<longleftrightarrow> memdisk d' = memdisk d \<and> disksize d' = disksize d \<and> dwrites d' = dwrites d \<and>
     sleeplocks d' = sleeplocks d \<and> disk.more d' = disk.more d \<and>
     (\<forall>i. b_data (bufs d' i) = b_data (bufs d i) \<and> b_valid (bufs d' i) = b_valid (bufs d i) \<and>
        b_dirty (bufs d' i) = b_dirty (bufs d i) \<and> b_dev (bufs d' i) = b_dev (bufs d i) \<and>
        b_blockno (bufs d' i) = b_blockno (bufs d i) \<and> b_refcnt (bufs d' i) = b_refcnt (bufs d i))"

lemma same_cache_intros:
  "same_cache d d" "same_cache d d' \<Longrightarrow> same_cache d (upd_buf a (\<lambda>x. x\<lparr>b_next := v\<rparr>) d')"
  "same_cache d d' \<Longrightarrow> same_cache d (upd_buf a (\<lambda>x. x\<lparr>b_prev := v\<rparr>) d')"
  by (auto simp: same_cache_def)

lemma same_cache_to_front: "same_cache d (to_front b d)"
  unfolding to_front_def by (simp only: Let_def) (intro same_cache_intros)

lemma to_front_simps [simp]:
  "memdisk (to_front b d) = memdisk d" "disksize (to_front b d) = disksize d" "dwrites (to_front b d) = dwrites d"
  "sleeplocks (to_front b d) = sleeplocks d" "disk.more (to_front b d) = disk.more d"
  "b_data (bufs (to_front b d) i) = b_data (bufs d i)" "b_valid (bufs (to_front b d) i) = b_valid (bufs d i)"
  "b_dirty (bufs (to_front b d) i) = b_dirty (bufs d i)" "b_dev (bufs (to_front b d) i) = b_dev (bufs d i)"
  "b_blockno (bufs (to_front b d) i) = b_blockno (bufs d i)" "b_refcnt (bufs (to_front b d) i) = b_refcnt (bufs d i)"
  using same_cache_to_front[of d b] by (simp_all add: same_cache_def)

lemma freed_simps [simp]:
  "memdisk (freed b d) = memdisk d" "disksize (freed b d) = disksize d" "dwrites (freed b d) = dwrites d"
  "disk.more (freed b d) = disk.more d"
  "b_data (bufs (freed b d) i) = b_data (bufs d i)" "b_valid (bufs (freed b d) i) = b_valid (bufs d i)"
  "b_dirty (bufs (freed b d) i) = b_dirty (bufs d i)" "b_dev (bufs (freed b d) i) = b_dev (bufs d i)"
  "b_blockno (bufs (freed b d) i) = b_blockno (bufs d i)"
  "b_refcnt (bufs (freed b d) i) = (if i = b then 0 else b_refcnt (bufs d i))"
  "sleeplocks (freed b d) = (sleeplocks d)(SBuf b := (sleeplocks d (SBuf b))\<lparr>sl_locked := False, sl_pid := 0\<rparr>)"
  "holds_block (freed b d) m i = holds_block d m i" "view (freed b d) m = view d m"
proof -
  show h: "holds_block (freed b d) m i = holds_block d m i" for m i by (simp add: freed_def holds_block_def)
  then have "holds_block (freed b d) m = holds_block d m" by (simp add: fun_eq_iff)
  then show "view (freed b d) m = view d m" by (simp add: view_def freed_def split: option.splits)
qed (simp_all add: freed_def)

lemma brelse_runs:
  fixes d :: "'x disk_scheme"
  assumes inv: "bio_inv (pid_of w) H d" and b: "b \<in> H"
  shows "runs w (brelse (cpu_of w) b :: ('x disk_scheme, 'a) sys_scheme \<Rightarrow> _) d () (freed b d)"
proof -
  have ok: "buf_ok (pid_of w) H d b" using bio_invD(1,3)[OF inv] b by auto
  let ?d1 = "upd_sl (SBuf b) (\<lambda>l. l\<lparr>sl_locked := False, sl_pid := 0\<rparr>) d"
  have hold: "runs w (holdingsleep (cpu_of w) (SBuf b) :: ('x disk_scheme, 'a) sys_scheme \<Rightarrow> _) d True d"
    using holdingsleep_runs[of w "SBuf b" d] ok b by (simp add: buf_ok_def)
  let ?f = "upd_buf b (\<lambda>x. x\<lparr>b_refcnt := b_refcnt x - 1\<rparr>)"
  have r: "?f ?d1 = upd_buf b (\<lambda>x. x\<lparr>b_refcnt := 0\<rparr>) ?d1" using ok b by (simp add: upd_buf_def buf_ok_def)
  have sec: "runs w (\<lambda>s :: ('x disk_scheme, 'a) sys_scheme. bnd (acquire (cpu_of w) bcache_lock s) (\<lambda>_ s.
       let s = upd_fsd ?f s; s = (if b_refcnt (bufs (fsd s) b) = 0 then upd_fsd (to_front b) s else s)
       in release (cpu_of w) bcache_lock s)) ?d1 () (freed b d)"
  proof (rule runsI)
    fix s :: "('x disk_scheme, 'a) sys_scheme" assume s: "quiet w s" "fsd s = ?d1"
    have "b_refcnt (bufs (?f (fsd s)) b) = 0" using s ok b by (simp add: buf_ok_def)
    then have "bnd (acquire (cpu_of w) bcache_lock s) (\<lambda>_ s.
       let s = upd_fsd ?f s; s = (if b_refcnt (bufs (fsd s) b) = 0 then upd_fsd (to_front b) s else s)
       in release (cpu_of w) bcache_lock s) = Ok () (upd_fsd (\<lambda>d. to_front b (?f d)) (sect (cpu_of w) bcache_lock s))"
      using s quietD[OF s(1)] by (simp add: acquire_free release_held Let_def)
    then show "\<exists>s'. bnd (acquire (cpu_of w) bcache_lock s) (\<lambda>_ s.
       let s = upd_fsd ?f s; s = (if b_refcnt (bufs (fsd s) b) = 0 then upd_fsd (to_front b) s else s)
       in release (cpu_of w) bcache_lock s) = Ok () s' \<and> quiet w s' \<and> core s s' \<and> fsd s' = freed b d"
      using s r by (simp add: freed_def)
  qed
  have "runs w (\<lambda>s :: ('x disk_scheme, 'a) sys_scheme. bnd (releasesleep (cpu_of w) (SBuf b) s) (\<lambda>_ s.
       bnd (acquire (cpu_of w) bcache_lock s) (\<lambda>_ s.
       let s = upd_fsd ?f s; s = (if b_refcnt (bufs (fsd s) b) = 0 then upd_fsd (to_front b) s else s)
       in release (cpu_of w) bcache_lock s))) d () (freed b d)"
    by (rule runs_bnd[OF releasesleep_runs sec])
  then show ?thesis unfolding brelse_def by (intro runs_bnd[OF hold]) simp
qed

lemma freed_inv:
  assumes inv: "bio_inv n H d" and b: "b \<in> H"
    and clean: "b_dirty (bufs d b) \<or> b_data (bufs d b) = memdisk d (b_blockno (bufs d b))"
  shows "bio_inv n (H - {b}) (freed b d)"
proof -
  have bN: "b < NBUF" using bio_invD(3)[OF inv b] .
  obtain xs where "lru d xs" using inv by (auto simp: bio_inv_def)
  then have "lru (upd_buf b (\<lambda>x. x\<lparr>b_refcnt := 0\<rparr>) (upd_sl (SBuf b) (\<lambda>l. l\<lparr>sl_locked := False, sl_pid := 0\<rparr>) d)) xs"
    by (subst lru_cong) (auto intro!: list_fields_same)
  then have "lru (freed b d) (b # remove1 b xs)" unfolding freed_def by (rule to_front_lru[OF _ bN])
  moreover have "buf_ok n (H - {b}) (freed b d) i" if "i < NBUF" for i
    using bio_invD(1)[OF inv that] b clean by (auto simp: buf_ok_def)
  ultimately show ?thesis using inv by (auto simp: bio_inv_def)
qed

subsection \<open>The cache as a map from blocks to bytes\<close>

definition dirty_blocks :: "'x disk_scheme \<Rightarrow> uint set" where
  "dirty_blocks d = {m. \<exists>b<NBUF. holds_block d m b \<and> b_dirty (bufs d b)}"

definition held_blocks :: "nat set \<Rightarrow> 'x disk_scheme \<Rightarrow> uint set" where
  "held_blocks H d = (\<lambda>b. b_blockno (bufs d b)) ` H"

lemma finite_dirty [simp]: "finite (dirty_blocks d)"
proof -
  have "dirty_blocks d \<subseteq> (\<lambda>b. b_blockno (bufs d b)) ` {..<NBUF}" by (auto simp: dirty_blocks_def holds_block_def)
  then show ?thesis by (rule finite_subset) simp
qed

text \<open>There is a buffer to recycle as long as fewer blocks than buffers are dirty or held.\<close>

lemma room_left:
  assumes inv: "bio_inv n H d" and few: "card (dirty_blocks d \<union> held_blocks H d) < NBUF"
  shows "\<exists>a<NBUF. a \<notin> H \<and> \<not> b_dirty (bufs d a)"
proof (rule ccontr)
  assume no: "\<not> (\<exists>a<NBUF. a \<notin> H \<and> \<not> b_dirty (bufs d a))"
  let ?f = "\<lambda>b. b_blockno (bufs d b)"
  have v: "b_valid (bufs d b)" if "b < NBUF" for b using bio_invD(1)[OF inv that] no that by (auto simp: buf_ok_def)
  have "inj_on ?f {..<NBUF}"
    by (rule inj_onI) (use bio_invD(2)[OF inv] v in \<open>auto simp: holds_block_def\<close>)
  then have "card (?f ` {..<NBUF}) = NBUF" by (simp add: card_image)
  moreover have "?f ` {..<NBUF} \<subseteq> dirty_blocks d \<union> held_blocks H d"
    using no v by (auto simp: dirty_blocks_def held_blocks_def holds_block_def)
  moreover have "finite (held_blocks H d)" using inv finite_subset[of H "{..<NBUF}"] by (auto simp: bio_inv_def held_blocks_def)
  ultimately have "NBUF \<le> card (dirty_blocks d \<union> held_blocks H d)" by (metis card_mono finite_Un finite_dirty)
  then show False using few by simp
qed

text \<open>
  The state of the cache in the terms of its users: \<open>h\<close> says which buffers are held and for which block,
  \<open>V\<close> what each block reads as, \<open>D\<close> what is on the disk, \<open>Dt\<close> which blocks are dirty.
\<close>

definition cache :: "int \<Rightarrow> (nat \<rightharpoonup> uint) \<Rightarrow> (uint \<Rightarrow> block) \<Rightarrow> (uint \<Rightarrow> block) \<Rightarrow> uint set \<Rightarrow> (uint \<times> block) list \<Rightarrow> 'x disk_scheme \<Rightarrow> bool" where
  "cache n h V D Dt ws d \<longleftrightarrow> bio_inv n (dom h) d \<and> (\<forall>b m. h b = Some m \<longrightarrow> b_blockno (bufs d b) = m) \<and>
     view d = V \<and> memdisk d = D \<and> dirty_blocks d = Dt \<and> dwrites d = ws"

text \<open>What no call of the buffer cache changes.\<close>

definition kept :: "'x disk_scheme \<Rightarrow> 'x disk_scheme \<Rightarrow> bool" where
  "kept d d' \<longleftrightarrow> disksize d' = disksize d \<and> disk.more d' = disk.more d \<and>
     (\<forall>k. sleeplocks d' (SInode k) = sleeplocks d (SInode k))"

lemma kept_refl [simp]: "kept d d" and kept_trans: "kept d d1 \<Longrightarrow> kept d1 d2 \<Longrightarrow> kept d d2"
  by (simp_all add: kept_def)

lemma cache_held:
  assumes c: "cache n h V D Dt ws d" and b: "h b = Some m"
  shows "b < NBUF" "holds_block d m b" "b_data (bufs d b) = V m" "b_dirty (bufs d b) \<longleftrightarrow> m \<in> Dt"
proof -
  have inv: "bio_inv n (dom h) d" using c by (simp add: cache_def)
  show bN: "b < NBUF" using bio_invD(3)[OF inv] b by auto
  have "b_valid (bufs d b)" using bio_invD(1)[OF inv bN] b by (auto simp: buf_ok_def)
  then show h: "holds_block d m b" using c b by (auto simp: cache_def holds_block_def)
  show "b_data (bufs d b) = V m" using view_held[OF inv bN h] c by (simp add: cache_def)
  show "b_dirty (bufs d b) \<longleftrightarrow> m \<in> Dt"
  proof
    show "b_dirty (bufs d b) \<Longrightarrow> m \<in> Dt" using c bN h by (auto simp: cache_def dirty_blocks_def)
    assume "m \<in> Dt"
    then obtain i where i: "i < NBUF" "holds_block d m i" "b_dirty (bufs d i)"
      using c by (auto simp: cache_def dirty_blocks_def)
    then show "b_dirty (bufs d b)" using bio_invD(2)[OF inv i(1) bN i(2) h] by simp
  qed
qed

lemma cache_clean:
  assumes c: "cache n h V D Dt ws d" and m: "m \<notin> Dt" "m \<notin> ran h"
  shows "V m = D m"
proof -
  have inv: "bio_inv n (dom h) d" using c by (simp add: cache_def)
  have "view d m = memdisk d m"
  proof (rule view_clean[OF inv])
    fix b assume b: "b < NBUF" "holds_block d m b"
    have "b \<notin> dom h" using c m(2) b(2) by (auto simp: cache_def holds_block_def ran_def)
    moreover have "\<not> b_dirty (bufs d b)" using c m(1) b by (auto simp: cache_def dirty_blocks_def)
    ultimately show "b \<notin> dom h \<and> \<not> b_dirty (bufs d b)" by simp
  qed
  then show ?thesis using c by (simp add: cache_def)
qed

lemma bread_cache:
  fixes d :: "'x disk_scheme"
  assumes c: "cache (pid_of w) h V D Dt ws d" and m: "m < disksize d" "m \<notin> ran h"
    and room: "m \<in> Dt \<or> card (Dt \<union> ran h) < NBUF"
  obtains b d' where "runs w (bread (cpu_of w) 1 m :: ('x disk_scheme, 'a) sys_scheme \<Rightarrow> _) d b d'"
    "h b = None" "cache (pid_of w) (h(b \<mapsto> m)) V D Dt ws d'" "kept d d'" "b_data (bufs d' b) = V m"
proof -
  have inv: "bio_inv (pid_of w) (dom h) d" using c by (simp add: cache_def)
  have hd: "h b = Some k \<Longrightarrow> b_blockno (bufs d b) = k" for b k using c by (simp add: cache_def)
  have "held_blocks (dom h) d = ran h" by (auto simp: held_blocks_def ran_def hd image_iff) (use hd in fastforce)
  then have r: "(\<exists>b<NBUF. holds_block d m b) \<or> (\<exists>a<NBUF. a \<notin> dom h \<and> \<not> b_dirty (bufs d a))"
    using room room_left[OF inv] c by (auto simp: cache_def dirty_blocks_def)
  have new: "b_blockno (bufs d b) \<noteq> m" if "b \<in> dom h" for b using that hd m(2) by (auto simp: ran_def)
  obtain b d' where g: "runs w (bread (cpu_of w) 1 m :: ('x disk_scheme, 'a) sys_scheme \<Rightarrow> _) d b d'"
    "got (dom h) d m b d'" "bio_inv (pid_of w) (insert b (dom h)) d'"
    by (rule bread_runs[OF inv m(1) new r])
  show thesis
  proof (rule that[OF g(1)])
    show "h b = None" using g(2) by (auto simp: got_def)
    show "kept d d'" using g(2) by (auto simp: got_def kept_def)
    show "b_data (bufs d' b) = V m" using g(2) c by (auto simp: got_def cache_def)
    have hb: "holds_block d' k i = (if i = b then k = m else holds_block d k i)" for k i
      using g(2) by (auto simp: got_def holds_block_def)
    have "dirty_blocks d' = dirty_blocks d" using g(2) hb by (auto simp: dirty_blocks_def got_def) (metis holds_block_def)+
    then show "cache (pid_of w) (h(b \<mapsto> m)) V D Dt ws d'"
      using g c got_view[OF g(2) inv g(3)] by (auto simp: cache_def got_def holds_block_def)
  qed
qed

lemma view_upd:
  assumes inv: "bio_inv n H d" and inv': "bio_inv n H d'" and b: "b < NBUF" "holds_block d m b"
    and same: "\<And>k i. holds_block d' k i = holds_block d k i" "\<And>i. i \<noteq> b \<Longrightarrow> b_data (bufs d' i) = b_data (bufs d i)"
      "\<And>k. k \<noteq> m \<Longrightarrow> memdisk d' k = memdisk d k"
  shows "view d' = (view d)(m := b_data (bufs d' b))"
proof
  fix k
  show "view d' k = ((view d)(m := b_data (bufs d' b))) k"
  proof (cases "k = m")
    case True
    then show ?thesis using view_held[OF inv' b(1)] same(1) b(2) by simp
  next
    case False
    then have nb: "\<not> holds_block d k b" using b(2) by (simp add: holds_block_def)
    have "holds_block d' k = holds_block d k" using same(1) by (simp add: fun_eq_iff)
    moreover have "i \<noteq> b" if "first_index (holds_block d k) NBUF = Some i" for i
      using that nb by (auto simp: first_index_Some_iff)
    ultimately show ?thesis using False same(2,3) by (simp add: view_def split: option.split)
  qed
qed

lemma bno_cache: "cache n h V D Dt ws d \<Longrightarrow> h b = Some m \<Longrightarrow> b_blockno (bufs d b) = m"
  by (simp add: cache_def)

lemma set_cache:
  assumes c: "cache n h V D Dt ws d" and b: "h b = Some m"
  shows "cache n h (V(m := x)) D Dt ws (upd_buf b (\<lambda>y. y\<lparr>b_data := x\<rparr>) d)" (is "cache n h _ D Dt ws ?d")
    "kept d (upd_buf b (\<lambda>y. y\<lparr>b_data := x\<rparr>) d)"
proof -
  have inv: "bio_inv n (dom h) d" and V: "view d = V" using c by (simp_all add: cache_def)
  have inv': "bio_inv n (dom h) ?d" by (rule bio_inv_data[OF inv]) (use b in auto)
  have hb: "holds_block ?d k i = holds_block d k i" for k i by (simp add: holds_block_def)
  have "view ?d = V(m := x)"
    using view_upd[OF inv inv' cache_held(1,2)[OF c b] hb] V by simp
  moreover have "dirty_blocks ?d = dirty_blocks d" unfolding dirty_blocks_def hb by auto
  ultimately show "cache n h (V(m := x)) D Dt ws ?d" using c inv' by (auto simp: cache_def)
  show "kept d ?d" by (simp add: kept_def)
qed

lemma dirty_cache:
  assumes c: "cache n h V D Dt ws d" and b: "h b = Some m"
  shows "cache n h V D (insert m Dt) ws (upd_buf b (\<lambda>y. y\<lparr>b_dirty := True\<rparr>) d)" (is "cache n h _ D _ ws ?d")
    "kept d (upd_buf b (\<lambda>y. y\<lparr>b_dirty := True\<rparr>) d)"
proof -
  have inv: "bio_inv n (dom h) d" and V: "view d = V" using c by (simp_all add: cache_def)
  have inv': "bio_inv n (dom h) ?d" by (rule bio_inv_dirty[OF inv]) (use b in auto)
  have hb: "holds_block ?d k i = holds_block d k i" for k i by (simp add: holds_block_def)
  have "view ?d = V"
    using view_upd[OF inv inv' cache_held(1,2)[OF c b] hb] V cache_held(3)[OF c b] by simp
  moreover have "dirty_blocks ?d = insert m (dirty_blocks d)"
    using cache_held(1,2)[OF c b] by (auto simp: dirty_blocks_def hb) (auto simp: holds_block_def)
  ultimately show "cache n h V D (insert m Dt) ws ?d" using c inv' by (auto simp: cache_def)
  show "kept d ?d" by (simp add: kept_def)
qed

lemma bwrite_cache:
  fixes d :: "'x disk_scheme"
  assumes c: "cache (pid_of w) h V D Dt ws d" and b: "h b = Some m"
  obtains d' where "runs w (bwrite (cpu_of w) b :: ('x disk_scheme, 'a) sys_scheme \<Rightarrow> _) d () d'"
    "cache (pid_of w) h V (D(m := V m)) (Dt - {m}) (ws @ [(m, V m)]) d'" "kept d d'"
proof -
  have inv: "bio_inv (pid_of w) (dom h) d" and V: "view d = V" using c by (simp_all add: cache_def)
  have bH: "b \<in> dom h" using b by auto
  let ?d = "wrote b d"
  have inv': "bio_inv (pid_of w) (dom h) ?d" by (rule wrote_inv[OF inv bH])
  have hb: "holds_block ?d k i = holds_block d k i" for k i by (simp add: holds_block_def)
  have bm: "b_blockno (bufs d b) = m" "b_data (bufs d b) = V m" using bno_cache[OF c b] cache_held(3)[OF c b] by auto
  have "view ?d = V"
    using view_upd[OF inv inv' cache_held(1,2)[OF c b] hb] V bm by simp
  moreover have "dirty_blocks ?d = dirty_blocks d - {m}"
  proof -
    have one: "i = b \<longleftrightarrow> k = m" if "holds_block d k i" "i < NBUF" for k i
      using bio_invD(2)[OF inv that(2) cache_held(1)[OF c b] _ cache_held(2)[OF c b]] that bm by (auto simp: holds_block_def)
    have "b_dirty (bufs ?d i) \<longleftrightarrow> i \<noteq> b \<and> b_dirty (bufs d i)" for i by simp
    then have "dirty_blocks ?d = {k. \<exists>i<NBUF. holds_block d k i \<and> i \<noteq> b \<and> b_dirty (bufs d i)}"
      unfolding dirty_blocks_def hb by simp
    also have "\<dots> = dirty_blocks d - {m}" unfolding dirty_blocks_def using one by blast
    finally show ?thesis .
  qed
  ultimately have "cache (pid_of w) h V (D(m := V m)) (Dt - {m}) (ws @ [(m, V m)]) ?d"
    using c inv' bm by (auto simp: cache_def)
  moreover have "kept d ?d" by (simp add: kept_def)
  ultimately show thesis using that[OF bwrite_runs[OF inv bH]] by blast
qed

lemma brelse_cache:
  fixes d :: "'x disk_scheme"
  assumes c: "cache (pid_of w) h V D Dt ws d" and b: "h b = Some m" and clean: "m \<in> Dt \<or> V m = D m"
  obtains d' where "runs w (brelse (cpu_of w) b :: ('x disk_scheme, 'a) sys_scheme \<Rightarrow> _) d () d'"
    "cache (pid_of w) (h(b := None)) V D Dt ws d'" "kept d d'"
proof -
  have inv: "bio_inv (pid_of w) (dom h) d" using c by (simp add: cache_def)
  have bH: "b \<in> dom h" using b by auto
  let ?d = "freed b d"
  have "b_dirty (bufs d b) \<or> b_data (bufs d b) = memdisk d (b_blockno (bufs d b))"
    using cache_held(3,4)[OF c b] bno_cache[OF c b] clean c by (auto simp: cache_def)
  then have "bio_inv (pid_of w) (dom h - {b}) ?d" by (rule freed_inv[OF inv bH])
  moreover have "dirty_blocks ?d = dirty_blocks d" by (simp add: dirty_blocks_def)
  moreover have "view ?d = view d" by (simp add: fun_eq_iff)
  ultimately have "cache (pid_of w) (h(b := None)) V D Dt ws ?d" using c by (auto simp: cache_def)
  moreover have "kept d ?d" by (simp add: kept_def)
  ultimately show thesis using that[OF brelse_runs[OF inv bH]] by blast
qed

subsection \<open>The empty cache\<close>

text \<open>The buffers as the loader leaves them: all zero.\<close>

definition zero_bufs :: "'x disk_scheme \<Rightarrow> bool" where
  "zero_bufs d \<longleftrightarrow> (\<forall>b<NBUF. \<not> b_valid (bufs d b) \<and> \<not> b_dirty (bufs d b) \<and> b_dev (bufs d b) = 0 \<and> b_refcnt (bufs d b) = 0)"

lemma fsd_initlock [simp]: "fsd (initlock lk nm s) = fsd s"
  by (simp add: initlock_def upd_lock_def)

lemma fsd_binit_buf: "fsd (binit_buf b s) =
   (let d = upd_buf b (\<lambda>x. x\<lparr>b_next := b_next (bufs (fsd s) NBUF), b_prev := NBUF\<rparr>) (fsd s);
        d = upd_sl (SBuf b) (\<lambda>l. l\<lparr>sl_name := ''buffer'', sl_locked := False, sl_pid := 0\<rparr>) d;
        d = upd_buf (b_next (bufs d NBUF)) (\<lambda>x. x\<lparr>b_prev := b\<rparr>) d
    in upd_buf NBUF (\<lambda>x. x\<lparr>b_next := b\<rparr>) d)"
  by (simp add: binit_buf_def initsleeplock_def Let_def)

lemma binit_buf_lists:
  assumes "b < NBUF"
  shows "nexts (fsd (binit_buf b s)) = (nexts (fsd s))(b := nexts (fsd s) NBUF, NBUF := b)"
    "prevs (fsd (binit_buf b s)) = ((prevs (fsd s))(b := NBUF))(nexts (fsd s) NBUF := b)"
  using assms by (auto simp: fsd_binit_buf Let_def nexts_def prevs_def fun_eq_iff)

lemma binit_buf_frame:
  "memdisk (fsd (binit_buf b s)) = memdisk (fsd s)" "disksize (fsd (binit_buf b s)) = disksize (fsd s)"
  "dwrites (fsd (binit_buf b s)) = dwrites (fsd s)" "disk.more (fsd (binit_buf b s)) = disk.more (fsd s)"
  "b_valid (bufs (fsd (binit_buf b s)) i) = b_valid (bufs (fsd s) i)"
  "b_dirty (bufs (fsd (binit_buf b s)) i) = b_dirty (bufs (fsd s) i)"
  "b_dev (bufs (fsd (binit_buf b s)) i) = b_dev (bufs (fsd s) i)"
  "b_refcnt (bufs (fsd (binit_buf b s)) i) = b_refcnt (bufs (fsd s) i)"
  "sl_locked (sleeplocks (fsd (binit_buf b s)) k) = (k \<noteq> SBuf b \<and> sl_locked (sleeplocks (fsd s) k))"
  by (auto simp: fsd_binit_buf Let_def)

lemma binit_bufs:
  assumes "nexts (fsd s) NBUF = NBUF" "prevs (fsd s) NBUF = NBUF" "k \<le> NBUF"
  shows "chain (nexts (fsd (fold binit_buf [0..<k] s))) (prevs (fsd (fold binit_buf [0..<k] s))) NBUF (rev [0..<k]) NBUF \<and>
    (let d = fsd (fold binit_buf [0..<k] s) in
     memdisk d = memdisk (fsd s) \<and> disksize d = disksize (fsd s) \<and> dwrites d = dwrites (fsd s) \<and> disk.more d = disk.more (fsd s) \<and>
     (\<forall>i. b_valid (bufs d i) = b_valid (bufs (fsd s) i) \<and> b_dirty (bufs d i) = b_dirty (bufs (fsd s) i) \<and>
       b_dev (bufs d i) = b_dev (bufs (fsd s) i) \<and> b_refcnt (bufs d i) = b_refcnt (bufs (fsd s) i)) \<and>
     (\<forall>i<k. \<not> sl_locked (sleeplocks d (SBuf i))))"
  using assms(3)
proof (induction k)
  case 0
  then show ?case using assms(1,2) by simp
next
  case (Suc k)
  let ?s = "fold binit_buf [0..<k] s"
  have k: "k < NBUF" using Suc.prems by simp
  have f: "fold binit_buf [0..<Suc k] s = binit_buf k ?s" by simp
  have "chain (nexts (fsd ?s)) (prevs (fsd ?s)) NBUF (rev [0..<k]) NBUF" using Suc by simp
  then have "chain ((nexts (fsd ?s))(k := nexts (fsd ?s) NBUF, NBUF := k)) (((prevs (fsd ?s))(k := NBUF))(nexts (fsd ?s) NBUF := k))
      NBUF (k # rev [0..<k]) NBUF"
    by (rule chain_push) (use k in auto)
  then have "chain (nexts (fsd (binit_buf k ?s))) (prevs (fsd (binit_buf k ?s))) NBUF (rev [0..<Suc k]) NBUF"
    using binit_buf_lists[OF k, of ?s] by simp
  then show ?case using Suc unfolding f by (simp add: Let_def binit_buf_frame less_Suc_eq)
qed

lemma binit_cache:
  assumes z: "zero_bufs (fsd s)" and w: "dwrites (fsd s) = ws"
  shows "cache n Map.empty (memdisk (fsd s)) (memdisk (fsd s)) {} ws (fsd (binit s))"
    "disksize (fsd (binit s)) = disksize (fsd s)" "disk.more (fsd (binit s)) = disk.more (fsd s)"
proof -
  define s0 where "s0 = upd_fsd (upd_buf NBUF (\<lambda>x. x\<lparr>b_prev := NBUF, b_next := NBUF\<rparr>)) (initlock bcache_lock ''bcache'' s)"
  have b: "binit s = fold binit_buf [0..<NBUF] s0" by (simp add: binit_def s0_def Let_def)
  have f: "fsd s0 = upd_buf NBUF (\<lambda>x. x\<lparr>b_prev := NBUF, b_next := NBUF\<rparr>) (fsd s)" by (simp add: s0_def)
  have h: "nexts (fsd s0) NBUF = NBUF" "prevs (fsd s0) NBUF = NBUF" by (simp_all add: f nexts_def prevs_def)
  let ?d = "fsd (binit s)"
  note r = binit_bufs[OF h order_refl, folded b, unfolded Let_def]
  have same: "memdisk ?d = memdisk (fsd s)" "dwrites ?d = ws" using r w by (simp_all add: f)
  show "disksize ?d = disksize (fsd s)" "disk.more ?d = disk.more (fsd s)" using r by (simp_all add: f)
  have bd: "\<not> b_valid (bufs ?d i) \<and> \<not> b_dirty (bufs ?d i) \<and> b_dev (bufs ?d i) = 0 \<and> b_refcnt (bufs ?d i) = 0 \<and>
      \<not> sl_locked (sleeplocks ?d (SBuf i))" if "i < NBUF" for i
    using r z that by (auto simp: f zero_bufs_def)
  have l: "lru ?d (rev [0..<NBUF])" using r by (auto simp: lru_def)
  have no: "\<not> holds_block ?d m i" if "i < NBUF" for m i using bd[OF that] by (simp add: holds_block_def)
  have "bio_inv n {} ?d" using l bd no by (auto simp: bio_inv_def buf_ok_def)
  moreover have "view ?d = memdisk (fsd s)" using view_absent[OF no] same by (simp add: fun_eq_iff)
  moreover have "dirty_blocks ?d = {}" using no by (auto simp: dirty_blocks_def)
  ultimately show "cache n Map.empty (memdisk (fsd s)) (memdisk (fsd s)) {} ws ?d" using same by (simp add: cache_def)
qed

subsection \<open>Contract of a block store\<close>

datatype ('m, 'x) block_call = Read 'm | Write 'm 'x

text \<open>The calls on an abstract store: what they return and what the store is afterwards.\<close>

fun store_result :: "('m, 'x) block_call \<Rightarrow> ('m \<Rightarrow> 'x) \<Rightarrow> 'x" where
  "store_result (Read m) V = V m"
| "store_result (Write m x) V = x"

fun store_next :: "('m, 'x) block_call \<Rightarrow> ('m \<Rightarrow> 'x) \<Rightarrow> ('m \<Rightarrow> 'x)" where
  "store_next (Read m) V = V"
| "store_next (Write m x) V = V(m := x)"

fun store_run :: "('m, 'x) block_call list \<Rightarrow> ('m \<Rightarrow> 'x) \<Rightarrow> 'x list" where
  "store_run [] V = []"
| "store_run (e # es) V = store_result e V # store_run es (store_next e V)"

fun call_block :: "('m, 'x) block_call \<Rightarrow> 'm" where
  "call_block (Read m) = m"
| "call_block (Write m x) = m"

fun run_blocks :: "('m \<Rightarrow> 's \<Rightarrow> ('x, 's) res) \<Rightarrow> ('m \<Rightarrow> 'x \<Rightarrow> 's \<Rightarrow> ('x, 's) res) \<Rightarrow>
    ('m, 'x) block_call list \<Rightarrow> 's \<Rightarrow> ('x list, 's) res" where
  "run_blocks rd wr [] s = Ok [] s"
| "run_blocks rd wr (Read m # es) s = bnd (rd m s) (\<lambda>x s. bnd (run_blocks rd wr es s) (\<lambda>xs. Ok (x # xs)))"
| "run_blocks rd wr (Write m y # es) s = bnd (wr m y s) (\<lambda>x s. bnd (run_blocks rd wr es s) (\<lambda>xs. Ok (x # xs)))"

locale block_store =
  fixes rd :: "'m \<Rightarrow> 's \<Rightarrow> ('x, 's) res"
    and wr :: "'m \<Rightarrow> 'x \<Rightarrow> 's \<Rightarrow> ('x, 's) res"
    and content :: "'s \<Rightarrow> 'm \<Rightarrow> 'x"
    and blocks :: "'s \<Rightarrow> 'm set"
    and ok :: "'s \<Rightarrow> bool"
  assumes rd_law: "ok s \<Longrightarrow> m \<in> blocks s \<Longrightarrow>
      \<exists>s'. rd m s = Ok (content s m) s' \<and> ok s' \<and> content s' = content s \<and> blocks s' = blocks s"
    and wr_law: "ok s \<Longrightarrow> m \<in> blocks s \<Longrightarrow>
      \<exists>s'. wr m x s = Ok x s' \<and> ok s' \<and> content s' = (content s)(m := x) \<and> blocks s' = blocks s"
begin

lemma run_refines:
  "ok s \<Longrightarrow> \<forall>e\<in>set es. call_block e \<in> blocks s \<Longrightarrow>
   \<exists>s'. run_blocks rd wr es s = Ok (store_run es (content s)) s' \<and> ok s' \<and>
     content s' = fold store_next es (content s)"
proof (induction es arbitrary: s)
  case (Cons e es)
  have m: "call_block e \<in> blocks s" using Cons.prems(2) by simp
  obtain s1 where s1: "(case e of Read m \<Rightarrow> rd m s | Write m x \<Rightarrow> wr m x s) = Ok (store_result e (content s)) s1"
    "ok s1" "content s1 = store_next e (content s)" "blocks s1 = blocks s"
    using rd_law[OF Cons.prems(1)] wr_law[OF Cons.prems(1)] m by (cases e) fastforce+
  obtain s2 where "run_blocks rd wr es s1 = Ok (store_run es (content s1)) s2" "ok s2"
    "content s2 = fold store_next es (content s1)"
    using Cons.IH[OF s1(2)] Cons.prems(2) s1(4) by auto
  then show ?case using s1 by (cases e) auto
qed simp

end

subsection \<open>The buffer cache meets the contract\<close>

text \<open>The use of a block as the comment at the top of \<open>bio.c\<close> describes it.\<close>

definition read_block :: "nat \<Rightarrow> uint \<Rightarrow> ('x disk_scheme, 'a) sys_scheme \<Rightarrow> (block, ('x disk_scheme, 'a) sys_scheme) res" where
  "read_block c m s =
     bnd (bread c ROOTDEV m s) (\<lambda>b s.
     let x = b_data (bufs (fsd s) b) in
     bnd (brelse c b s) (\<lambda>_. Ok x))"

definition write_block :: "nat \<Rightarrow> uint \<Rightarrow> block \<Rightarrow> ('x disk_scheme, 'a) sys_scheme \<Rightarrow> (block, ('x disk_scheme, 'a) sys_scheme) res" where
  "write_block c m x s =
     bnd (bread c ROOTDEV m s) (\<lambda>b s.
     bnd (bwrite c b (upd_fsd (upd_buf b (\<lambda>y. y\<lparr>b_data := x\<rparr>)) s)) (\<lambda>_ s.
     bnd (brelse c b s) (\<lambda>_. Ok x)))"

lemma read_block_cache:
  fixes d :: "'x disk_scheme"
  assumes c: "cache (pid_of w) Map.empty V D Dt ws d" and m: "m < disksize d"
    and room: "m \<in> Dt \<or> card Dt < NBUF"
  obtains d' where "runs w (read_block (cpu_of w) m :: ('x disk_scheme, 'a) sys_scheme \<Rightarrow> _) d (V m) d'"
    "cache (pid_of w) Map.empty V D Dt ws d'" "kept d d'"
proof -
  obtain b d1 where b: "runs w (bread (cpu_of w) ROOTDEV m :: ('x disk_scheme, 'a) sys_scheme \<Rightarrow> _) d b d1"
    "cache (pid_of w) [b \<mapsto> m] V D Dt ws d1" "kept d d1" "b_data (bufs d1 b) = V m"
    using bread_cache[OF c m] room by (metis Un_empty_right empty_iff ran_empty)
  have "m \<in> Dt \<or> V m = D m" using cache_clean[OF c] by auto
  then obtain d2 where d2: "runs w (brelse (cpu_of w) b :: ('x disk_scheme, 'a) sys_scheme \<Rightarrow> _) d1 () d2"
    "cache (pid_of w) ([b \<mapsto> m](b := None)) V D Dt ws d2" "kept d1 d2"
    using brelse_cache[OF b(2), of b m] by auto
  have "runs w (read_block (cpu_of w) m :: ('x disk_scheme, 'a) sys_scheme \<Rightarrow> _) d (V m) d2"
    unfolding read_block_def
  proof (rule runs_bnd[OF b(1)])
    have "runs w (\<lambda>s :: ('x disk_scheme, 'a) sys_scheme. bnd (brelse (cpu_of w) b s) (\<lambda>_. Ok (V m))) d1 (V m) d2"
      by (rule runs_bnd[OF d2(1) runs_Ok])
    then show "runs w (\<lambda>s :: ('x disk_scheme, 'a) sys_scheme. let x = b_data (bufs (fsd s) b)
        in bnd (brelse (cpu_of w) b s) (\<lambda>_. Ok x)) d1 (V m) d2"
      by (rule runs_cong[rotated]) (simp add: b(4))
  qed
  then show thesis using that[of d2] d2(2) kept_trans[OF b(3) d2(3)] by simp
qed

lemma write_block_cache:
  fixes d :: "'x disk_scheme"
  assumes c: "cache (pid_of w) Map.empty V D Dt ws d" and m: "m < disksize d"
    and room: "m \<in> Dt \<or> card Dt < NBUF"
  obtains d' where "runs w (write_block (cpu_of w) m x :: ('x disk_scheme, 'a) sys_scheme \<Rightarrow> _) d x d'"
    "cache (pid_of w) Map.empty (V(m := x)) (D(m := x)) (Dt - {m}) (ws @ [(m, x)]) d'" "kept d d'"
proof -
  obtain b d1 where b: "runs w (bread (cpu_of w) ROOTDEV m :: ('x disk_scheme, 'a) sys_scheme \<Rightarrow> _) d b d1"
    "cache (pid_of w) [b \<mapsto> m] V D Dt ws d1" "kept d d1"
    using bread_cache[OF c m] room by (metis Un_empty_right empty_iff ran_empty)
  let ?d2 = "upd_buf b (\<lambda>y. y\<lparr>b_data := x\<rparr>) d1"
  have s: "cache (pid_of w) [b \<mapsto> m] (V(m := x)) D Dt ws ?d2" "kept d1 ?d2" using set_cache[OF b(2), of b m x] by auto
  obtain d3 where d3: "runs w (bwrite (cpu_of w) b :: ('x disk_scheme, 'a) sys_scheme \<Rightarrow> _) ?d2 () d3"
    "cache (pid_of w) [b \<mapsto> m] (V(m := x)) (D(m := x)) (Dt - {m}) (ws @ [(m, x)]) d3" "kept ?d2 d3"
    using bwrite_cache[OF s(1), of b m] by auto
  obtain d4 where d4: "runs w (brelse (cpu_of w) b :: ('x disk_scheme, 'a) sys_scheme \<Rightarrow> _) d3 () d4"
    "cache (pid_of w) ([b \<mapsto> m](b := None)) (V(m := x)) (D(m := x)) (Dt - {m}) (ws @ [(m, x)]) d4" "kept d3 d4"
    using brelse_cache[OF d3(2), of b m] by auto
  have "runs w (write_block (cpu_of w) m x :: ('x disk_scheme, 'a) sys_scheme \<Rightarrow> _) d x d4"
    unfolding write_block_def
    by (rule runs_bnd[OF b(1)], rule runs_bnd[OF runs_upd_bnd[where m = "bwrite (cpu_of w) b" and f = "upd_buf b (\<lambda>y. y\<lparr>b_data := x\<rparr>)", OF d3(1)]],
        rule runs_bnd[OF d4(1) runs_Ok])
  then show thesis using that[of d4] d4(2) kept_trans[OF b(3) kept_trans[OF s(2) kept_trans[OF d3(3) d4(3)]]] by simp
qed

definition store_ok :: "task \<Rightarrow> ('x disk_scheme, 'a) sys_scheme \<Rightarrow> bool" where
  "store_ok w s \<longleftrightarrow> quiet w s \<and> (\<exists>V ws. cache (pid_of w) Map.empty V V {} ws (fsd s))"

lemma read_block_law:
  fixes s :: "('x disk_scheme, 'a) sys_scheme"
  assumes s: "store_ok w s" "m \<in> {m. m < disksize (fsd s)}"
  shows "\<exists>s'. read_block (cpu_of w) m s = Ok (memdisk (fsd s) m) s' \<and> store_ok w s' \<and> memdisk (fsd s') = memdisk (fsd s) \<and>
      {m. m < disksize (fsd s')} = {m. m < disksize (fsd s)}"
proof -
  obtain V ws where c: "quiet w s" "cache (pid_of w) Map.empty V V {} ws (fsd s)" "m < disksize (fsd s)"
    using s by (auto simp: store_ok_def)
  have V: "memdisk (fsd s) = V" using c(2) by (simp add: cache_def)
  obtain d' where d': "runs w (read_block (cpu_of w) m :: ('x disk_scheme, 'a) sys_scheme \<Rightarrow> _) (fsd s) (V m) d'"
    "cache (pid_of w) Map.empty V V {} ws d'" "kept (fsd s) d'"
    by (rule read_block_cache[OF c(2,3)]) simp_all
  obtain s' where s': "read_block (cpu_of w) m s = Ok (V m) s'" "quiet w s'" "fsd s' = d'"
    by (rule runsE[OF d'(1) c(1) refl])
  have "store_ok w s'" using s' d'(2) by (auto simp: store_ok_def)
  moreover have "memdisk (fsd s') = memdisk (fsd s)" using s'(3) d'(2) V by (simp add: cache_def)
  ultimately show ?thesis using s' d'(3) V by (simp add: kept_def)
qed

lemma write_block_law:
  fixes s :: "('x disk_scheme, 'a) sys_scheme"
  assumes s: "store_ok w s" "m \<in> {m. m < disksize (fsd s)}"
  shows "\<exists>s'. write_block (cpu_of w) m x s = Ok x s' \<and> store_ok w s' \<and> memdisk (fsd s') = (memdisk (fsd s))(m := x) \<and>
      {m. m < disksize (fsd s')} = {m. m < disksize (fsd s)}"
proof -
  obtain V ws where c: "quiet w s" "cache (pid_of w) Map.empty V V {} ws (fsd s)" "m < disksize (fsd s)"
    using s by (auto simp: store_ok_def)
  have V: "memdisk (fsd s) = V" using c(2) by (simp add: cache_def)
  obtain d' where d': "runs w (write_block (cpu_of w) m x :: ('x disk_scheme, 'a) sys_scheme \<Rightarrow> _) (fsd s) x d'"
    "cache (pid_of w) Map.empty (V(m := x)) (V(m := x)) ({} - {m}) (ws @ [(m, x)]) d'" "kept (fsd s) d'"
    by (rule write_block_cache[OF c(2,3)]) simp_all
  obtain s' where s': "write_block (cpu_of w) m x s = Ok x s'" "quiet w s'" "fsd s' = d'"
    by (rule runsE[OF d'(1) c(1) refl])
  have "store_ok w s'" using s' d'(2) by (auto simp: store_ok_def)
  moreover have "memdisk (fsd s') = (memdisk (fsd s))(m := x)" using s'(3) d'(2) V by (simp add: cache_def)
  ultimately show ?thesis using s' d'(3) by (simp add: kept_def)
qed

interpretation bcache: block_store "read_block (cpu_of w)" "write_block (cpu_of w)" "\<lambda>s. memdisk (fsd s)"
  "\<lambda>s. {m. m < disksize (fsd s)}" "store_ok w" for w
  by unfold_locales (rule read_block_law write_block_law; assumption)+

subsection \<open>Properties\<close>

text \<open>
  C7 (the buffer cache is transparent). After \<open>binit\<close>, every sequence of reads and writes of blocks of the
  disk, made by a thread that meets no contention, returns: whatever blocks are cached, recycled and
  evicted on the way, a read gives the bytes last written to its block, or those the disk had at the start,
  and at the end the disk holds the last bytes written to every block.
\<close>

theorem bcache_transparent:
  fixes s0 :: "('x disk_scheme, 'a) sys_scheme"
  assumes "zero_bufs (fsd s0)" and "quiet w s" and "fsd s = fsd (binit s0)"
    and "\<forall>e\<in>set es. call_block e < disksize (fsd s0)"
  shows "\<exists>s'. run_blocks (read_block (cpu_of w)) (write_block (cpu_of w)) es s =
      Ok (store_run es (memdisk (fsd s0))) s' \<and> memdisk (fsd s') = fold store_next es (memdisk (fsd s0)) \<and> quiet w s'"
proof -
  note b = binit_cache[OF assms(1) refl]
  have ok: "store_ok w s" using assms(2,3) b(1)[of "pid_of w"] by (auto simp: store_ok_def)
  have D: "memdisk (fsd s) = memdisk (fsd s0)" using assms(3) b(1) by (simp add: cache_def)
  have "\<forall>e\<in>set es. call_block e \<in> {m. m < disksize (fsd s)}" using assms(3,4) b(2) by simp
  from bcache.run_refines[OF ok this] show ?thesis unfolding D by (auto simp: store_ok_def)
qed

text \<open>A disk of 1000 zero blocks.\<close>

definition demo_disk :: disk where
  "demo_disk = \<lparr>sleeplocks = (\<lambda>_. \<lparr>sl_locked = False, sl_name = [], sl_pid = 0\<rparr>),
     bufs = (\<lambda>_. \<lparr>b_valid = False, b_dirty = False, b_dev = 0, b_blockno = 0, b_refcnt = 0, b_prev = 0, b_next = 0,
       b_data = (\<lambda>_. 0)\<rparr>),
     memdisk = (\<lambda>_ _. 0), disksize = 1000, dwrites = []\<rparr>"

theorem bcache_transparent_witness:
  "\<exists>s'. run_blocks (read_block 0) (write_block 0) [Write 3 (\<lambda>_. 7), Read 3, Read 4]
      (demo_sys (fsd (binit (demo_sys demo_disk)))) =
    Ok [\<lambda>_. 7, \<lambda>_. 7, \<lambda>_. 0] s' \<and> memdisk (fsd s') = (\<lambda>_ _. 0)(3 := \<lambda>_. 7)"
proof -
  let ?es = "[Write 3 (\<lambda>_. 7), Read 3, Read 4] :: (uint, block) block_call list"
  let ?s = "demo_sys (fsd (binit (demo_sys demo_disk)))"
  have "\<exists>s'. run_blocks (read_block (cpu_of demo_task)) (write_block (cpu_of demo_task)) ?es ?s =
      Ok (store_run ?es (memdisk (fsd (demo_sys demo_disk)))) s' \<and>
      memdisk (fsd s') = fold store_next ?es (memdisk (fsd (demo_sys demo_disk))) \<and> quiet demo_task s'"
    by (rule bcache_transparent[OF _ quiet_demo]) (simp_all add: zero_bufs_def demo_disk_def)
  then obtain s' where "run_blocks (read_block 0) (write_block 0) ?es ?s = Ok (store_run ?es (memdisk demo_disk)) s'"
    "memdisk (fsd s') = fold store_next ?es (memdisk demo_disk)"
    unfolding demo_sys_simps(5) demo_task_simps by blast
  moreover have "store_run ?es (memdisk demo_disk) = [\<lambda>_. 7, \<lambda>_. 7, \<lambda>_. 0]"
    "fold store_next ?es (memdisk demo_disk) = (\<lambda>_ _. 0)(3 := \<lambda>_. 7)" by (simp_all add: demo_disk_def)
  ultimately show ?thesis by (intro exI[of _ s']) (simp only: simp_thms)
qed

end
