(* ===== verification/Log.thy ===== *)
theory Log
  imports Bio
begin

text \<open>
  \<open>log.c\<close>, the write-ahead log, with \<open>readsb\<close> of \<open>fs.c\<close>. The header of the log is kept in memory
  (\<open>lh_n\<close>, \<open>lh_block\<close>) and in the first block of the log on the disk: the number of blocks, then their
  numbers, as 32-bit words. The numbers \<open>int\<close> of the code that are block numbers or devices are words
  here, as they are when they are passed to \<open>bread\<close>.

  The disk after a crash is the initial disk with a prefix of the writes applied to it: a block is
  written completely or not at all, and in the order of the calls of \<open>bwrite\<close>.
\<close>

abbreviation (input) LOGSIZE :: int where "LOGSIZE \<equiv> 30"
abbreviation (input) MAXOPBLOCKS :: int where "MAXOPBLOCKS \<equiv> 10"

record superblock =
  sb_size :: uint
  sb_nblocks :: uint
  sb_ninodes :: uint
  sb_nlog :: uint
  sb_logstart :: uint
  sb_inodestart :: uint
  sb_bmapstart :: uint

record logstate = disk +
  log_start :: uint
  log_size :: int
  outstanding :: int
  committing :: bool
  log_dev :: uint
  lh_n :: int
  lh_block :: "nat \<Rightarrow> uint"

subsection \<open>The code\<close>

definition sb_of :: "block \<Rightarrow> superblock" where
  "sb_of x = \<lparr>sb_size = load32 x 0, sb_nblocks = load32 x 4, sb_ninodes = load32 x 8, sb_nlog = load32 x 12,
     sb_logstart = load32 x 16, sb_inodestart = load32 x 20, sb_bmapstart = load32 x 24\<rparr>"

definition readsb :: "nat \<Rightarrow> uint \<Rightarrow> ('x disk_scheme, 'a) sys_scheme \<Rightarrow> (superblock, ('x disk_scheme, 'a) sys_scheme) res" where
  "readsb c dev s =
     bnd (bread c dev 1 s) (\<lambda>b s.
     let sb = sb_of (b_data (bufs (fsd s) b)) in
     bnd (brelse c b s) (\<lambda>_ s. Ok sb s))"

text \<open>One turn of the loop of \<open>install_trans\<close>.\<close>

definition install_block :: "nat \<Rightarrow> nat \<Rightarrow> ('x logstate_scheme, 'a) sys_scheme \<Rightarrow> (unit, ('x logstate_scheme, 'a) sys_scheme) res" where
  "install_block c tail s =
     bnd (bread c (log_dev (fsd s)) (log_start (fsd s) + of_nat tail + 1) s) (\<lambda>lbuf s.
     bnd (bread c (log_dev (fsd s)) (lh_block (fsd s) tail) s) (\<lambda>dbuf s.
     let s = upd_fsd (\<lambda>d. upd_buf dbuf (\<lambda>x. x\<lparr>b_data := b_data (bufs d lbuf)\<rparr>) d) s in
     bnd (bwrite c dbuf s) (\<lambda>_ s.
     bnd (brelse c lbuf s) (\<lambda>_. brelse c dbuf))))"

definition install_trans :: "nat \<Rightarrow> ('x logstate_scheme, 'a) sys_scheme \<Rightarrow> (unit, ('x logstate_scheme, 'a) sys_scheme) res" where
  "install_trans c s = for_each [0..<nat (lh_n (fsd s))] (install_block c) s"

definition head_n :: "block \<Rightarrow> int" where
  "head_n x = sint (load32 x 0)"

definition head_block :: "block \<Rightarrow> nat \<Rightarrow> uint" where
  "head_block x i = load32 x (4 + 4 * of_nat i)"

definition put_head :: "int \<Rightarrow> (nat \<Rightarrow> uint) \<Rightarrow> block \<Rightarrow> block" where
  "put_head n bl x = fold (\<lambda>i x. store32 x (4 + 4 * of_nat i) (bl i)) [0..<nat n] (store32 x 0 (word_of_int n))"

definition read_head :: "nat \<Rightarrow> ('x logstate_scheme, 'a) sys_scheme \<Rightarrow> (unit, ('x logstate_scheme, 'a) sys_scheme) res" where
  "read_head c s =
     bnd (bread c (log_dev (fsd s)) (log_start (fsd s)) s) (\<lambda>b s.
     let x = b_data (bufs (fsd s) b); n = head_n x;
         s = upd_fsd (\<lambda>d. d\<lparr>lh_n := n\<rparr>) s in
     if n > LOGSIZE then Fault ''log.lh.block''
     else brelse c b (upd_fsd (\<lambda>d. d\<lparr>lh_block := (\<lambda>i. if i < nat n then head_block x i else lh_block d i)\<rparr>) s))"

definition write_head :: "nat \<Rightarrow> ('x logstate_scheme, 'a) sys_scheme \<Rightarrow> (unit, ('x logstate_scheme, 'a) sys_scheme) res" where
  "write_head c s =
     bnd (bread c (log_dev (fsd s)) (log_start (fsd s)) s) (\<lambda>b s.
     let s = upd_fsd (\<lambda>d. upd_buf b (\<lambda>x. x\<lparr>b_data := put_head (lh_n d) (lh_block d) (b_data x)\<rparr>) d) s in
     bnd (bwrite c b s) (\<lambda>_. brelse c b))"

definition recover_from_log :: "nat \<Rightarrow> ('x logstate_scheme, 'a) sys_scheme \<Rightarrow> (unit, ('x logstate_scheme, 'a) sys_scheme) res" where
  "recover_from_log c s =
     bnd (read_head c s) (\<lambda>_ s.
     bnd (install_trans c s) (\<lambda>_ s.
     write_head c (upd_fsd (\<lambda>d. d\<lparr>lh_n := 0\<rparr>) s)))"

abbreviation (input) sizeof_logheader :: uint where "sizeof_logheader \<equiv> 124"

definition initlog :: "nat \<Rightarrow> uint \<Rightarrow> ('x logstate_scheme, 'a) sys_scheme \<Rightarrow> (unit, ('x logstate_scheme, 'a) sys_scheme) res" where
  "initlog c dev s =
     (if sizeof_logheader \<ge> BSIZE then Panic ''initlog: too big logheader''
      else
        let s = initlock log_lock ''log'' s in
        bnd (readsb c dev s) (\<lambda>sb s.
        recover_from_log c (upd_fsd (\<lambda>d. d\<lparr>log_start := sb_logstart sb, log_size := sint (sb_nlog sb), log_dev := dev\<rparr>) s)))"

text \<open>One turn of the loop of \<open>begin_op\<close>; a thread that has to sleep makes the next one when it is resumed.\<close>

definition begin_op_loop :: "nat \<Rightarrow> ('x logstate_scheme, 'a) sys_scheme \<Rightarrow> (unit, ('x logstate_scheme, 'a) sys_scheme) res" where
  "begin_op_loop c s =
     (if committing (fsd s) then sleep c ChLog (Some log_lock) s
      else if lh_n (fsd s) + (outstanding (fsd s) + 1) * MAXOPBLOCKS > LOGSIZE then sleep c ChLog (Some log_lock) s
      else release c log_lock (upd_fsd (\<lambda>d. d\<lparr>outstanding := outstanding d + 1\<rparr>) s))"

definition begin_op :: "nat \<Rightarrow> ('x logstate_scheme, 'a) sys_scheme \<Rightarrow> (unit, ('x logstate_scheme, 'a) sys_scheme) res" where
  "begin_op c s = bnd (acquire c log_lock s) (\<lambda>_. begin_op_loop c)"

definition begin_op_resume :: "nat \<Rightarrow> nat \<times> nat \<Rightarrow> ('x logstate_scheme, 'a) sys_scheme \<Rightarrow> (unit, ('x logstate_scheme, 'a) sys_scheme) res" where
  "begin_op_resume c qt s = bnd (sleep_resume c qt log_lock s) (\<lambda>_. begin_op_loop c)"

definition log_block :: "nat \<Rightarrow> nat \<Rightarrow> ('x logstate_scheme, 'a) sys_scheme \<Rightarrow> (unit, ('x logstate_scheme, 'a) sys_scheme) res" where
  "log_block c tail s =
     bnd (bread c (log_dev (fsd s)) (log_start (fsd s) + of_nat tail + 1) s) (\<lambda>to s.
     bnd (bread c (log_dev (fsd s)) (lh_block (fsd s) tail) s) (\<lambda>from s.
     let s = upd_fsd (\<lambda>d. upd_buf to (\<lambda>x. x\<lparr>b_data := b_data (bufs d from)\<rparr>) d) s in
     bnd (bwrite c to s) (\<lambda>_ s.
     bnd (brelse c from s) (\<lambda>_. brelse c to))))"

definition write_log :: "nat \<Rightarrow> ('x logstate_scheme, 'a) sys_scheme \<Rightarrow> (unit, ('x logstate_scheme, 'a) sys_scheme) res" where
  "write_log c s = for_each [0..<nat (lh_n (fsd s))] (log_block c) s"

definition commit :: "nat \<Rightarrow> ('x logstate_scheme, 'a) sys_scheme \<Rightarrow> (unit, ('x logstate_scheme, 'a) sys_scheme) res" where
  "commit c s =
     (if lh_n (fsd s) > 0 then
        bnd (write_log c s) (\<lambda>_ s.
        bnd (write_head c s) (\<lambda>_ s.
        bnd (install_trans c s) (\<lambda>_ s.
        write_head c (upd_fsd (\<lambda>d. d\<lparr>lh_n := 0\<rparr>) s))))
      else Ok () s)"

definition end_op :: "nat \<Rightarrow> ('x logstate_scheme, 'a) sys_scheme \<Rightarrow> (unit, ('x logstate_scheme, 'a) sys_scheme) res" where
  "end_op c s =
     bnd (acquire c log_lock s) (\<lambda>_ s.
     let s = upd_fsd (\<lambda>d. d\<lparr>outstanding := outstanding d - 1\<rparr>) s in
     if committing (fsd s) then Panic ''log.committing''
     else
       let do_commit = (outstanding (fsd s) = 0) in
       bnd (if do_commit then Ok () (upd_fsd (\<lambda>d. d\<lparr>committing := True\<rparr>) s) else wakeup c ChLog s) (\<lambda>_ s.
       bnd (release c log_lock s) (\<lambda>_ s.
       if do_commit then
         bnd (commit c s) (\<lambda>_ s.
         bnd (acquire c log_lock s) (\<lambda>_ s.
         bnd (wakeup c ChLog (upd_fsd (\<lambda>d. d\<lparr>committing := False\<rparr>) s)) (\<lambda>_. release c log_lock)))
       else Ok () s)))"

definition log_write :: "nat \<Rightarrow> nat \<Rightarrow> ('x logstate_scheme, 'a) sys_scheme \<Rightarrow> (unit, ('x logstate_scheme, 'a) sys_scheme) res" where
  "log_write c b s =
     (if lh_n (fsd s) \<ge> LOGSIZE \<or> lh_n (fsd s) \<ge> log_size (fsd s) - 1 then Panic ''too big a transaction''
      else if outstanding (fsd s) < 1 then Panic ''log_write outside of trans''
      else
        bnd (acquire c log_lock s) (\<lambda>_ s.
        let n = nat (lh_n (fsd s)); m = b_blockno (bufs (fsd s) b);
            i = (case first_index (\<lambda>i. lh_block (fsd s) i = m) n of Some i \<Rightarrow> i | None \<Rightarrow> n);
            s = upd_fsd (\<lambda>d. d\<lparr>lh_block := (lh_block d)(i := m)\<rparr>) s;
            s = (if i = n then upd_fsd (\<lambda>d. d\<lparr>lh_n := lh_n d + 1\<rparr>) s else s);
            s = upd_fsd (upd_buf b (\<lambda>x. x\<lparr>b_dirty := True\<rparr>)) s
        in release c log_lock s))"

subsection \<open>Blocks of the log\<close>

lemma cache_cong:
  assumes "bufs d' = bufs d" "sleeplocks d' = sleeplocks d" "memdisk d' = memdisk d" "disksize d' = disksize d"
    "dwrites d' = dwrites d"
  shows "cache n h V D Dt ws d' = cache n h V D Dt ws d"
proof -
  have h: "holds_block d' = holds_block d" using assms by (intro ext) (simp add: holds_block_def)
  have "nexts d' = nexts d" "prevs d' = prevs d" using assms(1) by (simp_all add: nexts_def prevs_def fun_eq_iff)
  then have l: "lru d' = lru d" by (intro ext) (simp add: lru_def)
  have "buf_ok n H d' = buf_ok n H d" for H using assms by (intro ext) (simp add: buf_ok_def)
  then have "bio_inv n H d' = bio_inv n H d" for H unfolding bio_inv_def l h by simp
  moreover have "view d' = view d" using assms by (intro ext) (simp add: view_def h split: option.split)
  moreover have "dirty_blocks d' = dirty_blocks d" using assms by (simp add: dirty_blocks_def h)
  ultimately show ?thesis using assms by (simp add: cache_def)
qed

lemma cache_log_fields [simp]:
  "cache n h V D Dt ws (d\<lparr>lh_n := a\<rparr>) = cache n h V D Dt ws d"
  "cache n h V D Dt ws (d\<lparr>lh_block := e\<rparr>) = cache n h V D Dt ws d"
  "cache n h V D Dt ws (d\<lparr>outstanding := a\<rparr>) = cache n h V D Dt ws d"
  "cache n h V D Dt ws (d\<lparr>committing := f\<rparr>) = cache n h V D Dt ws d"
  "cache n h V D Dt ws (d\<lparr>log_start := u\<rparr>) = cache n h V D Dt ws d"
  "cache n h V D Dt ws (d\<lparr>log_size := a\<rparr>) = cache n h V D Dt ws d"
  "cache n h V D Dt ws (d\<lparr>log_dev := u\<rparr>) = cache n h V D Dt ws d"
  by (rule cache_cong; simp)+

lemma kept_log:
  fixes d :: "'x logstate_scheme"
  assumes "kept d d'"
  shows "log_start d' = log_start d" "log_size d' = log_size d" "outstanding d' = outstanding d"
    "committing d' = committing d" "log_dev d' = log_dev d" "lh_n d' = lh_n d" "lh_block d' = lh_block d"
    "disksize d' = disksize d" "logstate.more d' = logstate.more d"
  using assms by (cases d; cases d'; simp add: kept_def)+

lemma read_two:
  fixes d :: "'x disk_scheme"
  assumes c: "cache (pid_of w) Map.empty V D Dt ws d" and A: "A < disksize d" "B < disksize d" "A \<noteq> B"
    and room: "card (insert A (insert B Dt)) \<le> NBUF"
  obtains a b d1 d2 where "runs w (bread (cpu_of w) 1 A :: ('x disk_scheme, 'a) sys_scheme \<Rightarrow> _) d a d1"
    "runs w (bread (cpu_of w) 1 B :: ('x disk_scheme, 'a) sys_scheme \<Rightarrow> _) d1 b d2" "a \<noteq> b"
    "cache (pid_of w) [a \<mapsto> A, b \<mapsto> B] V D Dt ws d2" "kept d d1" "kept d d2"
proof -
  have fin: "finite Dt" using c finite_dirty[of d] by (simp add: cache_def)
  have r1: "A \<in> Dt \<or> card (Dt \<union> ran Map.empty) < NBUF"
  proof -
    have "card (insert A Dt) \<le> NBUF" using room fin card_mono[of "insert A (insert B Dt)" "insert A Dt"] by fastforce
    then show ?thesis using fin by (cases "A \<in> Dt") auto
  qed
  obtain a d1 where 1: "runs w (bread (cpu_of w) 1 A :: ('x disk_scheme, 'a) sys_scheme \<Rightarrow> _) d a d1"
    "cache (pid_of w) [a \<mapsto> A] V D Dt ws d1" "kept d d1"
    using bread_cache[OF c A(1) _ r1] by (metis empty_iff ran_empty)
  have r2: "B \<in> Dt \<or> card (Dt \<union> ran [a \<mapsto> A]) < NBUF"
    using room fin A(3) by (cases "B \<in> Dt") (auto simp: insert_commute[of A B] card_insert_if)
  have sz: "B < disksize d1" using 1(3) A(2) by (simp add: kept_def)
  have nB: "B \<notin> ran [a \<mapsto> A]" using A(3) by simp
  obtain b d2 where 2: "runs w (bread (cpu_of w) 1 B :: ('x disk_scheme, 'a) sys_scheme \<Rightarrow> _) d1 b d2"
    "[a \<mapsto> A] b = None" "cache (pid_of w) ([a \<mapsto> A](b \<mapsto> B)) V D Dt ws d2" "kept d1 d2"
    by (rule bread_cache[OF 1(2) sz nB r2])
  have "a \<noteq> b" using 2(2) by auto
  then show thesis using that[OF 1(1) 2(1) _ _ 1(3) kept_trans[OF 1(3) 2(4)]] 2(3) by simp
qed

text \<open>Writing one of two held buffers and releasing both.\<close>

lemma write_release:
  fixes d :: "'x disk_scheme"
  assumes c: "cache (pid_of w) [a \<mapsto> A, b \<mapsto> B] V D Dt ws d" and ab: "a \<noteq> b" "A \<noteq> B" and B: "B \<in> Dt \<or> V B = D B"
  obtains d1 d2 d3 where "runs w (bwrite (cpu_of w) a :: ('x disk_scheme, 'a) sys_scheme \<Rightarrow> _) d () d1"
    "runs w (brelse (cpu_of w) b :: ('x disk_scheme, 'a) sys_scheme \<Rightarrow> _) d1 () d2"
    "runs w (brelse (cpu_of w) a :: ('x disk_scheme, 'a) sys_scheme \<Rightarrow> _) d2 () d3"
    "cache (pid_of w) Map.empty V (D(A := V A)) (Dt - {A}) (ws @ [(A, V A)]) d3" "kept d d3"
proof -
  have ha: "[a \<mapsto> A, b \<mapsto> B] a = Some A" using ab by simp
  obtain d1 where 1: "runs w (bwrite (cpu_of w) a :: ('x disk_scheme, 'a) sys_scheme \<Rightarrow> _) d () d1"
    "cache (pid_of w) [a \<mapsto> A, b \<mapsto> B] V (D(A := V A)) (Dt - {A}) (ws @ [(A, V A)]) d1" "kept d d1"
    by (rule bwrite_cache[OF c ha])
  have hb: "[a \<mapsto> A, b \<mapsto> B] b = Some B" and cb: "B \<in> Dt - {A} \<or> V B = (D(A := V A)) B" using ab B by auto
  obtain d2 where 2: "runs w (brelse (cpu_of w) b :: ('x disk_scheme, 'a) sys_scheme \<Rightarrow> _) d1 () d2"
    "cache (pid_of w) ([a \<mapsto> A, b \<mapsto> B](b := None)) V (D(A := V A)) (Dt - {A}) (ws @ [(A, V A)]) d2" "kept d1 d2"
    by (rule brelse_cache[OF 1(2) hb cb])
  have ha2: "([a \<mapsto> A, b \<mapsto> B](b := None)) a = Some A" and ca: "A \<in> Dt - {A} \<or> V A = (D(A := V A)) A" using ab by auto
  obtain d3 where 3: "runs w (brelse (cpu_of w) a :: ('x disk_scheme, 'a) sys_scheme \<Rightarrow> _) d2 () d3"
    "cache (pid_of w) (([a \<mapsto> A, b \<mapsto> B](b := None))(a := None)) V (D(A := V A)) (Dt - {A}) (ws @ [(A, V A)]) d3" "kept d2 d3"
    by (rule brelse_cache[OF 2(2) ha2 ca])
  have "([a \<mapsto> A, b \<mapsto> B](b := None))(a := None) = Map.empty" by auto
  then show thesis using that[OF 1(1) 2(1) 3(1)] 3(2) kept_trans[OF 1(3) kept_trans[OF 2(3) 3(3)]] by simp
qed

definition apply_writes :: "(uint \<times> block) list \<Rightarrow> (uint \<Rightarrow> block) \<Rightarrow> uint \<Rightarrow> block" where
  "apply_writes ws D = fold (\<lambda>(m, x) D. D(m := x)) ws D"

lemma apply_writes_simps [simp]:
  "apply_writes [] D = D" "apply_writes ((m, x) # ws) D = apply_writes ws (D(m := x))"
  "apply_writes (ws @ us) D = apply_writes us (apply_writes ws D)"
  by (simp_all add: apply_writes_def)

lemma apply_writes_other: "m \<notin> fst ` set ws \<Longrightarrow> apply_writes ws D m = D m"
  by (induction ws arbitrary: D) auto

text \<open>The place of the \<open>i\<close>-th block in the log.\<close>

definition slot :: "'x logstate_scheme \<Rightarrow> nat \<Rightarrow> uint" where
  "slot d i = log_start d + of_nat i + 1"

lemma log_block_cache:
  fixes d :: "'x logstate_scheme"
  assumes c: "cache (pid_of w) Map.empty V D Dt ws d" and dev: "log_dev d = 1"
    and A: "slot d i < disksize d" "lh_block d i < disksize d" "slot d i \<noteq> lh_block d i"
    and room: "card (insert (slot d i) (insert (lh_block d i) Dt)) \<le> NBUF"
  obtains d' where "runs w (log_block (cpu_of w) i :: ('x logstate_scheme, 'a) sys_scheme \<Rightarrow> _) d () d'"
    "cache (pid_of w) Map.empty (V(slot d i := V (lh_block d i))) (D(slot d i := V (lh_block d i))) (Dt - {slot d i})
       (ws @ [(slot d i, V (lh_block d i))]) d'" "kept d d'"
proof -
  let ?A = "slot d i" and ?B = "lh_block d i"
  obtain a b d1 d2 where r: "runs w (bread (cpu_of w) 1 ?A :: ('x logstate_scheme, 'a) sys_scheme \<Rightarrow> _) d a d1"
    "runs w (bread (cpu_of w) 1 ?B :: ('x logstate_scheme, 'a) sys_scheme \<Rightarrow> _) d1 b d2" "a \<noteq> b"
    "cache (pid_of w) [a \<mapsto> ?A, b \<mapsto> ?B] V D Dt ws d2" "kept d d1" "kept d d2"
    by (rule read_two[OF c A room])
  let ?f = "\<lambda>d. upd_buf a (\<lambda>x. x\<lparr>b_data := b_data (bufs d b)\<rparr>) d" and ?V = "V(?A := V ?B)"
  have ab: "[a \<mapsto> ?A, b \<mapsto> ?B] a = Some ?A" "[a \<mapsto> ?A, b \<mapsto> ?B] b = Some ?B" using r(3) by auto
  have s: "cache (pid_of w) [a \<mapsto> ?A, b \<mapsto> ?B] ?V D Dt ws (?f d2)" "kept d2 (?f d2)"
    unfolding cache_held(3)[OF r(4) ab(2)] by (rule set_cache[OF r(4) ab(1)])+
  have B: "?B \<in> Dt \<or> ?V ?B = D ?B" using cache_clean[OF c, of ?B] A(3) by auto
  obtain d3 d4 d5 where q: "runs w (bwrite (cpu_of w) a :: ('x logstate_scheme, 'a) sys_scheme \<Rightarrow> _) (?f d2) () d3"
    "runs w (brelse (cpu_of w) b :: ('x logstate_scheme, 'a) sys_scheme \<Rightarrow> _) d3 () d4"
    "runs w (brelse (cpu_of w) a :: ('x logstate_scheme, 'a) sys_scheme \<Rightarrow> _) d4 () d5"
    "cache (pid_of w) Map.empty ?V (D(?A := ?V ?A)) (Dt - {?A}) (ws @ [(?A, ?V ?A)]) d5" "kept (?f d2) d5"
    by (rule write_release[OF s(1) r(3) A(3) B])
  have "runs w (log_block (cpu_of w) i :: ('x logstate_scheme, 'a) sys_scheme \<Rightarrow> _) d () d5"
    unfolding log_block_def Let_def
  proof (rule runs_bnd)
    show "runs w (\<lambda>s :: ('x logstate_scheme, 'a) sys_scheme. bread (cpu_of w) (log_dev (fsd s)) (log_start (fsd s) + of_nat i + 1) s) d a d1"
      by (rule runs_cong[OF _ r(1)]) (simp add: dev slot_def)
    have 1: "runs w (\<lambda>s :: ('x logstate_scheme, 'a) sys_scheme. bread (cpu_of w) (log_dev (fsd s)) (lh_block (fsd s) i) s) d1 b d2"
      by (rule runs_cong[OF _ r(2)]) (simp add: dev kept_log[OF r(5)])
    have 2: "runs w (\<lambda>s :: ('x logstate_scheme, 'a) sys_scheme. bnd (bwrite (cpu_of w) a (upd_fsd ?f s))
        (\<lambda>_ s. bnd (brelse (cpu_of w) b s) (\<lambda>_. brelse (cpu_of w) a))) d2 () d5"
      by (rule runs_bnd[OF runs_upd_bnd[where f = ?f and m = "bwrite (cpu_of w) a", OF q(1)] runs_bnd[OF q(2,3)]])
    show "runs w (\<lambda>s :: ('x logstate_scheme, 'a) sys_scheme. bnd (bread (cpu_of w) (log_dev (fsd s)) (lh_block (fsd s) i) s)
       (\<lambda>b s. bnd (bwrite (cpu_of w) a (upd_fsd (\<lambda>d. upd_buf a (\<lambda>x. x\<lparr>b_data := b_data (bufs d b)\<rparr>) d) s))
         (\<lambda>_ s. bnd (brelse (cpu_of w) b s) (\<lambda>_. brelse (cpu_of w) a)))) d1 () d5"
      by (rule runs_bnd[OF 1], rule 2)
  qed
  moreover have "kept d d5" using kept_trans[OF r(6) kept_trans[OF s(2) q(5)]] .
  ultimately show thesis using that q(4) by simp
qed

lemma install_block_cache:
  fixes d :: "'x logstate_scheme"
  assumes c: "cache (pid_of w) Map.empty V D Dt ws d" and dev: "log_dev d = 1"
    and A: "slot d i < disksize d" "lh_block d i < disksize d" "slot d i \<noteq> lh_block d i"
    and room: "card (insert (slot d i) (insert (lh_block d i) Dt)) \<le> NBUF"
  obtains d' where "runs w (install_block (cpu_of w) i :: ('x logstate_scheme, 'a) sys_scheme \<Rightarrow> _) d () d'"
    "cache (pid_of w) Map.empty (V(lh_block d i := V (slot d i))) (D(lh_block d i := V (slot d i))) (Dt - {lh_block d i})
       (ws @ [(lh_block d i, V (slot d i))]) d'" "kept d d'"
proof -
  let ?A = "slot d i" and ?B = "lh_block d i"
  obtain a b d1 d2 where r: "runs w (bread (cpu_of w) 1 ?A :: ('x logstate_scheme, 'a) sys_scheme \<Rightarrow> _) d a d1"
    "runs w (bread (cpu_of w) 1 ?B :: ('x logstate_scheme, 'a) sys_scheme \<Rightarrow> _) d1 b d2" "a \<noteq> b"
    "cache (pid_of w) [a \<mapsto> ?A, b \<mapsto> ?B] V D Dt ws d2" "kept d d1" "kept d d2"
    by (rule read_two[OF c A room])
  let ?f = "\<lambda>d. upd_buf b (\<lambda>x. x\<lparr>b_data := b_data (bufs d a)\<rparr>) d" and ?V = "V(?B := V ?A)"
  have ab: "[a \<mapsto> ?A, b \<mapsto> ?B] a = Some ?A" "[a \<mapsto> ?A, b \<mapsto> ?B] b = Some ?B" using r(3) by auto
  have sw: "[a \<mapsto> ?A, b \<mapsto> ?B] = [b \<mapsto> ?B, a \<mapsto> ?A]" using r(3) by (simp add: fun_upd_twist)
  have s: "cache (pid_of w) [b \<mapsto> ?B, a \<mapsto> ?A] ?V D Dt ws (?f d2)" "kept d2 (?f d2)"
    unfolding cache_held(3)[OF r(4) ab(1)] sw[symmetric] by (rule set_cache[OF r(4) ab(2)])+
  have B: "?A \<in> Dt \<or> ?V ?A = D ?A" using cache_clean[OF c, of ?A] A(3) by auto
  have ba: "b \<noteq> a" "?B \<noteq> ?A" using r(3) A(3) by auto
  obtain d3 d4 d5 where q: "runs w (bwrite (cpu_of w) b :: ('x logstate_scheme, 'a) sys_scheme \<Rightarrow> _) (?f d2) () d3"
    "runs w (brelse (cpu_of w) a :: ('x logstate_scheme, 'a) sys_scheme \<Rightarrow> _) d3 () d4"
    "runs w (brelse (cpu_of w) b :: ('x logstate_scheme, 'a) sys_scheme \<Rightarrow> _) d4 () d5"
    "cache (pid_of w) Map.empty ?V (D(?B := ?V ?B)) (Dt - {?B}) (ws @ [(?B, ?V ?B)]) d5" "kept (?f d2) d5"
    by (rule write_release[OF s(1) ba B])
  have "runs w (install_block (cpu_of w) i :: ('x logstate_scheme, 'a) sys_scheme \<Rightarrow> _) d () d5"
    unfolding install_block_def Let_def
  proof (rule runs_bnd)
    show "runs w (\<lambda>s :: ('x logstate_scheme, 'a) sys_scheme. bread (cpu_of w) (log_dev (fsd s)) (log_start (fsd s) + of_nat i + 1) s) d a d1"
      by (rule runs_cong[OF _ r(1)]) (simp add: dev slot_def)
    have 1: "runs w (\<lambda>s :: ('x logstate_scheme, 'a) sys_scheme. bread (cpu_of w) (log_dev (fsd s)) (lh_block (fsd s) i) s) d1 b d2"
      by (rule runs_cong[OF _ r(2)]) (simp add: dev kept_log[OF r(5)])
    have 2: "runs w (\<lambda>s :: ('x logstate_scheme, 'a) sys_scheme. bnd (bwrite (cpu_of w) b (upd_fsd ?f s))
        (\<lambda>_ s. bnd (brelse (cpu_of w) a s) (\<lambda>_. brelse (cpu_of w) b))) d2 () d5"
      by (rule runs_bnd[OF runs_upd_bnd[where f = ?f and m = "bwrite (cpu_of w) b", OF q(1)] runs_bnd[OF q(2,3)]])
    show "runs w (\<lambda>s :: ('x logstate_scheme, 'a) sys_scheme. bnd (bread (cpu_of w) (log_dev (fsd s)) (lh_block (fsd s) i) s)
       (\<lambda>b s. bnd (bwrite (cpu_of w) b (upd_fsd (\<lambda>d. upd_buf b (\<lambda>x. x\<lparr>b_data := b_data (bufs d a)\<rparr>) d) s))
         (\<lambda>_ s. bnd (brelse (cpu_of w) a s) (\<lambda>_. brelse (cpu_of w) b)))) d1 () d5"
      by (rule runs_bnd[OF 1], rule 2)
  qed
  moreover have "kept d d5" using kept_trans[OF r(6) kept_trans[OF s(2) q(5)]] .
  ultimately show thesis using that q(4) by simp
qed

text \<open>
  The log has \<open>nlog = LOGSIZE = 30\<close> blocks (\<open>mkfs.c\<close>): the header at \<open>log.start\<close> and the 29 blocks after it, up to
  the first inode block. It lies inside the disk, and the blocks recorded in the header lie outside it.
\<close>

definition in_log :: "'x logstate_scheme \<Rightarrow> uint \<Rightarrow> bool" where
  "in_log d m \<longleftrightarrow> unat (log_start d) \<le> unat m \<and> unat m \<le> unat (log_start d) + 29"

definition log_area :: "'x logstate_scheme \<Rightarrow> bool" where
  "log_area d \<longleftrightarrow> log_dev d = 1 \<and> unat (log_start d) + 30 \<le> unat (disksize d)"

definition homes :: "'x logstate_scheme \<Rightarrow> nat \<Rightarrow> bool" where
  "homes d k \<longleftrightarrow> (\<forall>i<k. lh_block d i < disksize d \<and> \<not> in_log d (lh_block d i))"

lemma unat_log_slot:
  assumes "log_area d" "i < 29"
  shows "unat (slot d i) = unat (log_start d) + i + 1"
proof -
  have "of_nat i + 1 = (of_nat (Suc i) :: uint)" by simp
  then have "unat (of_nat i + 1 :: uint) = i + 1"
    using assms(2) by (simp only: unsigned_of_nat) (simp add: take_bit_nat_eq_self)
  then show ?thesis
    using assms unsigned_less[of "disksize d", where 'a = nat] by (simp add: slot_def add.assoc unat_plus_if_size word_size log_area_def)
qed


lemma slot_facts:
  assumes "log_area d" "i < 29"
  shows "slot d i < disksize d" "in_log d (slot d i)" "slot d i \<noteq> log_start d"
proof -
  note u = unat_log_slot[OF assms]
  show "slot d i < disksize d" unfolding word_less_nat_alt u using assms by (simp add: log_area_def)
  show "in_log d (slot d i)" unfolding in_log_def u using assms by simp
  show "slot d i \<noteq> log_start d" using u by auto
qed

lemma log_slot_inj:
  assumes "log_area d" "i < 29" "j < 29" "slot d i = slot d j"
  shows "i = j"
proof -
  have "unat (slot d i) = unat (slot d j)" using assms(4) by (rule arg_cong)
  then have "unat (log_start d) + i + 1 = unat (log_start d) + j + 1"
    unfolding unat_log_slot[OF assms(1,2)] unat_log_slot[OF assms(1,3)] .
  then show ?thesis by linarith
qed

lemma start_facts: "log_area d \<Longrightarrow> log_start d < disksize d" "in_log d (log_start d)"
proof -
  show "log_start d < disksize d" if "log_area d" using that unfolding word_less_nat_alt by (simp add: log_area_def)
  show "in_log d (log_start d)" unfolding in_log_def by simp
qed

lemma kept_area:
  assumes "kept d d'"
  shows "slot d' i = slot d i" "in_log d' = in_log d" "log_area d' = log_area d" "homes d' k = homes d k"
proof -
  note k = kept_log[OF assms]
  show il: "in_log d' = in_log d" by (simp add: in_log_def fun_eq_iff k)
  show "slot d' i = slot d i" "log_area d' = log_area d" by (simp_all add: slot_def log_area_def k)
  show "homes d' k = homes d k" by (simp add: homes_def k il)
qed

lemma runs_for_snoc:
  assumes "runs w (for_each xs body) d () d1" "runs w (body x) d1 () d2"
  shows "runs w (for_each (xs @ [x]) body) d () d2"
proof -
  have e: "for_each (xs @ [x]) body = (\<lambda>s. bnd (for_each xs body s) (\<lambda>_. body x))"
  proof
    fix s
    have "for_each [x] body t = body x t" for t by (cases "body x t") auto
    then show "for_each (xs @ [x]) body s = bnd (for_each xs body s) (\<lambda>_. body x)"
      unfolding for_each_append by (cases "for_each xs body s") auto
  qed
  show ?thesis unfolding e by (rule runs_bnd[OF assms])
qed

subsection \<open>Copying into the log and out of it\<close>

definition log_writes :: "'x logstate_scheme \<Rightarrow> (uint \<Rightarrow> block) \<Rightarrow> nat \<Rightarrow> (uint \<times> block) list" where
  "log_writes d V k = map (\<lambda>i. (slot d i, V (lh_block d i))) [0..<k]"

definition home_writes :: "'x logstate_scheme \<Rightarrow> (uint \<Rightarrow> block) \<Rightarrow> nat \<Rightarrow> (uint \<times> block) list" where
  "home_writes d V k = map (\<lambda>i. (lh_block d i, V (slot d i))) [0..<k]"

lemma card_logged: "k \<le> 29 \<Longrightarrow> Dt \<subseteq> lh_block d ` {..<k} \<Longrightarrow> card (insert a Dt) \<le> NBUF"
proof -
  assume k: "k \<le> 29" and D: "Dt \<subseteq> lh_block d ` {..<k}"
  have "card Dt \<le> card (lh_block d ` {..<k})" by (rule card_mono[OF _ D]) simp
  also have "\<dots> \<le> k" using card_image_le[of "{..<k}" "lh_block d"] by simp
  finally have "card Dt \<le> 29" using k by simp
  moreover have "finite Dt" using finite_subset[OF D] by simp
  ultimately show ?thesis by (simp add: card_insert_if)
qed

lemma write_log_cache:
  fixes d :: "'x logstate_scheme"
  assumes c: "cache (pid_of w) Map.empty V D Dt ws d" and area: "log_area d" and hm: "homes d N"
    and N: "N \<le> 29" and Dt: "Dt \<subseteq> lh_block d ` {..<N}" and k: "k \<le> N"
  shows "\<exists>d'. runs w (for_each [0..<k] (log_block (cpu_of w)) :: ('x logstate_scheme, 'a) sys_scheme \<Rightarrow> _) d () d' \<and>
    cache (pid_of w) Map.empty (apply_writes (log_writes d V k) V) (apply_writes (log_writes d V k) D) Dt
      (ws @ log_writes d V k) d' \<and> kept d d'"
  using k
proof (induction k)
  case 0
  have "runs w (Ok () :: ('x logstate_scheme, 'a) sys_scheme \<Rightarrow> _) d () d" by (rule runs_Ok)
  then show ?case using c by (auto simp: log_writes_def)
next
  case (Suc k)
  then obtain d1 where d1: "runs w (for_each [0..<k] (log_block (cpu_of w)) :: ('x logstate_scheme, 'a) sys_scheme \<Rightarrow> _) d () d1"
    "cache (pid_of w) Map.empty (apply_writes (log_writes d V k) V) (apply_writes (log_writes d V k) D) Dt (ws @ log_writes d V k) d1"
    "kept d d1" by auto
  have k: "k < 29" "k < N" using Suc.prems N by auto
  have eq: "slot d1 k = slot d k" "lh_block d1 k = lh_block d k" "log_dev d1 = 1" "disksize d1 = disksize d"
    using kept_area(1)[OF d1(3)] kept_log[OF d1(3)] area by (auto simp: log_area_def)
  have B: "lh_block d k < disksize d" "\<not> in_log d (lh_block d k)" using hm k by (auto simp: homes_def)
  then have ne: "slot d k \<noteq> lh_block d k" using slot_facts(2)[OF area k(1)] by auto
  have room: "card (insert (slot d k) (insert (lh_block d k) Dt)) \<le> NBUF"
    by (rule card_logged[OF N, of _ d]) (use Dt k in auto)
  have V: "apply_writes (log_writes d V k) V (lh_block d k) = V (lh_block d k)"
    by (rule apply_writes_other) (use slot_facts(2)[OF area] B k in \<open>auto simp: log_writes_def\<close>)
  have nD: "slot d k \<notin> Dt"
    using Dt hm slot_facts(2)[OF area k(1)] by (auto simp: homes_def)
  obtain d2 where "runs w (log_block (cpu_of w) k :: ('x logstate_scheme, 'a) sys_scheme \<Rightarrow> _) d1 () d2"
    "cache (pid_of w) Map.empty (apply_writes (log_writes d V (Suc k)) V) (apply_writes (log_writes d V (Suc k)) D) Dt
      (ws @ log_writes d V (Suc k)) d2" "kept d1 d2"
    by (rule log_block_cache[OF d1(2) eq(3), where i = k, unfolded eq V, OF slot_facts(1)[OF area k(1)] B(1) ne room])
      (use nD in \<open>simp add: log_writes_def\<close>)
  then show ?case using runs_for_snoc[OF d1(1)] kept_trans[OF d1(3)] by auto
qed

lemma install_cache:
  fixes d :: "'x logstate_scheme"
  assumes c: "cache (pid_of w) Map.empty V D Dt ws d" and area: "log_area d" and hm: "homes d N"
    and N: "N \<le> 29" and room: "\<And>i. i < N \<Longrightarrow> card (insert (slot d i) (insert (lh_block d i) Dt)) \<le> NBUF" and k: "k \<le> N"
  shows "\<exists>d'. runs w (for_each [0..<k] (install_block (cpu_of w)) :: ('x logstate_scheme, 'a) sys_scheme \<Rightarrow> _) d () d' \<and>
    cache (pid_of w) Map.empty (apply_writes (home_writes d V k) V) (apply_writes (home_writes d V k) D) (Dt - lh_block d ` {..<k})
      (ws @ home_writes d V k) d' \<and> kept d d'"
  using k
proof (induction k)
  case 0
  have "runs w (Ok () :: ('x logstate_scheme, 'a) sys_scheme \<Rightarrow> _) d () d" by (rule runs_Ok)
  then show ?case using c by (auto simp: home_writes_def)
next
  case (Suc k)
  let ?Dt = "Dt - lh_block d ` {..<k}"
  obtain d1 where d1: "runs w (for_each [0..<k] (install_block (cpu_of w)) :: ('x logstate_scheme, 'a) sys_scheme \<Rightarrow> _) d () d1"
    "cache (pid_of w) Map.empty (apply_writes (home_writes d V k) V) (apply_writes (home_writes d V k) D) ?Dt (ws @ home_writes d V k) d1"
    "kept d d1" using Suc by auto
  have k: "k < 29" "k < N" using Suc.prems N by auto
  have eq: "slot d1 k = slot d k" "lh_block d1 k = lh_block d k" "log_dev d1 = 1" "disksize d1 = disksize d"
    using kept_area(1)[OF d1(3)] kept_log[OF d1(3)] area by (auto simp: log_area_def)
  have B: "lh_block d k < disksize d" "\<not> in_log d (lh_block d k)" using hm k by (auto simp: homes_def)
  then have ne: "slot d k \<noteq> lh_block d k" using slot_facts(2)[OF area k(1)] by auto
  have fin: "finite Dt" using c finite_dirty[of d] by (simp add: cache_def)
  have "card (insert (slot d k) (insert (lh_block d k) ?Dt)) \<le> card (insert (slot d k) (insert (lh_block d k) Dt))"
    by (rule card_mono) (use fin in auto)
  then have room': "card (insert (slot d k) (insert (lh_block d k) ?Dt)) \<le> NBUF" using room[OF k(2)] by simp
  have V: "apply_writes (home_writes d V k) V (slot d k) = V (slot d k)"
    by (rule apply_writes_other) (use slot_facts(2)[OF area k(1)] hm k in \<open>auto simp: home_writes_def homes_def\<close>)
  have D2: "?Dt - {lh_block d k} = Dt - lh_block d ` {..<Suc k}" by (auto simp: lessThan_Suc)
  obtain d2 where "runs w (install_block (cpu_of w) k :: ('x logstate_scheme, 'a) sys_scheme \<Rightarrow> _) d1 () d2"
    "cache (pid_of w) Map.empty (apply_writes (home_writes d V (Suc k)) V) (apply_writes (home_writes d V (Suc k)) D)
      (Dt - lh_block d ` {..<Suc k}) (ws @ home_writes d V (Suc k)) d2" "kept d1 d2"
    by (rule install_block_cache[OF d1(2) eq(3), where i = k, unfolded eq V D2, OF slot_facts(1)[OF area k(1)] B(1) ne room'])
      (simp add: home_writes_def)
  then show ?case using runs_for_snoc[OF d1(1)] kept_trans[OF d1(3)] by auto
qed

subsection \<open>The header block\<close>

lemma word_offset:
  assumes "i < 31" "j < 31" "i \<noteq> j"
  shows "4 \<le> (4 * of_nat i - 4 * of_nat j :: uint)"
proof -
  have u: "unat (4 * of_nat k :: uint) = 4 * k" if "k < 31" for k
  proof -
    have "(4 * of_nat k :: uint) = of_nat (4 * k)" by simp
    then show ?thesis using that by (simp only: unsigned_of_nat) (simp add: take_bit_nat_eq_self)
  qed
  have "4 \<le> unat (4 * of_nat i - 4 * of_nat j :: uint)"
    using assms by (auto simp: unat_sub_if_size word_size u)
  then show ?thesis by (simp add: word_le_nat_alt)
qed

lemma load_word_other:
  assumes "i < 31" "j < 31" "i \<noteq> j"
  shows "load32 (store32 x (4 * of_nat j) v) (4 * of_nat i) = load32 x (4 * of_nat i)"
  by (rule load32_store32_other) (use word_offset assms in auto)

lemma fold_store_words:
  assumes "k \<le> 30" and that: "j < 31"
  shows "load32 (fold (\<lambda>i x. store32 x (4 + 4 * of_nat i) (bl i)) [0..<k] x) (4 * of_nat j) =
    (if 0 < j \<and> j \<le> k then bl (j - 1) else load32 x (4 * of_nat j))"
  using assms(1)
proof (induction k)
  case (Suc k)
  have a: "(4 + 4 * of_nat k :: uint) = 4 * of_nat (Suc k)" by simp
  show ?case
  proof (cases "j = Suc k")
    case True
    then show ?thesis by (simp add: a[symmetric] del: of_nat_Suc)
  next
    case False
    then have "load32 (store32 y (4 + 4 * of_nat k) (bl k)) (4 * of_nat j) = load32 y (4 * of_nat j)" for y
      unfolding a using load_word_other[of j "Suc k"] that Suc.prems by simp
    then show ?thesis using Suc False by auto
  qed
qed auto

lemma put_head_read:
  assumes "0 \<le> n" "n \<le> 30"
  shows "head_n (put_head n bl x) = n" "i < nat n \<Longrightarrow> head_block (put_head n bl x) i = bl i"
proof -
  have n: "nat n \<le> 30" using assms by simp
  have "load32 (put_head n bl x) 0 = word_of_int n"
    using fold_store_words[OF n, of 0 bl] by (simp add: put_head_def)
  moreover have "sint (word_of_int n :: uint) = n" using assms by (simp add: signed_of_int signed_take_bit_int_eq_self)
  ultimately show "head_n (put_head n bl x) = n" by (simp add: head_n_def)
  assume i: "i < nat n"
  have "(4 + 4 * of_nat i :: uint) = 4 * of_nat (Suc i)" by simp
  then show "head_block (put_head n bl x) i = bl i"
    using fold_store_words[OF n, of "Suc i" bl] i n by (simp add: put_head_def head_block_def del: of_nat_Suc)
qed

lemma write_head_cache:
  fixes d :: "'x logstate_scheme"
  assumes c: "cache (pid_of w) Map.empty V D Dt ws d" and area: "log_area d" and Dt: "card Dt < NBUF"
  obtains d' where "runs w (write_head (cpu_of w) :: ('x logstate_scheme, 'a) sys_scheme \<Rightarrow> _) d () d'"
    "cache (pid_of w) Map.empty (V(log_start d := put_head (lh_n d) (lh_block d) (V (log_start d))))
       (D(log_start d := put_head (lh_n d) (lh_block d) (V (log_start d)))) (Dt - {log_start d})
       (ws @ [(log_start d, put_head (lh_n d) (lh_block d) (V (log_start d)))]) d'" "kept d d'"
proof -
  let ?A = "log_start d" and ?x = "put_head (lh_n d) (lh_block d) (V (log_start d))"
  have A: "?A < disksize d" by (rule start_facts(1)[OF area])
  have dev: "log_dev d = 1" using area by (simp add: log_area_def)
  have rm: "?A \<in> Dt \<or> card (Dt \<union> ran Map.empty) < NBUF" "?A \<notin> ran Map.empty" using Dt by auto
  obtain b d1 where b: "runs w (bread (cpu_of w) 1 ?A :: ('x logstate_scheme, 'a) sys_scheme \<Rightarrow> _) d b d1"
    "cache (pid_of w) [b \<mapsto> ?A] V D Dt ws d1" "kept d d1" "b_data (bufs d1 b) = V ?A"
    by (rule bread_cache[OF c A rm(2,1)])
  let ?f = "\<lambda>d. upd_buf b (\<lambda>x. x\<lparr>b_data := put_head (lh_n d) (lh_block d) (b_data x)\<rparr>) d"
  have fd: "?f d1 = upd_buf b (\<lambda>y. y\<lparr>b_data := ?x\<rparr>) d1" using b(4) kept_log[OF b(3)] by (simp add: upd_buf_def)
  have hb: "[b \<mapsto> ?A] b = Some ?A" by simp
  have s: "cache (pid_of w) [b \<mapsto> ?A] (V(?A := ?x)) D Dt ws (?f d1)" "kept d1 (?f d1)"
    unfolding fd by (rule set_cache[OF b(2) hb])+
  obtain d3 where d3: "runs w (bwrite (cpu_of w) b :: ('x logstate_scheme, 'a) sys_scheme \<Rightarrow> _) (?f d1) () d3"
    "cache (pid_of w) [b \<mapsto> ?A] (V(?A := ?x)) (D(?A := (V(?A := ?x)) ?A)) (Dt - {?A}) (ws @ [(?A, (V(?A := ?x)) ?A)]) d3" "kept (?f d1) d3"
    by (rule bwrite_cache[OF s(1) hb])
  have cl: "?A \<in> Dt - {?A} \<or> (V(?A := ?x)) ?A = (D(?A := (V(?A := ?x)) ?A)) ?A" by simp
  obtain d4 where d4: "runs w (brelse (cpu_of w) b :: ('x logstate_scheme, 'a) sys_scheme \<Rightarrow> _) d3 () d4"
    "cache (pid_of w) ([b \<mapsto> ?A](b := None)) (V(?A := ?x)) (D(?A := (V(?A := ?x)) ?A)) (Dt - {?A}) (ws @ [(?A, (V(?A := ?x)) ?A)]) d4" "kept d3 d4"
    by (rule brelse_cache[OF d3(2) hb cl])
  have "runs w (write_head (cpu_of w) :: ('x logstate_scheme, 'a) sys_scheme \<Rightarrow> _) d () d4"
    unfolding write_head_def Let_def
  proof (rule runs_bnd)
    show "runs w (\<lambda>s :: ('x logstate_scheme, 'a) sys_scheme. bread (cpu_of w) (log_dev (fsd s)) (log_start (fsd s)) s) d b d1"
      by (rule runs_cong[OF _ b(1)]) (simp add: dev)
    show "runs w (\<lambda>s :: ('x logstate_scheme, 'a) sys_scheme. bnd (bwrite (cpu_of w) b (upd_fsd ?f s)) (\<lambda>_. brelse (cpu_of w) b)) d1 () d4"
      by (rule runs_bnd[OF runs_upd_bnd[where f = ?f and m = "bwrite (cpu_of w) b", OF d3(1)] d4(1)])
  qed
  moreover have "kept d d4" using kept_trans[OF b(3) kept_trans[OF s(2) kept_trans[OF d3(3) d4(3)]]] .
  moreover have "[b \<mapsto> ?A](b := None) = Map.empty" by simp
  ultimately show thesis using that d4(2) by simp
qed

definition with_head :: "block \<Rightarrow> 'x logstate_scheme \<Rightarrow> 'x logstate_scheme" where
  "with_head x d = d\<lparr>lh_n := head_n x, lh_block := (\<lambda>i. if i < nat (head_n x) then head_block x i else lh_block d i)\<rparr>"

lemma read_head_cache:
  fixes d :: "'x logstate_scheme"
  assumes c: "cache (pid_of w) Map.empty V D Dt ws d" and area: "log_area d" and Dt: "card Dt < NBUF"
    and n: "head_n (V (log_start d)) \<le> 30"
  obtains d' where "runs w (read_head (cpu_of w) :: ('x logstate_scheme, 'a) sys_scheme \<Rightarrow> _) d () d'"
    "cache (pid_of w) Map.empty V D Dt ws d'" "kept (with_head (V (log_start d)) d) d'"
proof -
  let ?A = "log_start d" and ?x = "V (log_start d)"
  have A: "?A < disksize d" by (rule start_facts(1)[OF area])
  have dev: "log_dev d = 1" using area by (simp add: log_area_def)
  have rm: "?A \<in> Dt \<or> card (Dt \<union> ran Map.empty) < NBUF" "?A \<notin> ran Map.empty" using Dt by auto
  obtain b d1 where b: "runs w (bread (cpu_of w) 1 ?A :: ('x logstate_scheme, 'a) sys_scheme \<Rightarrow> _) d b d1"
    "cache (pid_of w) [b \<mapsto> ?A] V D Dt ws d1" "kept d d1" "b_data (bufs d1 b) = V ?A"
    by (rule bread_cache[OF c A rm(2,1)])
  have c2: "cache (pid_of w) [b \<mapsto> ?A] V D Dt ws (with_head ?x d1)" using b(2) by (simp add: with_head_def)
  have hb: "[b \<mapsto> ?A] b = Some ?A" by simp
  have cl: "?A \<in> Dt \<or> V ?A = D ?A" using cache_clean[OF c] by auto
  obtain d4 where d4: "runs w (brelse (cpu_of w) b :: ('x logstate_scheme, 'a) sys_scheme \<Rightarrow> _) (with_head ?x d1) () d4"
    "cache (pid_of w) ([b \<mapsto> ?A](b := None)) V D Dt ws d4" "kept (with_head ?x d1) d4"
    by (rule brelse_cache[OF c2 hb cl])
  have kw: "kept (with_head ?x d) (with_head ?x d1)" using b(3) kept_log[OF b(3)] by (cases d; cases d1) (simp add: kept_def with_head_def cong: if_cong)
  have "runs w (read_head (cpu_of w) :: ('x logstate_scheme, 'a) sys_scheme \<Rightarrow> _) d () d4"
    unfolding read_head_def
  proof (rule runs_bnd)
    show "runs w (\<lambda>s :: ('x logstate_scheme, 'a) sys_scheme. bread (cpu_of w) (log_dev (fsd s)) (log_start (fsd s)) s) d b d1"
      by (rule runs_cong[OF _ b(1)]) (simp add: dev)
    let ?F = "\<lambda>s :: ('x logstate_scheme, 'a) sys_scheme. let x = b_data (bufs (fsd s) b); n = head_n x;
         s = upd_fsd (\<lambda>d. d\<lparr>lh_n := n\<rparr>) s in
     if n > LOGSIZE then Fault ''log.lh.block''
     else brelse (cpu_of w) b (upd_fsd (\<lambda>d. d\<lparr>lh_block := (\<lambda>i. if i < nat n then head_block x i else lh_block d i)\<rparr>) s)"
    have "runs w (\<lambda>s :: ('x logstate_scheme, 'a) sys_scheme. brelse (cpu_of w) b (upd_fsd (with_head ?x) s)) d1 () d4"
      by (rule runs_upd_bnd[where f = "with_head ?x" and m = "brelse (cpu_of w) b", OF d4(1)])
    then show "runs w ?F d1 () d4"
    proof (rule runs_cong[rotated])
      fix s :: "('x logstate_scheme, 'a) sys_scheme" assume s: "fsd s = d1"
      have "upd_fsd (\<lambda>d. d\<lparr>lh_block := (\<lambda>i. if i < nat (head_n ?x) then head_block ?x i else lh_block d i)\<rparr>)
          (upd_fsd (\<lambda>d. d\<lparr>lh_n := head_n ?x\<rparr>) s) = upd_fsd (with_head ?x) s"
        by (simp add: with_head_def upd_fsd_def cong: if_cong)
      then show "?F s = brelse (cpu_of w) b (upd_fsd (with_head ?x) s)"
        using n s b(4) by (simp add: Let_def not_less[symmetric])
    qed
  qed
  moreover have "[b \<mapsto> ?A](b := None) = Map.empty" by simp
  ultimately show thesis using that d4(2) kept_trans[OF kw d4(3)] by simp
qed

subsection \<open>Commit\<close>

text \<open>
  A transaction of \<open>N\<close> blocks that is complete and not committed yet: every dirty block is recorded in the
  header, the recorded blocks are distinct, and none of them belongs to the log.
\<close>

definition txn :: "task \<Rightarrow> nat \<Rightarrow> (uint \<Rightarrow> block) \<Rightarrow> (uint \<Rightarrow> block) \<Rightarrow> (uint \<times> block) list \<Rightarrow> 'x logstate_scheme \<Rightarrow> bool" where
  "txn w N V D ws d \<longleftrightarrow> (\<exists>Dt. cache (pid_of w) Map.empty V D Dt ws d \<and> Dt \<subseteq> lh_block d ` {..<N}) \<and>
     log_area d \<and> homes d N \<and> N \<le> 29 \<and> lh_n d = int N"

definition commit_writes :: "'x logstate_scheme \<Rightarrow> (uint \<Rightarrow> block) \<Rightarrow> nat \<Rightarrow> (uint \<times> block) list" where
  "commit_writes d V N = (let x = put_head (int N) (lh_block d) (V (log_start d)) in
     log_writes d V N @ [(log_start d, x)] @ map (\<lambda>i. (lh_block d i, V (lh_block d i))) [0..<N] @
     [(log_start d, put_head 0 (lh_block d) x)])"

lemma apply_log_writes:
  assumes area: "log_area d" and N: "N \<le> 29" and i: "i < N"
  shows "apply_writes (log_writes d V N) D (slot d i) = V (lh_block d i)"
proof -
  have "apply_writes (map (\<lambda>j. (slot d j, f j)) xs) D (slot d i) = f i"
    if "i \<in> set xs" "\<forall>j\<in>set xs. j < 29" "distinct xs" for f xs
    using that
  proof (induction xs arbitrary: D)
    case (Cons a xs)
    show ?case
    proof (cases "a = i")
      case True
      then have "slot d i \<notin> fst ` set (map (\<lambda>j. (slot d j, f j)) xs)"
        using Cons.prems log_slot_inj[OF area, of i] by (auto simp: image_iff)
      then show ?thesis using True by (simp add: apply_writes_other)
    next
      case False
      then show ?thesis using Cons by simp
    qed
  qed simp
  then show ?thesis using i N by (simp add: log_writes_def)
qed

lemma log_writes_outside:
  assumes "log_area d" "N \<le> 29" "\<And>i. i < N \<Longrightarrow> m \<noteq> slot d i"
  shows "apply_writes (log_writes d V N) D m = D m"
proof (rule apply_writes_other)
  show "m \<notin> fst ` set (log_writes d V N)" using assms(3) unfolding log_writes_def by fastforce
qed

lemma apply_same: "(\<And>i. i < N \<Longrightarrow> V (f i) = g i) \<Longrightarrow> apply_writes (map (\<lambda>i. (f i, g i)) [0..<N]) V = V"
  by (induction N) (auto simp: fun_upd_idem)

lemma commit_cache:
  fixes d :: "'x logstate_scheme"
  assumes t: "txn w N V D ws d" and N0: "0 < N"
  obtains d' where "runs w (commit (cpu_of w) :: ('x logstate_scheme, 'a) sys_scheme \<Rightarrow> _) d () d'"
    "cache (pid_of w) Map.empty (apply_writes (commit_writes d V N) V) (apply_writes (commit_writes d V N) D) {}
      (ws @ commit_writes d V N) d'" "kept (d\<lparr>lh_n := 0\<rparr>) d'"
proof -
  obtain Dt where c: "cache (pid_of w) Map.empty V D Dt ws d" and Dt: "Dt \<subseteq> lh_block d ` {..<N}"
    and area: "log_area d" and hm: "homes d N" and N: "N \<le> 29" and n: "lh_n d = int N"
    using t by (auto simp: txn_def)
  let ?A = "log_start d" and ?LW = "log_writes d V N" and ?x = "put_head (int N) (lh_block d) (V (log_start d))"
  have cD: "card (insert a Dt) \<le> NBUF" for a by (rule card_logged[OF N Dt])
  have A: "?A \<notin> Dt" using Dt hm start_facts(2)[of d] by (auto simp: homes_def)
  have finD: "finite Dt" using finite_subset[OF Dt] by simp
  then have few: "card Dt < NBUF" using cD[of ?A] A by simp
  obtain d1 where 1: "runs w (for_each [0..<N] (log_block (cpu_of w)) :: ('x logstate_scheme, 'a) sys_scheme \<Rightarrow> _) d () d1"
    "cache (pid_of w) Map.empty (apply_writes ?LW V) (apply_writes ?LW D) Dt (ws @ ?LW) d1" "kept d d1"
    using write_log_cache[OF c area hm N Dt order_refl] by blast
  note k1 = kept_log[OF 1(3)] kept_area[OF 1(3)]
  have V1A: "apply_writes ?LW V ?A = V ?A"
    by (rule log_writes_outside[OF area]) (use N slot_facts(3)[OF area] in \<open>auto simp: eq_commute[of ?A]\<close>)
  have area1: "log_area d1" using area k1 by simp
  let ?V2 = "(apply_writes ?LW V)(?A := ?x)" and ?D2 = "(apply_writes ?LW D)(?A := ?x)"
  obtain d2 where 2: "runs w (write_head (cpu_of w) :: ('x logstate_scheme, 'a) sys_scheme \<Rightarrow> _) d1 () d2"
    "cache (pid_of w) Map.empty ?V2 ?D2 (Dt - {?A}) ((ws @ ?LW) @ [(?A, ?x)]) d2" "kept d1 d2"
    by (rule write_head_cache[OF 1(2) area1 few]) (simp add: k1 V1A n)
  note k2 = kept_trans[OF 1(3) 2(3)]
  have c2: "cache (pid_of w) Map.empty ?V2 ?D2 Dt (ws @ ?LW @ [(?A, ?x)]) d2" using 2(2) A by simp
  let ?HW = "map (\<lambda>i. (lh_block d i, V (lh_block d i))) [0..<N]"
  have V2: "?V2 (slot d i) = V (lh_block d i)" "?V2 (lh_block d i) = V (lh_block d i)" if "i < N" for i
  proof -
    have i: "i < 29" "\<not> in_log d (lh_block d i)" using that N hm by (auto simp: homes_def)
    show "?V2 (slot d i) = V (lh_block d i)"
      using apply_log_writes[OF area _ that] N slot_facts(3)[OF area i(1)] by simp
    have "lh_block d i \<noteq> slot d j" if "j < N" for j using slot_facts(2)[OF area, of j] that N i(2) by auto
    then show "?V2 (lh_block d i) = V (lh_block d i)"
      using log_writes_outside[OF area, of N "lh_block d i" V V] start_facts(2)[of d] i(2) N by auto
  qed
  have hw: "home_writes d2 ?V2 N = ?HW" using V2 kept_log(7)[OF k2] kept_area(1)[OF k2] by (simp add: home_writes_def)
  have V3: "apply_writes ?HW ?V2 = ?V2" by (rule apply_same) (use V2 in simp)
  have D3: "Dt - lh_block d2 ` {..<N} = {}" using Dt kept_log(7)[OF k2] by auto
  have area2: "log_area d2" "homes d2 N" using area hm kept_area[OF k2] by auto
  have room: "card (insert (slot d2 i) (insert (lh_block d2 i) Dt)) \<le> NBUF" if "i < N" for i
    by (rule card_logged[OF N, of _ d]) (use Dt that kept_log(7)[OF k2] in auto)
  obtain d3 where 3: "runs w (for_each [0..<N] (install_block (cpu_of w)) :: ('x logstate_scheme, 'a) sys_scheme \<Rightarrow> _) d2 () d3"
    "cache (pid_of w) Map.empty ?V2 (apply_writes ?HW ?D2) {} ((ws @ ?LW @ [(?A, ?x)]) @ ?HW) d3" "kept d2 d3"
    using install_cache[OF c2 area2 _ room order_refl] N unfolding hw V3 D3 by auto
  let ?d = "d3\<lparr>lh_n := 0\<rparr>"
  note k3 = kept_trans[OF k2 3(3)]
  have k3': "kept (d\<lparr>lh_n := 0\<rparr>) ?d" using k3 by (cases d; cases d3) (simp add: kept_def)
  have c3: "cache (pid_of w) Map.empty ?V2 (apply_writes ?HW ?D2) {} ((ws @ ?LW @ [(?A, ?x)]) @ ?HW) ?d" using 3(2) by simp
  have area3: "log_area ?d" using area kept_log[OF k3] by (simp add: log_area_def)
  let ?y = "put_head 0 (lh_block d) ?x"
  obtain d4 where 4: "runs w (write_head (cpu_of w) :: ('x logstate_scheme, 'a) sys_scheme \<Rightarrow> _) ?d () d4"
    "cache (pid_of w) Map.empty (?V2(?A := ?y)) ((apply_writes ?HW ?D2)(?A := ?y)) ({} - {?A}) (((ws @ ?LW @ [(?A, ?x)]) @ ?HW) @ [(?A, ?y)]) d4"
    "kept ?d d4"
    by (rule write_head_cache[OF c3 area3]) (simp_all add: kept_log[OF k3])
  have V4: "apply_writes (commit_writes d V N) V = ?V2(?A := ?y)" by (simp add: commit_writes_def Let_def V3)
  have D4: "apply_writes (commit_writes d V N) D = (apply_writes ?HW ?D2)(?A := ?y)" by (simp add: commit_writes_def Let_def)
  have "runs w (commit (cpu_of w) :: ('x logstate_scheme, 'a) sys_scheme \<Rightarrow> _) d () d4"
  proof -
    have a: "runs w (write_log (cpu_of w) :: ('x logstate_scheme, 'a) sys_scheme \<Rightarrow> _) d () d1"
      unfolding write_log_def by (rule runs_cong[OF _ 1(1)]) (simp add: n)
    have b: "runs w (install_trans (cpu_of w) :: ('x logstate_scheme, 'a) sys_scheme \<Rightarrow> _) d2 () d3"
      unfolding install_trans_def by (rule runs_cong[OF _ 3(1)]) (simp add: n kept_log[OF k2])
    have e: "runs w (\<lambda>s :: ('x logstate_scheme, 'a) sys_scheme. write_head (cpu_of w) (upd_fsd (\<lambda>d. d\<lparr>lh_n := 0\<rparr>) s)) d3 () d4"
      by (rule runs_upd_bnd[where f = "\<lambda>d. d\<lparr>lh_n := 0\<rparr>" and m = "write_head (cpu_of w)", OF 4(1)])
    have "runs w (\<lambda>s :: ('x logstate_scheme, 'a) sys_scheme. bnd (write_log (cpu_of w) s) (\<lambda>_ s. bnd (write_head (cpu_of w) s) (\<lambda>_ s.
        bnd (install_trans (cpu_of w) s) (\<lambda>_ s. write_head (cpu_of w) (upd_fsd (\<lambda>d. d\<lparr>lh_n := 0\<rparr>) s))))) d () d4"
      by (rule runs_bnd[OF a], rule runs_bnd[OF 2(1)], rule runs_bnd[OF b], rule e)
    then show ?thesis unfolding commit_def by (rule runs_cong[rotated]) (simp add: n N0)
  qed
  moreover have "cache (pid_of w) Map.empty (apply_writes (commit_writes d V N) V) (apply_writes (commit_writes d V N) D) {}
      (ws @ commit_writes d V N) d4"
    using 4(2) unfolding V4 D4 by (simp add: commit_writes_def Let_def)
  ultimately show thesis using that[of d4] kept_trans[OF k3' 4(3)] by blast
qed

subsection \<open>Recovery\<close>

lemma quiet_initlock: "quiet w s \<Longrightarrow> quiet w (initlock lk nm s)" and core_initlock: "core (initlock lk nm s) s' \<Longrightarrow> core s s'"
proof -
  have c: "cpus (initlock lk nm s) = cpus s" "ncpu (initlock lk nm s) = ncpu s" "procs (initlock lk nm s) = procs s"
    by (simp_all add: initlock_def upd_lock_def)
  have l: "lock_free k (initlock lk nm s)" if "lock_free k s" for k
    using that by (simp add: lock_free_def initlock_def upd_lock_def)
  show "quiet w s \<Longrightarrow> quiet w (initlock lk nm s)"
    using c l by (auto simp: quiet_def running_def cpu_ok_def split: prod.splits)
  show "core (initlock lk nm s) s' \<Longrightarrow> core s s'" by (simp add: core_def initlock_def upd_lock_def)
qed

lemma runs_initlock:
  assumes "runs w m d r d'"
  shows "runs w (\<lambda>s. m (initlock lk nm s)) d r d'"
proof (rule runsI)
  fix s :: "('a, 'b) sys_scheme" assume s: "quiet w s" "fsd s = d"
  obtain s' where "m (initlock lk nm s) = Ok r s'" "quiet w s'" "core (initlock lk nm s) s'" "fsd s' = d'"
    by (rule runsE[OF assms quiet_initlock[OF s(1)]]) (use s(2) in simp)
  then show "\<exists>s'. m (initlock lk nm s) = Ok r s' \<and> quiet w s' \<and> core s s' \<and> fsd s' = d'"
    using core_initlock by blast
qed

lemma readsb_cache:
  fixes d :: "'x disk_scheme"
  assumes c: "cache (pid_of w) Map.empty V D Dt ws d" and m: "1 < disksize d" and room: "card Dt < NBUF"
  obtains d' where "runs w (readsb (cpu_of w) 1 :: ('x disk_scheme, 'a) sys_scheme \<Rightarrow> _) d (sb_of (V 1)) d'"
    "cache (pid_of w) Map.empty V D Dt ws d'" "kept d d'"
proof -
  obtain d' where d': "runs w (read_block (cpu_of w) 1 :: ('x disk_scheme, 'a) sys_scheme \<Rightarrow> _) d (V 1) d'"
    "cache (pid_of w) Map.empty V D Dt ws d'" "kept d d'"
    by (rule read_block_cache[OF c m]) (use room in simp_all)
  have e: "readsb (cpu_of w) 1 = (\<lambda>s :: ('x disk_scheme, 'a) sys_scheme. bnd (read_block (cpu_of w) 1 s) (\<lambda>x. Ok (sb_of x)))"
    by (simp add: fun_eq_iff readsb_def read_block_def bnd_assoc Let_def)
  have "runs w (readsb (cpu_of w) 1 :: ('x disk_scheme, 'a) sys_scheme \<Rightarrow> _) d (sb_of (V 1)) d'"
    unfolding e by (rule runs_bnd[OF d'(1) runs_Ok])
  then show thesis by (rule that[OF _ d'(2,3)])
qed

text \<open>The writes of recovery from disk \<open>E\<close>, with the log at \<open>st\<close>.\<close>

definition rec_writes :: "uint \<Rightarrow> (uint \<Rightarrow> block) \<Rightarrow> (uint \<times> block) list" where
  "rec_writes st E = map (\<lambda>i. (head_block (E st) i, E (st + of_nat i + 1))) [0..<nat (head_n (E st))] @
     [(st, store32 (E st) 0 0)]"

text \<open>A disk that recovery can work on: superblock, log and header are well-formed.\<close>

definition disk_ok :: "uint \<Rightarrow> uint \<Rightarrow> (uint \<Rightarrow> block) \<Rightarrow> bool" where
  "disk_ok dsz st E \<longleftrightarrow> sb_logstart (sb_of (E 1)) = st \<and> unat st + 30 \<le> unat dsz \<and> 1 < dsz \<and>
     0 \<le> head_n (E st) \<and> head_n (E st) \<le> 29 \<and>
     (\<forall>i<nat (head_n (E st)). head_block (E st) i < dsz \<and>
        \<not> (unat st \<le> unat (head_block (E st) i) \<and> unat (head_block (E st) i) \<le> unat st + 29))"

lemma put_head_0: "put_head 0 bl x = store32 x 0 0"
  by (simp add: put_head_def)

lemma recover_cache:
  fixes d :: "'x logstate_scheme"
  assumes c: "cache (pid_of w) Map.empty E E {} ws d" and st: "log_dev d = 1" "log_start d = st" and ok: "disk_ok (disksize d) st E"
  obtains d' where "runs w (recover_from_log (cpu_of w) :: ('x logstate_scheme, 'a) sys_scheme \<Rightarrow> _) d () d'"
    "cache (pid_of w) Map.empty (apply_writes (rec_writes st E) E) (apply_writes (rec_writes st E) E) {} (ws @ rec_writes st E) d'"
proof -
  let ?x = "E st"
  define N where "N = nat (head_n ?x)"
  have N: "N \<le> 29" "head_n ?x = int N" using ok by (auto simp: N_def disk_ok_def)
  have area: "log_area d" using st ok by (auto simp: log_area_def disk_ok_def)
  obtain d1 where 1: "runs w (read_head (cpu_of w) :: ('x logstate_scheme, 'a) sys_scheme \<Rightarrow> _) d () d1"
    "cache (pid_of w) Map.empty E E {} ws d1" "kept (with_head ?x d) d1"
    by (rule read_head_cache[OF c area]) (use ok st N in simp_all)
  note k1 = kept_log[OF 1(3)]
  have f1: "log_start d1 = st" "log_dev d1 = 1" "disksize d1 = disksize d" "lh_n d1 = int N"
    "\<And>i. i < N \<Longrightarrow> lh_block d1 i = head_block ?x i"
    using k1 st by (simp_all add: with_head_def N(2))
  have area1: "log_area d1" using area f1 st by (simp add: log_area_def)
  have hm1: "homes d1 N" using ok f1 unfolding disk_ok_def N(2) by (simp add: homes_def in_log_def)
  have room: "card (insert (slot d1 i) (insert (lh_block d1 i) {})) \<le> NBUF" for i
    by (simp add: card_insert_if)
  let ?HW = "home_writes d1 E N"
  obtain d2 where 2: "runs w (for_each [0..<N] (install_block (cpu_of w)) :: ('x logstate_scheme, 'a) sys_scheme \<Rightarrow> _) d1 () d2"
    "cache (pid_of w) Map.empty (apply_writes ?HW E) (apply_writes ?HW E) {} (ws @ ?HW) d2" "kept d1 d2"
    using install_cache[OF 1(2) area1 hm1 N(1) room order_refl] by auto
  note k2 = kept_log[OF 2(3)]
  let ?d = "d2\<lparr>lh_n := 0\<rparr>" and ?y = "store32 ?x 0 0"
  have c2: "cache (pid_of w) Map.empty (apply_writes ?HW E) (apply_writes ?HW E) {} (ws @ ?HW) ?d" using 2(2) by simp
  have area2: "log_area ?d" using area1 k2 by (simp add: log_area_def)
  have x: "apply_writes ?HW E st = ?x"
    by (rule apply_writes_other) (use hm1 start_facts(2)[of d1] f1(1) in \<open>auto simp: home_writes_def homes_def\<close>)
  obtain d3 where 3: "runs w (write_head (cpu_of w) :: ('x logstate_scheme, 'a) sys_scheme \<Rightarrow> _) ?d () d3"
    "cache (pid_of w) Map.empty ((apply_writes ?HW E)(st := ?y)) ((apply_writes ?HW E)(st := ?y)) ({} - {st}) ((ws @ ?HW) @ [(st, ?y)]) d3"
    by (rule write_head_cache[OF c2 area2]) (simp_all add: k2 f1 x put_head_0)
  have rw: "rec_writes st E = ?HW @ [(st, ?y)]"
    using f1 by (simp add: rec_writes_def home_writes_def slot_def N(2))
  have "runs w (recover_from_log (cpu_of w) :: ('x logstate_scheme, 'a) sys_scheme \<Rightarrow> _) d () d3"
    unfolding recover_from_log_def
  proof (rule runs_bnd[OF 1(1)], rule runs_bnd)
    show "runs w (install_trans (cpu_of w) :: ('x logstate_scheme, 'a) sys_scheme \<Rightarrow> _) d1 () d2"
      unfolding install_trans_def by (rule runs_cong[OF _ 2(1)]) (simp add: f1)
    show "runs w (\<lambda>s :: ('x logstate_scheme, 'a) sys_scheme. write_head (cpu_of w) (upd_fsd (\<lambda>d. d\<lparr>lh_n := 0\<rparr>) s)) d2 () d3"
      by (rule runs_upd_bnd[where f = "\<lambda>d. d\<lparr>lh_n := 0\<rparr>" and m = "write_head (cpu_of w)", OF 3(1)])
  qed
  then show thesis using that[of d3] 3(2) unfolding rw by simp
qed

lemma initlog_cache:
  fixes d :: "'x logstate_scheme"
  assumes c: "cache (pid_of w) Map.empty E E {} ws d" and ok: "disk_ok (disksize d) st E"
  obtains d' where "runs w (initlog (cpu_of w) 1 :: ('x logstate_scheme, 'a) sys_scheme \<Rightarrow> _) d () d'"
    "cache (pid_of w) Map.empty (apply_writes (rec_writes st E) E) (apply_writes (rec_writes st E) E) {} (ws @ rec_writes st E) d'"
proof -
  let ?sb = "sb_of (E 1)"
  have sz: "1 < disksize d" and sb: "sb_logstart ?sb = st" using ok by (auto simp: disk_ok_def)
  obtain d1 where 1: "runs w (readsb (cpu_of w) 1 :: ('x logstate_scheme, 'a) sys_scheme \<Rightarrow> _) d ?sb d1"
    "cache (pid_of w) Map.empty E E {} ws d1" "kept d d1"
    by (rule readsb_cache[OF c sz]) simp_all
  let ?f = "\<lambda>d. d\<lparr>log_start := sb_logstart ?sb, log_size := sint (sb_nlog ?sb), log_dev := 1\<rparr>"
  have "cache (pid_of w) Map.empty E E {} ws (?f d1)" using 1(2) by simp
  then obtain d2 where 2: "runs w (recover_from_log (cpu_of w) :: ('x logstate_scheme, 'a) sys_scheme \<Rightarrow> _) (?f d1) () d2"
    "cache (pid_of w) Map.empty (apply_writes (rec_writes st E) E) (apply_writes (rec_writes st E) E) {} (ws @ rec_writes st E) d2"
    by (rule recover_cache) (use sb ok 1(3) in \<open>simp_all add: kept_def\<close>)
  have "runs w (initlog (cpu_of w) 1 :: ('x logstate_scheme, 'a) sys_scheme \<Rightarrow> _) d () d2"
    unfolding initlog_def Let_def
  proof (rule runs_cong[rotated])
    show "runs w (\<lambda>s :: ('x logstate_scheme, 'a) sys_scheme. bnd (readsb (cpu_of w) 1 (initlock log_lock ''log'' s))
        (\<lambda>sb s. recover_from_log (cpu_of w) (upd_fsd (\<lambda>d. d\<lparr>log_start := sb_logstart sb, log_size := sint (sb_nlog sb), log_dev := 1\<rparr>) s))) d () d2"
      by (rule runs_bnd[OF runs_initlock[OF 1(1)]],
          rule runs_upd_bnd[where f = ?f and m = "recover_from_log (cpu_of w)", OF 2(1)])
  qed simp
  then show thesis by (rule that[OF _ 2(2)])
qed

subsection \<open>Crashes\<close>

lemma apply_map_fun:
  "apply_writes (map (\<lambda>i. (f i, V (f i))) xs) D m = (if m \<in> f ` set xs then V m else D m)"
  by (induction xs arbitrary: D) auto

lemma store32_0_head: "head_n (store32 x 0 0) = 0"
  by (simp add: head_n_def)

text \<open>
  The three kinds of disks a crash leaves, for a transaction that writes \<open>V (bl i)\<close> to the blocks \<open>bl i\<close>
  of disk \<open>D\<close>: not committed, committed and possibly half installed, installed.
\<close>

definition in_area :: "uint \<Rightarrow> uint \<Rightarrow> bool" where
  "in_area st m \<longleftrightarrow> unat st \<le> unat m \<and> unat m \<le> unat st + 29"

definition quiet_disk :: "uint \<Rightarrow> (uint \<Rightarrow> block) \<Rightarrow> (uint \<Rightarrow> block) \<Rightarrow> bool" where
  "quiet_disk st D E \<longleftrightarrow> head_n (E st) = 0 \<and> (\<forall>m. \<not> in_area st m \<longrightarrow> E m = D m)"

definition pending :: "uint \<Rightarrow> nat \<Rightarrow> (nat \<Rightarrow> uint) \<Rightarrow> (uint \<Rightarrow> block) \<Rightarrow> (uint \<Rightarrow> block) \<Rightarrow> (uint \<Rightarrow> block) \<Rightarrow> bool" where
  "pending st N bl V D E \<longleftrightarrow> head_n (E st) = int N \<and>
     (\<forall>i<N. head_block (E st) i = bl i \<and> E (st + of_nat i + 1) = V (bl i)) \<and>
     (\<forall>m. \<not> in_area st m \<and> m \<notin> bl ` {..<N} \<longrightarrow> E m = D m)"

definition updated :: "nat \<Rightarrow> (nat \<Rightarrow> uint) \<Rightarrow> (uint \<Rightarrow> block) \<Rightarrow> (uint \<Rightarrow> block) \<Rightarrow> uint \<Rightarrow> block" where
  "updated N bl V D m = (if m \<in> bl ` {..<N} then V m else D m)"

lemma in_area_st [simp]: "in_area st st"
  by (simp add: in_area_def)

lemma quiet_rec:
  assumes "quiet_disk st D E"
  shows "quiet_disk st D (apply_writes (take k (rec_writes st E)) E)"
proof -
  have "rec_writes st E = [(st, store32 (E st) 0 0)]" using assms by (simp add: quiet_disk_def rec_writes_def)
  then have "apply_writes (take k (rec_writes st E)) E = (if k = 0 then E else E(st := store32 (E st) 0 0))"
    by (cases k) auto
  moreover have "m \<noteq> st" if "\<not> in_area st m" for m using that by auto
  ultimately show ?thesis using assms by (simp add: quiet_disk_def store32_0_head)
qed

text \<open>The recorded blocks lie outside the log and are not the superblock.\<close>

definition good_blocks :: "uint \<Rightarrow> uint \<Rightarrow> nat \<Rightarrow> (nat \<Rightarrow> uint) \<Rightarrow> bool" where
  "good_blocks dsz st N bl \<longleftrightarrow> N \<le> 29 \<and> unat st + 30 \<le> unat dsz \<and> 1 < dsz \<and> \<not> in_area st 1 \<and>
     (\<forall>i<N. bl i < dsz \<and> \<not> in_area st (bl i) \<and> bl i \<noteq> 1)"

lemma area_slot:
  assumes "good_blocks dsz st N bl" "i < N"
  shows "in_area st (st + of_nat i + 1)" "st + of_nat i + 1 \<noteq> st"
proof -
  have i: "i < 29" and a: "unat st + 30 \<le> unat dsz" using assms by (auto simp: good_blocks_def)
  let ?d = "undefined\<lparr>log_dev := 1, log_start := st, disksize := dsz\<rparr> :: logstate"
  have "log_area ?d" using a by (simp add: log_area_def)
  from slot_facts(2,3)[OF this i] show "in_area st (st + of_nat i + 1)" "st + of_nat i + 1 \<noteq> st"
    by (simp_all add: slot_def in_log_def in_area_def)
qed

lemma pending_rec:
  assumes g: "good_blocks dsz st N bl" and p: "pending st N bl V D E"
  shows "pending st N bl V D (apply_writes (take k (rec_writes st E)) E) \<or>
    quiet_disk st (updated N bl V D) (apply_writes (take k (rec_writes st E)) E)"
    "quiet_disk st (updated N bl V D) (apply_writes (rec_writes st E) E)"
proof -
  let ?W = "map (\<lambda>i. (bl i, V (bl i))) [0..<N]" and ?y = "store32 (E st) 0 0"
  have rw: "rec_writes st E = ?W @ [(st, ?y)]" using p by (simp add: rec_writes_def pending_def)
  have bl: "\<not> in_area st (bl i)" if "i < N" for i using g that by (simp add: good_blocks_def)
  have out: "m \<notin> bl ` {..<j}" if "in_area st m" "j \<le> N" for m j using bl that by auto
  have tk: "apply_writes (take j ?W) E m = (if m \<in> bl ` {..<j} then V m else E m)" if "j \<le> N" for j m
    using that apply_map_fun[of bl V "[0..<j]" E m] by (simp add: take_map atLeast0LessThan)
  have pend: "pending st N bl V D (apply_writes (take j ?W) E)" if j: "j \<le> N" for j
  proof -
    have st: "apply_writes (take j ?W) E st = E st" using tk[OF j] out[OF in_area_st j] by simp
    have sl: "apply_writes (take j ?W) E (st + of_nat i + 1) = E (st + of_nat i + 1)" if "i < N" for i
      using tk[OF j] out[OF area_slot(1)[OF g that] j] by simp
    have "bl ` {..<j} \<subseteq> bl ` {..<N}" using j by auto
    then show ?thesis using p tk[OF j] sl unfolding pending_def st by auto
  qed
  have dn: "quiet_disk st (updated N bl V D) (apply_writes (rec_writes st E) E)"
  proof -
    have "apply_writes (rec_writes st E) E = (apply_writes ?W E)(st := ?y)" by (simp add: rw)
    moreover have "apply_writes ?W E m = updated N bl V D m" if "\<not> in_area st m" for m
      using tk[OF order_refl, of m] p that by (auto simp: updated_def pending_def)
    moreover have "m \<noteq> st" if "\<not> in_area st m" for m using that by auto
    ultimately show ?thesis by (simp add: quiet_disk_def store32_0_head)
  qed
  show "quiet_disk st (updated N bl V D) (apply_writes (rec_writes st E) E)" by (rule dn)
  show "pending st N bl V D (apply_writes (take k (rec_writes st E)) E) \<or>
    quiet_disk st (updated N bl V D) (apply_writes (take k (rec_writes st E)) E)"
  proof (cases "k \<le> N")
    case True
    then have "take k (rec_writes st E) = take k ?W" by (simp add: rw)
    then show ?thesis using pend[OF True] by simp
  next
    case False
    then have "take k (rec_writes st E) = rec_writes st E" by (simp add: rw)
    then show ?thesis using dn by simp
  qed
qed

lemma commit_prefix:
  fixes d :: "'x logstate_scheme" and V :: "uint \<Rightarrow> block"
  assumes g: "good_blocks (disksize d) (log_start d) N (lh_block d)" and area: "log_area d" and h0: "head_n (D (log_start d)) = 0"
  defines "E \<equiv> \<lambda>k. apply_writes (take k (commit_writes d V N)) D"
  shows "quiet_disk (log_start d) D (E k) \<or> pending (log_start d) N (lh_block d) V D (E k) \<or>
    quiet_disk (log_start d) (updated N (lh_block d) V D) (E k)"
    "2 * N + 1 < k \<Longrightarrow> quiet_disk (log_start d) (updated N (lh_block d) V D) (E k)"
proof -
  let ?st = "log_start d" and ?bl = "lh_block d"
  let ?L = "log_writes d V N" and ?x = "put_head (int N) ?bl (V ?st)" and ?W = "map (\<lambda>i. (?bl i, V (?bl i))) [0..<N]"
  let ?y = "put_head 0 ?bl ?x"
  have N: "N \<le> 29" and bl: "\<And>i. i < N \<Longrightarrow> \<not> in_area ?st (?bl i)" using g by (auto simp: good_blocks_def)
  have cw: "commit_writes d V N = ?L @ [(?st, ?x)] @ ?W @ [(?st, ?y)]" by (simp add: commit_writes_def Let_def)
  have len: "length ?L = N" "length ?W = N" by (simp_all add: log_writes_def)
  have Lout: "apply_writes (take j ?L) F m = F m" if "\<forall>i<N. m \<noteq> slot d i" for j F m
    by (rule apply_writes_other) (use that in \<open>fastforce simp: log_writes_def dest!: in_set_takeD\<close>)
  have area_sl: "in_area ?st (slot d i)" "slot d i \<noteq> ?st" if "i < N" for i
    using area_slot[OF g that] by (simp_all add: slot_def)
  have Wout: "apply_writes (take j ?W) F m = (if m \<in> ?bl ` {..<j} then V m else F m)" if "j \<le> N" for j F m
    using that apply_map_fun[of ?bl V "[0..<j]" F m] by (simp add: take_map atLeast0LessThan)
  have installed: "quiet_disk ?st (updated N ?bl V D) (E k)" if 3: "2 * N + 1 < k"
  proof -
    let ?F = "(apply_writes ?L D)(?st := ?x)"
    have e: "E k = (apply_writes (take N ?W) ?F)(?st := ?y)" using 3 by (simp add: E_def cw len)
    have "E k m = updated N ?bl V D m" if "\<not> in_area ?st m" for m
    proof -
      have "apply_writes (take N ?L) D m = D m" by (rule Lout) (use area_sl(1) that in auto)
      moreover have "m \<noteq> ?st" using that by auto
      ultimately show ?thesis unfolding e fun_upd_apply Wout[OF order_refl] updated_def by (simp add: len)
    qed
    moreover have "E k ?st = store32 ?x 0 0" by (simp add: e put_head_0)
    ultimately show ?thesis by (simp add: quiet_disk_def store32_0_head)
  qed
  show "2 * N + 1 < k \<Longrightarrow> quiet_disk ?st (updated N ?bl V D) (E k)" by (rule installed)
  consider "k \<le> N" | "N < k" "k \<le> 2 * N + 1" | "k > 2 * N + 1" by linarith
  then show "quiet_disk ?st D (E k) \<or> pending ?st N ?bl V D (E k) \<or> quiet_disk ?st (updated N ?bl V D) (E k)"
  proof cases
    case 1
    then have e: "E k = apply_writes (take k ?L) D" by (simp add: E_def cw len)
    have "E k ?st = D ?st" unfolding e by (rule Lout) (use area_sl(2) in \<open>simp add: eq_commute[of ?st]\<close>)
    moreover have "E k m = D m" if "\<not> in_area ?st m" for m unfolding e by (rule Lout) (use area_sl(1) that in auto)
    ultimately show ?thesis using h0 by (simp add: quiet_disk_def)
  next
    case 2
    define j where "j = k - (N + 1)"
    have 2: "k = N + 1 + j" "j \<le> N" using 2 by (auto simp: j_def)
    let ?F = "(apply_writes ?L D)(?st := ?x)"
    have e: "E k = apply_writes (take j ?W) ?F" using 2 by (simp add: E_def cw len)
    have inb: "m \<notin> ?bl ` {..<j}" if "in_area ?st m" for m using bl that 2 by auto
    have st: "E k ?st = ?x" unfolding e Wout[OF 2(2)] using inb[OF in_area_st] by simp
    have "E k (slot d i) = V (?bl i)" if "i < N" for i
      unfolding e Wout[OF 2(2)] using inb[OF area_sl(1)[OF that]] area_sl(2)[OF that] apply_log_writes[OF area _ that] N by simp
    moreover have "E k m = D m" if "\<not> in_area ?st m" "m \<notin> ?bl ` {..<N}" for m
    proof -
      have "apply_writes (take N ?L) D m = D m" by (rule Lout) (use area_sl(1) that in auto)
      moreover have "m \<notin> ?bl ` {..<j}" "m \<noteq> ?st" using that 2 by auto
      ultimately show ?thesis unfolding e Wout[OF 2(2)] by (simp add: len)
    qed
    moreover have "head_n ?x = int N" "\<And>i. i < N \<Longrightarrow> head_block ?x i = ?bl i"
      using put_head_read[of "int N", where bl = ?bl and x = "V ?st"] N by simp_all
    ultimately have "pending ?st N ?bl V D (E k)" unfolding pending_def st by (simp add: slot_def)
    then show ?thesis by simp
  next
    case 3
    then show ?thesis using installed by simp
  qed
qed

text \<open>
  A freshly booted system on disk \<open>E\<close>, and the disks that crashes during recovery leave: each time the
  system boots, runs \<open>initlog\<close> and stops after some of its writes.
\<close>

definition booted :: "task \<Rightarrow> uint \<Rightarrow> (uint \<Rightarrow> block) \<Rightarrow> logstate sys \<Rightarrow> bool" where
  "booted w dsz E s \<longleftrightarrow> quiet w s \<and> (\<exists>s0. zero_bufs (fsd s0) \<and> memdisk (fsd s0) = E \<and> disksize (fsd s0) = dsz \<and>
     dwrites (fsd s0) = [] \<and> fsd s = fsd (binit (s0 :: logstate sys)))"

inductive crashes :: "task \<Rightarrow> uint \<Rightarrow> (uint \<Rightarrow> block) \<Rightarrow> (uint \<Rightarrow> block) \<Rightarrow> bool" for w dsz where
  none: "crashes w dsz E E"
| more: "crashes w dsz E E1 \<Longrightarrow> booted w dsz E1 s \<Longrightarrow> initlog (cpu_of w) 1 s = Ok () s' \<Longrightarrow>
    crashes w dsz E (apply_writes (take k (dwrites (fsd s'))) E1)"

lemma initlog_booted:
  assumes b: "booted w dsz E s" and ok: "disk_ok dsz st E"
  shows "\<exists>s'. initlog (cpu_of w) 1 s = Ok () s' \<and> memdisk (fsd s') = apply_writes (rec_writes st E) E \<and>
    dwrites (fsd s') = rec_writes st E"
proof -
  obtain s0 :: "logstate sys" where s0: "quiet w s" "zero_bufs (fsd s0)" "memdisk (fsd s0) = E" "disksize (fsd s0) = dsz"
    "dwrites (fsd s0) = []" "fsd s = fsd (binit s0)" using b by (auto simp: booted_def)
  have c: "cache (pid_of w) Map.empty E E {} [] (fsd s)" using binit_cache(1)[OF s0(2,5)] s0 by simp
  have ok': "disk_ok (disksize (fsd s)) st E" using ok s0(4,6) binit_cache(2)[OF s0(2) refl] by simp
  obtain d' where d': "runs w (initlog (cpu_of w) 1 :: logstate sys \<Rightarrow> _) (fsd s) () d'"
    "cache (pid_of w) Map.empty (apply_writes (rec_writes st E) E) (apply_writes (rec_writes st E) E) {} ([] @ rec_writes st E) d'"
    by (rule initlog_cache[OF c ok'])
  obtain s' where "initlog (cpu_of w) 1 s = Ok () s'" "fsd s' = d'" by (rule runsE[OF d'(1) s0(1) refl])
  then show ?thesis using d'(2) by (auto simp: cache_def)
qed

text \<open>The kinds of disks are closed under crashes of recovery.\<close>

definition recoverable :: "uint \<Rightarrow> nat \<Rightarrow> (nat \<Rightarrow> uint) \<Rightarrow> (uint \<Rightarrow> block) \<Rightarrow> (uint \<Rightarrow> block) \<Rightarrow> (uint \<Rightarrow> block) \<Rightarrow> bool" where
  "recoverable st N bl V D E \<longleftrightarrow> quiet_disk st D E \<or> pending st N bl V D E \<or> quiet_disk st (updated N bl V D) E"

lemma recoverable_ok:
  assumes g: "good_blocks dsz st N bl" and sb: "sb_logstart (sb_of (D 1)) = st" and r: "recoverable st N bl V D E"
  shows "disk_ok dsz st E"
proof -
  have g': "N \<le> 29" "unat st + 30 \<le> unat dsz" "1 < dsz" "\<not> in_area st 1" "1 \<notin> bl ` {..<N}"
    "\<And>i. i < N \<Longrightarrow> bl i < dsz \<and> \<not> in_area st (bl i)" using g by (auto simp: good_blocks_def)
  have "E 1 = D 1" using r g'(4,5) by (auto simp: recoverable_def quiet_disk_def pending_def updated_def)
  moreover have "head_n (E st) = 0 \<or> head_n (E st) = int N \<and> (\<forall>i<N. head_block (E st) i = bl i)"
    using r by (auto simp: recoverable_def quiet_disk_def pending_def)
  ultimately show ?thesis using g' sb by (auto simp: disk_ok_def in_area_def)
qed

lemma crashes_recoverable:
  assumes "crashes w dsz E0 E" and g: "good_blocks dsz st N bl" and sb: "sb_logstart (sb_of (D 1)) = st"
    and r: "recoverable st N bl V D E0"
  shows "recoverable st N bl V D E"
  using assms(1) r
proof (induction rule: crashes.induct)
  case (more E E1 s s' k)
  then have r1: "recoverable st N bl V D E1" by simp
  have "dwrites (fsd s') = rec_writes st E1"
    using initlog_booted[OF more.hyps(2) recoverable_ok[OF g sb r1]] more.hyps(3) by auto
  then show ?case
    using r1 quiet_rec pending_rec(1)[OF g] unfolding recoverable_def by metis
qed

lemma end_op_cache:
  fixes d :: "'x logstate_scheme"
  assumes t: "txn w N V D ws d" and N0: "0 < N" and o: "outstanding d = 1" "\<not> committing d"
  obtains d' where "runs w (end_op (cpu_of w) :: ('x logstate_scheme, 'a) sys_scheme \<Rightarrow> _) d () d'"
    "cache (pid_of w) Map.empty (apply_writes (commit_writes d V N) V) (apply_writes (commit_writes d V N) D) {}
      (ws @ commit_writes d V N) d'"
    "kept (d\<lparr>lh_n := 0, outstanding := 0\<rparr>) d'"
proof -
  let ?d = "d\<lparr>outstanding := 0, committing := True\<rparr>"
  have "txn w N V D ws ?d"
    using t by (simp add: txn_def log_area_def homes_def in_log_def)
  then obtain d1 where 1: "runs w (commit (cpu_of w) :: ('x logstate_scheme, 'a) sys_scheme \<Rightarrow> _) ?d () d1"
    "cache (pid_of w) Map.empty (apply_writes (commit_writes ?d V N) V) (apply_writes (commit_writes ?d V N) D) {}
      (ws @ commit_writes ?d V N) d1" "kept (?d\<lparr>lh_n := 0\<rparr>) d1"
    by (rule commit_cache[OF _ N0])
  have cw: "commit_writes ?d V N = commit_writes d V N" by (simp add: commit_writes_def log_writes_def slot_def)
  let ?d2 = "d1\<lparr>committing := False\<rparr>"
  have c2: "cache (pid_of w) Map.empty (apply_writes (commit_writes d V N) V) (apply_writes (commit_writes d V N) D) {}
      (ws @ commit_writes d V N) ?d2" using 1(2) unfolding cw by simp
  have "runs w (end_op (cpu_of w) :: ('x logstate_scheme, 'a) sys_scheme \<Rightarrow> _) d () ?d2"
  proof (rule runsI)
    fix s :: "('x logstate_scheme, 'a) sys_scheme" assume s: "quiet w s" "fsd s = d"
    let ?c = "cpu_of w"
    let ?s1 = "upd_fsd (\<lambda>d. d\<lparr>outstanding := outstanding d - 1, committing := True\<rparr>) (sect ?c log_lock s)"
    have f: "fsd ?s1 = ?d" using s o by simp
    obtain s2 where s2: "commit ?c ?s1 = Ok () s2" "quiet w s2" "core ?s1 s2" "fsd s2 = d1"
      by (rule runsE[OF 1(1) _ f]) (use s in simp)
    let ?s3 = "upd_fsd (\<lambda>d. d\<lparr>committing := False\<rparr>) (wakeup1 ChLog (sect ?c log_lock (sect ?c ptable_lock s2)))"
    have "end_op ?c s = Ok () ?s3"
      using s o s2(1) quietD[OF s(1)] quietD[OF s2(2)]
      by (simp add: end_op_def acquire_free release_held wakeup_eq Let_def)
    moreover have "core s ?s3" using s2(3) core_trans[of s ?s1 s2] by simp
    ultimately show "\<exists>s'. end_op ?c s = Ok () s' \<and> quiet w s' \<and> core s s' \<and> fsd s' = ?d2"
      using s2 by (intro exI[of _ ?s3]) simp
  qed
  moreover have "kept (d\<lparr>lh_n := 0, outstanding := 0\<rparr>) ?d2"
    using 1(3) o(2) by (cases d; cases d1) (simp add: kept_def)
  ultimately show thesis by (rule that[OF _ c2])
qed

text \<open>The state in which the last of the system calls of a transaction of \<open>N\<close> blocks calls \<open>end_op\<close>.\<close>

definition last_op :: "task \<Rightarrow> nat \<Rightarrow> 'x logstate_scheme \<Rightarrow> bool" where
  "last_op w N d \<longleftrightarrow> txn w N (view d) (memdisk d) (dwrites d) d \<and> 0 < N \<and> outstanding d = 1 \<and> \<not> committing d \<and>
     head_n (memdisk d (log_start d)) = 0 \<and> sb_logstart (sb_of (memdisk d 1)) = log_start d \<and>
     \<not> in_log d 1 \<and> (\<forall>i<N. lh_block d i \<noteq> 1)"

lemma last_op_good:
  assumes "last_op w N d"
  shows "good_blocks (disksize d) (log_start d) N (lh_block d)"
proof -
  have a: "log_area d" "\<not> in_log d 1" using assms by (auto simp: last_op_def txn_def)
  have "unat (1 :: uint) < unat (disksize d)"
    using a by (auto simp: log_area_def in_log_def)
  then have "1 < disksize d" by (simp only: word_less_nat_alt)
  then show ?thesis using assms by (auto simp: last_op_def txn_def good_blocks_def homes_def in_area_def in_log_def log_area_def)
qed

subsection \<open>Properties\<close>

text \<open>
  C4 (transactions survive crashes as a whole). When the last system call of a transaction calls \<open>end_op\<close>,
  the call returns with every recorded block written to its place on the disk. If instead the machine
  stops after any number of the disk writes the call makes, and stops again any number of times during the
  recovery that \<open>initlog\<close> runs at the next boots, then the first \<open>initlog\<close> that is not interrupted returns,
  and outside the 30 blocks of the log the disk has either all of the transaction's blocks or none of them.
\<close>

theorem commit_crash_safe:
  fixes s :: "('x logstate_scheme, 'a) sys_scheme"
  assumes q: "quiet w s" and l: "last_op w N (fsd s)"
  defines "D \<equiv> memdisk (fsd s)" and "st \<equiv> log_start (fsd s)" and "dsz \<equiv> disksize (fsd s)"
    and "D' \<equiv> updated N (lh_block (fsd s)) (view (fsd s)) (memdisk (fsd s))"
  shows "\<exists>s'. end_op (cpu_of w) s = Ok () s' \<and> (\<forall>m. \<not> in_area st m \<longrightarrow> memdisk (fsd s') m = D' m) \<and>
    (\<forall>k E b. crashes w dsz (apply_writes (take k (drop (length (dwrites (fsd s))) (dwrites (fsd s')))) D) E \<and> booted w dsz E b \<longrightarrow>
      (\<exists>b'. initlog (cpu_of w) 1 b = Ok () b' \<and>
        ((\<forall>m. \<not> in_area st m \<longrightarrow> memdisk (fsd b') m = D m) \<or> (\<forall>m. \<not> in_area st m \<longrightarrow> memdisk (fsd b') m = D' m))))"
proof -
  let ?d = "fsd s" and ?V = "view (fsd s)"
  have t: "txn w N ?V D (dwrites ?d) ?d" "0 < N" "outstanding ?d = 1" "\<not> committing ?d" and h0: "head_n (D st) = 0"
    and sb: "sb_logstart (sb_of (D 1)) = st" and area: "log_area ?d"
    using l by (auto simp: last_op_def D_def st_def txn_def)
  note g = last_op_good[OF l, folded st_def dsz_def]
  let ?cw = "commit_writes ?d ?V N"
  obtain d' where d': "runs w (end_op (cpu_of w) :: ('x logstate_scheme, 'a) sys_scheme \<Rightarrow> _) ?d () d'"
    "cache (pid_of w) Map.empty (apply_writes ?cw ?V) (apply_writes ?cw D) {} (dwrites ?d @ ?cw) d'"
    by (rule end_op_cache[OF t])
  obtain s' where s': "end_op (cpu_of w) s = Ok () s'" "fsd s' = d'" by (rule runsE[OF d'(1) q refl])
  have ws: "drop (length (dwrites ?d)) (dwrites (fsd s')) = ?cw" "memdisk (fsd s') = apply_writes ?cw D"
    using d'(2) s'(2) by (auto simp: cache_def)
  note cp = commit_prefix[OF last_op_good[OF l] area, where D = D and V = ?V, folded st_def D_def, OF h0]
  have u: "D' = updated N (lh_block ?d) ?V D" by (simp add: D'_def D_def)
  have cw: "quiet_disk st D' (apply_writes ?cw D)"
  proof -
    have "take (2 * N + 2) ?cw = ?cw" by (simp add: commit_writes_def log_writes_def Let_def)
    then show ?thesis using cp(2)[of "2 * N + 2"] u by simp
  qed
  show ?thesis
  proof (intro exI[of _ s'] conjI allI impI)
    show "end_op (cpu_of w) s = Ok () s'" by (rule s')
    fix m assume m: "\<not> in_area st m"
    show "memdisk (fsd s') m = D' m" using cw m ws(2) by (simp add: quiet_disk_def)
  next
    fix k E b assume a: "crashes w dsz (apply_writes (take k (drop (length (dwrites ?d)) (dwrites (fsd s')))) D) E \<and> booted w dsz E b"
    show "\<exists>b'. initlog (cpu_of w) 1 b = Ok () b' \<and>
        ((\<forall>m. \<not> in_area st m \<longrightarrow> memdisk (fsd b') m = D m) \<or> (\<forall>m. \<not> in_area st m \<longrightarrow> memdisk (fsd b') m = D' m))"
    proof -
      have "recoverable st N (lh_block ?d) ?V D (apply_writes (take k ?cw) D)"
        using cp(1)[of k] unfolding recoverable_def .
      then have r: "recoverable st N (lh_block ?d) ?V D E"
        using crashes_recoverable[where D = D, OF _ g sb] a unfolding ws(1) by blast
      obtain b' where b': "initlog (cpu_of w) 1 b = Ok () b'" "memdisk (fsd b') = apply_writes (rec_writes st E) E"
        using initlog_booted[OF _ recoverable_ok[where D = D, OF g sb r]] a by blast
      have "quiet_disk st D (apply_writes (rec_writes st E) E) \<or> quiet_disk st D' (apply_writes (rec_writes st E) E)"
        using r quiet_rec[of st _ E "length (rec_writes st E)"] pending_rec(2)[OF g, of ?V D E] unfolding recoverable_def u by auto
      then show ?thesis using b' by (auto simp: quiet_disk_def)
    qed
  qed
qed

text \<open>A transaction that has written block 50 of the example disk.\<close>

definition demo_log :: logstate where
  "demo_log = disk.extend (demo_disk\<lparr>memdisk := (\<lambda>_ _. 0)(1 := store32 (\<lambda>_. 0) 16 2)\<rparr>)
     \<lparr>log_start = 2, log_size = 30, outstanding = 1, committing = False, log_dev = 1, lh_n = 1, lh_block = (\<lambda>_. 50)\<rparr>"

definition demo_txn :: logstate where
  "demo_txn = upd_buf 0 (\<lambda>x. x\<lparr>b_valid := True, b_dirty := True, b_dev := 1, b_blockno := 50, b_data := (\<lambda>_. 7)\<rparr>)
     (fsd (binit (demo_sys demo_log)))"

lemma demo_txn_facts:
  "last_op demo_task 1 demo_txn" "log_start demo_txn = 2" "lh_block demo_txn = (\<lambda>_. 50)" "disksize demo_txn = 1000"
proof -
  let ?d = "fsd (binit (demo_sys demo_log))"
  have z: "zero_bufs (fsd (demo_sys demo_log))" by (simp add: zero_bufs_def demo_log_def demo_disk_def disk.defs)
  note b = binit_cache(1)[OF z refl, where n = 1, simplified] binit_cache(2,3)[OF z refl, simplified]
  have inv: "bio_inv 1 {} ?d" and no: "\<And>i. i < NBUF \<Longrightarrow> \<not> b_valid (bufs ?d i)"
  proof -
    show inv: "bio_inv 1 {} ?d" using b(1) by (simp add: cache_def)
    have r: "b_valid (bufs ?d i) = b_valid (bufs demo_log i)" if "i < NBUF" for i
    proof -
      let ?s = "upd_fsd (upd_buf NBUF (\<lambda>x. x\<lparr>b_prev := NBUF, b_next := NBUF\<rparr>)) (initlock bcache_lock ''bcache'' (demo_sys demo_log))"
      have "nexts (fsd ?s) NBUF = NBUF" "prevs (fsd ?s) NBUF = NBUF" by (simp_all add: nexts_def prevs_def)
      from binit_bufs[OF this order_refl] show ?thesis using that by (simp add: binit_def Let_def)
    qed
    show "\<not> b_valid (bufs ?d i)" if "i < NBUF" for i using r[OF that] by (simp add: demo_log_def demo_disk_def disk.defs)
  qed
  have D: "memdisk demo_txn = memdisk demo_log" "disksize demo_txn = 1000" "log_start demo_txn = 2"
    "lh_n demo_txn = 1" "lh_block demo_txn = (\<lambda>_. 50)" "outstanding demo_txn = 1" "\<not> committing demo_txn" "log_dev demo_txn = 1"
  proof -
    have l: "log_start e = log_start f \<and> lh_n e = lh_n f \<and> lh_block e = lh_block f \<and> outstanding e = outstanding f \<and>
        committing e = committing f \<and> log_dev e = log_dev f" if "disk.more e = disk.more f" for e f :: logstate
      using that by (cases e; cases f) simp
    have m: "disk.more demo_txn = disk.more demo_log" using b(3) by (simp add: demo_txn_def)
    show "log_start demo_txn = 2" "lh_n demo_txn = 1" "lh_block demo_txn = (\<lambda>_. 50)" "outstanding demo_txn = 1"
      "\<not> committing demo_txn" "log_dev demo_txn = 1"
      using l[OF m] by (simp_all add: demo_log_def disk.defs)
    show "memdisk demo_txn = memdisk demo_log" "disksize demo_txn = 1000"
      using b(1,2) by (simp_all add: demo_txn_def cache_def demo_log_def demo_disk_def disk.defs)
  qed
  have h: "holds_block demo_txn m i \<longleftrightarrow> i = 0 \<and> m = 50" if "i < NBUF" for i m
    using no[OF that] by (auto simp: holds_block_def demo_txn_def)
  have inv': "bio_inv 1 {} demo_txn"
  proof -
    have "lru demo_txn xs = lru ?d xs" for xs by (rule lru_cong) (auto intro!: list_fields_same simp: demo_txn_def)
    moreover have "buf_ok 1 {} demo_txn i" if "i < NBUF" for i
      using bio_invD(1)[OF inv that] D(2) b(2) no[of 0] by (auto simp: buf_ok_def demo_txn_def)
    ultimately show ?thesis using inv h by (auto simp: bio_inv_def)
  qed
  have "dirty_blocks demo_txn \<subseteq> {50}" using h by (auto simp: dirty_blocks_def)
  then have "txn demo_task 1 (view demo_txn) (memdisk demo_txn) (dwrites demo_txn) demo_txn"
    using inv' D by (auto simp: txn_def cache_def log_area_def homes_def in_log_def)
  moreover have "sb_logstart (sb_of (memdisk demo_txn 1)) = 2" "head_n (memdisk demo_txn 2) = 0"
    unfolding D(1) by (simp add: demo_log_def disk.defs sb_of_def, simp add: demo_log_def disk.defs head_n_def load32_def)
  ultimately show "last_op demo_task 1 demo_txn" using D by (simp add: last_op_def in_log_def)
  show "log_start demo_txn = 2" "lh_block demo_txn = (\<lambda>_. 50)" "disksize demo_txn = 1000" by (rule D)+
qed

theorem commit_crash_safe_witness:
  "last_op demo_task 1 demo_txn \<and>
   (\<exists>s'. end_op 0 (demo_sys demo_txn) = Ok () s' \<and>
     (\<forall>m. \<not> in_area 2 m \<longrightarrow> memdisk (fsd s') m = updated 1 (\<lambda>_. 50) (view demo_txn) (memdisk demo_txn) m) \<and>
     (\<forall>k E b. crashes demo_task 1000 (apply_writes (take k (drop (length (dwrites demo_txn)) (dwrites (fsd s')))) (memdisk demo_txn)) E \<and>
         booted demo_task 1000 E b \<longrightarrow>
       (\<exists>b'. initlog 0 1 b = Ok () b' \<and>
         ((\<forall>m. \<not> in_area 2 m \<longrightarrow> memdisk (fsd b') m = memdisk demo_txn m) \<or>
          (\<forall>m. \<not> in_area 2 m \<longrightarrow> memdisk (fsd b') m = updated 1 (\<lambda>_. 50) (view demo_txn) (memdisk demo_txn) m)))))"
  using commit_crash_safe[OF quiet_demo, of 1 demo_txn] demo_txn_facts
  unfolding demo_task_def[THEN arg_cong[where f = cpu_of], unfolded cpu_of_def prod.case] by simp

end
