(* ===== verification/Pipe.thy ===== *)
theory Pipe
  imports Log
begin

text \<open>
  \<open>pipe.c\<close>: \<open>pipeclose\<close>, \<open>pipewrite\<close> and \<open>piperead\<close> (\<open>pipealloc\<close> is in theory \<open>File\<close>, with the file
  table). A pipe lives in a page of \<open>kalloc\<close>; its fields are kept in a table indexed by the address of
  that page. The buffer of \<open>pipewrite\<close> is the function \<open>addr\<close> from indices to bytes; \<open>piperead\<close> returns
  the bytes it stores. Counters are 32-bit words that wrap around.
\<close>

abbreviation (input) PIPESIZE :: uint where "PIPESIZE \<equiv> 512"

record pipe =
  p_data :: "uint \<Rightarrow> uchar"
  nread :: uint
  nwrite :: uint
  readopen :: bool
  writeopen :: bool

record pipestate = logstate +
  pipes :: "uint \<Rightarrow> pipe"

subsection \<open>The code\<close>

definition upd_pipe :: "uint \<Rightarrow> (pipe \<Rightarrow> pipe) \<Rightarrow> 'x pipestate_scheme \<Rightarrow> 'x pipestate_scheme" where
  "upd_pipe p f d = d\<lparr>pipes := (pipes d)(p := f (pipes d p))\<rparr>"

definition pipeclose :: "nat \<Rightarrow> uint \<Rightarrow> bool \<Rightarrow> ('x pipestate_scheme, 'a) sys_scheme \<Rightarrow> (unit, ('x pipestate_scheme, 'a) sys_scheme) res" where
  "pipeclose c p writable s =
     bnd (acquire c (pipe_lock p) s) (\<lambda>_ s.
     bnd (if writable then wakeup c (ChPipeRead p) (upd_fsd (upd_pipe p (\<lambda>x. x\<lparr>writeopen := False\<rparr>)) s)
          else wakeup c (ChPipeWrite p) (upd_fsd (upd_pipe p (\<lambda>x. x\<lparr>readopen := False\<rparr>)) s)) (\<lambda>_ s.
     if \<not> readopen (pipes (fsd s) p) \<and> \<not> writeopen (pipes (fsd s) p)
     then bnd (release c (pipe_lock p) s) (\<lambda>_. kfree c p)
     else release c (pipe_lock p) s))"

text \<open>The test \<open>myproc()->killed || mythread()->killed\<close>.\<close>

definition self_killed :: "nat \<Rightarrow> 'a kernel_scheme \<Rightarrow> (bool, 'a kernel_scheme) res" where
  "self_killed c s =
     bnd (myproc c s) (\<lambda>p s. deref p (\<lambda>p s.
     if p_killed (procs s p) then Ok True s
     else bnd (mythread c s) (\<lambda>qt s. deref qt (\<lambda>(q, t) s. Ok (t_killed (thr s q t)) s) s)) s)"

text \<open>
  The turns of the loop of \<open>pipewrite\<close> from index \<open>i\<close> up to the one that finds the pipe full, or to the
  end: the index reached, and the pipe.
\<close>

function pipe_fill :: "(nat \<Rightarrow> uchar) \<Rightarrow> int \<Rightarrow> nat \<Rightarrow> pipe \<Rightarrow> nat \<times> pipe" where
  "pipe_fill addr n i x =
     (if int i < n \<and> nwrite x \<noteq> nread x + PIPESIZE
      then pipe_fill addr n (Suc i) (x\<lparr>p_data := (p_data x)(nwrite x mod PIPESIZE := addr i), nwrite := nwrite x + 1\<rparr>)
      else (i, x))"
  by auto
termination by (relation "measure (\<lambda>(addr, n, i, x). nat (n - int i))") auto

text \<open>A thread that finds the pipe full sleeps, and goes on with \<open>pipewrite_resume\<close> from its index.\<close>

definition pipewrite_loop :: "nat \<Rightarrow> uint \<Rightarrow> (nat \<Rightarrow> uchar) \<Rightarrow> int \<Rightarrow> nat \<Rightarrow> ('x pipestate_scheme, 'a) sys_scheme \<Rightarrow>
    (int, ('x pipestate_scheme, 'a) sys_scheme) res" where
  "pipewrite_loop c p addr n i s =
     (case pipe_fill addr n i (pipes (fsd s) p) of (i, x) \<Rightarrow>
      let s = upd_fsd (upd_pipe p (\<lambda>_. x)) s in
      if int i < n then
        bnd (if \<not> readopen x then Ok True s else self_killed c s) (\<lambda>k s.
        if k then bnd (release c (pipe_lock p) s) (\<lambda>_. Ok (- 1))
        else bnd (wakeup c (ChPipeRead p) s) (\<lambda>_ s.
             bnd (sleep c (ChPipeWrite p) (Some (pipe_lock p)) s) (\<lambda>_. Ok 0)))
      else bnd (wakeup c (ChPipeRead p) s) (\<lambda>_ s. bnd (release c (pipe_lock p) s) (\<lambda>_. Ok n)))"

definition pipewrite :: "nat \<Rightarrow> uint \<Rightarrow> (nat \<Rightarrow> uchar) \<Rightarrow> int \<Rightarrow> ('x pipestate_scheme, 'a) sys_scheme \<Rightarrow>
    (int, ('x pipestate_scheme, 'a) sys_scheme) res" where
  "pipewrite c p addr n s = bnd (acquire c (pipe_lock p) s) (\<lambda>_. pipewrite_loop c p addr n 0)"

definition pipewrite_resume :: "nat \<Rightarrow> nat \<times> nat \<Rightarrow> uint \<Rightarrow> (nat \<Rightarrow> uchar) \<Rightarrow> int \<Rightarrow> nat \<Rightarrow> ('x pipestate_scheme, 'a) sys_scheme \<Rightarrow>
    (int, ('x pipestate_scheme, 'a) sys_scheme) res" where
  "pipewrite_resume c qt p addr n i s = bnd (sleep_resume c qt (pipe_lock p) s) (\<lambda>_. pipewrite_loop c p addr n i)"

function pipe_drain :: "int \<Rightarrow> nat \<Rightarrow> pipe \<Rightarrow> uchar list \<times> pipe" where
  "pipe_drain n i x =
     (if int i < n \<and> nread x \<noteq> nwrite x
      then (case pipe_drain n (Suc i) (x\<lparr>nread := nread x + 1\<rparr>) of (bs, y) \<Rightarrow> (p_data x (nread x mod PIPESIZE) # bs, y))
      else ([], x))"
  by auto
termination by (relation "measure (\<lambda>(n, i, x). nat (n - int i))") auto

definition piperead_loop :: "nat \<Rightarrow> uint \<Rightarrow> int \<Rightarrow> ('x pipestate_scheme, 'a) sys_scheme \<Rightarrow>
    (int \<times> uchar list, ('x pipestate_scheme, 'a) sys_scheme) res" where
  "piperead_loop c p n s =
     (let x = pipes (fsd s) p in
      if nread x = nwrite x \<and> writeopen x then
        bnd (self_killed c s) (\<lambda>k s.
        if k then bnd (release c (pipe_lock p) s) (\<lambda>_. Ok (- 1, []))
        else bnd (sleep c (ChPipeRead p) (Some (pipe_lock p)) s) (\<lambda>_. Ok (0, [])))
      else (case pipe_drain n 0 x of (bs, y) \<Rightarrow>
        bnd (wakeup c (ChPipeWrite p) (upd_fsd (upd_pipe p (\<lambda>_. y)) s)) (\<lambda>_ s.
        bnd (release c (pipe_lock p) s) (\<lambda>_. Ok (int (length bs), bs)))))"

definition piperead :: "nat \<Rightarrow> uint \<Rightarrow> int \<Rightarrow> ('x pipestate_scheme, 'a) sys_scheme \<Rightarrow>
    (int \<times> uchar list, ('x pipestate_scheme, 'a) sys_scheme) res" where
  "piperead c p n s = bnd (acquire c (pipe_lock p) s) (\<lambda>_. piperead_loop c p n)"

definition piperead_resume :: "nat \<Rightarrow> nat \<times> nat \<Rightarrow> uint \<Rightarrow> int \<Rightarrow> ('x pipestate_scheme, 'a) sys_scheme \<Rightarrow>
    (int \<times> uchar list, ('x pipestate_scheme, 'a) sys_scheme) res" where
  "piperead_resume c qt p n s = bnd (sleep_resume c qt (pipe_lock p) s) (\<lambda>_. piperead_loop c p n)"

declare pipe_fill.simps [simp del] pipe_drain.simps [simp del]

subsection \<open>The buffer as a queue\<close>

definition pq :: "pipe \<Rightarrow> uchar list" where
  "pq x = map (\<lambda>k. p_data x ((nread x + of_nat k) mod PIPESIZE)) [0..<unat (nwrite x - nread x)]"

definition pipe_ok :: "pipe \<Rightarrow> bool" where
  "pipe_ok x \<longleftrightarrow> nwrite x - nread x \<le> PIPESIZE"

lemma length_pq [simp]: "length (pq x) = unat (nwrite x - nread x)"
  by (simp add: pq_def)

lemma mod_slot: "unat ((a + of_nat k :: uint) mod PIPESIZE) = (unat a + k) mod 512"
proof -
  have "unat (a + of_nat k) mod 512 = (unat a + k) mod 4294967296 mod 512"
    by (simp add: unat_word_ariths unat_of_nat mod_simps)
  also have "\<dots> = (unat a + k) mod 512" by (rule mod_mod_cancel) simp
  finally show ?thesis by (simp add: unat_mod_distrib)
qed

lemma pipe_slot_inj:
  assumes "j < 512" "k < 512" "(a + of_nat j :: uint) mod PIPESIZE = (a + of_nat k) mod PIPESIZE"
  shows "j = k"
proof -
  have "(unat a + j) mod 512 = (unat a + k) mod 512" using mod_slot[of a j] mod_slot[of a k] assms(3) by simp
  moreover have "j' = k'" if "(u + j') mod 512 = (u + k') mod 512" "j' \<le> k'" "k' < 512" for u j' k' :: nat
  proof -
    have "512 dvd (u + k') - (u + j')" using mod_eq_dvd_iff_nat[of "u + j'" "u + k'" 512] that by simp
    then show ?thesis using that nat_dvd_not_less[of "k' - j'" 512] by force
  qed
  ultimately show ?thesis using assms by (metis nat_le_linear)
qed

lemma pq_push:
  fixes x b defines "y \<equiv> x\<lparr>p_data := (p_data x)(nwrite x mod PIPESIZE := b), nwrite := nwrite x + 1\<rparr>"
  assumes ok: "pipe_ok x" and room: "nwrite x \<noteq> nread x + PIPESIZE"
  shows "pq y = pq x @ [b]" "pipe_ok y"
proof -
  define L where "L = unat (nwrite x - nread x)"
  have ne: "nwrite x - nread x \<noteq> PIPESIZE" using room by (auto simp: algebra_simps)
  then have "nwrite x - nread x < PIPESIZE" using ok by (auto simp: pipe_ok_def order_le_less)
  then have L: "L < 512" by (simp add: L_def word_less_nat_alt)
  have w: "nwrite x = nread x + of_nat L" by (simp add: L_def)
  have e: "nwrite y - nread y = of_nat (Suc L)" by (simp add: y_def w)
  have u: "unat (nwrite y - nread y) = Suc L" unfolding e using L by (simp add: unat_of_nat del: of_nat_Suc)
  then show "pipe_ok y" using L by (simp add: pipe_ok_def word_le_nat_alt)
  have "p_data y ((nread y + of_nat k) mod PIPESIZE) = p_data x ((nread x + of_nat k) mod PIPESIZE)" if "k < L" for k
    using pipe_slot_inj[of k L "nread x"] that L by (auto simp: y_def w)
  moreover have "p_data y ((nread y + of_nat L) mod PIPESIZE) = b" by (simp add: y_def w)
  ultimately show "pq y = pq x @ [b]" unfolding pq_def u L_def[symmetric] by simp
qed

lemma pq_pop:
  assumes ok: "pipe_ok x" and ne: "nread x \<noteq> nwrite x"
  shows "pq x = p_data x (nread x mod PIPESIZE) # pq (x\<lparr>nread := nread x + 1\<rparr>)" "pipe_ok (x\<lparr>nread := nread x + 1\<rparr>)"
proof -
  let ?y = "x\<lparr>nread := nread x + 1\<rparr>"
  obtain L where L: "unat (nwrite x - nread x) = Suc L" using ne by (cases "unat (nwrite x - nread x)") (auto simp: unat_eq_0)
  have "nwrite x - nread x = of_nat (Suc L)" unfolding L[symmetric] by simp
  then have e: "nwrite ?y - nread ?y = of_nat L" by (simp add: algebra_simps)
  have "Suc L \<le> 512" using ok L by (simp add: pipe_ok_def word_le_nat_alt)
  then have u: "unat (nwrite ?y - nread ?y) = L" unfolding e by (simp add: unat_of_nat)
  then show "pipe_ok ?y" using \<open>Suc L \<le> 512\<close> by (simp add: pipe_ok_def word_le_nat_alt)
  have "[0..<Suc L] = 0 # map Suc [0..<L]" by (simp add: upt_conv_Cons map_Suc_upt)
  then show "pq x = p_data x (nread x mod PIPESIZE) # pq ?y"
    unfolding pq_def u L by (simp add: algebra_simps)
qed

lemma pipe_fill_pq:
  assumes "pipe_fill addr n i x = (i', x')" "pipe_ok x"
  shows "pipe_ok x'" "i \<le> i'" "pq x' = pq x @ map addr [i..<i']" "int i' < n \<Longrightarrow> nwrite x' = nread x' + PIPESIZE"
    "int i' \<le> max n (int i)" "readopen x' = readopen x" "writeopen x' = writeopen x"
proof -
  have "pipe_ok x' \<and> i \<le> i' \<and> pq x' = pq x @ map addr [i..<i'] \<and> (int i' < n \<longrightarrow> nwrite x' = nread x' + PIPESIZE) \<and>
    int i' \<le> max n (int i) \<and> readopen x' = readopen x \<and> writeopen x' = writeopen x"
    using assms
  proof (induction addr n i x rule: pipe_fill.induct)
    case (1 addr n i x)
    show ?case
    proof (cases "int i < n \<and> nwrite x \<noteq> nread x + PIPESIZE")
      case True
      note IH = 1(1)[OF True] and push = pq_push[OF 1(3), of "addr i"]
      show ?thesis using IH push True 1(2) by (auto simp: pipe_fill.simps[of addr n i x] upt_conv_Cons)
    qed (use 1(2,3) in \<open>auto simp: pipe_fill.simps[of addr n i x]\<close>)
  qed
  then show "pipe_ok x'" "i \<le> i'" "pq x' = pq x @ map addr [i..<i']" "int i' < n \<Longrightarrow> nwrite x' = nread x' + PIPESIZE"
    "int i' \<le> max n (int i)" "readopen x' = readopen x" "writeopen x' = writeopen x" by auto
qed

lemma pipe_drain_pq:
  assumes "pipe_drain n i x = (bs, y)" "pipe_ok x"
  shows "pipe_ok y" "pq x = bs @ pq y" "length bs = min (nat (n - int i)) (length (pq x))"
    "readopen y = readopen x" "writeopen y = writeopen x"
proof -
  have "pipe_ok y \<and> pq x = bs @ pq y \<and> length bs = min (nat (n - int i)) (length (pq x)) \<and>
    readopen y = readopen x \<and> writeopen y = writeopen x"
    using assms
  proof (induction n i x arbitrary: bs rule: pipe_drain.induct)
    case (1 n i x)
    show ?case
    proof (cases "int i < n \<and> nread x \<noteq> nwrite x")
      case True
      then have ne: "nread x \<noteq> nwrite x" by simp
      define z where "z = x\<lparr>nread := nread x + 1\<rparr>"
      note pop = pq_pop[OF 1(3) ne, folded z_def]
      obtain bs' where b: "pipe_drain n (Suc i) z = (bs', y)" "bs = p_data x (nread x mod PIPESIZE) # bs'"
        using 1(2) True by (auto simp: z_def pipe_drain.simps[of n i x] split: prod.splits)
      have IH: "pipe_ok y \<and> pq z = bs' @ pq y \<and> length bs' = min (nat (n - int (Suc i))) (length (pq z)) \<and>
        readopen y = readopen z \<and> writeopen y = writeopen z"
        by (rule 1(1)[OF True, folded z_def, OF b(1) pop(2)])
      have "nat (n - int i) = Suc (nat (n - int (Suc i)))" using True by linarith
      moreover have "length (pq x) = Suc (length (pq z))" unfolding pop(1) by (simp only: list.size add_Suc_right add_0_right)
      moreover have "length bs = Suc (length bs')" unfolding b(2) by simp
      ultimately have "length bs = min (nat (n - int i)) (length (pq x))" using IH by (simp only: min_Suc_Suc)
      moreover have "pq x = bs @ pq y" unfolding pop(1) b(2) using IH by simp
      moreover have "readopen z = readopen x" "writeopen z = writeopen x" by (simp_all add: z_def)
      ultimately show ?thesis using IH by blast
    next
      case False
      then have "length (pq x) = 0 \<or> nat (n - int i) = 0" by auto
      then show ?thesis using False 1(2,3) by (auto simp: pipe_drain.simps[of n i x] simp del: length_pq)
    qed
  qed
  then show "pipe_ok y" "pq x = bs @ pq y" "length bs = min (nat (n - int i)) (length (pq x))"
    "readopen y = readopen x" "writeopen y = writeopen x" by blast+
qed

subsection \<open>The calls\<close>

lemma upd_pipe_simps [simp]: "pipes (upd_pipe p f d) = (pipes d)(p := f (pipes d p))"
  by (simp add: upd_pipe_def)

text \<open>The thread that holds the lock of the pipe, and the thread the scheduler has just resumed from its sleep.\<close>

definition pipe_sect :: "task \<Rightarrow> uint \<Rightarrow> ('d, 'a) sys_scheme \<Rightarrow> bool" where
  "pipe_sect w p s \<longleftrightarrow> (case w of (c, q, t, P) \<Rightarrow> cpu_ok c s \<and> ncli (cpus s c) = 1 \<and> lock_held c (pipe_lock p) s \<and>
     (\<forall>lk. lk \<noteq> pipe_lock p \<longrightarrow> lock_free lk s) \<and> cpu_proc (cpus s c) = Some q \<and> cpu_thread (cpus s c) = Some (q, t))"

definition resumed :: "task \<Rightarrow> ('d, 'a) sys_scheme \<Rightarrow> bool" where
  "resumed w s \<longleftrightarrow> (case w of (c, q, t, P) \<Rightarrow> cpu_ok c s \<and> ncli (cpus s c) = 1 \<and> lock_held c ptable_lock s \<and>
     (\<forall>lk. lk \<noteq> ptable_lock \<longrightarrow> lock_free lk s) \<and> cpu_proc (cpus s c) = Some q \<and> cpu_thread (cpus s c) = Some (q, t))"

definition thread_of :: "task \<Rightarrow> nat \<times> nat" where
  "thread_of w = (fst (snd w), fst (snd (snd w)))"

definition killed_of :: "task \<Rightarrow> 'a kernel_scheme \<Rightarrow> bool" where
  "killed_of w s \<longleftrightarrow> p_killed (procs s (fst (thread_of w))) \<or> t_killed (thr s (fst (thread_of w)) (snd (thread_of w)))"

lemma enter_pipe:
  assumes "quiet w s"
  obtains s1 where "acquire (cpu_of w) (pipe_lock p) s = Ok () s1" "pipe_sect w p s1" "fsd s1 = fsd s" "killed_of w s1 = killed_of w s"
proof
  show "acquire (cpu_of w) (pipe_lock p) s = Ok () (lock_st (cpu_of w) (pipe_lock p) s)"
    using quietD[OF assms] by (simp add: acquire_free)
  show "pipe_sect w p (lock_st (cpu_of w) (pipe_lock p) s)"
    using assms by (auto simp: pipe_sect_def quiet_def running_def cpu_of_def lock_st_ncli split: prod.splits)
qed (simp_all add: killed_of_def)

lemma resume_pipe:
  assumes "resumed w s"
  obtains s1 where "sleep_resume (cpu_of w) (thread_of w) (pipe_lock p) s = Ok () s1" "pipe_sect w p s1" "fsd s1 = fsd s"
    "killed_of w s1 = killed_of w s"
proof -
  obtain c q t P where w: "w = (c, q, t, P)" by (cases w) auto
  let ?s = "upd_cpu c (\<lambda>x. x\<lparr>intena := stk_intena (thr s q t)\<rparr>) s"
  let ?s1 = "upd_thread q t (\<lambda>x. x\<lparr>chan := None\<rparr>) (lock_st c (pipe_lock p) (unlock_st c ptable_lock ?s))"
  have r: "cpu_ok c s" "ncli (cpus s c) = 1" "lock_held c ptable_lock s" "lock_free (pipe_lock p) s"
    using assms by (auto simp: resumed_def w)
  have "sleep_resume c (q, t) (pipe_lock p) s = Ok () ?s1"
    by (rule sleep_resume_eq[OF r(1-3) _ r(4)]) simp
  moreover have "pipe_sect w p ?s1"
  proof -
    have "cpu_ok c ?s" "ncli (cpus ?s c) = 1" "\<forall>lk. lk \<noteq> ptable_lock \<longrightarrow> lock_free lk ?s" "cpu_proc (cpus ?s c) = Some q"
      "cpu_thread (cpus ?s c) = Some (q, t)"
      using assms by (auto simp: resumed_def w cpu_ok_def upd_cpu_def lock_free_def)
    then have "cpu_ok c (unlock_st c ptable_lock ?s)" "ncli (cpus (unlock_st c ptable_lock ?s) c) = 0"
      "\<forall>lk. lock_free lk (unlock_st c ptable_lock ?s)" "cpu_proc (cpus (unlock_st c ptable_lock ?s) c) = Some q"
      "cpu_thread (cpus (unlock_st c ptable_lock ?s) c) = Some (q, t)"
      by (auto simp: unlock_st_ncli) (metis unlock_st_free unlock_st_free_other)
    then show ?thesis by (auto simp: pipe_sect_def w lock_st_ncli)
  qed
  moreover have "fsd ?s1 = fsd s" "killed_of w ?s1 = killed_of w s"
    by (auto simp: upd_cpu_def killed_of_def thread_of_def w thr_def upd_thread_def upd_proc_def)
  ultimately show ?thesis using that by (simp add: w cpu_of_def thread_of_def)
qed

lemma self_killed_sect:
  assumes "pipe_sect w p s"
  shows "self_killed (cpu_of w) s = Ok (killed_of w s) s"
  using assms
  by (auto simp: pipe_sect_def self_killed_def myproc_eq mythread_eq cli_pass_id deref_def cpu_of_def killed_of_def thread_of_def
      split: prod.splits)

lemma pipe_sect_wakeup1 [simp]: "pipe_sect w p (wakeup1 ch s) = pipe_sect w p s"
  by (auto simp: pipe_sect_def split: prod.splits)

lemma pipe_sect_upd_fsd [simp]: "pipe_sect w p (upd_fsd f s) = pipe_sect w p s"
  by (auto simp: pipe_sect_def split: prod.splits)

lemma killed_of_upd_fsd [simp]: "killed_of w (upd_fsd f s) = killed_of w s"
  by (auto simp: killed_of_def)

lemma wakeup_sect:
  assumes "pipe_sect w p s"
  obtains s1 where "wakeup (cpu_of w) ch s = Ok () s1" "pipe_sect w p s1" "fsd s1 = fsd s"
proof
  have r: "cpu_ok (cpu_of w) s" "lock_free ptable_lock s" using assms by (auto simp: pipe_sect_def cpu_of_def split: prod.splits)
  then show "wakeup (cpu_of w) ch s = Ok () (wakeup1 ch (sect (cpu_of w) ptable_lock s))" by (rule wakeup_eq)
  show "pipe_sect w p (wakeup1 ch (sect (cpu_of w) ptable_lock s))"
    using assms by (auto simp: pipe_sect_def cpu_of_def split: prod.splits)
qed simp

lemma release_sect:
  assumes "pipe_sect w p s"
  obtains s1 where "release (cpu_of w) (pipe_lock p) s = Ok () s1" "fsd s1 = fsd s"
proof
  show "release (cpu_of w) (pipe_lock p) s = Ok () (unlock_st (cpu_of w) (pipe_lock p) s)"
    by (rule release_held) (use assms in \<open>auto simp: pipe_sect_def cpu_of_def split: prod.splits\<close>)
qed simp

lemma sleep_sect:
  assumes "pipe_sect w p s"
  obtains s1 where "sleep (cpu_of w) ch (Some (pipe_lock p)) s = Switch s1" "fsd s1 = fsd s"
proof -
  obtain c q t P where w: "w = (c, q, t, P)" by (cases w) auto
  have r: "cpu_ok c s" "ncli (cpus s c) = 1" "lock_held c (pipe_lock p) s" "lock_free ptable_lock s"
    "cpu_proc (cpus s c) = Some q" "cpu_thread (cpus s c) = Some (q, t)"
    using assms by (auto simp: pipe_sect_def w)
  show ?thesis
    using that sleep_eq[OF r(1-3) disjI2[OF r(4)] r(5,6), of ch] by (simp add: w cpu_of_def Let_def sleep_upd_def)
qed

lemma pipewrite_loop_out:
  fixes s :: "('x pipestate_scheme, 'a) sys_scheme"
  assumes sec: "pipe_sect w p s" and f: "pipe_fill addr n i (pipes (fsd s) p) = (i', x)"
  obtains s' where "fsd s' = upd_pipe p (\<lambda>_. x) (fsd s)"
    "pipewrite_loop (cpu_of w) p addr n i s =
       (if int i' < n then if \<not> readopen x \<or> killed_of w s then Ok (- 1) s' else Switch s' else Ok n s')"
proof -
  let ?s = "upd_fsd (upd_pipe p (\<lambda>_. x)) s"
  have sec': "pipe_sect w p ?s" using sec by simp
  obtain s1 where s1: "wakeup (cpu_of w) (ChPipeRead p) ?s = Ok () s1" "pipe_sect w p s1" "fsd s1 = fsd ?s" by (rule wakeup_sect[OF sec'])
  obtain s2 where s2: "release (cpu_of w) (pipe_lock p) s1 = Ok () s2" "fsd s2 = fsd s1" by (rule release_sect[OF s1(2)])
  obtain s3 where s3: "sleep (cpu_of w) (ChPipeWrite p) (Some (pipe_lock p)) s1 = Switch s3" "fsd s3 = fsd s1" by (rule sleep_sect[OF s1(2)])
  obtain s4 where s4: "release (cpu_of w) (pipe_lock p) ?s = Ok () s4" "fsd s4 = fsd ?s" by (rule release_sect[OF sec'])
  note eqs = s1(1) s2(1) s3(1) s4(1) self_killed_sect[OF sec']
  show ?thesis
  proof (cases "int i' < n")
    case True
    then show ?thesis
      using that[of "if \<not> readopen x \<or> killed_of w s then s4 else s3"] eqs s1(3) s3(2) s4(2) by (auto simp: pipewrite_loop_def f Let_def)
  next
    case False
    then show ?thesis using that[of s2] eqs s1(3) s2(2) by (simp add: pipewrite_loop_def f Let_def)
  qed
qed

lemma piperead_loop_out:
  fixes s :: "('x pipestate_scheme, 'a) sys_scheme"
  assumes sec: "pipe_sect w p s" and f: "pipe_drain n 0 (pipes (fsd s) p) = (bs, y)"
  obtains s' where
    "piperead_loop (cpu_of w) p n s =
       (if nread (pipes (fsd s) p) = nwrite (pipes (fsd s) p) \<and> writeopen (pipes (fsd s) p)
        then if killed_of w s then Ok (- 1, []) s' else Switch s' else Ok (int (length bs), bs) s')"
    "fsd s' = (if nread (pipes (fsd s) p) = nwrite (pipes (fsd s) p) \<and> writeopen (pipes (fsd s) p) then fsd s else upd_pipe p (\<lambda>_. y) (fsd s))"
proof -
  let ?s = "upd_fsd (upd_pipe p (\<lambda>_. y)) s" and ?x = "pipes (fsd s) p"
  have sec': "pipe_sect w p ?s" using sec by simp
  obtain s1 where s1: "wakeup (cpu_of w) (ChPipeWrite p) ?s = Ok () s1" "pipe_sect w p s1" "fsd s1 = fsd ?s" by (rule wakeup_sect[OF sec'])
  obtain s2 where s2: "release (cpu_of w) (pipe_lock p) s1 = Ok () s2" "fsd s2 = fsd s1" by (rule release_sect[OF s1(2)])
  obtain s3 where s3: "sleep (cpu_of w) (ChPipeRead p) (Some (pipe_lock p)) s = Switch s3" "fsd s3 = fsd s" by (rule sleep_sect[OF sec])
  obtain s4 where s4: "release (cpu_of w) (pipe_lock p) s = Ok () s4" "fsd s4 = fsd s" by (rule release_sect[OF sec])
  note eqs = s1(1) s2(1) s3(1) s4(1) self_killed_sect[OF sec]
  show ?thesis
  proof (cases "nread ?x = nwrite ?x \<and> writeopen ?x")
    case True
    then show ?thesis using that[of "if killed_of w s then s4 else s3"] eqs s3(2) s4(2) by (auto simp: piperead_loop_def Let_def)
  next
    case False
    then show ?thesis using that[of s2] eqs s1(3) s2(2) by (auto simp: piperead_loop_def f Let_def)
  qed
qed

text \<open>
  What can happen to a pipe: calls of \<open>pipewrite\<close>, \<open>piperead\<close> and \<open>pipeclose\<close> by any threads, threads that go
  on after a sleep, and anything that leaves the pipe alone. The two lists are the bytes that writers
  have put in, each from the index its loop has reached, and the bytes that readers have been given.
\<close>

fun after :: "('r, 's) res \<Rightarrow> 's option" where
  "after (Ok r s) = Some s"
| "after (Switch s) = Some s"
| "after _ = None"

fun given :: "('i \<times> 'b list, 's) res \<Rightarrow> 'b list" where
  "given (Ok (r, bs) s) = bs"
| "given _ = []"

inductive pipe_trace :: "uint \<Rightarrow> pipestate sys \<Rightarrow> uchar list \<Rightarrow> uchar list \<Rightarrow> bool" for p where
  pt_start: "nread (pipes (fsd s) p) = nwrite (pipes (fsd s) p) \<Longrightarrow> pipe_trace p s [] []"
| pt_other: "pipe_trace p s ins outs \<Longrightarrow> pipes (fsd s') p = pipes (fsd s) p \<Longrightarrow> pipe_trace p s' ins outs"
| pt_write: "pipe_trace p s ins outs \<Longrightarrow> quiet w s \<Longrightarrow> after (pipewrite (cpu_of w) p addr n s) = Some s' \<Longrightarrow>
    pipe_trace p s' (ins @ map addr [0..<fst (pipe_fill addr n 0 (pipes (fsd s) p))]) outs"
| pt_write_on: "pipe_trace p s ins outs \<Longrightarrow> resumed w s \<Longrightarrow> after (pipewrite_resume (cpu_of w) (thread_of w) p addr n i s) = Some s' \<Longrightarrow>
    pipe_trace p s' (ins @ map addr [i..<fst (pipe_fill addr n i (pipes (fsd s) p))]) outs"
| pt_read: "pipe_trace p s ins outs \<Longrightarrow> quiet w s \<Longrightarrow> after (piperead (cpu_of w) p n s) = Some s' \<Longrightarrow>
    pipe_trace p s' ins (outs @ given (piperead (cpu_of w) p n s))"
| pt_read_on: "pipe_trace p s ins outs \<Longrightarrow> resumed w s \<Longrightarrow> after (piperead_resume (cpu_of w) (thread_of w) p n s) = Some s' \<Longrightarrow>
    pipe_trace p s' ins (outs @ given (piperead_resume (cpu_of w) (thread_of w) p n s))"
| pt_close: "pipe_trace p s ins outs \<Longrightarrow> quiet w s \<Longrightarrow> pipeclose (cpu_of w) p b s = Ok () s' \<Longrightarrow> pipe_trace p s' ins outs"

definition fifo :: "uint \<Rightarrow> pipestate sys \<Rightarrow> uchar list \<Rightarrow> uchar list \<Rightarrow> bool" where
  "fifo p s ins outs \<longleftrightarrow> pipe_ok (pipes (fsd s) p) \<and> ins = outs @ pq (pipes (fsd s) p)"

lemma fifo_write:
  assumes "fifo p s ins outs" and sec: "pipe_sect w p s1" "fsd s1 = fsd s"
    and r: "after (pipewrite_loop (cpu_of w) p addr n i s1) = Some s'"
  shows "fifo p s' (ins @ map addr [i..<fst (pipe_fill addr n i (pipes (fsd s) p))]) outs"
proof -
  obtain i' x where f: "pipe_fill addr n i (pipes (fsd s1) p) = (i', x)" by (cases "pipe_fill addr n i (pipes (fsd s1) p)")
  obtain s2 where s2: "fsd s2 = upd_pipe p (\<lambda>_. x) (fsd s1)" "pipewrite_loop (cpu_of w) p addr n i s1 =
       (if int i' < n then if \<not> readopen x \<or> killed_of w s1 then Ok (- 1) s2 else Switch s2 else Ok n s2)"
    by (rule pipewrite_loop_out[OF sec(1) f])
  have "s' = s2" using r s2(2) by (auto split: if_splits)
  moreover have "pipe_ok (pipes (fsd s1) p)" using assms by (simp add: fifo_def)
  ultimately show ?thesis using assms(1) f pipe_fill_pq[OF f] s2(1) sec(2) by (simp add: fifo_def)
qed

lemma fifo_read:
  assumes "fifo p s ins outs" and sec: "pipe_sect w p s1" "fsd s1 = fsd s"
    and r: "after (piperead_loop (cpu_of w) p n s1) = Some s'"
  shows "fifo p s' ins (outs @ given (piperead_loop (cpu_of w) p n s1))"
proof -
  obtain bs y where f: "pipe_drain n 0 (pipes (fsd s1) p) = (bs, y)" by (cases "pipe_drain n 0 (pipes (fsd s1) p)")
  have "pipe_ok (pipes (fsd s1) p)" using assms by (simp add: fifo_def)
  note d = pipe_drain_pq[OF f this]
  show ?thesis using r assms(1) sec(2) d
    by (rule_tac piperead_loop_out[OF sec(1) f]) (auto simp: fifo_def split: if_splits)
qed

lemma fifo_close:
  assumes "fifo p s ins outs" and q: "quiet w s" and r: "pipeclose (cpu_of w) p b s = Ok () s'"
  shows "fifo p s' ins outs"
proof -
  let ?c = "cpu_of w" and ?f = "\<lambda>x. if b then x\<lparr>writeopen := False\<rparr> else x\<lparr>readopen := False\<rparr>"
  obtain s1 where s1: "acquire ?c (pipe_lock p) s = Ok () s1" "pipe_sect w p s1" "fsd s1 = fsd s" by (rule enter_pipe[OF q])
  let ?u = "upd_fsd (upd_pipe p ?f) s1" and ?ch = "if b then ChPipeRead p else ChPipeWrite p"
  have u: "pipe_sect w p ?u" using s1(2) by simp
  obtain s2 where s2: "wakeup ?c ?ch ?u = Ok () s2" "pipe_sect w p s2" "fsd s2 = fsd ?u" by (rule wakeup_sect[OF u])
  have ok: "cpu_ok ?c s2" "ncli (cpus s2 ?c) = 1" "lock_held ?c (pipe_lock p) s2" "lock_free kmem_lock s2"
    using s2(2) by (auto simp: pipe_sect_def cpu_of_def split: prod.splits)
  let ?s3 = "unlock_st ?c (pipe_lock p) s2"
  have rel: "release ?c (pipe_lock p) s2 = Ok () ?s3" by (rule release_held) (use ok in auto)
  have kr: "kmem_ready ?c ?s3" using ok by (auto simp: kmem_ready_def)
  have kf: "fsd s' = fsd ?s3" if k: "kfree ?c p ?s3 = Ok () s'"
  proof -
    have a: "page_aligned p" "kern_end ?s3 \<le> p" "V2P p < PHYSTOP"
      using k by (auto simp: kfree_def page_aligned_def not_less not_le split: if_splits)
    show ?thesis using k unfolding kfree_eq[OF kr a] by auto
  qed
  have "fsd s' = fsd ?u" using r s1(1) s2(1,3) rel kf by (cases b) (auto simp: pipeclose_def split: if_splits)
  then have "pipes (fsd s') p = ?f (pipes (fsd s) p)" using s1(3) by (simp add: fun_eq_iff)
  then show ?thesis using assms(1) by (cases b) (simp_all add: fifo_def pipe_ok_def pq_def)
qed

lemma pipe_trace_fifo:
  assumes "pipe_trace p s ins outs"
  shows "fifo p s ins outs"
  using assms
proof induction
  case (pt_start s)
  then show ?case by (simp add: fifo_def pipe_ok_def pq_def)
next
  case (pt_write s ins outs w addr n s')
  show ?case
    by (rule enter_pipe[OF pt_write(2), of p]) (use pt_write(3,4) in \<open>auto simp: pipewrite_def intro: fifo_write\<close>)
next
  case (pt_write_on s ins outs w addr n i s')
  show ?case
    by (rule resume_pipe[OF pt_write_on(2), of p]) (use pt_write_on(3,4) in \<open>auto simp: pipewrite_resume_def intro: fifo_write\<close>)
next
  case (pt_read s ins outs w n s')
  show ?case
    by (rule enter_pipe[OF pt_read(2), of p]) (use pt_read(3,4) in \<open>auto simp: piperead_def intro: fifo_read\<close>)
next
  case (pt_read_on s ins outs w n s')
  show ?case
    by (rule resume_pipe[OF pt_read_on(2), of p]) (use pt_read_on(3,4) in \<open>auto simp: piperead_resume_def intro: fifo_read\<close>)
next
  case (pt_close s ins outs w b s')
  then show ?case by (blast intro: fifo_close)
qed (simp add: fifo_def)

lemma pipewrite_room:
  fixes s :: "('x pipestate_scheme, 'a) sys_scheme"
  assumes q: "quiet w s" and ok: "pipe_ok (pipes (fsd s) p)" and room: "length (pq (pipes (fsd s) p)) + nat n \<le> 512" "0 \<le> n"
  obtains s' x where "pipewrite (cpu_of w) p addr n s = Ok n s'" "fsd s' = upd_pipe p (\<lambda>_. x) (fsd s)"
    "pq x = pq (pipes (fsd s) p) @ map addr [0..<nat n]" "pipe_ok x"
proof -
  obtain s1 where s1: "acquire (cpu_of w) (pipe_lock p) s = Ok () s1" "pipe_sect w p s1" "fsd s1 = fsd s" by (rule enter_pipe[OF q])
  obtain i x where f: "pipe_fill addr n 0 (pipes (fsd s1) p) = (i, x)" by (cases "pipe_fill addr n 0 (pipes (fsd s1) p)")
  have P: "pipe_ok x" "pq x = pq (pipes (fsd s) p) @ map addr [0..<i]" "int i < n \<Longrightarrow> nwrite x = nread x + PIPESIZE" "int i \<le> n"
    using pipe_fill_pq[OF f] ok s1(3) room(2) by auto
  have "\<not> int i < n"
  proof
    assume i: "int i < n"
    then have "length (pq x) = 512" using P(3) by simp
    moreover have "length (pq x) = length (pq (pipes (fsd s) p)) + i" unfolding P(2) by simp
    ultimately show False using room i by linarith
  qed
  moreover from this have "i = nat n" using P(4) by simp
  ultimately show ?thesis using that P(1,2) s1 by (rule_tac pipewrite_loop_out[OF s1(2) f]) (simp add: pipewrite_def)
qed

lemma piperead_some:
  fixes s :: "('x pipestate_scheme, 'a) sys_scheme"
  assumes q: "quiet w s" and ok: "pipe_ok (pipes (fsd s) p)" and ne: "pq (pipes (fsd s) p) \<noteq> []"
  obtains s' y where "piperead (cpu_of w) p n s = Ok (int (min (nat n) (length (pq (pipes (fsd s) p)))), take (nat n) (pq (pipes (fsd s) p))) s'"
    "fsd s' = upd_pipe p (\<lambda>_. y) (fsd s)" "pq y = drop (nat n) (pq (pipes (fsd s) p))"
proof -
  obtain s1 where s1: "acquire (cpu_of w) (pipe_lock p) s = Ok () s1" "pipe_sect w p s1" "fsd s1 = fsd s" by (rule enter_pipe[OF q])
  let ?x = "pipes (fsd s) p"
  obtain bs y where f: "pipe_drain n 0 (pipes (fsd s1) p) = (bs, y)" by (cases "pipe_drain n 0 (pipes (fsd s1) p)")
  have P: "pq ?x = bs @ pq y" "length bs = min (nat n) (length (pq ?x))" using pipe_drain_pq[OF f] ok s1(3) by auto
  have "nread ?x \<noteq> nwrite ?x" using ne by (auto simp: pq_def)
  moreover have "bs = take (length bs) (pq ?x)" "pq y = drop (length bs) (pq ?x)" using P(1) by simp_all
  then have "bs = take (nat n) (pq ?x)" "pq y = drop (nat n) (pq ?x)"
    unfolding P(2) by (cases "nat n \<le> length (pq ?x)"; simp add: min_def del: length_pq)+
  ultimately show ?thesis using that P(2) s1 by (rule_tac piperead_loop_out[OF s1(2) f]) (simp add: piperead_def)
qed

subsection \<open>Properties\<close>

text \<open>
  C8 (a pipe is a bounded queue of bytes). Whatever threads call \<open>pipewrite\<close>, \<open>piperead\<close> and \<open>pipeclose\<close>, and
  whenever they sleep and go on, the bytes taken from the writers' buffers are the bytes given to the
  readers followed by the bytes the pipe holds, in order, also when the counters wrap around; the pipe
  never holds more than \<open>PIPESIZE\<close> bytes. A write for which there is room returns after adding its bytes,
  and a read from a pipe that is not empty returns the first bytes and removes them.
\<close>

theorem pipe_fifo:
  assumes "pipe_trace p s ins outs"
  defines "x \<equiv> pipes (fsd s) p"
  shows "ins = outs @ pq x \<and> length (pq x) \<le> 512 \<and>
    (\<forall>w addr n. quiet w s \<and> 0 \<le> n \<and> length (pq x) + nat n \<le> 512 \<longrightarrow>
       (\<exists>s'. pipewrite (cpu_of w) p addr n s = Ok n s' \<and> pq (pipes (fsd s') p) = pq x @ map addr [0..<nat n])) \<and>
    (\<forall>w n. quiet w s \<and> pq x \<noteq> [] \<longrightarrow>
       (\<exists>s'. piperead (cpu_of w) p n s = Ok (int (min (nat n) (length (pq x))), take (nat n) (pq x)) s' \<and>
         pq (pipes (fsd s') p) = drop (nat n) (pq x)))"
proof -
  have f: "pipe_ok x" "ins = outs @ pq x" using pipe_trace_fifo[OF assms(1)] by (simp_all add: fifo_def x_def)
  have "\<exists>s'. pipewrite (cpu_of w) p addr n s = Ok n s' \<and> pq (pipes (fsd s') p) = pq x @ map addr [0..<nat n]"
    if "quiet w s" "0 \<le> n" "length (pq x) + nat n \<le> 512" for w addr n
    by (rule pipewrite_room[OF that(1) f(1)[unfolded x_def] that(3)[unfolded x_def] that(2), of addr])
      (simp add: x_def)
  moreover have "\<exists>s'. piperead (cpu_of w) p n s = Ok (int (min (nat n) (length (pq x))), take (nat n) (pq x)) s' \<and>
      pq (pipes (fsd s') p) = drop (nat n) (pq x)" if "quiet w s" "pq x \<noteq> []" for w n
    by (rule piperead_some[OF that(1) f(1)[unfolded x_def] that(2)[unfolded x_def], of n]) (simp add: x_def)
  moreover have "length (pq x) \<le> 512" using f(1) by (simp add: pipe_ok_def word_le_nat_alt)
  ultimately show ?thesis using f(2) by (simp del: length_pq)
qed

text \<open>A pipe whose counters are about to wrap around.\<close>

definition demo_pipe :: pipestate where
  "demo_pipe = logstate.extend demo_log
     \<lparr>pipes = (\<lambda>_. \<lparr>p_data = (\<lambda>_. 0), nread = - 2, nwrite = - 2, readopen = True, writeopen = True\<rparr>)\<rparr>"

theorem pipe_fifo_witness:
  "\<exists>s. pipe_trace 4096 s [7, 8, 9] [7, 8] \<and> pq (pipes (fsd s) 4096) = [9]"
proof -
  let ?s = "demo_sys demo_pipe" and ?addr = "\<lambda>i. of_nat (i + 7) :: uchar"
  have x: "nread (pipes demo_pipe 4096) = - 2" "nwrite (pipes demo_pipe 4096) = - 2" by (simp_all add: demo_pipe_def logstate.defs)
  have t0: "pipe_trace 4096 ?s [] []" by (rule pt_start) (simp add: x)
  note p0 = pipe_fifo[OF t0]
  have q0: "pq (pipes (fsd ?s) 4096) = []" using p0 by simp
  obtain s1 where s1: "pipewrite 0 4096 ?addr 3 ?s = Ok 3 s1"
    using p0[THEN conjunct2, THEN conjunct2, THEN conjunct1, THEN spec, THEN spec, THEN spec, THEN mp, of demo_task 3 ?addr] quiet_demo[of demo_pipe] q0
    by (auto simp: x)
  have "fst (pipe_fill ?addr 3 0 (pipes demo_pipe 4096)) = 3" by (simp add: pipe_fill.simps x)
  then have "pipe_trace 4096 s1 [7, 8, 9] []"
    using pt_write[OF t0 quiet_demo, where addr = ?addr and n = 3 and s' = s1] s1 by (simp add: upt_rec)
  then have t1: "pipe_trace 4096 (demo_sys (fsd s1)) [7, 8, 9] []" by (rule pt_other) simp
  note p1 = pipe_fifo[OF t1]
  have q1: "pq (pipes (fsd (demo_sys (fsd s1))) 4096) = [7, 8, 9]" using p1 by simp
  obtain s2 where s2: "piperead 0 4096 2 (demo_sys (fsd s1)) = Ok (2, [7, 8]) s2" "pq (pipes (fsd s2) 4096) = [9]"
    using p1[THEN conjunct2, THEN conjunct2, THEN conjunct2, THEN spec, THEN spec, THEN mp, of demo_task 2] quiet_demo[of "fsd s1"] q1
    by (auto simp del: length_pq)
  have "pipe_trace 4096 s2 [7, 8, 9] [7, 8]"
    using pt_read[OF t1 quiet_demo, where n = 2 and s' = s2] s2 by simp
  then show ?thesis using s2(2) by blast
qed

end
