(* ===== verification/Inode.thy ===== *)
theory Inode
  imports Pipe
begin

text \<open>
  The lower half of \<open>fs.c\<close>: the allocator of disk blocks, the inode cache, and the map from the blocks of
  a file to the blocks of the disk. An inode of the cache is named by its index in \<open>icache.inode\<close>; a
  pointer that the code compares with 0 is an option. Fields of type \<open>short\<close> are 16-bit words.
\<close>

abbreviation (input) NINODE :: nat where "NINODE \<equiv> 50"
abbreviation (input) NDIRECT :: nat where "NDIRECT \<equiv> 12"
abbreviation (input) NINDIRECT :: nat where "NINDIRECT \<equiv> 128"
abbreviation (input) MAXFILE :: uint where "MAXFILE \<equiv> 140"
abbreviation (input) IPB :: uint where "IPB \<equiv> 8"
abbreviation (input) BPB :: nat where "BPB \<equiv> 4096"
abbreviation (input) sizeof_dinode :: uint where "sizeof_dinode \<equiv> 64"
abbreviation (input) T_DIR :: ushort where "T_DIR \<equiv> 1"
abbreviation (input) T_FILE :: ushort where "T_FILE \<equiv> 2"
abbreviation (input) T_DEV :: ushort where "T_DEV \<equiv> 3"

record inode =
  i_dev :: uint
  i_inum :: uint
  i_ref :: int
  i_valid :: bool
  i_type :: ushort
  i_major :: ushort
  i_minor :: ushort
  i_nlink :: ushort
  i_size :: uint
  i_addrs :: "nat \<Rightarrow> uint"

record fsstate = pipestate +
  sb :: superblock
  inodes :: "nat \<Rightarrow> inode"

definition upd_inode :: "nat \<Rightarrow> (inode \<Rightarrow> inode) \<Rightarrow> 'x fsstate_scheme \<Rightarrow> 'x fsstate_scheme" where
  "upd_inode ip f d = d\<lparr>inodes := (inodes d)(ip := f (inodes d ip))\<rparr>"

definition IBLOCK :: "uint \<Rightarrow> superblock \<Rightarrow> uint" where
  "IBLOCK i S = i div IPB + sb_inodestart S"

definition BBLOCK :: "uint \<Rightarrow> superblock \<Rightarrow> uint" where
  "BBLOCK b S = b div 4096 + sb_bmapstart S"

definition load16 :: "memory \<Rightarrow> uint \<Rightarrow> ushort" where
  "load16 m a = ucast (m a) OR push_bit 8 (ucast (m (a + 1)))"

definition store16 :: "memory \<Rightarrow> uint \<Rightarrow> ushort \<Rightarrow> memory" where
  "store16 m a v = m(a := ucast v, a + 1 := ucast (drop_bit 8 v))"

subsection \<open>Blocks\<close>

definition bzero :: "nat \<Rightarrow> uint \<Rightarrow> uint \<Rightarrow> ('x fsstate_scheme, 'a) sys_scheme \<Rightarrow> (unit, ('x fsstate_scheme, 'a) sys_scheme) res" where
  "bzero c dev bno s =
     bnd (bread c dev bno s) (\<lambda>bp s.
     bnd (log_write c bp (upd_fsd (upd_buf bp (\<lambda>x. x\<lparr>b_data := memset (b_data x) 0 0 BSIZE\<rparr>)) s)) (\<lambda>_.
     brelse c bp))"

text \<open>The bit of the free map that a byte \<open>bi / 8\<close> and a mask \<open>1 << (bi % 8)\<close> select.\<close>

definition bmask :: "nat \<Rightarrow> uchar" where
  "bmask bi = push_bit (bi mod 8) 1"

definition bit_free :: "block \<Rightarrow> nat \<Rightarrow> bool" where
  "bit_free x bi \<longleftrightarrow> x (of_nat (bi div 8)) AND bmask bi = 0"

text \<open>The loop of \<open>balloc\<close> over the values of \<open>b\<close> that are left.\<close>

fun balloc_loop :: "nat \<Rightarrow> uint \<Rightarrow> nat list \<Rightarrow> ('x fsstate_scheme, 'a) sys_scheme \<Rightarrow> (uint, ('x fsstate_scheme, 'a) sys_scheme) res" where
  "balloc_loop c dev [] s = Panic ''balloc: out of blocks''"
| "balloc_loop c dev (b # bs) s =
     bnd (bread c dev (BBLOCK (of_nat b) (sb (fsd s))) s) (\<lambda>bp s.
     case first_index (\<lambda>bi. b + bi < unat (sb_size (sb (fsd s))) \<and> bit_free (b_data (bufs (fsd s) bp)) bi) BPB of
       Some bi \<Rightarrow>
         let s = upd_fsd (upd_buf bp (\<lambda>x. x\<lparr>b_data := (b_data x)(of_nat (bi div 8) := b_data x (of_nat (bi div 8)) OR bmask bi)\<rparr>)) s in
         bnd (log_write c bp s) (\<lambda>_ s.
         bnd (brelse c bp s) (\<lambda>_ s.
         bnd (bzero c dev (of_nat (b + bi)) s) (\<lambda>_ s. Ok (of_nat (b + bi)) s)))
     | None \<Rightarrow> bnd (brelse c bp s) (\<lambda>_. balloc_loop c dev bs))"

definition balloc :: "nat \<Rightarrow> uint \<Rightarrow> ('x fsstate_scheme, 'a) sys_scheme \<Rightarrow> (uint, ('x fsstate_scheme, 'a) sys_scheme) res" where
  "balloc c dev s = balloc_loop c dev (map (\<lambda>k. BPB * k) [0..<(unat (sb_size (sb (fsd s))) + (BPB - 1)) div BPB]) s"

definition bfree :: "nat \<Rightarrow> uint \<Rightarrow> uint \<Rightarrow> ('x fsstate_scheme, 'a) sys_scheme \<Rightarrow> (unit, ('x fsstate_scheme, 'a) sys_scheme) res" where
  "bfree c dev b s =
     bnd (readsb c dev s) (\<lambda>r s.
     let s = upd_fsd (\<lambda>d. d\<lparr>sb := r\<rparr>) s in
     bnd (bread c dev (BBLOCK b (sb (fsd s))) s) (\<lambda>bp s.
     let bi = unat b mod BPB in
     if bit_free (b_data (bufs (fsd s) bp)) bi then Panic ''freeing free block''
     else
       let s = upd_fsd (upd_buf bp (\<lambda>x. x\<lparr>b_data := (b_data x)(of_nat (bi div 8) := b_data x (of_nat (bi div 8)) AND NOT (bmask bi))\<rparr>)) s in
       bnd (log_write c bp s) (\<lambda>_. brelse c bp)))"

subsection \<open>Inodes\<close>

definition iget :: "nat \<Rightarrow> uint \<Rightarrow> uint \<Rightarrow> ('x fsstate_scheme, 'a) sys_scheme \<Rightarrow> (nat, ('x fsstate_scheme, 'a) sys_scheme) res" where
  "iget c dev inum s =
     bnd (acquire c icache_lock s) (\<lambda>_ s.
     let I = inodes (fsd s) in
     case first_index (\<lambda>i. i_ref (I i) > 0 \<and> i_dev (I i) = dev \<and> i_inum (I i) = inum) NINODE of
       Some ip \<Rightarrow>
         bnd (release c icache_lock (upd_fsd (upd_inode ip (\<lambda>x. x\<lparr>i_ref := i_ref x + 1\<rparr>)) s)) (\<lambda>_ s. Ok ip s)
     | None \<Rightarrow>
        (case first_index (\<lambda>i. i_ref (I i) = 0) NINODE of
           None \<Rightarrow> Panic ''iget: no inodes''
         | Some ip \<Rightarrow>
             bnd (release c icache_lock (upd_fsd (upd_inode ip
               (\<lambda>x. x\<lparr>i_dev := dev, i_inum := inum, i_ref := 1, i_valid := False\<rparr>)) s)) (\<lambda>_ s. Ok ip s)))"

text \<open>The on-disk inode: the fields of \<open>struct dinode\<close> at an offset of its block.\<close>

definition dinode_at :: "uint \<Rightarrow> uint" where
  "dinode_at inum = inum mod IPB * sizeof_dinode"

definition get_dinode :: "block \<Rightarrow> uint \<Rightarrow> inode \<Rightarrow> inode" where
  "get_dinode x a ip = ip\<lparr>i_type := load16 x a, i_major := load16 x (a + 2), i_minor := load16 x (a + 4),
     i_nlink := load16 x (a + 6), i_size := load32 x (a + 8),
     i_addrs := (\<lambda>i. if i < NDIRECT + 1 then load32 x (a + 12 + 4 * of_nat i) else i_addrs ip i)\<rparr>"

definition put_dinode :: "inode \<Rightarrow> uint \<Rightarrow> block \<Rightarrow> block" where
  "put_dinode ip a x =
     (let x = store16 x a (i_type ip); x = store16 x (a + 2) (i_major ip); x = store16 x (a + 4) (i_minor ip);
          x = store16 x (a + 6) (i_nlink ip); x = store32 x (a + 8) (i_size ip)
      in fold (\<lambda>i x. store32 x (a + 12 + 4 * of_nat i) (i_addrs ip i)) [0..<NDIRECT + 1] x)"

fun ialloc_loop :: "nat \<Rightarrow> uint \<Rightarrow> ushort \<Rightarrow> nat list \<Rightarrow> ('x fsstate_scheme, 'a) sys_scheme \<Rightarrow> (nat, ('x fsstate_scheme, 'a) sys_scheme) res" where
  "ialloc_loop c dev ty [] s = Panic ''ialloc: no inodes''"
| "ialloc_loop c dev ty (inum # is) s =
     bnd (bread c dev (IBLOCK (of_nat inum) (sb (fsd s))) s) (\<lambda>bp s.
     let a = dinode_at (of_nat inum) in
     if load16 (b_data (bufs (fsd s) bp)) a = 0 then
       let s = upd_fsd (upd_buf bp (\<lambda>x. x\<lparr>b_data := store16 (memset (b_data x) a 0 sizeof_dinode) a ty\<rparr>)) s in
       bnd (log_write c bp s) (\<lambda>_ s.
       bnd (brelse c bp s) (\<lambda>_. iget c dev (of_nat inum)))
     else bnd (brelse c bp s) (\<lambda>_. ialloc_loop c dev ty is))"

definition ialloc :: "nat \<Rightarrow> uint \<Rightarrow> ushort \<Rightarrow> ('x fsstate_scheme, 'a) sys_scheme \<Rightarrow> (nat, ('x fsstate_scheme, 'a) sys_scheme) res" where
  "ialloc c dev ty s = ialloc_loop c dev ty [1..<unat (sb_ninodes (sb (fsd s)))] s"

definition iupdate :: "nat \<Rightarrow> nat \<Rightarrow> ('x fsstate_scheme, 'a) sys_scheme \<Rightarrow> (unit, ('x fsstate_scheme, 'a) sys_scheme) res" where
  "iupdate c ip s =
     bnd (bread c (i_dev (inodes (fsd s) ip)) (IBLOCK (i_inum (inodes (fsd s) ip)) (sb (fsd s))) s) (\<lambda>bp s.
     let I = inodes (fsd s) ip;
         s = upd_fsd (upd_buf bp (\<lambda>x. x\<lparr>b_data := put_dinode I (dinode_at (i_inum I)) (b_data x)\<rparr>)) s in
     bnd (log_write c bp s) (\<lambda>_. brelse c bp))"

definition idup :: "nat \<Rightarrow> nat \<Rightarrow> ('x fsstate_scheme, 'a) sys_scheme \<Rightarrow> (nat, ('x fsstate_scheme, 'a) sys_scheme) res" where
  "idup c ip s =
     bnd (acquire c icache_lock s) (\<lambda>_ s.
     bnd (release c icache_lock (upd_fsd (upd_inode ip (\<lambda>x. x\<lparr>i_ref := i_ref x + 1\<rparr>)) s)) (\<lambda>_ s. Ok ip s))"

text \<open>What follows \<open>acquiresleep\<close> in \<open>ilock\<close>.\<close>

definition ilock_read :: "nat \<Rightarrow> nat \<Rightarrow> ('x fsstate_scheme, 'a) sys_scheme \<Rightarrow> (unit, ('x fsstate_scheme, 'a) sys_scheme) res" where
  "ilock_read c ip s =
     (if i_valid (inodes (fsd s) ip) then Ok () s
      else
        bnd (bread c (i_dev (inodes (fsd s) ip)) (IBLOCK (i_inum (inodes (fsd s) ip)) (sb (fsd s))) s) (\<lambda>bp s.
        let x = b_data (bufs (fsd s) bp);
            s = upd_fsd (upd_inode ip (\<lambda>I. get_dinode x (dinode_at (i_inum I)) I)) s in
        bnd (brelse c bp s) (\<lambda>_ s.
        let s = upd_fsd (upd_inode ip (\<lambda>x. x\<lparr>i_valid := True\<rparr>)) s in
        if i_type (inodes (fsd s) ip) = 0 then Panic ''ilock: no type'' else Ok () s)))"

definition ilock :: "nat \<Rightarrow> nat option \<Rightarrow> ('x fsstate_scheme, 'a) sys_scheme \<Rightarrow> (unit, ('x fsstate_scheme, 'a) sys_scheme) res" where
  "ilock c ptr s =
     (case ptr of None \<Rightarrow> Panic ''ilock'' | Some ip \<Rightarrow>
        if i_ref (inodes (fsd s) ip) < 1 then Panic ''ilock''
        else bnd (acquiresleep c (SInode ip) s) (\<lambda>_. ilock_read c ip))"

definition ilock_resume :: "nat \<Rightarrow> nat \<times> nat \<Rightarrow> nat \<Rightarrow> ('x fsstate_scheme, 'a) sys_scheme \<Rightarrow> (unit, ('x fsstate_scheme, 'a) sys_scheme) res" where
  "ilock_resume c qt ip s = bnd (acquiresleep_resume c qt (SInode ip) s) (\<lambda>_. ilock_read c ip)"

definition iunlock :: "nat \<Rightarrow> nat option \<Rightarrow> ('x fsstate_scheme, 'a) sys_scheme \<Rightarrow> (unit, ('x fsstate_scheme, 'a) sys_scheme) res" where
  "iunlock c ptr s =
     (case ptr of None \<Rightarrow> Panic ''iunlock'' | Some ip \<Rightarrow>
        bnd (holdingsleep c (SInode ip) s) (\<lambda>h s.
        if \<not> h \<or> i_ref (inodes (fsd s) ip) < 1 then Panic ''iunlock''
        else releasesleep c (SInode ip) s))"

text \<open>\<open>a[j]\<close> for the words of an indirect block.\<close>

abbreviation (input) word_at :: "nat \<Rightarrow> uint" where
  "word_at j \<equiv> 4 * of_nat j"

definition bmap :: "nat \<Rightarrow> nat \<Rightarrow> uint \<Rightarrow> ('x fsstate_scheme, 'a) sys_scheme \<Rightarrow> (uint, ('x fsstate_scheme, 'a) sys_scheme) res" where
  "bmap c ip bn s =
     (if bn < 12 then
        let addr = i_addrs (inodes (fsd s) ip) (unat bn) in
        if addr = 0 then
          bnd (balloc c (i_dev (inodes (fsd s) ip)) s) (\<lambda>addr s.
          Ok addr (upd_fsd (upd_inode ip (\<lambda>x. x\<lparr>i_addrs := (i_addrs x)(unat bn := addr)\<rparr>)) s))
        else Ok addr s
      else
        let bn = bn - 12 in
        if bn < 128 then
          bnd (let addr = i_addrs (inodes (fsd s) ip) NDIRECT in
               if addr = 0 then
                 bnd (balloc c (i_dev (inodes (fsd s) ip)) s) (\<lambda>addr s.
                 Ok addr (upd_fsd (upd_inode ip (\<lambda>x. x\<lparr>i_addrs := (i_addrs x)(NDIRECT := addr)\<rparr>)) s))
               else Ok addr s) (\<lambda>addr s.
          bnd (bread c (i_dev (inodes (fsd s) ip)) addr s) (\<lambda>bp s.
          bnd (let addr = load32 (b_data (bufs (fsd s) bp)) (word_at (unat bn)) in
               if addr = 0 then
                 bnd (balloc c (i_dev (inodes (fsd s) ip)) s) (\<lambda>addr s.
                 bnd (log_write c bp (upd_fsd (upd_buf bp (\<lambda>x. x\<lparr>b_data := store32 (b_data x) (word_at (unat bn)) addr\<rparr>)) s)) (\<lambda>_ s.
                 Ok addr s))
               else Ok addr s) (\<lambda>addr s.
          bnd (brelse c bp s) (\<lambda>_ s. Ok addr s))))
        else Panic ''bmap: out of range'')"

definition itrunc :: "nat \<Rightarrow> nat \<Rightarrow> ('x fsstate_scheme, 'a) sys_scheme \<Rightarrow> (unit, ('x fsstate_scheme, 'a) sys_scheme) res" where
  "itrunc c ip s =
     bnd (for_each [0..<NDIRECT] (\<lambda>i s.
            let I = inodes (fsd s) ip in
            if i_addrs I i \<noteq> 0 then
              bnd (bfree c (i_dev I) (i_addrs I i) s) (\<lambda>_ s.
              Ok () (upd_fsd (upd_inode ip (\<lambda>x. x\<lparr>i_addrs := (i_addrs x)(i := 0)\<rparr>)) s))
            else Ok () s) s) (\<lambda>_ s.
     bnd (let I = inodes (fsd s) ip in
          if i_addrs I NDIRECT \<noteq> 0 then
            bnd (bread c (i_dev I) (i_addrs I NDIRECT) s) (\<lambda>bp s.
            bnd (for_each [0..<NINDIRECT] (\<lambda>j s.
                   let a = load32 (b_data (bufs (fsd s) bp)) (word_at j) in
                   if a \<noteq> 0 then bfree c (i_dev (inodes (fsd s) ip)) a s else Ok () s) s) (\<lambda>_ s.
            bnd (brelse c bp s) (\<lambda>_ s.
            bnd (bfree c (i_dev (inodes (fsd s) ip)) (i_addrs (inodes (fsd s) ip) NDIRECT) s) (\<lambda>_ s.
            Ok () (upd_fsd (upd_inode ip (\<lambda>x. x\<lparr>i_addrs := (i_addrs x)(NDIRECT := 0)\<rparr>)) s)))))
          else Ok () s) (\<lambda>_ s.
     iupdate c ip (upd_fsd (upd_inode ip (\<lambda>x. x\<lparr>i_size := 0\<rparr>)) s)))"

definition iput :: "nat \<Rightarrow> nat \<Rightarrow> ('x fsstate_scheme, 'a) sys_scheme \<Rightarrow> (unit, ('x fsstate_scheme, 'a) sys_scheme) res" where
  "iput c ip s =
     bnd (acquiresleep c (SInode ip) s) (\<lambda>_ s.
     bnd (if i_valid (inodes (fsd s) ip) \<and> i_nlink (inodes (fsd s) ip) = 0 then
            bnd (acquire c icache_lock s) (\<lambda>_ s.
            let r = i_ref (inodes (fsd s) ip) in
            bnd (release c icache_lock s) (\<lambda>_ s.
            if r = 1 then
              bnd (itrunc c ip s) (\<lambda>_ s.
              bnd (iupdate c ip (upd_fsd (upd_inode ip (\<lambda>x. x\<lparr>i_type := 0\<rparr>)) s)) (\<lambda>_ s.
              Ok () (upd_fsd (upd_inode ip (\<lambda>x. x\<lparr>i_valid := False\<rparr>)) s)))
            else Ok () s))
          else Ok () s) (\<lambda>_ s.
     bnd (releasesleep c (SInode ip) s) (\<lambda>_ s.
     bnd (acquire c icache_lock s) (\<lambda>_ s.
     release c icache_lock (upd_fsd (upd_inode ip (\<lambda>x. x\<lparr>i_ref := i_ref x - 1\<rparr>)) s)))))"

definition iunlockput :: "nat \<Rightarrow> nat \<Rightarrow> ('x fsstate_scheme, 'a) sys_scheme \<Rightarrow> (unit, ('x fsstate_scheme, 'a) sys_scheme) res" where
  "iunlockput c ip s = bnd (iunlock c (Some ip) s) (\<lambda>_. iput c ip)"

record stat =
  st_type :: ushort
  st_dev :: uint
  st_ino :: uint
  st_nlink :: ushort
  st_size :: uint

definition stati :: "inode \<Rightarrow> stat" where
  "stati ip = \<lparr>st_type = i_type ip, st_dev = i_dev ip, st_ino = i_inum ip, st_nlink = i_nlink ip, st_size = i_size ip\<rparr>"

end
