(* ===== verification/Console.thy ===== *)
theory Console
  imports Inode Ulib
begin

text \<open>
  \<open>console.c\<close>: output to the screen and the serial line, \<open>cprintf\<close>, the input buffer that \<open>consoleintr\<close> fills
  and \<open>consoleread\<close> empties, and \<open>procdump\<close> of \<open>proc.c\<close>, which the console calls. Bytes sent to the serial
  port are recorded in \<open>uart_out\<close>; the cells of the screen and the cursor register are fields. Entries of
  \<open>devsw\<close> are flags: \<open>consoleread\<close> and \<open>consolewrite\<close> are the only functions ever stored there.
\<close>

abbreviation (input) BACKSPACE :: int where "BACKSPACE \<equiv> 256"
abbreviation (input) INPUT_BUF :: uint where "INPUT_BUF \<equiv> 128"
abbreviation (input) CONSOLE :: nat where "CONSOLE \<equiv> 1"
abbreviation (input) NDEV :: int where "NDEV \<equiv> 10"

record consstate = fsstate +
  cons_locking :: bool
  panicked :: bool
  uart_out :: "uchar list"
  crt :: "nat \<Rightarrow> ushort"
  crt_pos :: nat
  in_buf :: "uint \<Rightarrow> uchar"
  in_r :: uint
  in_w :: uint
  in_e :: uint
  devsw_read :: "nat \<Rightarrow> bool"
  devsw_write :: "nat \<Rightarrow> bool"

subsection \<open>Output\<close>

definition uartputc :: "int \<Rightarrow> 'x consstate_scheme \<Rightarrow> 'x consstate_scheme" where
  "uartputc ch d = d\<lparr>uart_out := uart_out d @ [of_int ch]\<rparr>"

text \<open>Scrolling: the rows move up by one and the cells from the cursor to the end of row 23 are cleared.\<close>

definition scroll :: "nat \<Rightarrow> (nat \<Rightarrow> ushort) \<Rightarrow> (nat \<Rightarrow> ushort)" where
  "scroll pos m = (\<lambda>i. if pos \<le> i \<and> i < 24 * 80 then 0 else if i < 23 * 80 then m (i + 80) else m i)"

definition cgaputc :: "int \<Rightarrow> ('x consstate_scheme, 'a) sys_scheme \<Rightarrow> (unit, ('x consstate_scheme, 'a) sys_scheme) res" where
  "cgaputc ch s =
     (let pos = crt_pos (fsd s); m = crt (fsd s);
          (pos, m) =
            (if ch = 10 then (pos + (80 - pos mod 80), m)
             else if ch = BACKSPACE then (if pos > 0 then pos - 1 else pos, m)
             else (pos + 1, m(pos := (of_int ch AND 0xFF) OR 0x0700)))
      in if pos > 25 * 80 then Panic ''pos under/overflow''
         else
           let (pos, m) = (if pos div 80 \<ge> 24 then (pos - 80, scroll (pos - 80) m) else (pos, m)) in
           Ok () (upd_fsd (\<lambda>d. d\<lparr>crt := m(pos := 0x0720), crt_pos := pos\<rparr>) s))"

text \<open>A CPU that prints after a panic loops for ever.\<close>

definition consputc :: "int \<Rightarrow> ('x consstate_scheme, 'a) sys_scheme \<Rightarrow> (unit, ('x consstate_scheme, 'a) sys_scheme) res" where
  "consputc ch s =
     (if panicked (fsd s) then Spin
      else cgaputc ch (upd_fsd (\<lambda>d. if ch = BACKSPACE then uartputc 8 (uartputc 32 (uartputc 8 d)) else uartputc ch d) s))"

definition cprintf :: "nat \<Rightarrow> (uint \<Rightarrow> string) \<Rightarrow> string \<Rightarrow> (nat \<Rightarrow> uint) \<Rightarrow> ('x consstate_scheme, 'a) sys_scheme \<Rightarrow>
    (unit, ('x consstate_scheme, 'a) sys_scheme) res" where
  "cprintf c str fmt args s =
     (let locking = cons_locking (fsd s) in
      bnd (if locking then acquire c cons_lock s else Ok () s) (\<lambda>_ s.
      bnd (for_each (cprintf_loop str args 0 fmt) (\<lambda>ch. consputc (of_char ch)) s) (\<lambda>_ s.
      if locking then release c cons_lock s else Ok () s)))"

definition state_name :: "states \<Rightarrow> string" where
  "state_name st = (case st of UNUSED \<Rightarrow> ''unused'' | EMBRYO \<Rightarrow> ''embryo'' | SLEEPING \<Rightarrow> ''sleep ''
     | RUNNABLE \<Rightarrow> ''runble'' | RUNNING \<Rightarrow> ''run   '' | ZOMBIE \<Rightarrow> ''zombie'')"

definition dump_thread :: "nat \<Rightarrow> nat \<times> nat \<Rightarrow> ('x consstate_scheme, 'a) sys_scheme \<Rightarrow> (unit, ('x consstate_scheme, 'a) sys_scheme) res" where
  "dump_thread c pt s = (case pt of (p, t) \<Rightarrow>
     if p_state (procs s p) = UNUSED \<or> t_state (thr s p t) = UNUSED then Ok () s
     else
       bnd (cprintf c (\<lambda>a. if a = 1 then state_name (t_state (thr s p t)) else p_name (procs s p)) ''%d %s %s''
              (\<lambda>i. if i = 0 then word_of_int (pid (procs s p)) else of_nat i) s) (\<lambda>_ s.
       if p_state (procs s p) = SLEEPING then
         let pcs = getcallerpcs (mem s) (load32 (mem s) (ctx (thr s p t) + 12) + 8) in
         for_each (takeWhile (\<lambda>pc. pc \<noteq> 0) pcs) (\<lambda>pc. cprintf c (\<lambda>_. []) '' %p'' (\<lambda>_. pc)) s
       else Ok () s))"

definition procdump :: "nat \<Rightarrow> ('x consstate_scheme, 'a) sys_scheme \<Rightarrow> (unit, ('x consstate_scheme, 'a) sys_scheme) res" where
  "procdump c s = for_each (List.product [0..<NPROC] [0..<NTHREAD]) (dump_thread c) s"

subsection \<open>Input\<close>

text \<open>
  The loop of \<open>^U\<close>: the edit index goes back by one in each turn and meets the write index after as many
  turns as there are characters between them.
\<close>

fun kill_line :: "nat \<Rightarrow> ('x consstate_scheme, 'a) sys_scheme \<Rightarrow> (unit, ('x consstate_scheme, 'a) sys_scheme) res" where
  "kill_line 0 s = Ok () s"
| "kill_line (Suc k) s =
     (if in_e (fsd s) \<noteq> in_w (fsd s) \<and> in_buf (fsd s) ((in_e (fsd s) - 1) mod INPUT_BUF) \<noteq> 10
      then bnd (consputc BACKSPACE (upd_fsd (\<lambda>d. d\<lparr>in_e := in_e d - 1\<rparr>) s)) (\<lambda>_. kill_line k)
      else Ok () s)"

text \<open>One turn of the loop of \<open>consoleintr\<close>, for a character \<open>ch\<close> of \<open>getc\<close>; the result says if \<open>^P\<close> was typed.\<close>

definition cons_char :: "nat \<Rightarrow> int \<Rightarrow> ('x consstate_scheme, 'a) sys_scheme \<Rightarrow> (bool, ('x consstate_scheme, 'a) sys_scheme) res" where
  "cons_char c ch s =
     (if ch = 16 then Ok True s
      else if ch = 21 then bnd (kill_line (unat (in_e (fsd s) - in_w (fsd s))) s) (\<lambda>_. Ok False)
      else if ch = 8 \<or> ch = 127 then
        (if in_e (fsd s) \<noteq> in_w (fsd s)
         then bnd (consputc BACKSPACE (upd_fsd (\<lambda>d. d\<lparr>in_e := in_e d - 1\<rparr>) s)) (\<lambda>_. Ok False)
         else Ok False s)
      else if ch \<noteq> 0 \<and> in_e (fsd s) - in_r (fsd s) < INPUT_BUF then
        let ch = (if ch = 13 then 10 else ch);
            s = upd_fsd (\<lambda>d. d\<lparr>in_buf := (in_buf d)(in_e d mod INPUT_BUF := of_int ch), in_e := in_e d + 1\<rparr>) s in
        bnd (consputc ch s) (\<lambda>_ s.
        if ch = 10 \<or> ch = 4 \<or> in_e (fsd s) = in_r (fsd s) + INPUT_BUF
        then bnd (wakeup c ChInput (upd_fsd (\<lambda>d. d\<lparr>in_w := in_e d\<rparr>) s)) (\<lambda>_. Ok False)
        else Ok False s)
      else Ok False s)"

fun cons_chars :: "nat \<Rightarrow> int list \<Rightarrow> bool \<Rightarrow> ('x consstate_scheme, 'a) sys_scheme \<Rightarrow> (bool, ('x consstate_scheme, 'a) sys_scheme) res" where
  "cons_chars c [] dump s = Ok dump s"
| "cons_chars c (ch # cs) dump s =
     (if ch \<ge> 0 then bnd (cons_char c ch s) (\<lambda>p. cons_chars c cs (dump \<or> p)) else Ok dump s)"

text \<open>\<open>cs\<close> is what the calls of \<open>getc\<close> return; the end of the list stands for a negative value.\<close>

definition consoleintr :: "nat \<Rightarrow> int list \<Rightarrow> ('x consstate_scheme, 'a) sys_scheme \<Rightarrow> (unit, ('x consstate_scheme, 'a) sys_scheme) res" where
  "consoleintr c cs s =
     bnd (acquire c cons_lock s) (\<lambda>_ s.
     bnd (cons_chars c cs False s) (\<lambda>doprocdump s.
     bnd (release c cons_lock s) (\<lambda>_ s.
     if doprocdump then procdump c s else Ok () s)))"

text \<open>
  The loop of \<open>consoleread\<close> up to its end or to the turn that finds no input: the bytes stored, whether
  the thread has to wait, and the new state. \<open>stored\<close> says that bytes have been stored before.
\<close>

fun cons_take :: "nat \<Rightarrow> bool \<Rightarrow> 'x consstate_scheme \<Rightarrow> uchar list \<times> bool \<times> 'x consstate_scheme" where
  "cons_take 0 stored d = ([], False, d)"
| "cons_take (Suc n) stored d =
     (if in_r d = in_w d then ([], True, d)
      else
        let ch = in_buf d (in_r d mod INPUT_BUF); d = d\<lparr>in_r := in_r d + 1\<rparr> in
        if ch = 4 then ([], False, if stored then d\<lparr>in_r := in_r d - 1\<rparr> else d)
        else if ch = 10 then ([ch], False, d)
        else (case cons_take n True d of (bs, wait, d) \<Rightarrow> (ch # bs, wait, d)))"

definition consoleread_loop :: "nat \<Rightarrow> nat \<Rightarrow> int \<Rightarrow> int \<Rightarrow> ('x consstate_scheme, 'a) sys_scheme \<Rightarrow>
    (int \<times> uchar list, ('x consstate_scheme, 'a) sys_scheme) res" where
  "consoleread_loop c ip target n s =
     (case cons_take (nat n) (n < target) (fsd s) of (bs, wait, d) \<Rightarrow>
      let s = upd_fsd (\<lambda>_. d) s; n = n - int (length bs) in
      if wait then
        bnd (self_killed c s) (\<lambda>k s.
        if k then bnd (release c cons_lock s) (\<lambda>_ s. bnd (ilock c (Some ip) s) (\<lambda>_. Ok (- 1, bs)))
        else bnd (sleep c ChInput (Some cons_lock) s) (\<lambda>_. Ok (0, bs)))
      else bnd (release c cons_lock s) (\<lambda>_ s. bnd (ilock c (Some ip) s) (\<lambda>_. Ok (target - n, bs))))"

definition consoleread :: "nat \<Rightarrow> nat \<Rightarrow> int \<Rightarrow> ('x consstate_scheme, 'a) sys_scheme \<Rightarrow>
    (int \<times> uchar list, ('x consstate_scheme, 'a) sys_scheme) res" where
  "consoleread c ip n s =
     bnd (iunlock c (Some ip) s) (\<lambda>_ s.
     bnd (acquire c cons_lock s) (\<lambda>_. consoleread_loop c ip n n))"

definition consoleread_resume :: "nat \<Rightarrow> nat \<times> nat \<Rightarrow> nat \<Rightarrow> int \<Rightarrow> int \<Rightarrow> ('x consstate_scheme, 'a) sys_scheme \<Rightarrow>
    (int \<times> uchar list, ('x consstate_scheme, 'a) sys_scheme) res" where
  "consoleread_resume c qt ip target n s = bnd (sleep_resume c qt cons_lock s) (\<lambda>_. consoleread_loop c ip target n)"

definition consolewrite :: "nat \<Rightarrow> nat \<Rightarrow> (nat \<Rightarrow> uchar) \<Rightarrow> int \<Rightarrow> ('x consstate_scheme, 'a) sys_scheme \<Rightarrow>
    (int, ('x consstate_scheme, 'a) sys_scheme) res" where
  "consolewrite c ip buf n s =
     bnd (iunlock c (Some ip) s) (\<lambda>_ s.
     bnd (acquire c cons_lock s) (\<lambda>_ s.
     bnd (for_each [0..<nat n] (\<lambda>i. consputc (uint (buf i))) s) (\<lambda>_ s.
     bnd (release c cons_lock s) (\<lambda>_ s.
     bnd (ilock c (Some ip) s) (\<lambda>_. Ok n)))))"

definition consoleinit :: "('x consstate_scheme, 'a) sys_scheme \<Rightarrow> ('x consstate_scheme, 'a) sys_scheme" where
  "consoleinit s =
     upd_fsd (\<lambda>d. d\<lparr>devsw_write := (devsw_write d)(CONSOLE := True), devsw_read := (devsw_read d)(CONSOLE := True),
       cons_locking := True\<rparr>) (initlock cons_lock ''console'' s)"

end
