(* ===== verification/Fs.thy ===== *)
theory Fs
  imports Console CString
begin

text \<open>
  The upper half of \<open>fs.c\<close>: reading and writing of files, directories and path names. What \<open>readi\<close> stores
  through \<open>dst\<close> is part of its result, and \<open>src\<close> is a function from indices to bytes. The name of a
  directory entry is a memory object of its own, addressed from 0.
\<close>

abbreviation (input) DIRSIZ :: nat where "DIRSIZ \<equiv> 14"
abbreviation (input) sizeof_dirent :: uint where "sizeof_dirent \<equiv> 16"
abbreviation (input) ROOTINO :: uint where "ROOTINO \<equiv> 1"

definition sb_format :: string where
  "sb_format = ''sb: size %d nblocks %d ninodes %d nlog %d logstart %d inodestart %d bmap start %d'' @ [CHR 0x0A]"

definition iinit :: "nat \<Rightarrow> uint \<Rightarrow> ('x consstate_scheme, 'a) sys_scheme \<Rightarrow> (unit, ('x consstate_scheme, 'a) sys_scheme) res" where
  "iinit c dev s =
     (let s = initlock icache_lock ''icache'' s;
          s = fold (\<lambda>i. initsleeplock (SInode i) ''inode'') [0..<NINODE] s in
      bnd (readsb c dev s) (\<lambda>r s.
      cprintf c (\<lambda>_. []) sb_format
        (\<lambda>i. [sb_size r, sb_nblocks r, sb_ninodes r, sb_nlog r, sb_logstart r, sb_inodestart r, sb_bmapstart r] ! i)
        (upd_fsd (\<lambda>d. d\<lparr>sb := r\<rparr>) s)))"

subsection \<open>Reading and writing\<close>

text \<open>\<open>min(n - tot, BSIZE - off%BSIZE)\<close>.\<close>

definition chunk :: "uint \<Rightarrow> uint \<Rightarrow> uint" where
  "chunk left off = (if left < BSIZE - off mod BSIZE then left else BSIZE - off mod BSIZE)"

lemma chunk_bounds: "left \<noteq> 0 \<Longrightarrow> 0 < chunk left off \<and> chunk left off \<le> left"
proof -
  assume l: "left \<noteq> 0"
  have "unat (off mod BSIZE) < 512" by (simp add: unat_mod_distrib)
  then have m: "off mod BSIZE < BSIZE" by (simp add: word_less_nat_alt)
  then have "0 < BSIZE - off mod BSIZE" by (simp add: word_gt_0)
  then show ?thesis using l by (auto simp: chunk_def word_gt_0)
qed

lemma chunk_decreases: "tot < n \<Longrightarrow> unat (n - (tot + chunk (n - tot) off)) < unat (n - tot)"
proof -
  assume "tot < n"
  then have "n - tot \<noteq> 0" by auto
  from chunk_bounds[OF this, of off] have c: "0 < chunk (n - tot) off" "chunk (n - tot) off \<le> n - tot" by auto
  have "n - (tot + chunk (n - tot) off) = (n - tot) - chunk (n - tot) off" by simp
  then have "unat (n - (tot + chunk (n - tot) off)) = unat (n - tot) - unat (chunk (n - tot) off)"
    using unat_sub[OF c(2)] by (simp only:)
  then show ?thesis using c by (simp add: word_less_nat_alt word_le_nat_alt)
qed

function readi_loop :: "nat \<Rightarrow> nat \<Rightarrow> uint \<Rightarrow> uint \<Rightarrow> uint \<Rightarrow> ('x consstate_scheme, 'a) sys_scheme \<Rightarrow>
    (uchar list, ('x consstate_scheme, 'a) sys_scheme) res" where
  "readi_loop c ip n tot off s =
     (if tot < n then
        bnd (bmap c ip (off div BSIZE) s) (\<lambda>addr s.
        bnd (bread c (i_dev (inodes (fsd s) ip)) addr s) (\<lambda>bp s.
        let m = chunk (n - tot) off;
            bs = map (\<lambda>k. b_data (bufs (fsd s) bp) (off mod BSIZE + of_nat k)) [0..<unat m] in
        bnd (brelse c bp s) (\<lambda>_ s.
        bnd (readi_loop c ip n (tot + m) (off + m) s) (\<lambda>r. Ok (bs @ r)))))
      else Ok [] s)"
  by pat_completeness auto
termination
  by (relation "measure (\<lambda>(c, ip, n, tot, off, s). unat (n - tot))") (simp_all add: chunk_decreases)

definition readi :: "nat \<Rightarrow> nat \<Rightarrow> uint \<Rightarrow> uint \<Rightarrow> ('x consstate_scheme, 'a) sys_scheme \<Rightarrow>
    (int \<times> uchar list, ('x consstate_scheme, 'a) sys_scheme) res" where
  "readi c ip off n s =
     (let I = inodes (fsd s) ip in
      if i_type I = T_DEV then
        (if sint (i_major I) < 0 \<or> sint (i_major I) \<ge> NDEV \<or> \<not> devsw_read (fsd s) (unat (i_major I)) then Ok (- 1, []) s
         else consoleread c ip (sint n) s)
      else if off > i_size I \<or> off + n < off then Ok (- 1, []) s
      else
        let n = (if off + n > i_size I then i_size I - off else n) in
        bnd (readi_loop c ip n 0 off s) (\<lambda>bs. Ok (sint n, bs)))"

text \<open>The bytes of a block with \<open>m\<close> of them, from offset \<open>a\<close>, replaced by those of the source from index \<open>t\<close>.\<close>

definition blit :: "block \<Rightarrow> uint \<Rightarrow> (nat \<Rightarrow> uchar) \<Rightarrow> uint \<Rightarrow> uint \<Rightarrow> block" where
  "blit x a src t m = (\<lambda>k. if k - a < m then src (unat t + unat (k - a)) else x k)"

function writei_loop :: "nat \<Rightarrow> nat \<Rightarrow> (nat \<Rightarrow> uchar) \<Rightarrow> uint \<Rightarrow> uint \<Rightarrow> uint \<Rightarrow> ('x consstate_scheme, 'a) sys_scheme \<Rightarrow>
    (unit, ('x consstate_scheme, 'a) sys_scheme) res" where
  "writei_loop c ip src n tot off s =
     (if tot < n then
        bnd (bmap c ip (off div BSIZE) s) (\<lambda>addr s.
        bnd (bread c (i_dev (inodes (fsd s) ip)) addr s) (\<lambda>bp s.
        let m = chunk (n - tot) off;
            s = upd_fsd (upd_buf bp (\<lambda>x. x\<lparr>b_data := blit (b_data x) (off mod BSIZE) src tot m\<rparr>)) s in
        bnd (log_write c bp s) (\<lambda>_ s.
        bnd (brelse c bp s) (\<lambda>_ s.
        writei_loop c ip src n (tot + m) (off + m) s))))
      else Ok () s)"
  by pat_completeness auto
termination
  by (relation "measure (\<lambda>(c, ip, src, n, tot, off, s). unat (n - tot))") (simp_all add: chunk_decreases)

definition writei :: "nat \<Rightarrow> nat \<Rightarrow> (nat \<Rightarrow> uchar) \<Rightarrow> uint \<Rightarrow> uint \<Rightarrow> ('x consstate_scheme, 'a) sys_scheme \<Rightarrow>
    (int, ('x consstate_scheme, 'a) sys_scheme) res" where
  "writei c ip src off n s =
     (let I = inodes (fsd s) ip in
      if i_type I = T_DEV then
        (if sint (i_major I) < 0 \<or> sint (i_major I) \<ge> NDEV \<or> \<not> devsw_write (fsd s) (unat (i_major I)) then Ok (- 1) s
         else consolewrite c ip src (sint n) s)
      else if off > i_size I \<or> off + n < off then Ok (- 1) s
      else if off + n > MAXFILE * BSIZE then Ok (- 1) s
      else
        bnd (writei_loop c ip src n 0 off s) (\<lambda>_ s.
        bnd (if n > 0 \<and> off + n > i_size (inodes (fsd s) ip)
             then iupdate c ip (upd_fsd (upd_inode ip (\<lambda>x. x\<lparr>i_size := off + n\<rparr>)) s) else Ok () s) (\<lambda>_.
        Ok (sint n))))"

declare readi_loop.simps [simp del] writei_loop.simps [simp del]

subsection \<open>Directories\<close>

text \<open>The two names as objects of one memory, for \<open>strncmp\<close> and \<open>strncpy\<close>.\<close>

definition two_names :: "memory \<Rightarrow> memory \<Rightarrow> memory" where
  "two_names s t = (\<lambda>a. if a < 16 then s a else t (a - 16))"

definition namecmp :: "memory \<Rightarrow> memory \<Rightarrow> int" where
  "namecmp s t = strncmp (two_names s t) 0 16 14"

definition de_inum :: "uchar list \<Rightarrow> ushort" where
  "de_inum de = load16 (\<lambda>a. de ! unat a) 0"

definition de_name :: "uchar list \<Rightarrow> memory" where
  "de_name de = (\<lambda>a. de ! (unat a + 2))"

text \<open>The loop of \<open>dirlookup\<close> over the offsets that are left: the inode and the offset of its entry.\<close>

fun dirlookup_loop :: "nat \<Rightarrow> nat \<Rightarrow> memory \<Rightarrow> uint list \<Rightarrow> ('x consstate_scheme, 'a) sys_scheme \<Rightarrow>
    ((nat \<times> uint) option, ('x consstate_scheme, 'a) sys_scheme) res" where
  "dirlookup_loop c dp name [] s = Ok None s"
| "dirlookup_loop c dp name (off # offs) s =
     bnd (readi c dp off sizeof_dirent s) (\<lambda>(r, de) s.
     if r \<noteq> 16 then Panic ''dirlookup read''
     else if de_inum de = 0 then dirlookup_loop c dp name offs s
     else if namecmp name (de_name de) = 0 then
       bnd (iget c (i_dev (inodes (fsd s) dp)) (ucast (de_inum de)) s) (\<lambda>ip s. Ok (Some (ip, off)) s)
     else dirlookup_loop c dp name offs s)"

definition dir_offsets :: "uint \<Rightarrow> uint list" where
  "dir_offsets n = map (\<lambda>k. of_nat (16 * k)) [0..<(unat n + 15) div 16]"

definition dirlookup :: "nat \<Rightarrow> nat \<Rightarrow> memory \<Rightarrow> ('x consstate_scheme, 'a) sys_scheme \<Rightarrow>
    ((nat \<times> uint) option, ('x consstate_scheme, 'a) sys_scheme) res" where
  "dirlookup c dp name s =
     (if i_type (inodes (fsd s) dp) \<noteq> T_DIR then Panic ''dirlookup not DIR''
      else dirlookup_loop c dp name (dir_offsets (i_size (inodes (fsd s) dp))) s)"

text \<open>The search for an empty entry: its offset, if there is one.\<close>

fun dirlink_loop :: "nat \<Rightarrow> nat \<Rightarrow> uint list \<Rightarrow> ('x consstate_scheme, 'a) sys_scheme \<Rightarrow>
    (uint option, ('x consstate_scheme, 'a) sys_scheme) res" where
  "dirlink_loop c dp [] s = Ok None s"
| "dirlink_loop c dp (off # offs) s =
     bnd (readi c dp off sizeof_dirent s) (\<lambda>(r, de) s.
     if r \<noteq> 16 then Panic ''dirlink read''
     else if de_inum de = 0 then Ok (Some off) s
     else dirlink_loop c dp offs s)"

definition make_dirent :: "memory \<Rightarrow> uint \<Rightarrow> nat \<Rightarrow> uchar" where
  "make_dirent name inum =
     (let m = strncpy (two_names (\<lambda>_. 0) name) 0 16 (int DIRSIZ) in
      (\<lambda>k. if k < 2 then store16 (\<lambda>_. 0) 0 (ucast inum) (of_nat k) else m (of_nat (k - 2))))"

definition dirlink :: "nat \<Rightarrow> nat \<Rightarrow> memory \<Rightarrow> uint \<Rightarrow> ('x consstate_scheme, 'a) sys_scheme \<Rightarrow>
    (int, ('x consstate_scheme, 'a) sys_scheme) res" where
  "dirlink c dp name inum s =
     bnd (dirlookup c dp name s) (\<lambda>r s.
     case r of Some (ip, _) \<Rightarrow> bnd (iput c ip s) (\<lambda>_. Ok (- 1))
     | None \<Rightarrow>
        let offs = dir_offsets (i_size (inodes (fsd s) dp)) in
        bnd (dirlink_loop c dp offs s) (\<lambda>off s.
        let off = (case off of Some off \<Rightarrow> off | None \<Rightarrow> of_nat (16 * length offs)) in
        bnd (writei c dp (make_dirent name inum) off sizeof_dirent s) (\<lambda>r s.
        if r \<noteq> 16 then Panic ''dirlink'' else Ok 0 s)))"

subsection \<open>Paths\<close>

definition put_name :: "memory \<Rightarrow> string \<Rightarrow> memory" where
  "put_name name cs = (\<lambda>a. if unat a < length cs then of_char (cs ! unat a) else name a)"

definition skipelem :: "string \<Rightarrow> memory \<Rightarrow> (string \<times> memory) option" where
  "skipelem path name =
     (let path = dropWhile (\<lambda>ch. ch = CHR ''/'') path in
      if path = [] then None
      else
        let s = takeWhile (\<lambda>ch. ch \<noteq> CHR ''/'') path; path = dropWhile (\<lambda>ch. ch \<noteq> CHR ''/'') path;
            name = (if length s \<ge> DIRSIZ then put_name name (take DIRSIZ s)
                    else (put_name name s)(of_nat (length s) := 0))
        in Some (dropWhile (\<lambda>ch. ch = CHR ''/'') path, name))"

lemma skipelem_shorter: "skipelem path name = Some (path', name') \<Longrightarrow> length path' < length path"
proof -
  assume a: "skipelem path name = Some (path', name')"
  let ?p = "dropWhile (\<lambda>ch. ch = CHR ''/'') path"
  obtain x xs where p: "?p = x # xs" using a by (cases ?p) (auto simp: skipelem_def Let_def)
  then have "x \<noteq> CHR ''/''" by (metis (full_types) hd_dropWhile list.distinct(1) list.sel(1))
  then have "path' = dropWhile (\<lambda>ch. ch = CHR ''/'') (dropWhile (\<lambda>ch. ch \<noteq> CHR ''/'') xs)"
    using a p by (simp add: skipelem_def Let_def)
  then have "length path' \<le> length xs" by (metis length_dropWhile_le order_trans)
  moreover have "length (x # xs) \<le> length path" using length_dropWhile_le[of "\<lambda>ch. ch = CHR ''/''" path] p by simp
  ultimately show ?thesis by simp
qed

text \<open>The loop of \<open>namex\<close> from the inode \<open>ip\<close>: the inode found, and the contents of \<open>name\<close>.\<close>

function namex_loop :: "nat \<Rightarrow> nat \<Rightarrow> string \<Rightarrow> bool \<Rightarrow> memory \<Rightarrow> ('x consstate_scheme, 'a) sys_scheme \<Rightarrow>
    (nat option \<times> memory, ('x consstate_scheme, 'a) sys_scheme) res" where
  "namex_loop c ip path parent name s =
     (case skipelem path name of
        None \<Rightarrow> if parent then bnd (iput c ip s) (\<lambda>_. Ok (None, name)) else Ok (Some ip, name) s
      | Some (path, name) \<Rightarrow>
          bnd (ilock c (Some ip) s) (\<lambda>_ s.
          if i_type (inodes (fsd s) ip) \<noteq> T_DIR then bnd (iunlockput c ip s) (\<lambda>_. Ok (None, name))
          else if parent \<and> path = [] then bnd (iunlock c (Some ip) s) (\<lambda>_. Ok (Some ip, name))
          else bnd (dirlookup c ip name s) (\<lambda>r s.
            case r of None \<Rightarrow> bnd (iunlockput c ip s) (\<lambda>_. Ok (None, name))
            | Some (next, _) \<Rightarrow> bnd (iunlockput c ip s) (\<lambda>_. namex_loop c next path parent name))))"
  by pat_completeness auto
termination
  by (relation "measure (\<lambda>(c, ip, path, parent, name, s). length path)") (auto dest: skipelem_shorter)

declare namex_loop.simps [simp del]

definition namex :: "nat \<Rightarrow> string \<Rightarrow> bool \<Rightarrow> memory \<Rightarrow> ('x consstate_scheme, 'a) sys_scheme \<Rightarrow>
    (nat option \<times> memory, ('x consstate_scheme, 'a) sys_scheme) res" where
  "namex c path parent name s =
     bnd (if take 1 path = ''/'' then iget c ROOTDEV ROOTINO s
          else bnd (myproc c s) (\<lambda>p s. deref p (\<lambda>p s. deref (cwd (procs s p)) (idup c) s) s)) (\<lambda>ip s.
     namex_loop c ip path parent name s)"

definition namei :: "nat \<Rightarrow> string \<Rightarrow> ('x consstate_scheme, 'a) sys_scheme \<Rightarrow>
    (nat option, ('x consstate_scheme, 'a) sys_scheme) res" where
  "namei c path s = bnd (namex c path False (\<lambda>_. 0) s) (\<lambda>(ip, _). Ok ip)"

definition nameiparent :: "nat \<Rightarrow> string \<Rightarrow> memory \<Rightarrow> ('x consstate_scheme, 'a) sys_scheme \<Rightarrow>
    (nat option \<times> memory, ('x consstate_scheme, 'a) sys_scheme) res" where
  "nameiparent c path name s = namex c path True name s"

end
