(* ===== verification/File.thy ===== *)
theory File
  imports Fs
begin

text \<open>
  \<open>file.c\<close> and \<open>pipealloc\<close> of \<open>pipe.c\<close>: the table of open files. A file is named by its index in
  \<open>ftable.file\<close>.
\<close>

abbreviation (input) NFILE :: nat where "NFILE \<equiv> 100"

datatype fdtype = FD_NONE | FD_PIPE | FD_INODE

record kfile =
  f_type :: fdtype
  f_ref :: int
  f_readable :: bool
  f_writable :: bool
  f_pipe :: uint
  f_ip :: nat
  f_off :: uint

record filestate = consstate +
  files :: "nat \<Rightarrow> kfile"

definition upd_file :: "nat \<Rightarrow> (kfile \<Rightarrow> kfile) \<Rightarrow> 'x filestate_scheme \<Rightarrow> 'x filestate_scheme" where
  "upd_file f g d = d\<lparr>files := (files d)(f := g (files d f))\<rparr>"

subsection \<open>The code\<close>

definition fileinit :: "('x filestate_scheme, 'a) sys_scheme \<Rightarrow> ('x filestate_scheme, 'a) sys_scheme" where
  "fileinit s = initlock ftable_lock ''ftable'' s"

definition filealloc :: "nat \<Rightarrow> ('x filestate_scheme, 'a) sys_scheme \<Rightarrow> (nat option, ('x filestate_scheme, 'a) sys_scheme) res" where
  "filealloc c s =
     bnd (acquire c ftable_lock s) (\<lambda>_ s.
     case first_index (\<lambda>f. f_ref (files (fsd s) f) = 0) NFILE of
       Some f \<Rightarrow> bnd (release c ftable_lock (upd_fsd (upd_file f (\<lambda>x. x\<lparr>f_ref := 1\<rparr>)) s)) (\<lambda>_. Ok (Some f))
     | None \<Rightarrow> bnd (release c ftable_lock s) (\<lambda>_. Ok None))"

definition filedup :: "nat \<Rightarrow> nat \<Rightarrow> ('x filestate_scheme, 'a) sys_scheme \<Rightarrow> (nat, ('x filestate_scheme, 'a) sys_scheme) res" where
  "filedup c f s =
     bnd (acquire c ftable_lock s) (\<lambda>_ s.
     if f_ref (files (fsd s) f) < 1 then Panic ''filedup''
     else bnd (release c ftable_lock (upd_fsd (upd_file f (\<lambda>x. x\<lparr>f_ref := f_ref x + 1\<rparr>)) s)) (\<lambda>_. Ok f))"

definition fileclose :: "nat \<Rightarrow> nat \<Rightarrow> ('x filestate_scheme, 'a) sys_scheme \<Rightarrow> (unit, ('x filestate_scheme, 'a) sys_scheme) res" where
  "fileclose c f s =
     bnd (acquire c ftable_lock s) (\<lambda>_ s.
     if f_ref (files (fsd s) f) < 1 then Panic ''fileclose''
     else
       let s = upd_fsd (upd_file f (\<lambda>x. x\<lparr>f_ref := f_ref x - 1\<rparr>)) s in
       if f_ref (files (fsd s) f) > 0 then release c ftable_lock s
       else
         let ff = files (fsd s) f;
             s = upd_fsd (upd_file f (\<lambda>x. x\<lparr>f_ref := 0, f_type := FD_NONE\<rparr>)) s in
         bnd (release c ftable_lock s) (\<lambda>_ s.
         case f_type ff of
           FD_PIPE \<Rightarrow> pipeclose c (f_pipe ff) (f_writable ff) s
         | FD_INODE \<Rightarrow> bnd (begin_op c s) (\<lambda>_ s. bnd (iput c (f_ip ff) s) (\<lambda>_. end_op c))
         | FD_NONE \<Rightarrow> Ok () s))"

text \<open>The result of \<open>filestat\<close> and the structure it fills.\<close>

definition filestat :: "nat \<Rightarrow> nat \<Rightarrow> ('x filestate_scheme, 'a) sys_scheme \<Rightarrow> (int \<times> stat option, ('x filestate_scheme, 'a) sys_scheme) res" where
  "filestat c f s =
     (if f_type (files (fsd s) f) = FD_INODE then
        let ip = f_ip (files (fsd s) f) in
        bnd (ilock c (Some ip) s) (\<lambda>_ s.
        let st = stati (inodes (fsd s) ip) in
        bnd (iunlock c (Some ip) s) (\<lambda>_. Ok (0, Some st)))
      else Ok (- 1, None) s)"

definition fileread :: "nat \<Rightarrow> nat \<Rightarrow> int \<Rightarrow> ('x filestate_scheme, 'a) sys_scheme \<Rightarrow> (int \<times> uchar list, ('x filestate_scheme, 'a) sys_scheme) res" where
  "fileread c f n s =
     (let F = files (fsd s) f in
      if \<not> f_readable F then Ok (- 1, []) s
      else case f_type F of
        FD_PIPE \<Rightarrow> piperead c (f_pipe F) n s
      | FD_INODE \<Rightarrow>
          bnd (ilock c (Some (f_ip F)) s) (\<lambda>_ s.
          bnd (readi c (f_ip F) (f_off (files (fsd s) f)) (word_of_int n) s) (\<lambda>(r, bs) s.
          let s = (if r > 0 then upd_fsd (upd_file f (\<lambda>x. x\<lparr>f_off := f_off x + word_of_int r\<rparr>)) s else s) in
          bnd (iunlock c (Some (f_ip F)) s) (\<lambda>_. Ok (r, bs))))
      | FD_NONE \<Rightarrow> Panic ''fileread'')"

text \<open>\<open>max\<close> of \<open>filewrite\<close>, and its loop from index \<open>i\<close>.\<close>

definition write_max :: int where
  "write_max = ((MAXOPBLOCKS - 1 - 1 - 2) div 2) * 512"

function filewrite_loop :: "nat \<Rightarrow> nat \<Rightarrow> nat \<Rightarrow> (nat \<Rightarrow> uchar) \<Rightarrow> int \<Rightarrow> int \<Rightarrow> ('x filestate_scheme, 'a) sys_scheme \<Rightarrow>
    (int, ('x filestate_scheme, 'a) sys_scheme) res" where
  "filewrite_loop c f ip addr n i s =
     (if i < n then
        let n1 = (if n - i > write_max then write_max else n - i) in
        bnd (begin_op c s) (\<lambda>_ s.
        bnd (ilock c (Some ip) s) (\<lambda>_ s.
        bnd (writei c ip (\<lambda>k. addr (nat i + k)) (f_off (files (fsd s) f)) (word_of_int n1) s) (\<lambda>r s.
        let s = (if r > 0 then upd_fsd (upd_file f (\<lambda>x. x\<lparr>f_off := f_off x + word_of_int r\<rparr>)) s else s) in
        bnd (iunlock c (Some ip) s) (\<lambda>_ s.
        bnd (end_op c s) (\<lambda>_ s.
        if r < 0 then Ok (if i = n then n else - 1) s
        else if r \<noteq> n1 then Panic ''short filewrite''
        else filewrite_loop c f ip addr n (i + n1) s)))))
      else Ok (if i = n then n else - 1) s)"
  by pat_completeness auto
termination
  by (relation "measure (\<lambda>(c, f, ip, addr, n, i, s). nat (n - i))") (auto simp: write_max_def)

declare filewrite_loop.simps [simp del]

definition filewrite :: "nat \<Rightarrow> nat \<Rightarrow> (nat \<Rightarrow> uchar) \<Rightarrow> int \<Rightarrow> ('x filestate_scheme, 'a) sys_scheme \<Rightarrow> (int, ('x filestate_scheme, 'a) sys_scheme) res" where
  "filewrite c f addr n s =
     (let F = files (fsd s) f in
      if \<not> f_writable F then Ok (- 1) s
      else case f_type F of
        FD_PIPE \<Rightarrow> pipewrite c (f_pipe F) addr n s
      | FD_INODE \<Rightarrow> filewrite_loop c f (f_ip F) addr n 0 s
      | FD_NONE \<Rightarrow> Panic ''filewrite'')"

text \<open>
  \<open>pipealloc\<close>: the two files, or \<open>None\<close> for \<open>-1\<close>. Its error exit is only reached with \<open>p == 0\<close>.
\<close>

definition pipealloc :: "nat \<Rightarrow> ('x filestate_scheme, 'a) sys_scheme \<Rightarrow> ((nat \<times> nat) option, ('x filestate_scheme, 'a) sys_scheme) res" where
  "pipealloc c s =
     bnd (filealloc c s) (\<lambda>f0 s.
     case f0 of None \<Rightarrow> Ok None s | Some f0 \<Rightarrow>
     bnd (filealloc c s) (\<lambda>f1 s.
     case f1 of None \<Rightarrow> bnd (fileclose c f0 s) (\<lambda>_. Ok None) | Some f1 \<Rightarrow>
     bnd (kalloc c s) (\<lambda>p s.
     if p = 0 then bnd (fileclose c f0 s) (\<lambda>_ s. bnd (fileclose c f1 s) (\<lambda>_. Ok None))
     else
       let s = upd_fsd (upd_pipe p (\<lambda>x. x\<lparr>readopen := True, writeopen := True, nwrite := 0, nread := 0\<rparr>)) s;
           s = initlock (pipe_lock p) ''pipe'' s;
           s = upd_fsd (upd_file f0 (\<lambda>x. x\<lparr>f_type := FD_PIPE, f_readable := True, f_writable := False, f_pipe := p\<rparr>)) s;
           s = upd_fsd (upd_file f1 (\<lambda>x. x\<lparr>f_type := FD_PIPE, f_readable := False, f_writable := True, f_pipe := p\<rparr>)) s
       in Ok (Some (f0, f1)) s)))"

end
