(* ===== verification/Syscall.thy ===== *)
theory Syscall
  imports File Addrspace
begin

text \<open>
  The arguments of system calls (\<open>syscall.c\<close>): words and strings in the memory of the calling process,
  which the kernel reads through the page table the CPU has loaded. A result of -1 is \<open>None\<close>; an access
  to an address that is not mapped is a page fault in the kernel.
\<close>

subsection \<open>User memory\<close>

text \<open>The kernel address of the byte at a user address.\<close>

definition uaddr :: "nat \<Rightarrow> uint \<Rightarrow> 'a machine_scheme \<Rightarrow> uint option" where
  "uaddr c va s = map_option (\<lambda>(pa, fl). P2V pa + va mod PGSIZE) (mapping (mem s) (P2V (cr3 (cpus s c))) va)"

definition uload :: "nat \<Rightarrow> uint \<Rightarrow> 'a machine_scheme \<Rightarrow> uchar option" where
  "uload c va s = map_option (mem s) (uaddr c va s)"

fun uload_bytes :: "nat \<Rightarrow> uint \<Rightarrow> nat \<Rightarrow> 'a machine_scheme \<Rightarrow> uchar list option" where
  "uload_bytes c va 0 s = Some []"
| "uload_bytes c va (Suc n) s =
     (case (uload c va s, uload_bytes c (va + 1) n s) of (Some b, Some bs) \<Rightarrow> Some (b # bs) | _ \<Rightarrow> None)"

fun ustore_bytes :: "nat \<Rightarrow> uint \<Rightarrow> uchar list \<Rightarrow> 'a machine_scheme \<Rightarrow> (unit, 'a machine_scheme) res" where
  "ustore_bytes c va [] s = Ok () s"
| "ustore_bytes c va (b # bs) s =
     (case uaddr c va s of None \<Rightarrow> Fault ''page fault''
      | Some a \<Rightarrow> ustore_bytes c (va + 1) bs (s\<lparr>mem := (mem s)(a := b)\<rparr>))"

definition word_of_bytes :: "uchar list \<Rightarrow> uint" where
  "word_of_bytes bs = load32 (\<lambda>a. bs ! unat a) 0"

definition bytes_of_word :: "uint \<Rightarrow> uchar list" where
  "bytes_of_word v = map (\<lambda>k. store32 (\<lambda>_. 0) 0 v (of_nat k)) [0..<4]"

subsection \<open>Arguments\<close>

definition fetchint :: "nat \<Rightarrow> uint \<Rightarrow> 'a kernel_scheme \<Rightarrow> (uint option, 'a kernel_scheme) res" where
  "fetchint c addr s =
     bnd (myproc c s) (\<lambda>p s. deref p (\<lambda>p s.
     if addr \<ge> sz (procs s p) \<or> addr + 4 > sz (procs s p) then Ok None s
     else case uload_bytes c addr 4 s of None \<Rightarrow> Fault ''page fault'' | Some bs \<Rightarrow> Ok (Some (word_of_bytes bs)) s) s)"

text \<open>The scan of \<open>fetchstr\<close>: the string, \<open>None\<close> if no NUL is found; the outer \<open>None\<close> is a page fault.\<close>

function ustr :: "nat \<Rightarrow> uint \<Rightarrow> uint \<Rightarrow> 'a machine_scheme \<Rightarrow> string option option" where
  "ustr c ep a s =
     (if a < ep then
        case uload c a s of None \<Rightarrow> None
        | Some b \<Rightarrow> if b = 0 then Some (Some []) else map_option (map_option ((#) (char_of (unat b)))) (ustr c ep (a + 1) s)
      else Some None)"
  by pat_completeness auto
termination
proof (relation "measure (\<lambda>(c, ep, a, s). unat (ep - a))")
  fix c :: nat and ep a :: uint and s :: "'a machine_scheme" and x2
  assume "a < ep"
  then have "unat (ep - a) = Suc (unat (ep - (a + 1)))" by (intro unat_diff_Suc) auto
  then show "((c, ep, a + 1, s), c, ep, a, s) \<in> measure (\<lambda>(c, ep, a, s). unat (ep - a))" by simp
qed simp

declare ustr.simps [simp del]

definition fetchstr :: "nat \<Rightarrow> uint \<Rightarrow> 'a kernel_scheme \<Rightarrow> (string option, 'a kernel_scheme) res" where
  "fetchstr c addr s =
     bnd (myproc c s) (\<lambda>p s. deref p (\<lambda>p s.
     if addr \<ge> sz (procs s p) then Ok None s
     else case ustr c (sz (procs s p)) addr s of None \<Rightarrow> Fault ''page fault'' | Some r \<Rightarrow> Ok r s) s)"

definition argint :: "nat \<Rightarrow> int \<Rightarrow> 'a kernel_scheme \<Rightarrow> (uint option, 'a kernel_scheme) res" where
  "argint c n s =
     bnd (mythread c s) (\<lambda>qt s. deref qt (\<lambda>(q, t) s.
     fetchint c (load32 (mem s) (tf (thr s q t) + tf_esp) + 4 + 4 * word_of_int n) s) s)"

definition argptr :: "nat \<Rightarrow> int \<Rightarrow> int \<Rightarrow> 'a kernel_scheme \<Rightarrow> (uint option, 'a kernel_scheme) res" where
  "argptr c n len s =
     bnd (myproc c s) (\<lambda>p s.
     bnd (argint c n s) (\<lambda>r s.
     case r of None \<Rightarrow> Ok None s
     | Some i \<Rightarrow> deref p (\<lambda>p s.
         if len < 0 \<or> i \<ge> sz (procs s p) \<or> i + word_of_int len > sz (procs s p) then Ok None s
         else Ok (Some i) s) s))"

definition argstr :: "nat \<Rightarrow> int \<Rightarrow> 'a kernel_scheme \<Rightarrow> (string option, 'a kernel_scheme) res" where
  "argstr c n s =
     bnd (argint c n s) (\<lambda>r s. case r of None \<Rightarrow> Ok None s | Some addr \<Rightarrow> fetchstr c addr s)"

end
