(* ===== verification/Exec.thy ===== *)
theory Exec
  imports Syscall Kthread
begin

text \<open>
  \<open>exec.c\<close> and \<open>loaduvm\<close> of \<open>vm.c\<close>: loading of a program. The arguments of \<open>exec\<close> are strings; the header
  structures of the file are the bytes that \<open>readi\<close> returns. The loop of \<open>kill_threads\<close> that waits for the
  other threads of the process has the outcome \<open>Spin\<close> as long as one of them is alive.
\<close>

abbreviation (input) MAXARG :: nat where "MAXARG \<equiv> 32"
abbreviation (input) ELF_MAGIC :: uint where "ELF_MAGIC \<equiv> 0x464C457F"
abbreviation (input) sizeof_elfhdr :: uint where "sizeof_elfhdr \<equiv> 52"
abbreviation (input) sizeof_proghdr :: uint where "sizeof_proghdr \<equiv> 32"

record elfhdr =
  elf_magic :: uint
  elf_entry :: uint
  elf_phoff :: uint
  elf_phnum :: ushort

record proghdr =
  ph_type :: uint
  ph_off :: uint
  ph_vaddr :: uint
  ph_filesz :: uint
  ph_memsz :: uint

definition elf_of :: "uchar list \<Rightarrow> elfhdr" where
  "elf_of bs = (let m = (\<lambda>a. bs ! unat a) in
     \<lparr>elf_magic = load32 m 0, elf_entry = load32 m 24, elf_phoff = load32 m 28, elf_phnum = load16 m 44\<rparr>)"

definition ph_of :: "uchar list \<Rightarrow> proghdr" where
  "ph_of bs = (let m = (\<lambda>a. bs ! unat a) in
     \<lparr>ph_type = load32 m 0, ph_off = load32 m 4, ph_vaddr = load32 m 8, ph_filesz = load32 m 16, ph_memsz = load32 m 20\<rparr>)"

subsection \<open>Loading of segments\<close>

text \<open>Bytes that \<open>readi\<close> stores at a kernel address.\<close>

definition put_bytes :: "memory \<Rightarrow> uint \<Rightarrow> uchar list \<Rightarrow> memory" where
  "put_bytes m a bs = (\<lambda>x. if unat (x - a) < length bs then bs ! unat (x - a) else m x)"

fun loaduvm_loop :: "nat \<Rightarrow> uint \<Rightarrow> uint \<Rightarrow> nat \<Rightarrow> uint \<Rightarrow> uint \<Rightarrow> uint list \<Rightarrow> ('x consstate_scheme, 'a) sys_scheme \<Rightarrow>
    (int, ('x consstate_scheme, 'a) sys_scheme) res" where
  "loaduvm_loop c dir addr ip offset n [] s = Ok 0 s"
| "loaduvm_loop c dir addr ip offset n (i # is) s =
     bnd (walkpgdir c dir (addr + i) False s) (\<lambda>pte s.
     if pte = 0 then Panic ''loaduvm: address should exist''
     else
       let pa = PTE_ADDR (load32 (mem s) pte);
           k = (if n - i < PGSIZE then n - i else PGSIZE) in
       bnd (readi c ip (offset + i) k s) (\<lambda>(r, bs) s.
       let s = s\<lparr>mem := put_bytes (mem s) (P2V pa) bs\<rparr> in
       if r \<noteq> sint k then Ok (- 1) s else loaduvm_loop c dir addr ip offset n is s))"

definition loaduvm :: "nat \<Rightarrow> uint \<Rightarrow> uint \<Rightarrow> nat \<Rightarrow> uint \<Rightarrow> uint \<Rightarrow> ('x consstate_scheme, 'a) sys_scheme \<Rightarrow>
    (int, ('x consstate_scheme, 'a) sys_scheme) res" where
  "loaduvm c dir addr ip offset n s =
     (if addr mod PGSIZE \<noteq> 0 then Panic ''loaduvm: addr must be page aligned''
      else loaduvm_loop c dir addr ip offset n (pages_from 0 n) s)"

subsection \<open>The other threads\<close>

definition kill_mark :: "nat \<times> nat \<Rightarrow> nat \<Rightarrow> nat \<Rightarrow> 'a kernel_scheme \<Rightarrow> 'a kernel_scheme" where
  "kill_mark cur p t s =
     (let s = (if (p, t) \<noteq> cur \<and> t_state (thr s p t) \<noteq> UNUSED then upd_thread p t (\<lambda>x. x\<lparr>t_killed := True\<rparr>) s else s) in
      if t_state (thr s p t) = SLEEPING then upd_thread p t (\<lambda>x. x\<lparr>t_state := RUNNABLE\<rparr>) s else s)"

text \<open>One pass over the threads, which counts the dead ones and makes zombies available again.\<close>

fun kill_pass :: "nat \<Rightarrow> nat \<times> nat \<Rightarrow> nat \<Rightarrow> nat list \<Rightarrow> nat \<Rightarrow> 'a kernel_scheme \<Rightarrow> (nat, 'a kernel_scheme) res" where
  "kill_pass c cur p [] k s = Ok k s"
| "kill_pass c cur p (t # ts) k s =
     (if (p, t) \<noteq> cur \<and> (t_state (thr s p t) = ZOMBIE \<or> t_state (thr s p t) = UNUSED) then
        (if t_state (thr s p t) = ZOMBIE then
           let s = upd_thread p t (\<lambda>x. x\<lparr>tid := - 1\<rparr>) s in
           bnd (kfree c (kstack (thr s p t)) s) (\<lambda>_ s.
           kill_pass c cur p ts (Suc k) (upd_thread p t (\<lambda>x. x\<lparr>kstack := 0, blocked := False, t_state := UNUSED\<rparr>) s))
         else kill_pass c cur p ts (Suc k) s)
      else kill_pass c cur p ts k s)"

definition kill_threads :: "nat \<Rightarrow> nat \<Rightarrow> 'a kernel_scheme \<Rightarrow> (unit, 'a kernel_scheme) res" where
  "kill_threads c p s =
     bnd (mythread c s) (\<lambda>cur s. deref cur (\<lambda>cur s.
     bnd (acquire_tt c p s) (\<lambda>_ s.
     bnd (release_tt c p (fold (kill_mark cur p) [0..<NTHREAD] s)) (\<lambda>_ s.
     bnd (acquire_tt c p s) (\<lambda>_ s.
     bnd (kill_pass c cur p [0..<NTHREAD] 0 s) (\<lambda>k s.
     bnd (release_tt c p s) (\<lambda>_ s.
     if k < NTHREAD - 1 then Spin
     else
       bnd (acquire_tt c p s) (\<lambda>_ s.
       release_tt c p (upd_proc p (\<lambda>P. P\<lparr>mid := (\<lambda>i. i \<ge> MAX_MUTEXES \<and> mid P i)\<rparr>) s)))))))) s)"

subsection \<open>exec\<close>

text \<open>\<open>copyout\<close> for a source that is given by its bytes.\<close>

function copyout_bytes :: "nat \<Rightarrow> uint \<Rightarrow> uint \<Rightarrow> uchar list \<Rightarrow> 'a kmem_scheme \<Rightarrow> (int, 'a kmem_scheme) res" where
  "copyout_bytes c dir va bs s =
     (if bs = [] then Ok 0 s
      else
        let va0 = PGROUNDDOWN va in
        bnd (uva2ka c dir va0 s) (\<lambda>pa0 s.
        if pa0 = 0 then Ok (- 1) s
        else
          let n = unat (PGSIZE - (va - va0)) in
          copyout_bytes c dir (va0 + PGSIZE) (drop n bs) (s\<lparr>mem := put_bytes (mem s) (pa0 + (va - va0)) (take n bs)\<rparr>)))"
  by pat_completeness auto
termination
proof (relation "measure (\<lambda>(c, dir, va, bs, s). length bs)")
  fix c :: nat and dir va va0 x n :: uint and bs :: "uchar list" and s s' :: "'a kmem_scheme" and k
  assume "bs \<noteq> []" "va0 = PGROUNDDOWN va" "k = unat (PGSIZE - (va - va0))"
  moreover have "0 < unat (PGSIZE - (va - PGROUNDDOWN va))"
    using copyout_dec[of "PGSIZE - (va - PGROUNDDOWN va)" va] copyout_dec[of 1 va]
    by (cases "PGSIZE - (va - PGROUNDDOWN va) = 0") (auto simp: unat_gt_0)
  ultimately show "((c, dir, va0 + PGSIZE, drop k bs, s'), c, dir, va, bs, s) \<in> measure (\<lambda>(c, dir, va, bs, s). length bs)"
    by simp
qed simp

declare copyout_bytes.simps [simp del]

fun exec_load :: "nat \<Rightarrow> nat \<Rightarrow> uint \<Rightarrow> nat \<Rightarrow> uint \<Rightarrow> uint \<Rightarrow> ('x consstate_scheme, 'a) sys_scheme \<Rightarrow>
    (uint option, ('x consstate_scheme, 'a) sys_scheme) res" where
  "exec_load c ip dir 0 off n s = Ok (Some n) s"
| "exec_load c ip dir (Suc k) off n s =
     bnd (readi c ip off sizeof_proghdr s) (\<lambda>(r, bs) s.
     if r \<noteq> 32 then Ok None s
     else
       let ph = ph_of bs in
       if ph_type ph \<noteq> 1 then exec_load c ip dir k (off + sizeof_proghdr) n s
       else if ph_memsz ph < ph_filesz ph then Ok None s
       else if ph_vaddr ph + ph_memsz ph < ph_vaddr ph then Ok None s
       else
         bnd (allocuvm c dir n (ph_vaddr ph + ph_memsz ph) s) (\<lambda>n s.
         if n = 0 then Ok None s
         else if ph_vaddr ph mod PGSIZE \<noteq> 0 then Ok None s
         else
           bnd (loaduvm c dir (ph_vaddr ph) ip (ph_off ph) (ph_filesz ph) s) (\<lambda>r s.
           if r < 0 then Ok None s
           else exec_load c ip dir k (off + sizeof_proghdr) n s)))"

definition bytes_of :: "string \<Rightarrow> uchar list" where
  "bytes_of str = map of_char str"

text \<open>The loop over the arguments: the stack pointer and the entries of \<open>ustack\<close>.\<close>

fun exec_args :: "nat \<Rightarrow> uint \<Rightarrow> string list \<Rightarrow> uint \<Rightarrow> uint list \<Rightarrow> ('x consstate_scheme, 'a) sys_scheme \<Rightarrow>
    ((uint \<times> uint list) option, ('x consstate_scheme, 'a) sys_scheme) res" where
  "exec_args c dir [] sp us s = Ok (Some (sp, us)) s"
| "exec_args c dir (a # argv) sp us s =
     (if length us \<ge> MAXARG then Ok None s
      else
        let sp = (sp - of_nat (length a + 1)) AND NOT 3 in
        bnd (copyout_bytes c dir sp (bytes_of a @ [0]) s) (\<lambda>r s.
        if r < 0 then Ok None s else exec_args c dir argv sp (us @ [sp]) s))"

definition exec_bad :: "nat \<Rightarrow> uint \<Rightarrow> nat option \<Rightarrow> ('x consstate_scheme, 'a) sys_scheme \<Rightarrow>
    (int, ('x consstate_scheme, 'a) sys_scheme) res" where
  "exec_bad c dir ip s =
     bnd (if dir \<noteq> 0 then freevm c dir s else Ok () s) (\<lambda>_ s.
     case ip of None \<Rightarrow> Ok (- 1) s
     | Some ip \<Rightarrow> bnd (iunlockput c ip s) (\<lambda>_ s. bnd (end_op c s) (\<lambda>_. Ok (- 1))))"

definition last_elem :: "string \<Rightarrow> string" where
  "last_elem path = rev (takeWhile (\<lambda>ch. ch \<noteq> CHR ''/'') (rev path))"

text \<open>From the saving of the name to the end: the commit to the new image.\<close>

definition exec_commit :: "nat \<Rightarrow> nat \<Rightarrow> nat \<times> nat \<Rightarrow> string \<Rightarrow> uint \<Rightarrow> uint \<Rightarrow> uint \<Rightarrow> uint \<Rightarrow> ('x consstate_scheme, 'a) sys_scheme \<Rightarrow>
    (int, ('x consstate_scheme, 'a) sys_scheme) res" where
  "exec_commit c p cur path dir n entry sp s =
     (let s = upd_proc p (\<lambda>P. P\<lparr>p_name := take 15 (last_elem path)\<rparr>) s in
      bnd (acquire_tt c p s) (\<lambda>_ s.
      if p_state (procs s p) = ZOMBIE \<or> t_killed (thr s (fst cur) (snd cur))
      then bnd (release_tt c p s) (\<lambda>_. exec_bad c dir None)
      else
        let oldpgdir = pgdir (procs s p); frame = tf (thr s (fst cur) (snd cur));
            s = upd_proc p (\<lambda>P. P\<lparr>pgdir := dir, sz := n\<rparr>) s;
            s = s\<lparr>mem := store32 (mem s) (frame + tf_eip) entry\<rparr>;
            s = s\<lparr>mem := store32 (mem s) (frame + tf_esp) sp\<rparr> in
        bnd (release_tt c p s) (\<lambda>_ s.
        bnd (switchuvm c (Some p) s) (\<lambda>_ s.
        bnd (freevm c oldpgdir s) (\<lambda>_. Ok 0)))))"

definition exec_stack :: "nat \<Rightarrow> nat \<Rightarrow> nat \<times> nat \<Rightarrow> string \<Rightarrow> string list \<Rightarrow> uint \<Rightarrow> uint \<Rightarrow> uint \<Rightarrow> ('x consstate_scheme, 'a) sys_scheme \<Rightarrow>
    (int, ('x consstate_scheme, 'a) sys_scheme) res" where
  "exec_stack c p cur path argv dir n entry s =
     bnd (allocuvm c dir (PGROUNDUP n) (PGROUNDUP n + 2 * PGSIZE) s) (\<lambda>n s.
     if n = 0 then exec_bad c dir None s
     else
       bnd (clearpteu c dir (n - 2 * PGSIZE) s) (\<lambda>_ s.
       bnd (exec_args c dir argv n [] s) (\<lambda>r s.
       case r of None \<Rightarrow> exec_bad c dir None s
       | Some (sp, us) \<Rightarrow>
           let argc = of_nat (length us);
               ustack = [0xFFFFFFFF, argc, sp - (argc + 1) * 4] @ us @ [0];
               sp = sp - (3 + argc + 1) * 4 in
           bnd (copyout_bytes c dir sp (concat (map bytes_of_word ustack)) s) (\<lambda>r s.
           if r < 0 then exec_bad c dir None s
           else exec_commit c p cur path dir n entry sp s))))"

definition exec :: "nat \<Rightarrow> string \<Rightarrow> string list \<Rightarrow> ('x consstate_scheme, 'a) sys_scheme \<Rightarrow>
    (int, ('x consstate_scheme, 'a) sys_scheme) res" where
  "exec c path argv s =
     bnd (myproc c s) (\<lambda>p s.
     bnd (mythread c s) (\<lambda>cur s. deref p (\<lambda>p s. deref cur (\<lambda>cur s.
     bnd (kill_threads c p s) (\<lambda>_ s.
     bnd (begin_op c s) (\<lambda>_ s.
     bnd (namei c path s) (\<lambda>ip s.
     case ip of
       None \<Rightarrow> bnd (end_op c s) (\<lambda>_ s. bnd (cprintf c (\<lambda>_. []) (''exec: fail'' @ [CHR 0x0A]) (\<lambda>_. 0) s) (\<lambda>_. Ok (- 1)))
     | Some ip \<Rightarrow>
         bnd (ilock c (Some ip) s) (\<lambda>_ s.
         bnd (readi c ip 0 sizeof_elfhdr s) (\<lambda>(r, bs) s.
         if r \<noteq> 52 \<or> elf_magic (elf_of bs) \<noteq> ELF_MAGIC then exec_bad c 0 (Some ip) s
         else
           bnd (setupkvm c s) (\<lambda>dir s.
           if dir = 0 then exec_bad c 0 (Some ip) s
           else
             bnd (exec_load c ip dir (unat (elf_phnum (elf_of bs))) (elf_phoff (elf_of bs)) 0 s) (\<lambda>r s.
             case r of None \<Rightarrow> exec_bad c dir (Some ip) s
             | Some n \<Rightarrow>
                 bnd (iunlockput c ip s) (\<lambda>_ s.
                 bnd (end_op c s) (\<lambda>_.
                 exec_stack c p cur path argv dir n (elf_entry (elf_of bs)))))))))))) s) s))"

end
