(* ===== verification/Sysfile.thy ===== *)
theory Sysfile
  imports Exec
begin

text \<open>
  \<open>sysfile.c\<close>: the system calls on files. The bytes a call stores for its caller are written through the
  page table of the CPU when the call of the file layer has returned; the bytes \<open>sys_write\<close> takes are read
  before.
\<close>

abbreviation (input) NOFILE :: nat where "NOFILE \<equiv> 16"
abbreviation (input) O_WRONLY :: uint where "O_WRONLY \<equiv> 1"
abbreviation (input) O_RDWR :: uint where "O_RDWR \<equiv> 2"
abbreviation (input) O_CREATE :: uint where "O_CREATE \<equiv> 0x200"

text \<open>\<open>if(f(..., &x) < 0) return -1;\<close>\<close>

definition need :: "('s \<Rightarrow> ('x option, 's) res) \<Rightarrow> ('x \<Rightarrow> 's \<Rightarrow> (int, 's) res) \<Rightarrow> 's \<Rightarrow> (int, 's) res" where
  "need m k s = bnd (m s) (\<lambda>r s. case r of None \<Rightarrow> Ok (- 1) s | Some x \<Rightarrow> k x s)"

subsection \<open>Descriptors\<close>

text \<open>Reading \<open>myproc()->ofile[fd]\<close>; an index outside the array is a fault of the model.\<close>

definition ofile_read :: "nat \<Rightarrow> int \<Rightarrow> 'a kernel_scheme \<Rightarrow> (nat option, 'a kernel_scheme) res" where
  "ofile_read p fd s =
     (if 0 \<le> fd \<and> fd < int NOFILE then Ok (ofile (procs s p) (nat fd)) s else Fault ''ofile index'')"

definition argfd :: "nat \<Rightarrow> int \<Rightarrow> 'a kernel_scheme \<Rightarrow> ((nat \<times> nat) option, 'a kernel_scheme) res" where
  "argfd c n s =
     bnd (argint c n s) (\<lambda>r s.
     case r of None \<Rightarrow> Ok None s
     | Some v \<Rightarrow>
         if sint v < 0 \<or> sint v \<ge> int NOFILE then Ok None s
         else bnd (myproc c s) (\<lambda>p s. deref p (\<lambda>p s.
           bnd (ofile_read p (sint v) s) (\<lambda>f s. Ok (map_option (Pair (nat (sint v))) f) s)) s))"

definition fdalloc :: "nat \<Rightarrow> nat \<Rightarrow> 'a kernel_scheme \<Rightarrow> (nat option, 'a kernel_scheme) res" where
  "fdalloc c f s =
     bnd (myproc c s) (\<lambda>p s. deref p (\<lambda>p s.
     case first_index (\<lambda>fd. ofile (procs s p) fd = None) NOFILE of
       Some fd \<Rightarrow> Ok (Some fd) (upd_proc p (\<lambda>P. P\<lparr>ofile := (ofile P)(fd := Some f)\<rparr>) s)
     | None \<Rightarrow> Ok None s) s)"

text \<open>\<open>myproc()->ofile[fd] = 0\<close>.\<close>

definition fdclear :: "nat \<Rightarrow> nat \<Rightarrow> 'a kernel_scheme \<Rightarrow> (unit, 'a kernel_scheme) res" where
  "fdclear c fd s =
     bnd (myproc c s) (\<lambda>p s. deref p (\<lambda>p s. Ok () (upd_proc p (\<lambda>P. P\<lparr>ofile := (ofile P)(fd := None)\<rparr>) s)) s)"

definition sys_dup :: "nat \<Rightarrow> ('x filestate_scheme, 'a) sys_scheme \<Rightarrow> (int, ('x filestate_scheme, 'a) sys_scheme) res" where
  "sys_dup c =
     need (argfd c 0) (\<lambda>(_, f).
     need (fdalloc c f) (\<lambda>fd s.
     bnd (filedup c f s) (\<lambda>_. Ok (int fd))))"

definition sys_read :: "nat \<Rightarrow> ('x filestate_scheme, 'a) sys_scheme \<Rightarrow> (int, ('x filestate_scheme, 'a) sys_scheme) res" where
  "sys_read c =
     need (argfd c 0) (\<lambda>(_, f).
     need (argint c 2) (\<lambda>n.
     need (argptr c 1 (sint n)) (\<lambda>p s.
     bnd (fileread c f (sint n) s) (\<lambda>(r, bs) s.
     bnd (ustore_bytes c p bs s) (\<lambda>_. Ok r)))))"

definition sys_write :: "nat \<Rightarrow> ('x filestate_scheme, 'a) sys_scheme \<Rightarrow> (int, ('x filestate_scheme, 'a) sys_scheme) res" where
  "sys_write c =
     need (argfd c 0) (\<lambda>(_, f).
     need (argint c 2) (\<lambda>n.
     need (argptr c 1 (sint n)) (\<lambda>p s.
     case uload_bytes c p (nat (sint n)) s of None \<Rightarrow> Fault ''page fault''
     | Some bs \<Rightarrow> filewrite c f (\<lambda>i. bs ! i) (sint n) s)))"

definition sys_close :: "nat \<Rightarrow> ('x filestate_scheme, 'a) sys_scheme \<Rightarrow> (int, ('x filestate_scheme, 'a) sys_scheme) res" where
  "sys_close c =
     need (argfd c 0) (\<lambda>(fd, f) s.
     bnd (fdclear c fd s) (\<lambda>_ s.
     bnd (fileclose c f s) (\<lambda>_. Ok 0)))"

text \<open>The fields of \<open>struct stat\<close> in user memory; two pairs of bytes are padding.\<close>

definition put_stat :: "nat \<Rightarrow> uint \<Rightarrow> stat \<Rightarrow> 'a machine_scheme \<Rightarrow> (unit, 'a machine_scheme) res" where
  "put_stat c a st s =
     bnd (ustore_bytes c (a + 4) (bytes_of_word (st_dev st)) s) (\<lambda>_ s.
     bnd (ustore_bytes c (a + 8) (bytes_of_word (st_ino st)) s) (\<lambda>_ s.
     bnd (ustore_bytes c a (take 2 (bytes_of_word (ucast (st_type st)))) s) (\<lambda>_ s.
     bnd (ustore_bytes c (a + 12) (take 2 (bytes_of_word (ucast (st_nlink st)))) s) (\<lambda>_ s.
     ustore_bytes c (a + 16) (bytes_of_word (st_size st)) s))))"

definition sys_fstat :: "nat \<Rightarrow> ('x filestate_scheme, 'a) sys_scheme \<Rightarrow> (int, ('x filestate_scheme, 'a) sys_scheme) res" where
  "sys_fstat c =
     need (argfd c 0) (\<lambda>(_, f).
     need (argptr c 1 20) (\<lambda>a s.
     bnd (filestat c f s) (\<lambda>(r, st) s.
     bnd (case st of None \<Rightarrow> Ok () s | Some st \<Rightarrow> put_stat c a st s) (\<lambda>_. Ok r))))"

subsection \<open>Links\<close>

definition add_nlink :: "nat \<Rightarrow> ushort \<Rightarrow> 'x fsstate_scheme \<Rightarrow> 'x fsstate_scheme" where
  "add_nlink ip k d = upd_inode ip (\<lambda>x. x\<lparr>i_nlink := i_nlink x + k\<rparr>) d"

definition link_bad :: "nat \<Rightarrow> nat \<Rightarrow> ('x filestate_scheme, 'a) sys_scheme \<Rightarrow> (int, ('x filestate_scheme, 'a) sys_scheme) res" where
  "link_bad c ip s =
     bnd (ilock c (Some ip) s) (\<lambda>_ s.
     bnd (iupdate c ip (upd_fsd (add_nlink ip (- 1)) s)) (\<lambda>_ s.
     bnd (iunlockput c ip s) (\<lambda>_ s.
     bnd (end_op c s) (\<lambda>_. Ok (- 1)))))"

definition sys_link :: "nat \<Rightarrow> ('x filestate_scheme, 'a) sys_scheme \<Rightarrow> (int, ('x filestate_scheme, 'a) sys_scheme) res" where
  "sys_link c =
     need (argstr c 0) (\<lambda>old.
     need (argstr c 1) (\<lambda>new s.
     bnd (begin_op c s) (\<lambda>_ s.
     bnd (namei c old s) (\<lambda>ip s.
     case ip of None \<Rightarrow> bnd (end_op c s) (\<lambda>_. Ok (- 1))
     | Some ip \<Rightarrow>
         bnd (ilock c (Some ip) s) (\<lambda>_ s.
         if i_type (inodes (fsd s) ip) = T_DIR
         then bnd (iunlockput c ip s) (\<lambda>_ s. bnd (end_op c s) (\<lambda>_. Ok (- 1)))
         else
           bnd (iupdate c ip (upd_fsd (add_nlink ip 1) s)) (\<lambda>_ s.
           bnd (iunlock c (Some ip) s) (\<lambda>_ s.
           bnd (nameiparent c new (\<lambda>_. 0) s) (\<lambda>(dp, name) s.
           case dp of None \<Rightarrow> link_bad c ip s
           | Some dp \<Rightarrow>
               bnd (ilock c (Some dp) s) (\<lambda>_ s.
               bnd (if i_dev (inodes (fsd s) dp) \<noteq> i_dev (inodes (fsd s) ip) then Ok (- 1) s
                    else dirlink c dp name (i_inum (inodes (fsd s) ip)) s) (\<lambda>r s.
               if r < 0 then bnd (iunlockput c dp s) (\<lambda>_. link_bad c ip)
               else
                 bnd (iunlockput c dp s) (\<lambda>_ s.
                 bnd (iput c ip s) (\<lambda>_ s.
                 bnd (end_op c s) (\<lambda>_. Ok 0)))))))))))))"

fun isdirempty_loop :: "nat \<Rightarrow> nat \<Rightarrow> uint list \<Rightarrow> ('x consstate_scheme, 'a) sys_scheme \<Rightarrow> (bool, ('x consstate_scheme, 'a) sys_scheme) res" where
  "isdirempty_loop c dp [] s = Ok True s"
| "isdirempty_loop c dp (off # offs) s =
     bnd (readi c dp off sizeof_dirent s) (\<lambda>(r, de) s.
     if r \<noteq> 16 then Panic ''isdirempty: readi''
     else if de_inum de \<noteq> 0 then Ok False s
     else isdirempty_loop c dp offs s)"

definition isdirempty :: "nat \<Rightarrow> nat \<Rightarrow> ('x consstate_scheme, 'a) sys_scheme \<Rightarrow> (bool, ('x consstate_scheme, 'a) sys_scheme) res" where
  "isdirempty c dp s = isdirempty_loop c dp (drop 2 (dir_offsets (i_size (inodes (fsd s) dp)))) s"

definition cname :: "string \<Rightarrow> memory" where
  "cname str = put_name (\<lambda>_. 0) str"

definition unlink_bad :: "nat \<Rightarrow> nat \<Rightarrow> ('x filestate_scheme, 'a) sys_scheme \<Rightarrow> (int, ('x filestate_scheme, 'a) sys_scheme) res" where
  "unlink_bad c dp s = bnd (iunlockput c dp s) (\<lambda>_ s. bnd (end_op c s) (\<lambda>_. Ok (- 1)))"

definition sys_unlink :: "nat \<Rightarrow> ('x filestate_scheme, 'a) sys_scheme \<Rightarrow> (int, ('x filestate_scheme, 'a) sys_scheme) res" where
  "sys_unlink c =
     need (argstr c 0) (\<lambda>path s.
     bnd (begin_op c s) (\<lambda>_ s.
     bnd (nameiparent c path (\<lambda>_. 0) s) (\<lambda>(dp, name) s.
     case dp of None \<Rightarrow> bnd (end_op c s) (\<lambda>_. Ok (- 1))
     | Some dp \<Rightarrow>
         bnd (ilock c (Some dp) s) (\<lambda>_ s.
         if namecmp name (cname ''.'') = 0 \<or> namecmp name (cname ''..'') = 0 then unlink_bad c dp s
         else
           bnd (dirlookup c dp name s) (\<lambda>r s.
           case r of None \<Rightarrow> unlink_bad c dp s
           | Some (ip, off) \<Rightarrow>
               bnd (ilock c (Some ip) s) (\<lambda>_ s.
               if sint (i_nlink (inodes (fsd s) ip)) < 1 then Panic ''unlink: nlink < 1''
               else
                 bnd (if i_type (inodes (fsd s) ip) = T_DIR then isdirempty c ip s else Ok True s) (\<lambda>e s.
                 if \<not> e then bnd (iunlockput c ip s) (\<lambda>_. unlink_bad c dp)
                 else
                   bnd (writei c dp (\<lambda>_. 0) off sizeof_dirent s) (\<lambda>r s.
                   if r \<noteq> 16 then Panic ''unlink: writei''
                   else
                     bnd (if i_type (inodes (fsd s) ip) = T_DIR then iupdate c dp (upd_fsd (add_nlink dp (- 1)) s) else Ok () s) (\<lambda>_ s.
                     bnd (iunlockput c dp s) (\<lambda>_ s.
                     bnd (iupdate c ip (upd_fsd (add_nlink ip (- 1)) s)) (\<lambda>_ s.
                     bnd (iunlockput c ip s) (\<lambda>_ s.
                     bnd (end_op c s) (\<lambda>_. Ok 0)))))))))))))"

subsection \<open>Creation and opening\<close>

definition create_new :: "nat \<Rightarrow> nat \<Rightarrow> memory \<Rightarrow> ushort \<Rightarrow> ushort \<Rightarrow> ushort \<Rightarrow> ('x filestate_scheme, 'a) sys_scheme \<Rightarrow>
    (nat option, ('x filestate_scheme, 'a) sys_scheme) res" where
  "create_new c dp name ty major minor s =
     bnd (ialloc c (i_dev (inodes (fsd s) dp)) ty s) (\<lambda>ip s.
     bnd (ilock c (Some ip) s) (\<lambda>_ s.
     bnd (iupdate c ip (upd_fsd (upd_inode ip (\<lambda>x. x\<lparr>i_major := major, i_minor := minor, i_nlink := 1\<rparr>)) s)) (\<lambda>_ s.
     bnd (if ty = T_DIR then
            bnd (iupdate c dp (upd_fsd (add_nlink dp 1) s)) (\<lambda>_ s.
            bnd (dirlink c ip (cname ''.'') (i_inum (inodes (fsd s) ip)) s) (\<lambda>r s.
            if r < 0 then Panic ''create dots''
            else
              bnd (dirlink c ip (cname ''..'') (i_inum (inodes (fsd s) dp)) s) (\<lambda>r s.
              if r < 0 then Panic ''create dots'' else Ok () s)))
          else Ok () s) (\<lambda>_ s.
     bnd (dirlink c dp name (i_inum (inodes (fsd s) ip)) s) (\<lambda>r s.
     if r < 0 then Panic ''create: dirlink''
     else bnd (iunlockput c dp s) (\<lambda>_. Ok (Some ip)))))))"

definition create :: "nat \<Rightarrow> string \<Rightarrow> ushort \<Rightarrow> ushort \<Rightarrow> ushort \<Rightarrow> ('x filestate_scheme, 'a) sys_scheme \<Rightarrow>
    (nat option, ('x filestate_scheme, 'a) sys_scheme) res" where
  "create c path ty major minor s =
     bnd (nameiparent c path (\<lambda>_. 0) s) (\<lambda>(dp, name) s.
     case dp of None \<Rightarrow> Ok None s
     | Some dp \<Rightarrow>
         bnd (ilock c (Some dp) s) (\<lambda>_ s.
         bnd (dirlookup c dp name s) (\<lambda>r s.
         case r of
           Some (ip, _) \<Rightarrow>
             bnd (iunlockput c dp s) (\<lambda>_ s.
             bnd (ilock c (Some ip) s) (\<lambda>_ s.
             if ty = T_FILE \<and> i_type (inodes (fsd s) ip) = T_FILE then Ok (Some ip) s
             else bnd (iunlockput c ip s) (\<lambda>_. Ok None)))
         | None \<Rightarrow> create_new c dp name ty major minor s)))"

text \<open>The locked inode that \<open>sys_open\<close> opens.\<close>

definition open_inode :: "nat \<Rightarrow> string \<Rightarrow> uint \<Rightarrow> ('x filestate_scheme, 'a) sys_scheme \<Rightarrow> (nat option, ('x filestate_scheme, 'a) sys_scheme) res" where
  "open_inode c path omode s =
     (if omode AND O_CREATE \<noteq> 0 then create c path T_FILE 0 0 s
      else
        bnd (namei c path s) (\<lambda>ip s.
        case ip of None \<Rightarrow> Ok None s
        | Some ip \<Rightarrow>
            bnd (ilock c (Some ip) s) (\<lambda>_ s.
            if i_type (inodes (fsd s) ip) = T_DIR \<and> omode \<noteq> 0
            then bnd (iunlockput c ip s) (\<lambda>_. Ok None) else Ok (Some ip) s)))"

definition sys_open :: "nat \<Rightarrow> ('x filestate_scheme, 'a) sys_scheme \<Rightarrow> (int, ('x filestate_scheme, 'a) sys_scheme) res" where
  "sys_open c =
     need (argstr c 0) (\<lambda>path.
     need (argint c 1) (\<lambda>omode s.
     bnd (begin_op c s) (\<lambda>_ s.
     bnd (open_inode c path omode s) (\<lambda>ip s.
     case ip of None \<Rightarrow> bnd (end_op c s) (\<lambda>_. Ok (- 1))
     | Some ip \<Rightarrow>
         bnd (filealloc c s) (\<lambda>f s.
         bnd (case f of None \<Rightarrow> Ok None s | Some f \<Rightarrow> fdalloc c f s) (\<lambda>fd s.
         case (f, fd) of
           (Some f, Some fd) \<Rightarrow>
             bnd (iunlock c (Some ip) s) (\<lambda>_ s.
             bnd (end_op c s) (\<lambda>_ s.
             Ok (int fd) (upd_fsd (upd_file f (\<lambda>x. x\<lparr>f_type := FD_INODE, f_ip := ip, f_off := 0,
               f_readable := (omode AND O_WRONLY = 0),
               f_writable := (omode AND O_WRONLY \<noteq> 0 \<or> omode AND O_RDWR \<noteq> 0)\<rparr>)) s)))
         | _ \<Rightarrow>
             bnd (case f of None \<Rightarrow> Ok () s | Some f \<Rightarrow> fileclose c f s) (\<lambda>_ s.
             bnd (iunlockput c ip s) (\<lambda>_ s.
             bnd (end_op c s) (\<lambda>_. Ok (- 1))))))))))"

text \<open>What \<open>sys_mkdir\<close> and \<open>sys_mknod\<close> do with the result of \<open>create\<close>.\<close>

definition created :: "nat \<Rightarrow> nat option \<Rightarrow> ('x filestate_scheme, 'a) sys_scheme \<Rightarrow> (int, ('x filestate_scheme, 'a) sys_scheme) res" where
  "created c ip s =
     (case ip of None \<Rightarrow> bnd (end_op c s) (\<lambda>_. Ok (- 1))
      | Some ip \<Rightarrow> bnd (iunlockput c ip s) (\<lambda>_ s. bnd (end_op c s) (\<lambda>_. Ok 0)))"

definition sys_mkdir :: "nat \<Rightarrow> ('x filestate_scheme, 'a) sys_scheme \<Rightarrow> (int, ('x filestate_scheme, 'a) sys_scheme) res" where
  "sys_mkdir c s =
     bnd (begin_op c s) (\<lambda>_ s.
     bnd (argstr c 0 s) (\<lambda>path s.
     bnd (case path of None \<Rightarrow> Ok None s | Some path \<Rightarrow> create c path T_DIR 0 0 s) (created c)))"

definition sys_mknod :: "nat \<Rightarrow> ('x filestate_scheme, 'a) sys_scheme \<Rightarrow> (int, ('x filestate_scheme, 'a) sys_scheme) res" where
  "sys_mknod c s =
     bnd (begin_op c s) (\<lambda>_ s.
     bnd (argstr c 0 s) (\<lambda>path s.
     bnd (if path = None then Ok None s else argint c 1 s) (\<lambda>major s.
     bnd (if major = None then Ok None s else argint c 2 s) (\<lambda>minor s.
     bnd (case (path, major, minor) of
            (Some path, Some major, Some minor) \<Rightarrow> create c path T_DEV (ucast major) (ucast minor) s
          | _ \<Rightarrow> Ok None s) (created c)))))"

definition sys_chdir :: "nat \<Rightarrow> ('x filestate_scheme, 'a) sys_scheme \<Rightarrow> (int, ('x filestate_scheme, 'a) sys_scheme) res" where
  "sys_chdir c s =
     bnd (myproc c s) (\<lambda>curproc s.
     bnd (begin_op c s) (\<lambda>_ s.
     bnd (argstr c 0 s) (\<lambda>path s.
     bnd (case path of None \<Rightarrow> Ok None s | Some path \<Rightarrow> namei c path s) (\<lambda>ip s.
     case ip of None \<Rightarrow> bnd (end_op c s) (\<lambda>_. Ok (- 1))
     | Some ip \<Rightarrow>
         bnd (ilock c (Some ip) s) (\<lambda>_ s.
         if i_type (inodes (fsd s) ip) \<noteq> T_DIR
         then bnd (iunlockput c ip s) (\<lambda>_ s. bnd (end_op c s) (\<lambda>_. Ok (- 1)))
         else
           bnd (iunlock c (Some ip) s) (\<lambda>_ s. deref curproc (\<lambda>p s.
           bnd (deref (cwd (procs s p)) (iput c) s) (\<lambda>_ s.
           bnd (end_op c s) (\<lambda>_ s. Ok 0 (upd_proc p (\<lambda>P. P\<lparr>cwd := Some ip\<rparr>) s)))) s))))))"

text \<open>The loop of \<open>sys_exec\<close>; the first argument is the number of entries of \<open>argv\<close> that are left.\<close>

fun fetch_argv :: "nat \<Rightarrow> nat \<Rightarrow> uint \<Rightarrow> 'a kernel_scheme \<Rightarrow> (string list option, 'a kernel_scheme) res" where
  "fetch_argv 0 c a s = Ok None s"
| "fetch_argv (Suc k) c a s =
     bnd (fetchint c a s) (\<lambda>r s.
     case r of None \<Rightarrow> Ok None s
     | Some uarg \<Rightarrow>
         if uarg = 0 then Ok (Some []) s
         else bnd (fetchstr c uarg s) (\<lambda>str s.
           case str of None \<Rightarrow> Ok None s
           | Some str \<Rightarrow> bnd (fetch_argv k c (a + 4) s) (\<lambda>rest. Ok (map_option ((#) str) rest))))"

definition sys_exec :: "nat \<Rightarrow> ('x filestate_scheme, 'a) sys_scheme \<Rightarrow> (int, ('x filestate_scheme, 'a) sys_scheme) res" where
  "sys_exec c =
     need (argstr c 0) (\<lambda>path.
     need (argint c 1) (\<lambda>uargv.
     need (fetch_argv MAXARG c uargv) (\<lambda>argv. exec c path argv)))"

definition sys_pipe :: "nat \<Rightarrow> ('x filestate_scheme, 'a) sys_scheme \<Rightarrow> (int, ('x filestate_scheme, 'a) sys_scheme) res" where
  "sys_pipe c =
     need (argptr c 0 8) (\<lambda>fd.
     need (pipealloc c) (\<lambda>(rf, wf) s.
     bnd (fdalloc c rf s) (\<lambda>fd0 s.
     bnd (if fd0 = None then Ok None s else fdalloc c wf s) (\<lambda>fd1 s.
     case (fd0, fd1) of
       (Some fd0, Some fd1) \<Rightarrow>
         bnd (ustore_bytes c fd (bytes_of_word (of_nat fd0)) s) (\<lambda>_ s.
         bnd (ustore_bytes c (fd + 4) (bytes_of_word (of_nat fd1)) s) (\<lambda>_. Ok 0))
     | _ \<Rightarrow>
         bnd (case fd0 of None \<Rightarrow> Ok () s | Some fd0 \<Rightarrow> fdclear c fd0 s) (\<lambda>_ s.
         bnd (fileclose c rf s) (\<lambda>_ s.
         bnd (fileclose c wf s) (\<lambda>_. Ok (- 1))))))))"

end
