(* ===== verification/Proclife.thy ===== *)
theory Proclife
  imports Sysfile
begin

text \<open>
  The life of processes in \<open>proc.c\<close>: \<open>userinit\<close>, \<open>growproc\<close>, \<open>fork\<close>, \<open>exit\<close>, \<open>wait\<close>, \<open>forkret\<close> and
  \<open>kthread_exit\<close>. Where the source waits, the outcome is \<open>Switch\<close> and a definition \<open>..._resume\<close> goes on.
\<close>

record procstate = filestate +
  first_run :: bool
  ticks :: uint

abbreviation (input) tf_es :: uint where "tf_es \<equiv> 40"
abbreviation (input) tf_ds :: uint where "tf_ds \<equiv> 44"
abbreviation (input) tf_cs :: uint where "tf_cs \<equiv> 60"
abbreviation (input) tf_eflags :: uint where "tf_eflags \<equiv> 64"
abbreviation (input) tf_ss :: uint where "tf_ss \<equiv> 72"
abbreviation (input) FL_IF :: uint where "FL_IF \<equiv> 0x200"
abbreviation (input) user_cs :: ushort where "user_cs \<equiv> 27"
abbreviation (input) user_ds :: ushort where "user_ds \<equiv> 35"

subsection \<open>Start\<close>

text \<open>The trap frame of the first process: \<open>(SEG_UCODE << 3) | DPL_USER\<close> is 27, \<open>(SEG_UDATA << 3) | DPL_USER\<close> is 35.\<close>

definition init_frame :: "uint \<Rightarrow> memory \<Rightarrow> memory" where
  "init_frame a m =
     (let m = memset m a 0 sizeof_trapframe;
          m = store16 m (a + tf_cs) user_cs; m = store16 m (a + tf_ds) user_ds;
          m = store16 m (a + tf_es) user_ds; m = store16 m (a + tf_ss) user_ds;
          m = store32 m (a + tf_eflags) FL_IF; m = store32 m (a + tf_esp) PGSIZE
      in store32 m (a + tf_eip) 0)"

definition userinit :: "nat \<Rightarrow> uint \<Rightarrow> uint \<Rightarrow> ('x consstate_scheme, 'a) sys_scheme \<Rightarrow> (unit, ('x consstate_scheme, 'a) sys_scheme) res" where
  "userinit c initcode_start initcode_size s =
     bnd (allocproc c s) (\<lambda>p s.
     let s = s\<lparr>initproc := p\<rparr> in
     bnd (setupkvm c s) (\<lambda>dir s. deref p (\<lambda>p s.
     let s = upd_proc p (\<lambda>P. P\<lparr>pgdir := dir\<rparr>) s in
     if dir = 0 then Panic ''userinit: out of memory?''
     else
       bnd (inituvm c dir initcode_start initcode_size s) (\<lambda>_ s.
       let s = upd_proc p (\<lambda>P. P\<lparr>sz := PGSIZE\<rparr>) s;
           s = s\<lparr>mem := init_frame (tf (thr s p 0)) (mem s)\<rparr>;
           s = upd_proc p (\<lambda>P. P\<lparr>p_name := ''initcode''\<rparr>) s in
       bnd (namei c ''/'' s) (\<lambda>ip s.
       let s = upd_proc p (\<lambda>P. P\<lparr>cwd := ip\<rparr>) s in
       bnd (acquire_tt c p s) (\<lambda>_ s.
       bnd (release_tt c p (upd_thread p 0 (\<lambda>x. x\<lparr>t_state := RUNNABLE\<rparr>) s)) (\<lambda>_ s.
       bnd (acquire c ptable_lock s) (\<lambda>_ s.
       release c ptable_lock (upd_proc p (\<lambda>P. P\<lparr>p_state := RUNNABLE\<rparr>) s)))))) ) s))"

definition forkret :: "nat \<Rightarrow> ('x procstate_scheme, 'a) sys_scheme \<Rightarrow> (unit, ('x procstate_scheme, 'a) sys_scheme) res" where
  "forkret c s =
     bnd (release c ptable_lock s) (\<lambda>_ s.
     if first_run (fsd s) then
       bnd (iinit c ROOTDEV (upd_fsd (\<lambda>d. d\<lparr>first_run := False\<rparr>) s)) (\<lambda>_. initlog c ROOTDEV)
     else Ok () s)"

subsection \<open>Memory and fork\<close>

definition growproc :: "nat \<Rightarrow> int \<Rightarrow> 'a kernel_scheme \<Rightarrow> (int, 'a kernel_scheme) res" where
  "growproc c n s =
     bnd (myproc c s) (\<lambda>p s.
     bnd (acquire c ptable_lock s) (\<lambda>_ s. deref p (\<lambda>p s.
     let z = sz (procs s p); dir = pgdir (procs s p) in
     bnd (if n > 0 then allocuvm c dir z (z + word_of_int n) s
          else if n < 0 then deallocuvm c dir z (z + word_of_int n) s
          else Ok z s) (\<lambda>z s.
     if n \<noteq> 0 \<and> z = 0 then bnd (release c ptable_lock s) (\<lambda>_. Ok (- 1))
     else
       bnd (release c ptable_lock (upd_proc p (\<lambda>P. P\<lparr>sz := z\<rparr>) s)) (\<lambda>_ s.
       bnd (switchuvm c (Some p) s) (\<lambda>_. Ok 0)))) s))"

definition fork_file :: "nat \<Rightarrow> nat \<Rightarrow> nat \<Rightarrow> nat \<Rightarrow> ('x filestate_scheme, 'a) sys_scheme \<Rightarrow> (unit, ('x filestate_scheme, 'a) sys_scheme) res" where
  "fork_file c p np fd s =
     (case ofile (procs s p) fd of None \<Rightarrow> Ok () s
      | Some f \<Rightarrow> bnd (filedup c f s) (\<lambda>f s. Ok () (upd_proc np (\<lambda>P. P\<lparr>ofile := (ofile P)(fd := Some f)\<rparr>) s)))"

definition fork :: "nat \<Rightarrow> ('x filestate_scheme, 'a) sys_scheme \<Rightarrow> (int, ('x filestate_scheme, 'a) sys_scheme) res" where
  "fork c s =
     bnd (myproc c s) (\<lambda>p s.
     bnd (mythread c s) (\<lambda>cur s.
     bnd (allocproc c s) (\<lambda>np s.
     case np of None \<Rightarrow> Ok (- 1) s
     | Some np \<Rightarrow> deref p (\<lambda>p s. deref cur (\<lambda>(q, t) s.
         bnd (copyuvm c (pgdir (procs s p)) (sz (procs s p)) s) (\<lambda>dir s.
         let s = upd_proc np (\<lambda>P. P\<lparr>pgdir := dir\<rparr>) s in
         if dir = 0 then
           bnd (kfree c (kstack (thr s np 0)) s) (\<lambda>_ s.
           Ok (- 1) (upd_proc np (\<lambda>P. P\<lparr>p_state := UNUSED\<rparr>)
             (upd_thread np 0 (\<lambda>x. x\<lparr>kstack := 0, t_state := UNUSED\<rparr>) s)))
         else
           let s = upd_proc np (\<lambda>P. P\<lparr>sz := sz (procs s p)\<rparr>) s; frame = tf (thr s np 0);
               s = s\<lparr>mem := copy_up (mem s) frame (tf (thr s q t)) (unat sizeof_trapframe)\<rparr>;
               s = s\<lparr>mem := store32 (mem s) (frame + tf_eax) 0\<rparr> in
           bnd (for_each [0..<NOFILE] (fork_file c p np) s) (\<lambda>_ s. deref (cwd (procs s p)) (\<lambda>ip s.
           bnd (idup c ip s) (\<lambda>ip s.
           let s = upd_proc np (\<lambda>P. P\<lparr>cwd := Some ip, p_name := take 15 (p_name (procs s p))\<rparr>) s;
               n = pid (procs s np) in
           bnd (acquire_tt c np s) (\<lambda>_ s.
           bnd (release_tt c np (upd_thread np 0 (\<lambda>x. x\<lparr>t_state := RUNNABLE\<rparr>) s)) (\<lambda>_ s.
           bnd (acquire c ptable_lock s) (\<lambda>_ s.
           bnd (release c ptable_lock (upd_proc np (\<lambda>P. P\<lparr>p_parent := Some p, p_state := RUNNABLE\<rparr>)
             (upd_thread np 0 (\<lambda>x. x\<lparr>t_parent := Some (q, t)\<rparr>) s))) (\<lambda>_. Ok n)))))) s))) s) s)))"

subsection \<open>Exit and wait\<close>

text \<open>The first loop of \<open>exit\<close>.\<close>

definition exit_mark :: "nat \<times> nat \<Rightarrow> nat \<Rightarrow> nat \<Rightarrow> 'a kernel_scheme \<Rightarrow> 'a kernel_scheme" where
  "exit_mark cur p t s =
     (if (p, t) = cur then s
      else
        let s = (if t_state (thr s p t) \<noteq> UNUSED then upd_thread p t (\<lambda>x. x\<lparr>t_killed := True\<rparr>) s else s) in
        if t_state (thr s p t) = RUNNABLE \<or> t_state (thr s p t) = SLEEPING
        then upd_thread p t (\<lambda>x. x\<lparr>t_state := ZOMBIE\<rparr>) s else s)"

definition wakeup_parent :: "nat option \<Rightarrow> 'a kernel_scheme \<Rightarrow> 'a kernel_scheme" where
  "wakeup_parent q s = (case q of None \<Rightarrow> s | Some q \<Rightarrow> wakeup1 (ChProc q) s)"

text \<open>A child of the process goes to \<open>initproc\<close>.\<close>

definition reparent :: "nat \<Rightarrow> nat \<Rightarrow> 'a kernel_scheme \<Rightarrow> 'a kernel_scheme" where
  "reparent p q s =
     (if p_parent (procs s q) = Some p then
        let s = upd_proc q (\<lambda>P. P\<lparr>p_parent := initproc s\<rparr>) s in
        if p_state (procs s q) = ZOMBIE then wakeup_parent (initproc s) s else s
      else s)"

definition exit_file :: "nat \<Rightarrow> nat \<Rightarrow> nat \<Rightarrow> ('x filestate_scheme, 'a) sys_scheme \<Rightarrow> (unit, ('x filestate_scheme, 'a) sys_scheme) res" where
  "exit_file c p fd s =
     (case ofile (procs s p) fd of None \<Rightarrow> Ok () s
      | Some f \<Rightarrow> bnd (fileclose c f s) (\<lambda>_ s. Ok () (upd_proc p (\<lambda>P. P\<lparr>ofile := (ofile P)(fd := None)\<rparr>) s)))"

text \<open>\<open>exit\<close> after the other threads have gone.\<close>

definition exit_tail :: "nat \<Rightarrow> nat \<Rightarrow> nat \<times> nat \<Rightarrow> ('x filestate_scheme, 'a) sys_scheme \<Rightarrow> (unit, ('x filestate_scheme, 'a) sys_scheme) res" where
  "exit_tail c p cur s =
     bnd (release c ptable_lock s) (\<lambda>_ s.
     if initproc s = Some p then Panic ''init exiting''
     else
       bnd (for_each [0..<NOFILE] (exit_file c p) s) (\<lambda>_ s.
       bnd (begin_op c s) (\<lambda>_ s. deref (cwd (procs s p)) (\<lambda>ip s.
       bnd (iput c ip s) (\<lambda>_ s.
       bnd (end_op c s) (\<lambda>_ s.
       let s = upd_proc p (\<lambda>P. P\<lparr>cwd := None\<rparr>) s in
       bnd (acquire c ptable_lock s) (\<lambda>_ s.
       let s = fold (reparent p) [0..<NPROC] s;
           s = wakeup_parent (p_parent (procs s p)) s;
           s = upd_proc p (\<lambda>P. P\<lparr>p_state := ZOMBIE\<rparr>) s;
           s = upd_thread (fst cur) (snd cur) (\<lambda>x. x\<lparr>t_state := ZOMBIE\<rparr>) s in
       bnd (sched c s) (\<lambda>_ s. Panic ''zombie exit''))))) s)))"

text \<open>The second loop of \<open>exit\<close>, over the threads that are left; a thread that is alive is waited for once.\<close>

fun exit_wait :: "nat \<Rightarrow> nat \<Rightarrow> nat \<times> nat \<Rightarrow> nat list \<Rightarrow> ('x filestate_scheme, 'a) sys_scheme \<Rightarrow> (unit, ('x filestate_scheme, 'a) sys_scheme) res" where
  "exit_wait c p cur [] s = exit_tail c p cur s"
| "exit_wait c p cur (t # ts) s =
     (if (p, t) \<noteq> cur \<and> t_state (thr s p t) \<noteq> ZOMBIE \<and> t_state (thr s p t) \<noteq> UNUSED
      then sleep c (ChThread p t) (Some ptable_lock) s
      else exit_wait c p cur ts s)"

definition exit_resume :: "nat \<Rightarrow> nat \<Rightarrow> nat \<times> nat \<Rightarrow> nat list \<Rightarrow> ('x filestate_scheme, 'a) sys_scheme \<Rightarrow> (unit, ('x filestate_scheme, 'a) sys_scheme) res" where
  "exit_resume c p cur ts s = bnd (sleep_resume c cur ptable_lock s) (\<lambda>_. exit_wait c p cur ts)"

definition exit :: "nat \<Rightarrow> ('x filestate_scheme, 'a) sys_scheme \<Rightarrow> (unit, ('x filestate_scheme, 'a) sys_scheme) res" where
  "exit c s =
     bnd (myproc c s) (\<lambda>p s.
     bnd (mythread c s) (\<lambda>cur s.
     bnd (acquire c ptable_lock s) (\<lambda>_ s. deref p (\<lambda>p s. deref cur (\<lambda>cur s.
     exit_wait c p cur [0..<NTHREAD] (fold (exit_mark cur p) [0..<NTHREAD] s)) s) s)))"

definition reap_thread :: "nat \<Rightarrow> nat \<Rightarrow> nat \<Rightarrow> 'a kernel_scheme \<Rightarrow> (unit, 'a kernel_scheme) res" where
  "reap_thread c p t s = (if t_state (thr s p t) \<noteq> UNUSED then clear_thread c p t s else Ok () s)"

text \<open>A scan of \<open>wait\<close> over the processes that are left: the pid of a child it has freed, and \<open>havekids\<close>.\<close>

fun wait_scan :: "nat \<Rightarrow> nat \<Rightarrow> nat list \<Rightarrow> bool \<Rightarrow> 'a kernel_scheme \<Rightarrow> (int option \<times> bool, 'a kernel_scheme) res" where
  "wait_scan c me [] havekids s = Ok (None, havekids) s"
| "wait_scan c me (p # ps) havekids s =
     (if p_parent (procs s p) \<noteq> Some me then wait_scan c me ps havekids s
      else if allzombies p None s then
        bnd (for_each [0..<NTHREAD] (reap_thread c p) s) (\<lambda>_ s.
        let n = pid (procs s p);
            s = upd_proc p (\<lambda>P. P\<lparr>mid := (\<lambda>i. i \<ge> MAX_MUTEXES \<and> mid P i), pid := 0, p_parent := None, p_name := [], p_killed := False\<rparr>) s in
        bnd (freevm c (pgdir (procs s p)) s) (\<lambda>_ s.
        bnd (release c ptable_lock (upd_proc p (\<lambda>P. P\<lparr>p_state := UNUSED\<rparr>) s)) (\<lambda>_. Ok (Some n, True))))
      else wait_scan c me ps True s)"

definition wait_loop :: "nat \<Rightarrow> nat \<Rightarrow> 'a kernel_scheme \<Rightarrow> (int, 'a kernel_scheme) res" where
  "wait_loop c me s =
     bnd (wait_scan c me [0..<NPROC] False s) (\<lambda>(r, havekids) s.
     case r of Some n \<Rightarrow> Ok n s
     | None \<Rightarrow>
         if \<not> havekids \<or> p_killed (procs s me) then bnd (release c ptable_lock s) (\<lambda>_. Ok (- 1))
         else bnd (sleep c (ChProc me) (Some ptable_lock) s) (\<lambda>_. Ok 0))"

definition wait :: "nat \<Rightarrow> 'a kernel_scheme \<Rightarrow> (int, 'a kernel_scheme) res" where
  "wait c s =
     bnd (myproc c s) (\<lambda>me s.
     bnd (acquire c ptable_lock s) (\<lambda>_ s. deref me (wait_loop c) s))"

definition wait_resume :: "nat \<Rightarrow> nat \<times> nat \<Rightarrow> 'a kernel_scheme \<Rightarrow> (int, 'a kernel_scheme) res" where
  "wait_resume c cur s = bnd (sleep_resume c cur ptable_lock s) (\<lambda>_. wait_loop c (fst cur))"

text \<open>\<open>kthread_exit\<close> up to the release of the lock, and the rest.\<close>

definition kthread_exit_end :: "nat \<Rightarrow> nat \<Rightarrow> 'a kernel_scheme \<Rightarrow> (unit, 'a kernel_scheme) res" where
  "kthread_exit_end c p s =
     bnd (acquire c ptable_lock s) (\<lambda>_ s.
     bnd (sched c (upd_proc p (\<lambda>P. P\<lparr>p_state := RUNNABLE\<rparr>) s)) (\<lambda>_ s. Panic ''zombie exit''))"

definition kthread_exit :: "nat \<Rightarrow> ('x filestate_scheme, 'a) sys_scheme \<Rightarrow> (unit, ('x filestate_scheme, 'a) sys_scheme) res" where
  "kthread_exit c s =
     bnd (myproc c s) (\<lambda>p s.
     bnd (mythread c s) (\<lambda>cur s. deref p (\<lambda>p s. deref cur (\<lambda>(q, t) s.
     bnd (acquire_tt c p s) (\<lambda>_ s.
     let s = wakeup1 (ChThread q t) s in
     bnd (if allzombies p (Some (q, t)) s then bnd (release_tt c p s) (\<lambda>_. exit c) else Ok () s) (\<lambda>_ s.
     bnd (release_tt c p (upd_thread q t (\<lambda>x. x\<lparr>t_state := ZOMBIE\<rparr>) s)) (\<lambda>_.
     kthread_exit_end c p)))) s) s))"

end
