(* ===== verification/Kbd.thy ===== *)
theory Kbd
  imports Console
begin

text \<open>
  \<open>kbd.c\<close> and the tables of \<open>kbd.h\<close>: the decoder of keyboard scan codes. A read of the status and of the
  data port is a pair of bytes; the static variable \<open>shift\<close> is passed along. The tables are lists for the
  consecutive entries and association lists for the entries that are given by index; others are \<open>NO\<close>, 0.
\<close>

abbreviation (input) SHIFT :: uint where "SHIFT \<equiv> 1"
abbreviation (input) CTL :: uint where "CTL \<equiv> 2"
abbreviation (input) CAPSLOCK :: uint where "CAPSLOCK \<equiv> 8"
abbreviation (input) E0ESC :: uint where "E0ESC \<equiv> 64"

subsection \<open>Tables\<close>

definition key_entry :: "uchar list \<Rightarrow> (nat \<times> uchar) list \<Rightarrow> nat \<Rightarrow> uchar" where
  "key_entry xs ys k = (if k < length xs then xs ! k else case map_of ys k of Some v \<Rightarrow> v | None \<Rightarrow> 0)"

definition shiftcode :: "nat \<Rightarrow> uchar" where
  "shiftcode = key_entry [] [(0x1D, 2), (0x2A, 1), (0x36, 1), (0x38, 4), (0x9D, 2), (0xB8, 4)]"

definition togglecode :: "nat \<Rightarrow> uchar" where
  "togglecode = key_entry [] [(0x3A, 8), (0x45, 16), (0x46, 32)]"

definition keypad :: "(nat \<times> uchar) list" where
  "keypad = [(0x97, 224), (0x9C, 10), (0xB5, 47), (0xC8, 226), (0xC9, 230), (0xCB, 228), (0xCD, 229), (0xCF, 225), (0xD0, 227), (0xD1, 231), (0xD2, 232), (0xD3, 233)]"

definition normalmap :: "nat \<Rightarrow> uchar" where
  "normalmap = key_entry
    [0, 27, 49, 50, 51, 52, 53, 54, 55, 56, 57, 48, 45, 61, 8, 9,
     113, 119, 101, 114, 116, 121, 117, 105, 111, 112, 91, 93, 10, 0, 97, 115,
     100, 102, 103, 104, 106, 107, 108, 59, 39, 96, 0, 92, 122, 120, 99, 118,
     98, 110, 109, 44, 46, 47, 0, 42, 0, 32, 0, 0, 0, 0, 0, 0,
     0, 0, 0, 0, 0, 0, 0, 55, 56, 57, 45, 52, 53, 54, 43, 49,
     50, 51, 48, 46, 0, 0, 0, 0] keypad"

definition shiftmap :: "nat \<Rightarrow> uchar" where
  "shiftmap = key_entry
    [0, 27, 33, 64, 35, 36, 37, 94, 38, 42, 40, 41, 95, 43, 8, 9,
     81, 87, 69, 82, 84, 89, 85, 73, 79, 80, 123, 125, 10, 0, 65, 83,
     68, 70, 71, 72, 74, 75, 76, 58, 34, 126, 0, 124, 90, 88, 67, 86,
     66, 78, 77, 60, 62, 63, 0, 42, 0, 32, 0, 0, 0, 0, 0, 0,
     0, 0, 0, 0, 0, 0, 0, 55, 56, 57, 45, 52, 53, 54, 43, 49,
     50, 51, 48, 46, 0, 0, 0, 0] keypad"

definition ctlmap :: "nat \<Rightarrow> uchar" where
  "ctlmap = key_entry
    [0, 0, 0, 0, 0, 0, 0, 0, 0, 0, 0, 0, 0, 0, 0, 0,
     17, 23, 5, 18, 20, 25, 21, 9, 15, 16, 0, 0, 13, 0, 1, 19,
     4, 6, 7, 8, 10, 11, 12, 0, 0, 0, 0, 28, 26, 24, 3, 22,
     2, 14, 13, 0, 0, 239, 0, 0]
    [(0x97, 224), (0x9C, 13), (0xB5, 239), (0xC8, 226), (0xC9, 230), (0xCB, 228), (0xCD, 229), (0xCF, 225), (0xD0, 227), (0xD1, 231), (0xD2, 232), (0xD3, 233)]"

subsection \<open>The decoder\<close>

definition charcode :: "uint \<Rightarrow> nat \<Rightarrow> uchar" where
  "charcode k = (if k = 0 then normalmap else if k = 1 then shiftmap else ctlmap)"

text \<open>The exchange of upper and lower case under caps lock.\<close>

definition swap_case :: "uint \<Rightarrow> uint" where
  "swap_case ch = (if 97 \<le> ch \<and> ch \<le> 122 then ch - 32 else if 65 \<le> ch \<and> ch \<le> 90 then ch + 32 else ch)"

definition kbdgetc :: "uchar \<Rightarrow> uchar \<Rightarrow> uint \<Rightarrow> int \<times> uint" where
  "kbdgetc st dat shift =
     (if st AND 1 = 0 then (- 1, shift)
      else if dat = 0xE0 then (0, shift OR E0ESC)
      else if dat AND 0x80 \<noteq> 0 then
        let dat = (if shift AND E0ESC \<noteq> 0 then dat else dat AND 0x7F) in
        (0, shift AND NOT (ucast (shiftcode (unat dat)) OR E0ESC))
      else
        let (dat, shift) = (if shift AND E0ESC \<noteq> 0 then (dat OR 0x80, shift AND NOT E0ESC) else (dat, shift));
            shift = shift OR ucast (shiftcode (unat dat));
            shift = shift XOR ucast (togglecode (unat dat));
            ch = ucast (charcode (shift AND (CTL OR SHIFT)) (unat dat));
            ch = (if shift AND CAPSLOCK \<noteq> 0 then swap_case ch else ch)
        in (sint ch, shift))"

text \<open>The characters of a sequence of port reads, up to the first one that finds no data.\<close>

fun kbd_chars :: "(uchar \<times> uchar) list \<Rightarrow> uint \<Rightarrow> int list \<times> uint" where
  "kbd_chars [] shift = ([], shift)"
| "kbd_chars ((st, dat) # ps) shift =
     (case kbdgetc st dat shift of (ch, shift) \<Rightarrow>
      if ch < 0 then ([ch], shift)
      else case kbd_chars ps shift of (cs, shift) \<Rightarrow> (ch # cs, shift))"

end
