(* ===== verification/Trap.thy ===== *)
theory Trap
  imports Proclife Kbd Mutex
begin

text \<open>
  Entry into the kernel: the system calls of \<open>sysproc.c\<close>, the dispatcher of \<open>syscall.c\<close> and \<open>trap\<close> of
  \<open>trap.c\<close>. What the devices deliver during an interrupt is an argument of \<open>trap\<close>. Acknowledging an
  interrupt at the local APIC changes nothing the kernel reads.
\<close>

record trapstate = procstate +
  kbd_shift :: uint

subsection \<open>Processes\<close>

definition sys_fork :: "nat \<Rightarrow> ('x trapstate_scheme, 'a) sys_scheme \<Rightarrow> (int, ('x trapstate_scheme, 'a) sys_scheme) res" where
  "sys_fork c s = fork c s"

definition sys_exit :: "nat \<Rightarrow> ('x trapstate_scheme, 'a) sys_scheme \<Rightarrow> (int, ('x trapstate_scheme, 'a) sys_scheme) res" where
  "sys_exit c s = bnd (exit c s) (\<lambda>_. Ok 0)"

definition sys_wait :: "nat \<Rightarrow> ('x trapstate_scheme, 'a) sys_scheme \<Rightarrow> (int, ('x trapstate_scheme, 'a) sys_scheme) res" where
  "sys_wait c s = wait c s"

definition sys_kill :: "nat \<Rightarrow> ('x trapstate_scheme, 'a) sys_scheme \<Rightarrow> (int, ('x trapstate_scheme, 'a) sys_scheme) res" where
  "sys_kill c = need (argint c 0) (\<lambda>n. kill c (sint n))"

definition sys_getpid :: "nat \<Rightarrow> ('x trapstate_scheme, 'a) sys_scheme \<Rightarrow> (int, ('x trapstate_scheme, 'a) sys_scheme) res" where
  "sys_getpid c s = bnd (myproc c s) (\<lambda>p s. deref p (\<lambda>p s. Ok (pid (procs s p)) s) s)"

definition sys_sbrk :: "nat \<Rightarrow> ('x trapstate_scheme, 'a) sys_scheme \<Rightarrow> (int, ('x trapstate_scheme, 'a) sys_scheme) res" where
  "sys_sbrk c =
     need (argint c 0) (\<lambda>n s.
     bnd (myproc c s) (\<lambda>p s. deref p (\<lambda>p s.
     let addr = sint (sz (procs s p)) in
     bnd (growproc c (sint n) s) (\<lambda>r. Ok (if r < 0 then - 1 else addr))) s))"

text \<open>The loop of \<open>sys_sleep\<close>; the comparison of the source is unsigned.\<close>

definition sleep_loop :: "nat \<Rightarrow> uint \<Rightarrow> uint \<Rightarrow> ('x trapstate_scheme, 'a) sys_scheme \<Rightarrow> (int, ('x trapstate_scheme, 'a) sys_scheme) res" where
  "sleep_loop c n ticks0 s =
     (if ticks (fsd s) - ticks0 < n then
        bnd (myproc c s) (\<lambda>p s. deref p (\<lambda>p s.
        if p_killed (procs s p) then bnd (release c tickslock s) (\<lambda>_. Ok (- 1))
        else bnd (sleep c ChTicks (Some tickslock) s) (\<lambda>_. Ok 0)) s)
      else bnd (release c tickslock s) (\<lambda>_. Ok 0))"

definition sys_sleep :: "nat \<Rightarrow> ('x trapstate_scheme, 'a) sys_scheme \<Rightarrow> (int, ('x trapstate_scheme, 'a) sys_scheme) res" where
  "sys_sleep c = need (argint c 0) (\<lambda>n s. bnd (acquire c tickslock s) (\<lambda>_ s. sleep_loop c n (ticks (fsd s)) s))"

definition sys_sleep_resume :: "nat \<Rightarrow> nat \<times> nat \<Rightarrow> uint \<Rightarrow> uint \<Rightarrow> ('x trapstate_scheme, 'a) sys_scheme \<Rightarrow> (int, ('x trapstate_scheme, 'a) sys_scheme) res" where
  "sys_sleep_resume c qt n ticks0 s = bnd (sleep_resume c qt tickslock s) (\<lambda>_. sleep_loop c n ticks0)"

definition sys_uptime :: "nat \<Rightarrow> ('x trapstate_scheme, 'a) sys_scheme \<Rightarrow> (int, ('x trapstate_scheme, 'a) sys_scheme) res" where
  "sys_uptime c s =
     bnd (acquire c tickslock s) (\<lambda>_ s.
     let xticks = ticks (fsd s) in
     bnd (release c tickslock s) (\<lambda>_. Ok (sint xticks)))"

definition sys_kthread_create :: "nat \<Rightarrow> ('x trapstate_scheme, 'a) sys_scheme \<Rightarrow> (int, ('x trapstate_scheme, 'a) sys_scheme) res" where
  "sys_kthread_create c = need (argint c 1) (\<lambda>stack. need (argint c 0) (\<lambda>f. kthread_create c f stack))"

definition sys_kthread_id :: "nat \<Rightarrow> ('x trapstate_scheme, 'a) sys_scheme \<Rightarrow> (int, ('x trapstate_scheme, 'a) sys_scheme) res" where
  "sys_kthread_id c s = kthread_id c s"

definition sys_kthread_exit :: "nat \<Rightarrow> ('x trapstate_scheme, 'a) sys_scheme \<Rightarrow> (int, ('x trapstate_scheme, 'a) sys_scheme) res" where
  "sys_kthread_exit c s = bnd (kthread_exit c s) (\<lambda>_. Ok 0)"

definition sys_kthread_join :: "nat \<Rightarrow> ('x trapstate_scheme, 'a) sys_scheme \<Rightarrow> (int, ('x trapstate_scheme, 'a) sys_scheme) res" where
  "sys_kthread_join c = need (argint c 0) (\<lambda>t. kthread_join c (sint t))"

definition sys_kthread_mutex_alloc :: "nat \<Rightarrow> ('x trapstate_scheme, 'a) sys_scheme \<Rightarrow> (int, ('x trapstate_scheme, 'a) sys_scheme) res" where
  "sys_kthread_mutex_alloc c s = kthread_mutex_alloc c s"

definition sys_kthread_mutex_dealloc :: "nat \<Rightarrow> ('x trapstate_scheme, 'a) sys_scheme \<Rightarrow> (int, ('x trapstate_scheme, 'a) sys_scheme) res" where
  "sys_kthread_mutex_dealloc c = need (argint c 0) (\<lambda>m. kthread_mutex_dealloc c (sint m))"

definition sys_kthread_mutex_lock :: "nat \<Rightarrow> ('x trapstate_scheme, 'a) sys_scheme \<Rightarrow> (int, ('x trapstate_scheme, 'a) sys_scheme) res" where
  "sys_kthread_mutex_lock c = need (argint c 0) (\<lambda>m. kthread_mutex_lock c (sint m))"

definition sys_kthread_mutex_unlock :: "nat \<Rightarrow> ('x trapstate_scheme, 'a) sys_scheme \<Rightarrow> (int, ('x trapstate_scheme, 'a) sys_scheme) res" where
  "sys_kthread_mutex_unlock c = need (argint c 0) (\<lambda>m. kthread_mutex_unlock c (sint m))"

definition sys_mutex_tid :: "nat \<Rightarrow> ('x trapstate_scheme, 'a) sys_scheme \<Rightarrow> (int, ('x trapstate_scheme, 'a) sys_scheme) res" where
  "sys_mutex_tid c = need (argint c 0) (\<lambda>m. mutex_tid (sint m))"

subsection \<open>Dispatch\<close>

definition syscalls :: "(nat \<Rightarrow> ('x trapstate_scheme, 'a) sys_scheme \<Rightarrow> (int, ('x trapstate_scheme, 'a) sys_scheme) res) list" where
  "syscalls =
     [sys_fork, sys_exit, sys_wait, sys_pipe, sys_read, sys_kill, sys_exec, sys_fstat, sys_chdir, sys_dup,
      sys_getpid, sys_sbrk, sys_sleep, sys_uptime, sys_open, sys_write, sys_mknod, sys_unlink, sys_link, sys_mkdir,
      sys_close, sys_kthread_create, sys_kthread_id, sys_kthread_exit, sys_kthread_join, sys_kthread_mutex_alloc,
      sys_kthread_mutex_dealloc, sys_kthread_mutex_lock, sys_kthread_mutex_unlock, sys_mutex_tid]"

text \<open>\<open>curthread->tf->eax = r\<close>.\<close>

definition set_eax :: "nat \<times> nat \<Rightarrow> int \<Rightarrow> 'a kernel_scheme \<Rightarrow> 'a kernel_scheme" where
  "set_eax qt r s = s\<lparr>mem := store32 (mem s) (tf (thr s (fst qt) (snd qt)) + tf_eax) (word_of_int r)\<rparr>"

definition unknown_format :: string where
  "unknown_format = ''%d %s: unknown sys call %d'' @ [CHR 0x0A]"

definition syscall :: "nat \<Rightarrow> ('x trapstate_scheme, 'a) sys_scheme \<Rightarrow> (unit, ('x trapstate_scheme, 'a) sys_scheme) res" where
  "syscall c s =
     bnd (myproc c s) (\<lambda>p s.
     bnd (mythread c s) (\<lambda>cur s. deref cur (\<lambda>cur s.
     let num = sint (load32 (mem s) (tf (thr s (fst cur) (snd cur)) + tf_eax)) in
     if num > 0 \<and> num \<le> int (length (syscalls :: (nat \<Rightarrow> ('x trapstate_scheme, 'a) sys_scheme \<Rightarrow> _) list))
     then bnd ((syscalls ! nat (num - 1)) c s) (\<lambda>r s. Ok () (set_eax cur r s))
     else deref p (\<lambda>p s.
       bnd (cprintf c (\<lambda>_. p_name (procs s p)) unknown_format
              (\<lambda>i. if i = 0 then word_of_int (pid (procs s p)) else if i = 1 then 1 else word_of_int num) s) (\<lambda>_ s.
       Ok () (set_eax cur (- 1) s))) s) s))"

subsection \<open>Traps\<close>

abbreviation (input) tf_trapno :: uint where "tf_trapno \<equiv> 48"
abbreviation (input) tf_err :: uint where "tf_err \<equiv> 52"

definition kbdintr :: "nat \<Rightarrow> (uchar \<times> uchar) list \<Rightarrow> ('x trapstate_scheme, 'a) sys_scheme \<Rightarrow> (unit, ('x trapstate_scheme, 'a) sys_scheme) res" where
  "kbdintr c ports s =
     (case kbd_chars ports (kbd_shift (fsd s)) of (cs, shift) \<Rightarrow>
      consoleintr c cs (upd_fsd (\<lambda>d. d\<lparr>kbd_shift := shift\<rparr>) s))"

definition uartintr :: "nat \<Rightarrow> int list \<Rightarrow> ('x trapstate_scheme, 'a) sys_scheme \<Rightarrow> (unit, ('x trapstate_scheme, 'a) sys_scheme) res" where
  "uartintr c cs s = consoleintr c cs s"

definition timer_tick :: "nat \<Rightarrow> ('x trapstate_scheme, 'a) sys_scheme \<Rightarrow> (unit, ('x trapstate_scheme, 'a) sys_scheme) res" where
  "timer_tick c s =
     bnd (cpuid c s) (\<lambda>k s.
     if k = 0 then
       bnd (acquire c tickslock s) (\<lambda>_ s.
       bnd (wakeup c ChTicks (upd_fsd (\<lambda>d. d\<lparr>ticks := ticks d + 1\<rparr>) s)) (\<lambda>_. release c tickslock))
     else Ok () s)"

text \<open>The tests of \<open>killed\<close> around a system call; neither \<open>kthread_exit\<close> nor \<open>exit\<close> returns.\<close>

definition leave_if_killed :: "nat \<Rightarrow> ('x trapstate_scheme, 'a) sys_scheme \<Rightarrow> (unit, ('x trapstate_scheme, 'a) sys_scheme) res" where
  "leave_if_killed c s =
     bnd (mythread c s) (\<lambda>qt s. deref qt (\<lambda>(q, t) s.
     bnd (if t_killed (thr s q t) then kthread_exit c s else Ok () s) (\<lambda>_ s.
     bnd (myproc c s) (\<lambda>p s. deref p (\<lambda>p s.
     if p_killed (procs s p) then exit c s else Ok () s) s))) s)"

text \<open>The same tests after an interrupt: only for a trap from user space, and with no thread there is nothing to do.\<close>

definition leave_user :: "nat \<Rightarrow> bool \<Rightarrow> ('x trapstate_scheme, 'a) sys_scheme \<Rightarrow> (unit, ('x trapstate_scheme, 'a) sys_scheme) res" where
  "leave_user c user s =
     bnd (mythread c s) (\<lambda>qt s.
     bnd (case qt of Some (q, t) \<Rightarrow> if t_killed (thr s q t) \<and> user then kthread_exit c s else Ok () s | None \<Rightarrow> Ok () s) (\<lambda>_ s.
     bnd (myproc c s) (\<lambda>p s.
     case p of Some p \<Rightarrow> if p_killed (procs s p) \<and> user then exit c s else Ok () s | None \<Rightarrow> Ok () s)))"

definition spurious_format :: string where
  "spurious_format = ''cpu%d: spurious interrupt at %x:%x'' @ [CHR 0x0A]"

definition kernel_trap_format :: string where
  "kernel_trap_format = ''unexpected trap %d from cpu %d eip %x (cr2=0x%x)'' @ [CHR 0x0A]"

definition user_trap_format :: string where
  "user_trap_format = ''pid %d %s: trap %d err %d on cpu %d eip 0x%x addr 0x%x--kill proc'' @ [CHR 0x0A]"

text \<open>The default branch: a trap in the kernel is a bug, one in user space kills the process.\<close>

definition bad_trap :: "nat \<Rightarrow> uint \<Rightarrow> uint \<Rightarrow> ('x trapstate_scheme, 'a) sys_scheme \<Rightarrow> (unit, ('x trapstate_scheme, 'a) sys_scheme) res" where
  "bad_trap c frame cr2 s =
     bnd (myproc c s) (\<lambda>p s.
     bnd (mythread c s) (\<lambda>qt s.
     bnd (cpuid c s) (\<lambda>k s.
     let no = load32 (mem s) (frame + tf_trapno); eip = load32 (mem s) (frame + tf_eip) in
     case (p, qt) of
       (Some p, Some _) \<Rightarrow>
         if load16 (mem s) (frame + tf_cs) AND 3 = 0
         then bnd (cprintf c (\<lambda>_. []) kernel_trap_format (\<lambda>i. [no, of_nat k, eip, cr2] ! i) s) (\<lambda>_ _. Panic ''trap'')
         else
           bnd (cprintf c (\<lambda>_. p_name (procs s p)) user_trap_format
             (\<lambda>i. [word_of_int (pid (procs s p)), 1, no, load32 (mem s) (frame + tf_err), of_nat k, eip, cr2] ! i) s) (\<lambda>_ s.
           Ok () (upd_proc p (\<lambda>P. P\<lparr>p_killed := True\<rparr>) s))
     | _ \<Rightarrow> bnd (cprintf c (\<lambda>_. []) kernel_trap_format (\<lambda>i. [no, of_nat k, eip, cr2] ! i) s) (\<lambda>_ _. Panic ''trap''))))"

definition interrupt :: "nat \<Rightarrow> uint \<Rightarrow> (uchar \<times> uchar) list \<Rightarrow> int list \<Rightarrow> uint \<Rightarrow> ('x trapstate_scheme, 'a) sys_scheme \<Rightarrow>
    (unit, ('x trapstate_scheme, 'a) sys_scheme) res" where
  "interrupt c frame ports uart cr2 s =
     (let no = load32 (mem s) (frame + tf_trapno) in
      if no = 32 then timer_tick c s
      else if no = 46 \<or> no = 47 then Ok () s
      else if no = 33 then kbdintr c ports s
      else if no = 36 then uartintr c uart s
      else if no = 39 \<or> no = 63 then
        bnd (cpuid c s) (\<lambda>k s.
        cprintf c (\<lambda>_. []) spurious_format
          (\<lambda>i. [of_nat k, ucast (load16 (mem s) (frame + tf_cs)), load32 (mem s) (frame + tf_eip)] ! i) s)
      else bad_trap c frame cr2 s)"

text \<open>A thread that yields on a clock tick finishes the trap with \<open>trap_resume\<close>.\<close>

definition trap :: "nat \<Rightarrow> uint \<Rightarrow> (uchar \<times> uchar) list \<Rightarrow> int list \<Rightarrow> uint \<Rightarrow> ('x trapstate_scheme, 'a) sys_scheme \<Rightarrow>
    (unit, ('x trapstate_scheme, 'a) sys_scheme) res" where
  "trap c frame ports uart cr2 s =
     (if load32 (mem s) (frame + tf_trapno) = 64 then
        bnd (leave_if_killed c s) (\<lambda>_ s.
        bnd (mythread c s) (\<lambda>qt s. deref qt (\<lambda>(q, t) s.
        bnd (syscall c (upd_thread q t (\<lambda>x. x\<lparr>tf := frame\<rparr>) s)) (\<lambda>_. leave_if_killed c)) s))
      else
        let user = (load16 (mem s) (frame + tf_cs) AND 3 = 3) in
        bnd (interrupt c frame ports uart cr2 s) (\<lambda>_ s.
        bnd (leave_user c user s) (\<lambda>_ s.
        bnd (mythread c s) (\<lambda>qt s.
        bnd (case qt of
               Some (q, t) \<Rightarrow> if t_state (thr s q t) = RUNNING \<and> load32 (mem s) (frame + tf_trapno) = 32 then yield c s else Ok () s
             | None \<Rightarrow> Ok () s) (\<lambda>_. leave_user c user)))))"

definition trap_resume :: "nat \<Rightarrow> nat \<times> nat \<Rightarrow> bool \<Rightarrow> ('x trapstate_scheme, 'a) sys_scheme \<Rightarrow> (unit, ('x trapstate_scheme, 'a) sys_scheme) res" where
  "trap_resume c qt user s = bnd (yield_resume c qt s) (\<lambda>_. leave_user c user)"

end
