(* ===== verification/Frame.thy ===== *)
theory Frame
  imports Fs
begin

text \<open>
  What the code below the file table leaves alone. A call \<^emph>\<open>keeps\<close> a projection of the state if every state
  it returns or switches with has the same value of it. The projection \<open>outer\<close> consists of the memory, the
  page tables in use, the descriptors of the processes and the data of the components above the console;
  none of the code of the file system, the log, the buffer cache or the console changes it.
\<close>

named_theorems keep_intros \<open>calls that keep the outer state\<close>

definition keeps :: "('s \<Rightarrow> 'v) \<Rightarrow> 'v \<Rightarrow> ('r, 's) res \<Rightarrow> bool" where
  "keeps f v m = (case m of Ok r s \<Rightarrow> f s = v | Switch s \<Rightarrow> f s = v | _ \<Rightarrow> True)"

lemma keeps_simps [simp]:
  "keeps f v (Ok r s) = (f s = v)" "keeps f v (Switch s) = (f s = v)" "keeps f v (Panic e)" "keeps f v Spin" "keeps f v (Fault e)"
  by (simp_all add: keeps_def)

lemma keeps_bnd [keep_intros]: "keeps f v m \<Longrightarrow> (\<And>a s. f s = v \<Longrightarrow> keeps f v (g a s)) \<Longrightarrow> keeps f v (bnd m g)"
  by (cases m) auto

lemma keeps_if [keep_intros]: "(b \<Longrightarrow> keeps f v x) \<Longrightarrow> (\<not> b \<Longrightarrow> keeps f v y) \<Longrightarrow> keeps f v (if b then x else y)"
  by simp

lemma keeps_case [keep_intros]:
  "(p = None \<Longrightarrow> keeps f v x) \<Longrightarrow> (\<And>a. p = Some a \<Longrightarrow> keeps f v (g a)) \<Longrightarrow> keeps f v (case p of None \<Rightarrow> x | Some a \<Rightarrow> g a)"
  "(\<And>a b. q = (a, b) \<Longrightarrow> keeps f v (h a b)) \<Longrightarrow> keeps f v (case q of (a, b) \<Rightarrow> h a b)"
  "(\<And>a b. q = (a, b) \<Longrightarrow> keeps f v (k a b s)) \<Longrightarrow> keeps f v ((case q of (a, b) \<Rightarrow> k a b) s)"
  by (auto split: option.split prod.split)

lemma keeps_deref [keep_intros]: "(\<And>x. p = Some x \<Longrightarrow> keeps f v (g x s)) \<Longrightarrow> keeps f v (deref p g s)"
  by (auto simp: deref_def split: option.split)

lemma keeps_for_each [keep_intros]:
  "f s = v \<Longrightarrow> (\<And>i s. f s = v \<Longrightarrow> keeps f v (body i s)) \<Longrightarrow> keeps f v (for_each xs body s)"
  by (induction xs arbitrary: s) (auto intro!: keeps_bnd)

lemma keepsD: "keeps f v m \<Longrightarrow> m = Ok r s \<Longrightarrow> f s = v"
  by simp

subsection \<open>The outer state\<close>

definition outer where
  "outer (s :: ('x consstate_scheme, 'a) sys_scheme) =
     (mem s, freelist s, ncpu s, consstate.more (fsd s), (\<lambda>c. (apicid (cpus s c), cr3 (cpus s c), cpu_proc (cpus s c), cpu_thread (cpus s c))),
      (\<lambda>p. (ofile (procs s p), cwd (procs s p), sz (procs s p), pgdir (procs s p), (\<lambda>t. tf (threads (procs s p) t)))))"

lemma outer_upd_cpu [simp]:
  "outer (upd_cpu c (\<lambda>x. x\<lparr>if_flag := b\<rparr>) s) = outer s" "outer (upd_cpu c (\<lambda>x. x\<lparr>intena := b\<rparr>) s) = outer s"
  "outer (upd_cpu c (\<lambda>x. x\<lparr>ncli := g x\<rparr>) s) = outer s" "outer (upd_lock lk h s) = outer s"
  by (simp_all add: outer_def upd_cpu_def upd_lock_def fun_eq_iff)

lemma outer_upd_thread [simp]: "(\<And>x. tf (h x) = tf x) \<Longrightarrow> outer (upd_thread p t h s) = outer s"
  by (simp add: outer_def upd_thread_def upd_proc_def fun_eq_iff)

lemma outer_p_state [simp]: "outer (upd_proc p (\<lambda>P. P\<lparr>p_state := x\<rparr>) s) = outer s"
  by (simp add: outer_def upd_proc_def fun_eq_iff)

lemma outer_wakeup1 [simp]: "outer (wakeup1 ch s) = outer s"
proof -
  have "same_proc (procs s p) (procs (wakeup1 ch s) p)" for p by (rule same_proc_wakeup)
  then have "ofile (procs (wakeup1 ch s) p) = ofile (procs s p) \<and> cwd (procs (wakeup1 ch s) p) = cwd (procs s p) \<and>
      sz (procs (wakeup1 ch s) p) = sz (procs s p) \<and> pgdir (procs (wakeup1 ch s) p) = pgdir (procs s p)" for p
    using same_procD by blast
  moreover have "tf (threads (procs (wakeup1 ch s) p) t) = tf (threads (procs s p) t)" for p t
    using thr_wakeup1[of ch s p t] by (simp add: thr_def)
  ultimately show ?thesis by (simp add: outer_def wakeup1_machine) (simp add: wakeup1_eq)
qed

lemma outer_fsd:
  "(\<And>d. consstate.more (g d) = consstate.more d) \<Longrightarrow> outer (upd_fsd g s) = outer s"
  by (simp add: outer_def)

lemma keeps_mycpu [keep_intros]: "outer s = v \<Longrightarrow> keeps outer v (mycpu c s)"
  by (auto simp: mycpu_def split: option.split)

lemma keeps_pushcli [keep_intros]: "outer s = v \<Longrightarrow> keeps outer v (pushcli c s)"
  by (auto simp: pushcli_def Let_def intro!: keep_intros)

lemma keeps_popcli [keep_intros]: "outer s = v \<Longrightarrow> keeps outer v (popcli c s)"
  by (auto simp: popcli_def Let_def intro!: keep_intros)

lemma keeps_holding [keep_intros]: "outer s = v \<Longrightarrow> keeps outer v (holding c lk s)"
  by (auto simp: holding_def Let_def intro!: keep_intros)

lemma keeps_acquire [keep_intros]: "outer s = v \<Longrightarrow> keeps outer v (acquire c lk s)"
  by (auto simp: acquire_def Let_def intro!: keep_intros)

lemma keeps_release [keep_intros]: "outer s = v \<Longrightarrow> keeps outer v (release c lk s)"
  by (auto simp: release_def Let_def intro!: keep_intros)

lemma keeps_myproc [keep_intros]: "outer s = v \<Longrightarrow> keeps outer v (myproc c s)"
  by (auto simp: myproc_def Let_def intro!: keep_intros)

lemma keeps_mythread [keep_intros]: "outer s = v \<Longrightarrow> keeps outer v (mythread c s)"
  by (auto simp: mythread_def Let_def intro!: keep_intros)

lemma keeps_wakeup [keep_intros]: "outer s = v \<Longrightarrow> keeps outer v (wakeup c ch s)"
  by (auto simp: wakeup_def Let_def intro!: keep_intros)

lemma keeps_sched [keep_intros]: "outer s = v \<Longrightarrow> keeps outer v (sched c s)"
  by (auto simp: sched_def Let_def intro!: keep_intros)

lemma keeps_sleep [keep_intros]: "outer s = v \<Longrightarrow> keeps outer v (sleep c ch lk s)"
  by (auto simp: sleep_def sleep_steps_def sleep_state_def Let_def intro!: keep_intros)

lemma more_upds [simp]:
  fixes d :: "'x consstate_scheme"
  shows "consstate.more (upd_sl k f d) = consstate.more d" "consstate.more (upd_buf b g d) = consstate.more d"
    "consstate.more (upd_pipe p h d) = consstate.more d" "consstate.more (upd_inode ip i d) = consstate.more d"
    "consstate.more (uartputc ch d) = consstate.more d"
  by (simp_all add: upd_sl_def upd_buf_def upd_pipe_def upd_inode_def uartputc_def)

lemma more_ide [simp]: "consstate.more (ide_transfer b d) = consstate.more d" "consstate.more (to_front b d) = consstate.more d"
  for d :: "'x consstate_scheme"
  by (simp_all add: ide_transfer_def to_front_def Let_def)

declare outer_fsd [simp]

lemma keeps_acquiresleep [keep_intros]: "outer s = v \<Longrightarrow> keeps outer v (acquiresleep c k s)"
  by (auto simp: acquiresleep_def acquiresleep_loop_def Let_def intro!: keep_intros)

lemma keeps_releasesleep [keep_intros]: "outer s = v \<Longrightarrow> keeps outer v (releasesleep c k s)"
  by (auto simp: releasesleep_def Let_def intro!: keep_intros)

lemma keeps_holdingsleep [keep_intros]: "outer s = v \<Longrightarrow> keeps outer v (holdingsleep c k s)"
  by (auto simp: holdingsleep_def Let_def intro!: keep_intros)

lemma keeps_iderw [keep_intros]: "outer s = v \<Longrightarrow> keeps outer v (iderw c b s)"
  by (auto simp: iderw_def Let_def intro!: keep_intros)

lemma keeps_bget [keep_intros]: "outer s = v \<Longrightarrow> keeps outer v (bget c dev n s)"
  by (auto simp: bget_def Let_def intro!: keep_intros)

lemma keeps_bread [keep_intros]: "outer s = v \<Longrightarrow> keeps outer v (bread c dev n s)"
  by (auto simp: bread_def Let_def intro!: keep_intros)

lemma keeps_bwrite [keep_intros]: "outer s = v \<Longrightarrow> keeps outer v (bwrite c b s)"
  by (auto simp: bwrite_def Let_def intro!: keep_intros)

lemma keeps_brelse [keep_intros]: "outer s = v \<Longrightarrow> keeps outer v (brelse c b s)"
  by (auto simp: brelse_def Let_def intro!: keep_intros)

lemma keeps_readsb [keep_intros]: "outer s = v \<Longrightarrow> keeps outer v (readsb c dev s)"
  by (auto simp: readsb_def Let_def intro!: keep_intros)

lemma keeps_install_trans [keep_intros]: "outer s = v \<Longrightarrow> keeps outer v (install_trans c s)"
  by (auto simp: install_trans_def install_block_def Let_def intro!: keep_intros)

lemma keeps_write_head [keep_intros]: "outer s = v \<Longrightarrow> keeps outer v (write_head c s)"
  by (auto simp: write_head_def Let_def intro!: keep_intros)

lemma keeps_write_log [keep_intros]: "outer s = v \<Longrightarrow> keeps outer v (write_log c s)"
  by (auto simp: write_log_def log_block_def Let_def intro!: keep_intros)

lemma keeps_commit [keep_intros]: "outer s = v \<Longrightarrow> keeps outer v (commit c s)"
  by (auto simp: commit_def Let_def intro!: keep_intros)

lemma keeps_begin_op [keep_intros]: "outer s = v \<Longrightarrow> keeps outer v (begin_op c s)"
  by (auto simp: begin_op_def begin_op_loop_def Let_def intro!: keep_intros)

lemma keeps_end_op [keep_intros]: "outer s = v \<Longrightarrow> keeps outer v (end_op c s)"
  by (auto simp: end_op_def Let_def intro!: keep_intros)

lemma keeps_log_write [keep_intros]: "outer s = v \<Longrightarrow> keeps outer v (log_write c b s)"
  by (auto simp: log_write_def Let_def intro!: keep_intros)

lemma keeps_bzero [keep_intros]: "outer s = v \<Longrightarrow> keeps outer v (bzero c dev b s)"
  by (auto simp: bzero_def Let_def intro!: keep_intros)

lemma keeps_balloc_loop: "outer s = v \<Longrightarrow> keeps outer v (balloc_loop c dev bs s)"
  by (induction bs arbitrary: s) (auto simp: Let_def intro!: keep_intros)

lemma keeps_balloc [keep_intros]: "outer s = v \<Longrightarrow> keeps outer v (balloc c dev s)"
  by (simp add: balloc_def keeps_balloc_loop)

lemma keeps_bfree [keep_intros]: "outer s = v \<Longrightarrow> keeps outer v (bfree c dev b s)"
  by (auto simp: bfree_def Let_def intro!: keep_intros)

lemma keeps_iget [keep_intros]: "outer s = v \<Longrightarrow> keeps outer v (iget c dev n s)"
  by (auto simp: iget_def Let_def intro!: keep_intros)

lemma keeps_ialloc_loop: "outer s = v \<Longrightarrow> keeps outer v (ialloc_loop c dev ty is s)"
  by (induction "is" arbitrary: s) (auto simp: Let_def intro!: keep_intros)

lemma keeps_ialloc [keep_intros]: "outer s = v \<Longrightarrow> keeps outer v (ialloc c dev ty s)"
  by (simp add: ialloc_def keeps_ialloc_loop)

lemma keeps_iupdate [keep_intros]: "outer s = v \<Longrightarrow> keeps outer v (iupdate c ip s)"
  by (auto simp: iupdate_def Let_def intro!: keep_intros)

lemma keeps_idup [keep_intros]: "outer s = v \<Longrightarrow> keeps outer v (idup c ip s)"
  by (auto simp: idup_def Let_def intro!: keep_intros)

lemma keeps_ilock [keep_intros]: "outer s = v \<Longrightarrow> keeps outer v (ilock c ptr s)"
  by (auto simp: ilock_def ilock_read_def Let_def intro!: keep_intros)

lemma keeps_iunlock [keep_intros]: "outer s = v \<Longrightarrow> keeps outer v (iunlock c ptr s)"
  by (auto simp: iunlock_def Let_def intro!: keep_intros)

lemma keeps_bmap [keep_intros]: "outer s = v \<Longrightarrow> keeps outer v (bmap c ip bn s)"
  by (auto simp: bmap_def Let_def intro!: keep_intros)

lemma keeps_itrunc [keep_intros]: "outer s = v \<Longrightarrow> keeps outer v (itrunc c ip s)"
  by (auto simp: itrunc_def Let_def intro!: keep_intros)

lemma keeps_iput [keep_intros]: "outer s = v \<Longrightarrow> keeps outer v (iput c ip s)"
  by (auto simp: iput_def Let_def intro!: keep_intros)

lemma keeps_iunlockput [keep_intros]: "outer s = v \<Longrightarrow> keeps outer v (iunlockput c ip s)"
  by (auto simp: iunlockput_def Let_def intro!: keep_intros)

lemma keeps_consputc [keep_intros]: "outer s = v \<Longrightarrow> keeps outer v (consputc ch s)"
  by (auto simp: consputc_def cgaputc_def Let_def intro!: keep_intros outer_fsd split: prod.split)

lemma keeps_cprintf [keep_intros]: "outer s = v \<Longrightarrow> keeps outer v (cprintf c str fmt args s)"
  by (auto simp: cprintf_def Let_def intro!: keep_intros)

lemma keeps_self_killed [keep_intros]: "outer s = v \<Longrightarrow> keeps outer v (self_killed c s)"
  by (auto simp: self_killed_def Let_def intro!: keep_intros)

lemma cons_take_more: "cons_take n b d = (bs, w, d') \<Longrightarrow> consstate.more d' = consstate.more d"
  by (induction n b d arbitrary: bs rule: cons_take.induct) (auto simp: Let_def split: if_splits prod.splits)

lemma keeps_consoleread_loop [keep_intros]:
  assumes "outer s = v"
  shows "keeps outer v (consoleread_loop c ip t n s)"
proof -
  obtain bs w d where t: "cons_take (nat n) (n < t) (fsd s) = (bs, w, d)" by (metis prod_cases3)
  have "outer (upd_fsd (\<lambda>_. d) s) = v" using cons_take_more[OF t] assms by (simp add: outer_def)
  then show ?thesis unfolding consoleread_loop_def t prod.case Let_def by (auto intro!: keep_intros)
qed

lemma keeps_consoleread [keep_intros]: "outer s = v \<Longrightarrow> keeps outer v (consoleread c ip n s)"
  by (auto simp: consoleread_def intro!: keep_intros)

lemma keeps_consolewrite [keep_intros]: "outer s = v \<Longrightarrow> keeps outer v (consolewrite c ip buf n s)"
  by (auto simp: consolewrite_def Let_def intro!: keep_intros)

lemma keeps_readi_loop [keep_intros]: "outer s = v \<Longrightarrow> keeps outer v (readi_loop c ip n tot off s)"
proof (induction "unat (n - tot)" arbitrary: tot off s v rule: less_induct)
  case less
  show ?case
    using less.prems by (subst readi_loop.simps) (auto simp: Let_def intro!: keep_intros less.hyps chunk_decreases)
qed

lemma keeps_readi [keep_intros]: "outer s = v \<Longrightarrow> keeps outer v (readi c ip off n s)"
  by (auto simp: readi_def Let_def intro!: keep_intros)

lemma keeps_writei_loop [keep_intros]: "outer s = v \<Longrightarrow> keeps outer v (writei_loop c ip src n tot off s)"
proof (induction "unat (n - tot)" arbitrary: tot off s v rule: less_induct)
  case less
  show ?case
    using less.prems by (subst writei_loop.simps) (auto simp: Let_def intro!: keep_intros less.hyps chunk_decreases)
qed

lemma keeps_writei [keep_intros]: "outer s = v \<Longrightarrow> keeps outer v (writei c ip src off n s)"
  by (auto simp: writei_def Let_def intro!: keep_intros)

lemma keeps_dirlookup_loop: "outer s = v \<Longrightarrow> keeps outer v (dirlookup_loop c dp name offs s)"
  by (induction offs arbitrary: s) (auto simp: Let_def intro!: keep_intros)

lemma keeps_dirlookup [keep_intros]: "outer s = v \<Longrightarrow> keeps outer v (dirlookup c dp name s)"
  by (auto simp: dirlookup_def intro!: keep_intros keeps_dirlookup_loop)

lemma keeps_dirlink_loop [keep_intros]: "outer s = v \<Longrightarrow> keeps outer v (dirlink_loop c dp offs s)"
  by (induction offs arbitrary: s) (auto simp: Let_def intro!: keep_intros)

lemma keeps_dirlink [keep_intros]: "outer s = v \<Longrightarrow> keeps outer v (dirlink c dp name n s)"
  by (auto simp: dirlink_def Let_def intro!: keep_intros)

lemma keeps_namex_loop [keep_intros]: "outer s = v \<Longrightarrow> keeps outer v (namex_loop c ip path parent name s)"
proof (induction "length path" arbitrary: ip path name s v rule: less_induct)
  case less
  show ?case
    using less.prems
    by (subst namex_loop.simps) (auto simp: Let_def intro!: keep_intros less.hyps dest: skipelem_shorter)
qed

lemma keeps_namex [keep_intros]: "outer s = v \<Longrightarrow> keeps outer v (namex c path parent name s)"
  by (auto simp: namex_def intro!: keep_intros)

lemma keeps_namei [keep_intros]: "outer s = v \<Longrightarrow> keeps outer v (namei c path s)"
  by (auto simp: namei_def intro!: keep_intros)

lemma keeps_nameiparent [keep_intros]: "outer s = v \<Longrightarrow> keeps outer v (nameiparent c path name s)"
  by (auto simp: nameiparent_def intro!: keep_intros)

lemma keeps_piperead [keep_intros]: "outer s = v \<Longrightarrow> keeps outer v (piperead c p n s)"
  by (auto simp: piperead_def piperead_loop_def Let_def intro!: keep_intros)

lemma keeps_pipewrite [keep_intros]: "outer s = v \<Longrightarrow> keeps outer v (pipewrite c p addr n s)"
  by (auto simp: pipewrite_def pipewrite_loop_def Let_def intro!: keep_intros)

end
