(* ===== verification/Descr.thy ===== *)
theory Descr
  imports Frame Sysfile
begin

text \<open>
  The types of the file table (\<open>file.c\<close>, \<open>sysfile.c\<close>). An entry of \<open>ftable.file\<close> is free, a pipe end or
  an open inode, its count is the number of descriptors that name it, and every descriptor names an open
  entry; the system calls on files keep this.
\<close>

definition file_ok :: "kfile \<Rightarrow> bool" where
  "file_ok F \<longleftrightarrow>
     (f_type F = FD_PIPE \<longrightarrow> f_readable F \<noteq> f_writable F) \<and> (f_type F = FD_INODE \<longrightarrow> f_ip F < NINODE)"

text \<open>The number of descriptors that name a file.\<close>

definition fdrefs :: "(nat \<times> nat \<Rightarrow> nat option) \<Rightarrow> nat \<Rightarrow> int" where
  "fdrefs D f = (\<Sum>x\<in>{..<NPROC} \<times> {..<NOFILE}. of_bool (D x = Some f))"

definition descr :: "'a kernel_scheme \<Rightarrow> nat \<times> nat \<Rightarrow> nat option" where
  "descr s x = ofile (procs s (fst x)) (snd x)"

text \<open>
  \<open>e\<close> counts the references the running kernel code holds itself, and \<open>N\<close> contains the files it has
  allocated and not filled in.
\<close>

definition ftab_ok :: "(nat \<Rightarrow> int) \<Rightarrow> nat set \<Rightarrow> (nat \<Rightarrow> kfile) \<Rightarrow> (nat \<times> nat \<Rightarrow> nat option) \<Rightarrow> bool" where
  "ftab_ok e N F D \<longleftrightarrow>
     (\<forall>f<NFILE. file_ok (F f) \<and> 0 \<le> f_ref (F f) \<and> f_ref (F f) = fdrefs D f + e f \<and>
        (f \<notin> N \<longrightarrow> (f_type (F f) = FD_NONE) = (f_ref (F f) = 0)) \<and>
        (f \<in> N \<longrightarrow> f_type (F f) = FD_NONE \<and> f_ref (F f) = 1)) \<and>
     (\<forall>x f. fst x < NPROC \<longrightarrow> D x = Some f \<longrightarrow> snd x < NOFILE \<and> f < NFILE)"

definition procs_ok :: "'a kernel_scheme \<Rightarrow> bool" where
  "procs_ok s \<longleftrightarrow> (\<forall>p<NPROC. \<forall>ip. cwd (procs s p) = Some ip \<longrightarrow> ip < NINODE) \<and> (\<forall>c q. cpu_proc (cpus s c) = Some q \<longrightarrow> q < NPROC)"

definition fd_inv :: "(nat \<Rightarrow> int) \<Rightarrow> nat set \<Rightarrow> ('x filestate_scheme, 'a) sys_scheme \<Rightarrow> bool" where
  "fd_inv e N s \<longleftrightarrow> ftab_ok e N (files (fsd s)) (descr s) \<and> procs_ok s"

definition typed :: "('x filestate_scheme, 'a) sys_scheme \<Rightarrow> bool" where
  "typed s = fd_inv (\<lambda>_. 0) {} s"

subsection \<open>Counting descriptors\<close>

lemma sum_upd_eq: "finite A \<Longrightarrow> a \<in> A \<Longrightarrow> (\<Sum>x\<in>A. if x = a then v else h x) = (\<Sum>x\<in>A. h x) - h a + (v :: int)"
  by (simp add: sum.remove[of A a])

lemma fdrefs_upd:
  assumes "fst x < NPROC" "snd x < NOFILE"
  shows "fdrefs (D(x := d)) f = fdrefs D f - of_bool (D x = Some f) + of_bool (d = Some f)"
proof -
  let ?A = "{..<NPROC} \<times> {..<NOFILE}"
  have e: "(\<lambda>y. of_bool ((D(x := d)) y = Some f) :: int) = (\<lambda>y. if y = x then of_bool (d = Some f) else of_bool (D y = Some f))"
    by auto
  have "finite ?A" "x \<in> ?A" using assms by (cases x; simp)+
  then show ?thesis unfolding fdrefs_def e by (rule sum_upd_eq)
qed

lemma fdrefs_nonneg: "0 \<le> fdrefs D f"
  by (simp add: fdrefs_def sum_nonneg)

lemma fdrefs_pos:
  assumes "D x = Some f" "fst x < NPROC" "snd x < NOFILE"
  shows "1 \<le> fdrefs D f"
proof -
  have "0 \<le> fdrefs (D(x := None)) f" by (rule fdrefs_nonneg)
  then show ?thesis using fdrefs_upd[OF assms(2,3), of D None f] assms(1) by simp
qed

subsection \<open>Updates of the table\<close>

lemma ftab_ref:
  assumes "ftab_ok e N F D" "f < NFILE" "1 \<le> f_ref (F f)" "f \<notin> N"
  shows "ftab_ok (e(f := e f + 1)) N (F(f := (F f)\<lparr>f_ref := f_ref (F f) + 1\<rparr>)) D"
  using assms by (auto simp: ftab_ok_def file_ok_def)

lemma ftab_new:
  assumes "ftab_ok e N F D" "f < NFILE" "f_ref (F f) = 0"
  shows "ftab_ok (e(f := e f + 1)) (insert f N) (F(f := (F f)\<lparr>f_ref := 1\<rparr>)) D" "f \<notin> N"
  using assms by (auto simp: ftab_ok_def file_ok_def)

lemma ftab_unref:
  assumes "ftab_ok e N F D" "f < NFILE" "1 < f_ref (F f)"
  shows "ftab_ok (e(f := e f - 1)) N (F(f := (F f)\<lparr>f_ref := f_ref (F f) - 1\<rparr>)) D"
  using assms by (auto simp: ftab_ok_def file_ok_def)

lemma ftab_free:
  assumes "ftab_ok e N F D" "f < NFILE" "f_ref (F f) = 1"
  shows "ftab_ok (e(f := e f - 1)) (N - {f}) (F(f := (F f)\<lparr>f_ref := 0, f_type := FD_NONE\<rparr>)) D"
  using assms by (auto simp: ftab_ok_def file_ok_def)

lemma ftab_fill:
  assumes "ftab_ok e N F D" "f \<in> N" "f < NFILE" "file_ok G" "f_type G \<noteq> FD_NONE" "f_ref G = f_ref (F f)"
  shows "ftab_ok e (N - {f}) (F(f := G)) D"
  using assms by (auto simp: ftab_ok_def)

lemma ftab_same:
  assumes "ftab_ok e N F D" "f_type G = f_type (F f)" "f_ref G = f_ref (F f)" "f_ip G = f_ip (F f)"
    "f_readable G = f_readable (F f)" "f_writable G = f_writable (F f)"
  shows "ftab_ok e N (F(f := G)) D"
  using assms by (auto simp: ftab_ok_def file_ok_def)

lemma ftab_store:
  assumes "ftab_ok e N F D" "D x = None" "fst x < NPROC" "snd x < NOFILE" "f < NFILE"
  shows "ftab_ok (e(f := e f - 1)) N F (D(x := Some f))"
  using assms by (auto simp: ftab_ok_def fdrefs_upd)

lemma ftab_clear:
  assumes "ftab_ok e N F D" "D x = Some f" "fst x < NPROC"
  shows "ftab_ok (e(f := e f + 1)) N F (D(x := None))"
  using assms by (auto simp: ftab_ok_def fdrefs_upd)

subsection \<open>Calls that end in a state of a kind\<close>

definition ensures :: "('r \<Rightarrow> 's \<Rightarrow> bool) \<Rightarrow> ('r, 's) res \<Rightarrow> bool" where
  "ensures P m = (case m of Ok r s \<Rightarrow> P r s | _ \<Rightarrow> True)"

lemma ensures_simps [simp]:
  "ensures P (Ok r s) = P r s" "ensures P (Switch s)" "ensures P (Panic e)" "ensures P Spin" "ensures P (Fault e)"
  by (simp_all add: ensures_def)

lemma ensuresD: "ensures P m \<Longrightarrow> m = Ok r s \<Longrightarrow> P r s"
  by simp

lemma ensures_bnd: "ensures Q m \<Longrightarrow> (\<And>a s. Q a s \<Longrightarrow> ensures P (g a s)) \<Longrightarrow> ensures P (bnd m g)"
  by (cases m) auto

lemma ensures_weak: "ensures Q m \<Longrightarrow> (\<And>a s. Q a s \<Longrightarrow> P a s) \<Longrightarrow> ensures P m"
  by (cases m) auto

lemma files_outer:
  assumes "outer s = outer s'"
  shows "files (fsd s) = files (fsd s')"
proof -
  have "consstate.more (fsd s) = consstate.more (fsd s')" using assms by (simp add: outer_def)
  then show ?thesis by (cases "fsd s"; cases "fsd s'") simp
qed

lemma descr_outer: "outer s = outer s' \<Longrightarrow> descr s = descr s'"
  by (simp add: outer_def descr_def fun_eq_iff)

lemma procs_ok_outer: "outer s = outer s' \<Longrightarrow> procs_ok s = procs_ok s'"
  by (simp add: outer_def procs_ok_def fun_eq_iff)

text \<open>The part of the state the invariant is about.\<close>

definition ftab where
  "ftab s = (files (fsd s), descr s, (\<lambda>p. cwd (procs s p)), (\<lambda>c. cpu_proc (cpus s c)))"

lemma ftab_outer: "outer s = outer s' \<Longrightarrow> ftab s = ftab s'"
  using files_outer[of s s'] descr_outer[of s s'] by (simp add: ftab_def outer_def fun_eq_iff)

lemma fd_inv_ftab: "ftab s = ftab s' \<Longrightarrow> fd_inv e N s = fd_inv e N s'"
  unfolding fd_inv_def ftab_def procs_ok_def prod.inject by (metis (no_types))

lemma keeps_ftab: "keeps outer (outer s) m \<Longrightarrow> ftab s = v \<Longrightarrow> keeps ftab v m"
  using ftab_outer by (cases m) auto

lemma ftab_upds [simp]:
  "ftab (s\<lparr>mem := m\<rparr>) = ftab s" "ftab (s\<lparr>freelist := l\<rparr>) = ftab s" "ftab (upd_lock lk g s) = ftab s"
  by (simp_all add: ftab_def descr_def[abs_def] upd_lock_def)

lemma ftab_pipe [simp]: "ftab (upd_fsd (upd_pipe p g) s) = ftab s" "ftab (initlock lk n s) = ftab s"
  by (simp_all add: ftab_def descr_def[abs_def] upd_pipe_def initlock_def upd_lock_def)

lemma ftab_acquire: "ftab s = v \<Longrightarrow> keeps ftab v (acquire c lk s)"
  and ftab_release: "ftab s = v \<Longrightarrow> keeps ftab v (release c lk s)"
  and ftab_wakeup: "ftab s = v \<Longrightarrow> keeps ftab v (wakeup c ch s)"
  by (rule keeps_ftab[rotated], assumption, rule keep_intros, rule refl)+

lemma ftab_kfree: "ftab s = v \<Longrightarrow> keeps ftab v (kfree c p s)"
  by (auto simp: kfree_def Let_def intro!: keeps_bnd keeps_if ftab_acquire ftab_release)

lemma ftab_kalloc: "ftab s = v \<Longrightarrow> keeps ftab v (kalloc c s)"
  by (auto simp: kalloc_def Let_def intro!: keeps_bnd keeps_if ftab_acquire ftab_release)

lemma ftab_pipeclose: "ftab s = v \<Longrightarrow> keeps ftab v (pipeclose c p w s)"
  by (auto simp: pipeclose_def intro!: keeps_bnd keeps_if ftab_acquire ftab_release ftab_wakeup ftab_kfree)

lemma ftab_ustore: "ftab s = v \<Longrightarrow> keeps ftab v (ustore_bytes c a bs s)"
  by (induction bs arbitrary: a s) (auto split: option.split)

text \<open>A call that keeps this part, before the rest of the code and at its end.\<close>

lemma tab_step:
  "keeps ftab (ftab s) m \<Longrightarrow> fd_inv e N s \<Longrightarrow> (\<And>a s'. fd_inv e N s' \<Longrightarrow> ftab s' = ftab s \<Longrightarrow> ensures P (g a s')) \<Longrightarrow>
   ensures P (bnd m g)"
  using fd_inv_ftab by (cases m) (simp_all, blast)

lemma tab_last: "keeps ftab (ftab s) m \<Longrightarrow> fd_inv e N s \<Longrightarrow> ensures (\<lambda>_. fd_inv e N) m"
  using fd_inv_ftab by (cases m) auto

lemmas inv_step = tab_step[OF keeps_ftab[OF _ refl]]
lemmas inv_last = tab_last[OF keeps_ftab[OF _ refl]]

subsection \<open>The operations of the file table\<close>

lemma fd_inv_file:
  assumes "ftab_ok e' N' ((files (fsd s))(f := g (files (fsd s) f))) (descr s)" "fd_inv e N s"
  shows "fd_inv e' N' (upd_fsd (upd_file f g) s)"
  using assms by (simp add: fd_inv_def upd_file_def procs_ok_def descr_def[abs_def])

lemma filealloc_inv:
  assumes "fd_inv e N s"
  shows "ensures (\<lambda>r s'. case r of None \<Rightarrow> fd_inv e N s'
    | Some f \<Rightarrow> f < NFILE \<and> f \<notin> N \<and> fd_inv (e(f := e f + 1)) (insert f N) s') (filealloc c s)"
  unfolding filealloc_def
proof (rule inv_step[OF _ assms], goal_cases)
  case 1 show ?case by (rule keeps_acquire) simp
next
  case (2 _ s)
  show ?case
  proof (cases "first_index (\<lambda>f. f_ref (files (fsd s) f) = 0) NFILE")
    case None
    then show ?thesis using 2(1) by (auto intro!: inv_step[OF keeps_release])
  next
    case (Some f)
    then have f: "f < NFILE" "f_ref (files (fsd s) f) = 0" by (auto simp: first_index_Some_iff)
    have "ftab_ok e N (files (fsd s)) (descr s)" using 2(1) by (simp add: fd_inv_def)
    note t = ftab_new[OF this f]
    have "fd_inv (e(f := e f + 1)) (insert f N) (upd_fsd (upd_file f (\<lambda>x. x\<lparr>f_ref := 1\<rparr>)) s)" "f \<notin> N"
      using t 2(1) by (auto intro: fd_inv_file)
    then show ?thesis using f by (auto simp: Some intro!: inv_step[OF keeps_release])
  qed
qed


lemma filedup_inv:
  assumes "fd_inv e N s" "f < NFILE" "f \<notin> N"
  shows "ensures (\<lambda>r s'. r = f \<and> fd_inv (e(f := e f + 1)) N s') (filedup c f s)"
  unfolding filedup_def
proof (rule inv_step[OF _ assms(1)], goal_cases)
  case 1 show ?case by (rule keeps_acquire) simp
next
  case (2 _ s)
  show ?case
  proof (cases "f_ref (files (fsd s) f) < 1")
    case False
    have "ftab_ok e N (files (fsd s)) (descr s)" using 2(1) by (simp add: fd_inv_def)
    then have "fd_inv (e(f := e f + 1)) N (upd_fsd (upd_file f (\<lambda>x. x\<lparr>f_ref := f_ref x + 1\<rparr>)) s)"
      using ftab_ref[of e N "files (fsd s)" "descr s" f] assms(2,3) False 2(1) by (auto intro: fd_inv_file)
    then show ?thesis using False by (auto intro!: inv_step[OF keeps_release])
  qed simp
qed

lemma close_tail:
  assumes "fd_inv e N s"
  shows "ensures (\<lambda>_. fd_inv e N) (case ty of FD_PIPE \<Rightarrow> pipeclose c p w s
    | FD_INODE \<Rightarrow> bnd (begin_op c s) (\<lambda>_ s. bnd (iput c ip s) (\<lambda>_. end_op c)) | FD_NONE \<Rightarrow> Ok () s)"
proof (cases ty)
  case FD_PIPE
  then show ?thesis using tab_last[OF ftab_pipeclose[OF refl] assms] by simp
next
  case FD_INODE
  have "keeps outer (outer s) (bnd (begin_op c s) (\<lambda>_ s. bnd (iput c ip s) (\<lambda>_. end_op c)))" by (auto intro!: keep_intros)
  then show ?thesis using inv_last[OF _ assms] FD_INODE by simp
qed (simp add: assms)

lemma fileclose_inv:
  assumes "fd_inv e N s" "f < NFILE"
  shows "ensures (\<lambda>_. fd_inv (e(f := e f - 1)) (N - {f})) (fileclose c f s)"
  unfolding fileclose_def
proof (rule inv_step[OF _ assms(1)], goal_cases)
  case 1 show ?case by (rule keeps_acquire) simp
next
  case (2 _ s)
  let ?F = "files (fsd s) f" and ?e = "e(f := e f - 1)"
  have t: "ftab_ok e N (files (fsd s)) (descr s)" using 2(1) by (simp add: fd_inv_def)
  consider "f_ref ?F < 1" | "1 < f_ref ?F" | "f_ref ?F = 1" by linarith
  then show ?case
  proof cases
    case 1 then show ?thesis by simp
  next
    case 2
    then have "N - {f} = N" using t assms(2) by (auto simp: ftab_ok_def)
    then have "fd_inv ?e (N - {f}) (upd_fsd (upd_file f (\<lambda>x. x\<lparr>f_ref := f_ref x - 1\<rparr>)) s)"
      using ftab_unref[OF t assms(2) 2] \<open>fd_inv e N s\<close> by (auto intro: fd_inv_file)
    then show ?thesis using 2 by (auto simp: upd_file_def Let_def intro!: inv_last[OF keeps_release])
  next
    case 3
    define s' where "s' = upd_fsd (upd_file f (\<lambda>x. x\<lparr>f_ref := 0, f_type := FD_NONE\<rparr>)) (upd_fsd (upd_file f (\<lambda>x. x\<lparr>f_ref := f_ref x - 1\<rparr>)) s)"
    have "s' = upd_fsd (upd_file f (\<lambda>x. x\<lparr>f_ref := 0, f_type := FD_NONE\<rparr>)) s"
      by (simp add: s'_def upd_file_def upd_fsd_def)
    then have "fd_inv ?e (N - {f}) s'"
      using ftab_free[OF t assms(2) 3] \<open>fd_inv e N s\<close> by (auto intro: fd_inv_file)
    moreover have "\<not> f_ref (files (fsd (upd_fsd (upd_file f (\<lambda>x. x\<lparr>f_ref := f_ref x - 1\<rparr>)) s)) f) > 0"
      using 3 by (simp add: upd_file_def)
    ultimately show ?thesis using 3
      by (auto simp: s'_def Let_def intro!: inv_step[OF keeps_release] close_tail)
  qed
qed

subsection \<open>Arguments and descriptors\<close>

lemma keeps_fetchint [keep_intros]: "outer s = v \<Longrightarrow> keeps outer v (fetchint c a s)"
  by (auto simp: fetchint_def intro!: keep_intros)

lemma keeps_fetchstr [keep_intros]: "outer s = v \<Longrightarrow> keeps outer v (fetchstr c a s)"
  by (auto simp: fetchstr_def intro!: keep_intros)

lemma keeps_argint [keep_intros]: "outer s = v \<Longrightarrow> keeps outer v (argint c n s)"
  by (auto simp: argint_def intro!: keep_intros)

lemma keeps_argptr [keep_intros]: "outer s = v \<Longrightarrow> keeps outer v (argptr c n len s)"
  by (auto simp: argptr_def intro!: keep_intros)

lemma keeps_argstr [keep_intros]: "outer s = v \<Longrightarrow> keeps outer v (argstr c n s)"
  by (auto simp: argstr_def intro!: keep_intros)

lemma keeps_argfd [keep_intros]: "outer s = v \<Longrightarrow> keeps outer v (argfd c n s)"
  by (auto simp: argfd_def ofile_read_def intro!: keep_intros)

text \<open>The process that runs on a CPU, as \<open>myproc\<close> finds it.\<close>

definition me :: "nat \<Rightarrow> 'a kernel_scheme \<Rightarrow> nat option" where
  "me c s = (case first_index (\<lambda>i. apicid (cpus s i) = lapicid c s) (ncpu s) of None \<Rightarrow> None | Some k \<Rightarrow> cpu_proc (cpus s k))"

lemma me_outer: "outer s = outer s' \<Longrightarrow> me c s = me c s'"
  by (simp add: me_def outer_def lapicid_def fun_eq_iff cong: option.case_cong)

lemma mycpu_Ok: "mycpu c s = Ok k s' \<Longrightarrow> s' = s \<and> me c s = cpu_proc (cpus s k)"
  by (auto simp: mycpu_def me_def split: if_splits option.splits)

lemma myproc_Ok: "myproc c s = Ok p s' \<Longrightarrow> outer s' = outer s \<and> p = me c s"
proof -
  assume m: "myproc c s = Ok p s'"
  have o: "outer s' = outer s" using keeps_myproc[OF refl, of s c] m by simp
  from m obtain u s1 where 1: "pushcli c s = Ok u s1" "p = me c s1"
    by (auto simp: myproc_def Let_def res_simps dest!: mycpu_Ok)
  have "outer s1 = outer s" using keeps_pushcli[OF refl, of s c] 1(1) by simp
  then show ?thesis using o 1(2) me_outer by metis
qed

lemma myproc_ensures: "ensures (\<lambda>p s'. outer s' = outer s \<and> p = me c s) (myproc c s)"
  by (cases "myproc c s") (auto dest: myproc_Ok)

lemma me_bound: "fd_inv e N s \<Longrightarrow> me c s = Some p \<Longrightarrow> p < NPROC"
  by (auto simp: me_def fd_inv_def procs_ok_def split: option.splits)

lemma sint_nonneg: "0 \<le> sint (v :: 32 word) \<Longrightarrow> uint v = sint v"
proof -
  assume a: "0 \<le> sint v"
  have "\<not> bit v 31" using a by (simp add: sint_uint signed_take_bit_nonnegative_iff bit_uint_iff)
  then have "signed_take_bit 31 (uint v) = take_bit 31 (uint v)" by (simp add: signed_take_bit_eq_if_positive bit_uint_iff)
  moreover have "take_bit 31 (uint v) = uint v"
  proof (rule bit_eqI)
    fix n
    have "bit v n \<Longrightarrow> n < 31" using \<open>\<not> bit v 31\<close> bit_imp_le_length[of v n] by (cases "n = 31") auto
    then show "bit (take_bit 31 (uint v)) n = bit (uint v) n" by (auto simp: bit_take_bit_iff bit_uint_iff)
  qed
  ultimately show ?thesis by (simp add: sint_uint)
qed

lemma argfd_Some:
  assumes "argfd c n s = Ok (Some (fd, f)) s'"
  shows "outer s' = outer s" "fd < NOFILE" "\<exists>p. me c s' = Some p \<and> descr s' (p, fd) = Some f"
proof -
  show o: "outer s' = outer s" using keeps_argfd[OF refl, of s c n] assms by simp
  let ?rd = "\<lambda>v p s. bnd (ofile_read p (sint v) s) (\<lambda>f s. Ok (map_option (Pair (nat (sint v))) f) s)"
  from assms obtain r s1 where r: "argint c n s = Ok r s1"
      "(case r of None \<Rightarrow> Ok None s1 | Some v \<Rightarrow> if sint v < 0 \<or> sint v \<ge> int NOFILE then Ok None s1
        else bnd (myproc c s1) (\<lambda>p s. deref p (?rd v) s)) = Ok (Some (fd, f)) s'"
    by (auto simp: argfd_def bnd_Ok_iff)
  then obtain v where v: "r = Some v" "\<not> sint v < 0" "sint v < int NOFILE" by (auto split: option.splits if_splits)
  with r obtain q s2 where q: "myproc c s1 = Ok q s2" "deref q (?rd v) s2 = Ok (Some (fd, f)) s'"
    by (auto simp: bnd_Ok_iff)
  then obtain p where p: "q = Some p" by (cases q) (auto simp: deref_def)
  have a: "myproc c s1 = Ok (Some p) s'" "ofile (procs s' p) (nat (sint v)) = Some f" "fd = nat (sint v)"
    using q v unfolding p deref_def option.case by (auto simp: ofile_read_def)
  show "fd < NOFILE" using a v by simp
  show "\<exists>p. me c s' = Some p \<and> descr s' (p, fd) = Some f"
    using myproc_Ok[OF a(1)] a(2,3) me_outer[of s' s1 c] by (intro exI[of _ p]) (auto simp: descr_def)
qed

lemma fd_inv_descr:
  assumes "ftab_ok e' N (files (fsd s)) ((descr s)((p, fd) := d))" "fd_inv e N s"
  shows "fd_inv e' N (upd_proc p (\<lambda>P. P\<lparr>ofile := (ofile P)(fd := d)\<rparr>) s)"
proof -
  have "descr (upd_proc p (\<lambda>P. P\<lparr>ofile := (ofile P)(fd := d)\<rparr>) s) = (descr s)((p, fd) := d)"
    by (auto simp: descr_def upd_proc_def fun_eq_iff)
  then show ?thesis using assms by (auto simp: fd_inv_def procs_ok_def upd_proc_def)
qed

lemma fdalloc_inv:
  assumes "fd_inv e N s" "f < NFILE"
  shows "ensures (\<lambda>r s'. me c s' = me c s \<and> (case r of None \<Rightarrow> fd_inv e N s' \<and> outer s' = outer s
    | Some fd \<Rightarrow> fd < NOFILE \<and> fd_inv (e(f := e f - 1)) N s' \<and> (\<exists>p. me c s' = Some p \<and> descr s' (p, fd) = Some f))) (fdalloc c f s)"
  unfolding fdalloc_def
proof (rule ensures_bnd[OF myproc_ensures], elim conjE, goal_cases)
  case (1 p s1)
  have i: "fd_inv e N s1" using assms(1) fd_inv_ftab[OF ftab_outer[OF 1(1)]] by simp
  show ?case
  proof (cases p)
    case pS: (Some p)
    then have p: "me c s1 = Some p" "p < NPROC" using 1 me_outer[OF 1(1), of c] me_bound[OF i] by auto
    show ?thesis
    proof (cases "first_index (\<lambda>fd. ofile (procs s1 p) fd = None) NOFILE")
      case None
      then show ?thesis using i p 1 me_outer[OF 1(1), of c] pS by (simp add: deref_def)
    next
      case (Some fd)
      then have fd: "fd < NOFILE" "descr s1 (p, fd) = None" by (auto simp: first_index_Some_iff descr_def)
      let ?s = "upd_proc p (\<lambda>P. P\<lparr>ofile := (ofile P)(fd := Some f)\<rparr>) s1"
      have "fd_inv (e(f := e f - 1)) N ?s"
        using ftab_store[of e N "files (fsd s1)" "descr s1" "(p, fd)" f] fd p i assms(2)
        by (intro fd_inv_descr) (auto simp: fd_inv_def)
      moreover have "me c ?s = me c s1" by (simp add: me_def lapicid_def upd_proc_def cong: option.case_cong)
      moreover have "descr ?s (p, fd) = Some f" by (simp add: descr_def upd_proc_def)
      ultimately show ?thesis using fd p Some pS me_outer[OF 1(1), of c] by (simp add: deref_def)
    qed
  qed (simp add: deref_def)
qed

lemma fdclear_inv:
  assumes "fd_inv e N s" "me c s = Some p" "descr s (p, fd) = Some f"
  shows "ensures (\<lambda>_. fd_inv (e(f := e f + 1)) N) (fdclear c fd s)"
  unfolding fdclear_def
proof (rule ensures_bnd[OF myproc_ensures], elim conjE, goal_cases)
  case (1 q s1)
  have i: "fd_inv e N s1" using assms(1) fd_inv_ftab[OF ftab_outer[OF 1(1)]] by simp
  have q: "q = Some p" "p < NPROC" "descr s1 (p, fd) = Some f"
    using 1 assms me_bound[OF assms(1,2)] descr_outer[OF 1(1)] by auto
  have "fd_inv (e(f := e f + 1)) N (upd_proc p (\<lambda>P. P\<lparr>ofile := (ofile P)(fd := None)\<rparr>) s1)"
    using ftab_clear[of e N "files (fsd s1)" "descr s1" "(p, fd)" f] q i by (intro fd_inv_descr) (auto simp: fd_inv_def)
  then show ?case using q by (simp add: deref_def)
qed

lemma two_closes:
  assumes "fd_inv (e(f0 := e f0 + 1, f1 := e f1 + 1)) N s" "f0 \<noteq> f1" "f0 < NFILE" "f1 < NFILE"
  shows "ensures (\<lambda>r' s'. r' = r \<and> fd_inv e (N - {f0, f1}) s') (bnd (fileclose c f0 s) (\<lambda>_ s. bnd (fileclose c f1 s) (\<lambda>_. Ok r)))"
proof (rule ensures_bnd[OF fileclose_inv[OF assms(1,3)]], rule ensures_bnd[OF fileclose_inv[OF _ assms(4)]], assumption, goal_cases)
  case (1 _ s _ s')
  have "N - {f0} - {f1} = N - {f0, f1}" by auto
  then show ?case using 1(2) assms(2) by (simp add: fun_upd_twist)
qed

lemma fd_inv_fill:
  assumes "fd_inv e N s" "f \<in> N" "f < NFILE" "file_ok (g (files (fsd s) f))" "f_type (g (files (fsd s) f)) \<noteq> FD_NONE"
    "f_ref (g (files (fsd s) f)) = f_ref (files (fsd s) f)"
  shows "fd_inv e (N - {f}) (upd_fsd (upd_file f g) s)"
  by (rule fd_inv_file[OF ftab_fill assms(1)]) (use assms in \<open>auto simp: fd_inv_def\<close>)

lemma pipealloc_fill:
  assumes "fd_inv e (insert f1 (insert f0 N)) s" "f0 \<noteq> f1" "f0 < NFILE" "f1 < NFILE" "f0 \<notin> N" "f1 \<notin> N"
  shows "fd_inv e N (upd_fsd (upd_file f1 (\<lambda>x. x\<lparr>f_type := FD_PIPE, f_readable := False, f_writable := True, f_pipe := p\<rparr>))
    (upd_fsd (upd_file f0 (\<lambda>x. x\<lparr>f_type := FD_PIPE, f_readable := True, f_writable := False, f_pipe := p\<rparr>))
      (initlock l n (upd_fsd (upd_pipe p h) s))))" (is "fd_inv e N (upd_fsd _ (upd_fsd ?g ?s))")
proof -
  have "fd_inv e (insert f1 (insert f0 N)) ?s"
    using assms(1) fd_inv_ftab[of ?s s] by simp
  then have "fd_inv e (insert f1 (insert f0 N) - {f0}) (upd_fsd ?g ?s)"
    by (rule fd_inv_fill) (use assms in \<open>auto simp: file_ok_def\<close>)
  moreover have "insert f1 (insert f0 N) - {f0} = insert f1 N" using assms by auto
  ultimately have "fd_inv e (insert f1 N) (upd_fsd ?g ?s)" by simp
  then have "fd_inv e (insert f1 N - {f1})
      (upd_fsd (upd_file f1 (\<lambda>x. x\<lparr>f_type := FD_PIPE, f_readable := False, f_writable := True, f_pipe := p\<rparr>)) (upd_fsd ?g ?s))"
    by (rule fd_inv_fill) (use assms in \<open>auto simp: file_ok_def\<close>)
  moreover have "insert f1 N - {f1} = N" using assms by auto
  ultimately show ?thesis by (simp only:)
qed

lemma pipealloc_inv:
  assumes "fd_inv e N s"
  shows "ensures (\<lambda>r s'. case r of None \<Rightarrow> fd_inv e N s'
    | Some (f0, f1) \<Rightarrow> f0 < NFILE \<and> f1 < NFILE \<and> f0 \<noteq> f1 \<and> f0 \<notin> N \<and> f1 \<notin> N \<and> fd_inv (e(f0 := e f0 + 1, f1 := e f1 + 1)) N s') (pipealloc c s)"
  unfolding pipealloc_def
proof (rule ensures_bnd[OF filealloc_inv[OF assms]], goal_cases)
  case (1 r0 s)
  show ?case
  proof (cases r0)
    case None then show ?thesis using 1 by simp
  next
    case r0: (Some f0)
    let ?e = "e(f0 := e f0 + 1)" and ?N = "insert f0 N"
    have f0: "f0 < NFILE" "f0 \<notin> N" "fd_inv ?e ?N s" using 1 r0 by auto
    show ?thesis unfolding r0 option.case
    proof (rule ensures_bnd[OF filealloc_inv[OF f0(3)]], goal_cases)
      case (1 r1 s)
      show ?case
      proof (cases r1)
        case None
        have "ensures (\<lambda>_. fd_inv e N) (fileclose c f0 s)"
          using fileclose_inv[of ?e ?N s f0 c] 1 None f0 by simp
        then show ?thesis unfolding None option.case by (rule ensures_bnd) simp
      next
        case r1: (Some f1)
        let ?e1 = "?e(f1 := ?e f1 + 1)" and ?N1 = "insert f1 ?N"
        have f1: "f1 < NFILE" "f1 \<noteq> f0" "f1 \<notin> N" "fd_inv ?e1 ?N1 s" using 1 r1 by auto
        show ?thesis unfolding r1 option.case
        proof (rule tab_step[OF ftab_kalloc[OF refl] f1(4)], goal_cases)
          case (1 p s)
          have "insert f1 (insert f0 N) - {f0, f1} = N" using f0 f1 by auto
          then have "ensures (\<lambda>r' s'. r' = None \<and> fd_inv e N s') (bnd (fileclose c f0 s) (\<lambda>_ s. bnd (fileclose c f1 s) (\<lambda>_. Ok None)))"
            using two_closes[of e f0 f1 ?N1 s None c] 1 f0 f1 by simp
          then have "p = 0 \<Longrightarrow> ?case" by (auto elim!: ensures_weak)
          moreover have "p \<noteq> 0 \<Longrightarrow> ?case" using pipealloc_fill[OF 1(1)] f0 f1 unfolding Let_def by simp
          ultimately show ?case by blast
        qed
      qed
    qed
  qed
qed

subsection \<open>Reading and writing\<close>

lemma fd_inv_off:
  "fd_inv e N s \<Longrightarrow> fd_inv e N (upd_fsd (upd_file f (\<lambda>x. x\<lparr>f_off := g x\<rparr>)) s)"
  by (rule fd_inv_file[OF ftab_same]) (auto simp: fd_inv_def)

lemma fileread_inv:
  assumes "fd_inv e N s"
  shows "ensures (\<lambda>_. fd_inv e N) (fileread c f n s)"
proof (cases "f_readable (files (fsd s) f)")
  case True
  show ?thesis
  proof (cases "f_type (files (fsd s) f)")
    case FD_PIPE
    then show ?thesis using True inv_last[OF keeps_piperead[OF refl] assms] by (simp add: fileread_def Let_def)
  next
    case FD_INODE
    then show ?thesis using True assms
      by (auto simp: fileread_def Let_def intro!: inv_step[OF keeps_ilock] inv_step[OF keeps_readi] inv_step[OF keeps_iunlock] fd_inv_off)
  qed (simp add: fileread_def Let_def True)
qed (simp add: fileread_def Let_def assms)

lemma filewrite_loop_inv:
  "fd_inv e N s \<Longrightarrow> ensures (\<lambda>_. fd_inv e N) (filewrite_loop c f ip addr n i s)"
proof (induction "nat (n - i)" arbitrary: i s rule: less_induct)
  case less
  show ?case
    using less.prems
    by (subst filewrite_loop.simps)
       (auto simp: Let_def write_max_def intro!: inv_step[OF keeps_begin_op] inv_step[OF keeps_ilock] inv_step[OF keeps_writei]
          inv_step[OF keeps_iunlock] inv_step[OF keeps_end_op] fd_inv_off less.hyps)
qed

lemma filewrite_inv:
  assumes "fd_inv e N s"
  shows "ensures (\<lambda>_. fd_inv e N) (filewrite c f addr n s)"
proof (cases "f_type (files (fsd s) f)")
  case FD_PIPE
  then show ?thesis using inv_last[OF keeps_pipewrite[OF refl] assms] assms by (simp add: filewrite_def Let_def)
next
  case FD_INODE
  then show ?thesis using assms filewrite_loop_inv[OF assms] by (simp add: filewrite_def Let_def)
qed (simp add: filewrite_def Let_def assms)

lemma keeps_filestat [keep_intros]: "outer s = v \<Longrightarrow> keeps outer v (filestat c f s)"
  by (auto simp: filestat_def Let_def intro!: keep_intros)

subsection \<open>The system calls on descriptors\<close>

lemma need_step:
  assumes "keeps outer (outer s) (m s)" "fd_inv e N s"
    "\<And>x s'. fd_inv e N s' \<Longrightarrow> m s = Ok (Some x) s' \<Longrightarrow> ensures P (k x s')" "\<And>s'. fd_inv e N s' \<Longrightarrow> P (- 1) s'"
  shows "ensures P (need m k s)"
  unfolding need_def
proof (cases "m s")
  case (Ok r s')
  then have "fd_inv e N s'" using fd_inv_ftab[OF ftab_outer, of s' s] assms by simp
  then show "ensures P (bnd (m s) (\<lambda>r s. case r of None \<Rightarrow> Ok (- 1) s | Some x \<Rightarrow> k x s))"
    using Ok assms by (cases r) auto
qed simp_all

lemma argfd_fd:
  assumes "fd_inv e N s'" "argfd c n s = Ok (Some (fd, f)) s'"
  obtains p where "me c s' = Some p" "p < NPROC" "descr s' (p, fd) = Some f" "fd < NOFILE" "f < NFILE"
proof -
  obtain p where p: "me c s' = Some p" "descr s' (p, fd) = Some f" using argfd_Some[OF assms(2)] by auto
  then have "p < NPROC" using me_bound assms(1) by blast
  moreover have "f < NFILE" using assms(1) p \<open>p < NPROC\<close> by (auto simp: fd_inv_def ftab_ok_def)
  ultimately show thesis using that p argfd_Some[OF assms(2)] by blast
qed

lemma sys_dup_inv: "typed s \<Longrightarrow> ensures (\<lambda>_. typed) (sys_dup c s)"
  unfolding sys_dup_def typed_def
proof (rule need_step[OF keeps_argfd[OF refl]], assumption, goal_cases)
  case (1 x s1)
  obtain fd f where x: "x = (fd, f)" by force
  from argfd_fd[OF 1(2) 1(3)[unfolded x]] have f: "f < NFILE" by blast
  have "ensures (\<lambda>_. fd_inv (\<lambda>_. 0) {}) (need (fdalloc c f) (\<lambda>fd s. bnd (filedup c f s) (\<lambda>_. Ok (int fd))) s1)"
    unfolding need_def
  proof (rule ensures_bnd[OF fdalloc_inv[OF 1(2) f]], goal_cases)
    case (1 r s2)
    show ?case
    proof (cases r)
      case (Some fd)
      then have "fd_inv ((\<lambda>_. 0)(f := - 1)) {} s2" using 1 by simp
      from filedup_inv[OF this f, of c] have "ensures (\<lambda>_. fd_inv (\<lambda>_. 0) {}) (filedup c f s2)"
        by (auto simp: fun_upd_idem intro: ensures_weak)
      then show ?thesis unfolding Some option.case by (rule ensures_bnd) simp
    qed (use 1 in simp)
  qed
  then show ?case by (simp add: x)
qed

lemma sys_close_inv: "typed s \<Longrightarrow> ensures (\<lambda>_. typed) (sys_close c s)"
  unfolding sys_close_def typed_def
proof (rule need_step[OF keeps_argfd[OF refl]], assumption, goal_cases)
  case (1 x s1)
  obtain fd f where x: "x = (fd, f)" by force
  from argfd_fd[OF 1(2) 1(3)[unfolded x]] obtain p where p: "me c s1 = Some p" "descr s1 (p, fd) = Some f" "f < NFILE" by blast
  show ?case unfolding x prod.case
  proof (rule ensures_bnd[OF fdclear_inv[OF 1(2) p(1,2)]], goal_cases)
    case (1 _ s2)
    from fileclose_inv[OF this p(3), of c] have "ensures (\<lambda>_. fd_inv (\<lambda>_. 0) {}) (fileclose c f s2)"
      by (auto simp: fun_upd_idem intro: ensures_weak)
    then show ?case by (rule ensures_bnd) simp
  qed
qed

lemma sys_read_inv: "typed s \<Longrightarrow> ensures (\<lambda>_. typed) (sys_read c s)"
  unfolding sys_read_def typed_def
  by (auto intro!: need_step[OF keeps_argfd] need_step[OF keeps_argint] need_step[OF keeps_argptr]
      ensures_bnd[OF fileread_inv] tab_step[OF ftab_ustore])

lemma sys_write_inv: "typed s \<Longrightarrow> ensures (\<lambda>_. typed) (sys_write c s)"
  unfolding sys_write_def typed_def
  by (auto intro!: need_step[OF keeps_argfd] need_step[OF keeps_argint] need_step[OF keeps_argptr]
      filewrite_inv split: option.split)

lemma ftab_put_stat: "ftab s = v \<Longrightarrow> keeps ftab v (put_stat c a st s)"
  unfolding put_stat_def by (auto intro!: keeps_bnd ftab_ustore)

lemma ftab_put_opt: "ftab s = v \<Longrightarrow> keeps ftab v (case st of None \<Rightarrow> Ok () s | Some st \<Rightarrow> put_stat c a st s)"
  by (auto intro: ftab_put_stat split: option.split)

lemma sys_fstat_inv: "typed s \<Longrightarrow> ensures (\<lambda>_. typed) (sys_fstat c s)"
  unfolding sys_fstat_def typed_def
  by (auto intro!: need_step[OF keeps_argfd] need_step[OF keeps_argptr] inv_step[OF keeps_filestat]
      tab_step[OF ftab_put_opt])

subsection \<open>Inodes found by name\<close>

lemma ensures_tail: "(\<And>a s. ensures P (g a s)) \<Longrightarrow> ensures P (bnd m g)"
  by (cases m) auto

lemma ensures_if: "(b \<Longrightarrow> ensures P x) \<Longrightarrow> (\<not> b \<Longrightarrow> ensures P y) \<Longrightarrow> ensures P (if b then x else y)"
  by simp

lemma ensures_case:
  "(p = None \<Longrightarrow> ensures P x) \<Longrightarrow> (\<And>a. p = Some a \<Longrightarrow> ensures P (g a)) \<Longrightarrow> ensures P (case p of None \<Rightarrow> x | Some a \<Rightarrow> g a)"
  "(\<And>a b. q = (a, b) \<Longrightarrow> ensures P (h a b)) \<Longrightarrow> ensures P (case q of (a, b) \<Rightarrow> h a b)"
  "(\<And>a b. q = (a, b) \<Longrightarrow> ensures P (k a b s)) \<Longrightarrow> ensures P ((case q of (a, b) \<Rightarrow> k a b) s)"
  by (auto split: option.split prod.split)

lemma iget_bound: "ensures (\<lambda>ip _. ip < NINODE) (iget c dev inum s)"
  by (auto simp: iget_def Let_def first_index_Some_iff intro!: ensures_tail split: option.split)

lemma ialloc_bound: "ensures (\<lambda>ip _. ip < NINODE) (ialloc c dev ty s)"
proof -
  have "ensures (\<lambda>ip _. ip < NINODE) (ialloc_loop c dev ty is s)" for "is" s
    by (induction "is" arbitrary: s) (auto simp: Let_def intro!: ensures_tail iget_bound)
  then show ?thesis by (simp add: ialloc_def)
qed

lemma dirlookup_bound: "ensures (\<lambda>r _. \<forall>x. r = Some x \<longrightarrow> fst x < NINODE) (dirlookup c dp name s)"
proof -
  have "ensures (\<lambda>r _. \<forall>x. r = Some x \<longrightarrow> fst x < NINODE) (dirlookup_loop c dp name offs s)" for offs s
    by (induction offs arbitrary: s) (auto intro!: ensures_tail ensures_bnd[OF iget_bound])
  then show ?thesis unfolding dirlookup_def by (intro ensures_if) (simp_all only: ensures_simps)
qed

lemma namex_loop_bound: "ip < NINODE \<Longrightarrow> ensures (\<lambda>r _. \<forall>ip. fst r = Some ip \<longrightarrow> ip < NINODE) (namex_loop c ip path parent name s)"
proof (induction "length path" arbitrary: ip path name s rule: less_induct)
  case less
  show ?case
  proof (cases "skipelem path name")
    case None
    then show ?thesis using less.prems by (auto simp: namex_loop.simps[of c ip path] intro!: ensures_tail)
  next
    case (Some x)
    obtain path' name' where x: "x = (path', name')" by force
    then have l: "length path' < length path" using Some skipelem_shorter by blast
    show ?thesis
      unfolding namex_loop.simps[of c ip path parent name s] Some x option.case prod.case
      by (intro ensures_tail ensures_if ensures_bnd[OF dirlookup_bound] ensures_case)
         (auto intro!: ensures_tail less.hyps l less.prems)
  qed
qed

lemma namex_bound:
  assumes "fd_inv e N s"
  shows "ensures (\<lambda>r _. \<forall>ip. fst r = Some ip \<longrightarrow> ip < NINODE) (namex c path parent name s)"
proof -
  have "ensures (\<lambda>ip _. ip < NINODE) (bnd (myproc c s) (\<lambda>p s. deref p (\<lambda>p s. deref (cwd (procs s p)) (idup c) s) s))"
  proof (rule ensures_bnd[OF myproc_ensures], elim conjE, goal_cases)
    case (1 q s1)
    then have i: "fd_inv e N s1" using assms fd_inv_ftab[OF ftab_outer[OF 1(1)]] by simp
    have "ip < NINODE" if "q = Some p" "cwd (procs s1 p) = Some ip" for p ip
      using that 1 me_bound[OF assms, of c p] i by (auto simp: fd_inv_def procs_ok_def)
    then show ?case by (auto simp: deref_def idup_def intro!: ensures_tail ensures_case)
  qed
  then have "ensures (\<lambda>ip _. ip < NINODE) (if take 1 path = ''/'' then iget c ROOTDEV ROOTINO s
      else bnd (myproc c s) (\<lambda>p s. deref p (\<lambda>p s. deref (cwd (procs s p)) (idup c) s) s))"
    using iget_bound by (intro ensures_if) auto
  then show ?thesis unfolding namex_def by (rule ensures_bnd) (rule namex_loop_bound)
qed

lemma namei_bound: "fd_inv e N s \<Longrightarrow> ensures (\<lambda>r _. \<forall>ip. r = Some ip \<longrightarrow> ip < NINODE) (namei c path s)"
  unfolding namei_def by (rule ensures_bnd[OF namex_bound]) auto

lemma nameiparent_bound: "fd_inv e N s \<Longrightarrow> ensures (\<lambda>r _. \<forall>ip. fst r = Some ip \<longrightarrow> ip < NINODE) (nameiparent c path name s)"
  unfolding nameiparent_def by (rule namex_bound)

lemma keeps_create_new [keep_intros]: "outer s = v \<Longrightarrow> keeps outer v (create_new c dp name ty major minor s)"
  by (auto simp: create_new_def add_nlink_def Let_def intro!: keep_intros)

lemma keeps_create [keep_intros]: "outer s = v \<Longrightarrow> keeps outer v (create c path ty major minor s)"
  by (auto simp: create_def Let_def intro!: keep_intros)

lemma keeps_open_inode [keep_intros]: "outer s = v \<Longrightarrow> keeps outer v (open_inode c path omode s)"
  by (auto simp: open_inode_def Let_def intro!: keep_intros)

lemma create_bound: "ensures (\<lambda>r _. \<forall>ip. r = Some ip \<longrightarrow> ip < NINODE) (create c path ty major minor s)"
  unfolding create_def
  by (intro ensures_tail ensures_if ensures_case ensures_bnd[OF dirlookup_bound])
     (auto simp: create_new_def intro!: ensures_tail ensures_bnd[OF ialloc_bound])

lemma open_inode_bound: "fd_inv e N s \<Longrightarrow> ensures (\<lambda>r _. \<forall>ip. r = Some ip \<longrightarrow> ip < NINODE) (open_inode c path omode s)"
  unfolding open_inode_def
  by (intro ensures_if create_bound ensures_bnd[OF namei_bound]) (auto intro!: ensures_tail split: option.split)

subsection \<open>The system calls on names\<close>

lemma keeps_link_bad [keep_intros]: "outer s = v \<Longrightarrow> keeps outer v (link_bad c ip s)"
  by (auto simp: link_bad_def add_nlink_def intro!: keep_intros)

lemma keeps_isdirempty [keep_intros]: "outer s = v \<Longrightarrow> keeps outer v (isdirempty c ip s)"
proof -
  have "outer s = v \<Longrightarrow> keeps outer v (isdirempty_loop c ip offs s)" for offs
    by (induction offs arbitrary: s) (auto intro!: keep_intros)
  then show "outer s = v \<Longrightarrow> keeps outer v (isdirempty c ip s)" by (simp add: isdirempty_def)
qed

lemma keeps_unlink_bad [keep_intros]: "outer s = v \<Longrightarrow> keeps outer v (unlink_bad c ip s)"
  by (auto simp: unlink_bad_def intro!: keep_intros)

lemma keeps_need [keep_intros]:
  "keeps f v (m s) \<Longrightarrow> (\<And>x s. f s = v \<Longrightarrow> keeps f v (k x s)) \<Longrightarrow> keeps f v (need m k s)"
  by (auto simp: need_def intro!: keeps_bnd split: option.split)

lemma keeps_created [keep_intros]: "outer s = v \<Longrightarrow> keeps outer v (created c ip s)"
  by (auto simp: created_def intro!: keep_intros)

lemma keeps_sys_link: "outer s = v \<Longrightarrow> keeps outer v (sys_link c s)"
  by (auto simp: sys_link_def add_nlink_def intro!: keep_intros)

lemma keeps_sys_unlink: "outer s = v \<Longrightarrow> keeps outer v (sys_unlink c s)"
  by (auto simp: sys_unlink_def add_nlink_def intro!: keep_intros)

lemma keeps_sys_mkdir: "outer s = v \<Longrightarrow> keeps outer v (sys_mkdir c s)"
  by (auto simp: sys_mkdir_def intro!: keep_intros)

lemma keeps_sys_mknod: "outer s = v \<Longrightarrow> keeps outer v (sys_mknod c s)"
  by (auto simp: sys_mknod_def intro!: keep_intros split: option.split)

lemma fd_inv_cwd:
  assumes "fd_inv e N s" "ip < NINODE"
  shows "fd_inv e N (upd_proc p (\<lambda>P. P\<lparr>cwd := Some ip\<rparr>) s)"
proof -
  have "descr (upd_proc p (\<lambda>P. P\<lparr>cwd := Some ip\<rparr>) s) = descr s" by (auto simp: descr_def upd_proc_def fun_eq_iff)
  then show ?thesis using assms by (auto simp: fd_inv_def procs_ok_def upd_proc_def)
qed

lemma inv_bound_step:
  "keeps outer (outer s) m \<Longrightarrow> ensures Q m \<Longrightarrow> fd_inv e N s \<Longrightarrow>
   (\<And>a s'. fd_inv e N s' \<Longrightarrow> Q a s' \<Longrightarrow> ensures P (g a s')) \<Longrightarrow> ensures P (bnd m g)"
  using fd_inv_ftab[OF ftab_outer] by (cases m) (simp_all, blast)

lemma ensures_deref: "(\<And>x. p = Some x \<Longrightarrow> ensures P (g x s)) \<Longrightarrow> ensures P (deref p g s)"
  by (auto simp: deref_def split: option.split)

lemma sys_chdir_inv:
  assumes "typed s"
  shows "ensures (\<lambda>_. typed) (sys_chdir c s)"
proof -
  have found: "ensures (\<lambda>r _. \<forall>ip. r = Some ip \<longrightarrow> ip < NINODE) (case path of None \<Rightarrow> Ok None s | Some path \<Rightarrow> namei c path s)"
    if "fd_inv (\<lambda>_. 0) {} s" for path and s :: "('a filestate_scheme, 'b) sys_scheme"
    using namei_bound[OF that] by (auto split: option.split)
  have keep: "keeps outer (outer s) (case path of None \<Rightarrow> Ok None s | Some path \<Rightarrow> namei c path s)"
    for path and s :: "('a filestate_scheme, 'b) sys_scheme"
    by (auto intro!: keep_intros)
  have put: "keeps outer (outer s) (deref q (iput c) s)" for q and s :: "('a filestate_scheme, 'b) sys_scheme"
    by (auto intro!: keep_intros)
  note steps = inv_step[OF keeps_myproc[OF refl]] inv_step[OF keeps_begin_op[OF refl]] inv_step[OF keeps_argstr[OF refl]]
    inv_step[OF keeps_end_op[OF refl]] inv_step[OF keeps_ilock[OF refl]] inv_step[OF keeps_iunlockput[OF refl]]
    inv_step[OF keeps_iunlock[OF refl]] inv_step[OF put] inv_bound_step[OF keep found]
  show ?thesis
    using assms unfolding sys_chdir_def typed_def
    by (intro steps ensures_case ensures_if ensures_deref) (assumption | simp add: fd_inv_cwd)+
qed


text \<open>\<open>sys_open\<close> once it has a file, and the error exit.\<close>

lemma open_fail:
  assumes "fd_inv e N s"
  shows "ensures (\<lambda>_. fd_inv e N) (bnd (iunlockput c ip s) (\<lambda>_ s. bnd (end_op c s) (\<lambda>_. Ok r)))"
  using assms
  by (intro inv_step[OF keeps_iunlockput[OF refl]] inv_step[OF keeps_end_op[OF refl]]) (assumption | simp)+

lemma open_fill:
  assumes "fd_inv e {f} s" "f < NFILE" "ip < NINODE"
  shows "ensures (\<lambda>_. fd_inv e {}) (bnd (iunlock c (Some ip) s) (\<lambda>_ s. bnd (end_op c s) (\<lambda>_ s.
    Ok r (upd_fsd (upd_file f (\<lambda>x. x\<lparr>f_type := FD_INODE, f_ip := ip, f_off := 0, f_readable := rd, f_writable := wr\<rparr>)) s))))"
proof (rule inv_step[OF keeps_iunlock[OF refl] assms(1)], rule inv_step[OF keeps_end_op[OF refl]], assumption, goal_cases)
  case (1 _ s1 _ s2)
  have "fd_inv e ({f} - {f}) (upd_fsd (upd_file f (\<lambda>x. x\<lparr>f_type := FD_INODE, f_ip := ip, f_off := 0, f_readable := rd, f_writable := wr\<rparr>)) s2)"
    by (rule fd_inv_fill[OF 1(3)]) (use assms in \<open>auto simp: file_ok_def\<close>)
  then show ?case by simp
qed

lemma open_file:
  assumes "fd_inv (\<lambda>_. 0) {} s" "ip < NINODE"
  shows "ensures (\<lambda>_. fd_inv (\<lambda>_. 0) {}) (bnd (filealloc c s) (\<lambda>f s.
         bnd (case f of None \<Rightarrow> Ok None s | Some f \<Rightarrow> fdalloc c f s) (\<lambda>fd s.
         case (f, fd) of
           (Some f, Some fd) \<Rightarrow>
             bnd (iunlock c (Some ip) s) (\<lambda>_ s.
             bnd (end_op c s) (\<lambda>_ s.
             Ok (int fd) (upd_fsd (upd_file f (\<lambda>x. x\<lparr>f_type := FD_INODE, f_ip := ip, f_off := 0, f_readable := rd, f_writable := wr\<rparr>)) s)))
         | _ \<Rightarrow>
             bnd (case f of None \<Rightarrow> Ok () s | Some f \<Rightarrow> fileclose c f s) (\<lambda>_ s.
             bnd (iunlockput c ip s) (\<lambda>_ s.
             bnd (end_op c s) (\<lambda>_. Ok (- 1)))))))"
proof (rule ensures_bnd[OF filealloc_inv[OF assms(1)]], goal_cases)
  case (1 f s5)
  show ?case
  proof (cases f)
    case None
    then show ?thesis using 1 open_fail[of "\<lambda>_. 0" "{}" s5] by simp
  next
    case f: (Some f)
    then have f5: "f < NFILE" "fd_inv ((\<lambda>_. 0)(f := 1)) {f} s5" using 1 by auto
    show ?thesis unfolding f option.case
    proof (rule ensures_bnd[OF fdalloc_inv[OF f5(2,1)]], goal_cases)
      case (1 fd s6)
      show ?case
      proof (cases fd)
        case None
        then have "ensures (\<lambda>_. fd_inv (\<lambda>_. 0) {}) (fileclose c f s6)"
          using fileclose_inv[of "(\<lambda>_. 0)(f := 1)" "{f}" s6 f c] 1 f5 by (simp add: fun_upd_idem)
        then show ?thesis unfolding None prod.case option.case by (rule ensures_bnd) (rule open_fail)
      next
        case (Some fd)
        then show ?thesis using 1 open_fill[of "\<lambda>_. 0" f s6 ip] f5 assms(2) by (simp add: fun_upd_idem)
      qed
    qed
  qed
qed

lemma sys_open_inv:
  assumes "typed s"
  shows "ensures (\<lambda>_. typed) (sys_open c s)"
proof -
  have "fd_inv (\<lambda>_. 0) {} s" using assms by (simp add: typed_def)
  then show ?thesis unfolding sys_open_def typed_def
    by (intro need_step[OF keeps_argstr[OF refl]] need_step[OF keeps_argint[OF refl]] inv_step[OF keeps_begin_op[OF refl]]
        inv_bound_step[OF keeps_open_inode[OF refl] open_inode_bound] ensures_case(1) inv_step[OF keeps_end_op[OF refl]] open_file)
       (assumption | simp)+
qed

text \<open>\<open>sys_pipe\<close> once it has its two files.\<close>

lemma pipe_fds:
  fixes s :: "('x filestate_scheme, 'a) sys_scheme"
  assumes f: "rf < NFILE" "xf < NFILE" "rf \<noteq> xf" and i: "fd_inv ((\<lambda>_. 0)(rf := 1, xf := 1)) {} s"
  shows "ensures (\<lambda>_. fd_inv (\<lambda>_. 0) {}) (bnd (fdalloc c rf s) (\<lambda>fd0 s.
     bnd (if fd0 = None then Ok None s else fdalloc c xf s) (\<lambda>fd1 s.
     case (fd0, fd1) of
       (Some fd0, Some fd1) \<Rightarrow>
         bnd (ustore_bytes c fd (bytes_of_word (of_nat fd0)) s) (\<lambda>_ s.
         bnd (ustore_bytes c (fd + 4) (bytes_of_word (of_nat fd1)) s) (\<lambda>_. Ok 0))
     | _ \<Rightarrow>
         bnd (case fd0 of None \<Rightarrow> Ok () s | Some fd0 \<Rightarrow> fdclear c fd0 s) (\<lambda>_ s.
         bnd (fileclose c rf s) (\<lambda>_ s.
         bnd (fileclose c xf s) (\<lambda>_. Ok (- 1 :: int)))))))"
proof (rule ensures_bnd[OF fdalloc_inv[OF i f(1)]], goal_cases)
  case (1 fd0 s1)
  have bad: "ensures (\<lambda>_. fd_inv (\<lambda>_. 0) {}) (bnd (fileclose c rf s) (\<lambda>_ s. bnd (fileclose c xf s) (\<lambda>_. Ok (- 1 :: int))))"
    if "fd_inv ((\<lambda>_. 0)(rf := 1, xf := 1)) {} s" for s :: "('x filestate_scheme, 'a) sys_scheme"
    using two_closes[of "\<lambda>_. 0" rf xf "{}" s "- 1 :: int" c] that f by (auto elim: ensures_weak)
  show ?case
  proof (cases fd0)
    case None
    then show ?thesis using 1 bad by simp
  next
    case f0: (Some fd)
    then have i1: "fd_inv ((\<lambda>_. 0)(xf := 1)) {} s1" using 1 f by (simp add: fun_upd_twist fun_upd_idem)
    have "\<exists>p. me c s1 = Some p \<and> descr s1 (p, fd) = Some rf" using 1 unfolding f0 option.case by blast
    then obtain p where p: "me c s1 = Some p" "descr s1 (p, fd) = Some rf" by blast
    show ?thesis unfolding f0
    proof (simp, rule ensures_bnd[OF fdalloc_inv[OF i1 f(2)]], goal_cases)
      case (1 fd1 s2)
      show ?case
      proof (cases fd1)
        case None
        then have "fd_inv ((\<lambda>_. 0)(xf := 1)) {} s2" "me c s2 = Some p" "descr s2 (p, fd) = Some rf"
          using 1 p descr_outer[of s2 s1] by auto
        from fdclear_inv[OF this] have "ensures (\<lambda>_. fd_inv ((\<lambda>_. 0)(rf := 1, xf := 1)) {}) (fdclear c fd s2)"
          using f by (simp add: fun_upd_twist)
        then show ?thesis unfolding None option.case by (rule ensures_bnd) (rule bad)
      next
        case (Some fd1)
        then have "fd_inv (\<lambda>_. 0) {} s2" using 1 by (simp add: fun_upd_idem)
        then show ?thesis unfolding Some option.case
          by (intro tab_step[OF ftab_ustore[OF refl]]) (assumption | simp)+
      qed
    qed
  qed
qed

lemma sys_pipe_inv:
  assumes "typed s"
  shows "ensures (\<lambda>_. typed) (sys_pipe c s)"
proof -
  have i: "fd_inv (\<lambda>_. 0) {} s" using assms by (simp add: typed_def)
  show ?thesis unfolding sys_pipe_def typed_def
  proof (rule need_step[OF keeps_argptr[OF refl]], rule i, goal_cases)
    case (1 a s1)
    show ?case unfolding need_def
    proof (rule ensures_bnd[OF pipealloc_inv[OF 1(1)]], goal_cases)
      case (1 r s2)
      show ?case
      proof (cases r)
        case (Some x)
        obtain rf xf where x: "x = (rf, xf)" by force
        then have "rf < NFILE" "xf < NFILE" "rf \<noteq> xf" "fd_inv ((\<lambda>_. 0)(rf := 1, xf := 1)) {} s2" using 1 Some by auto
        from pipe_fds[OF this, of c a] show ?thesis unfolding Some x option.case prod.case .
      qed (use 1 in simp)
    qed
  qed simp
qed

text \<open>
  C9 (the file table is well typed). If every descriptor of every process names an open file, the count
  of every file is the number of its descriptors, a pipe end is opened for one direction and an inode is in
  the inode table, then the same holds when a system call on files returns.
\<close>

theorem file_calls_typed:
  fixes s :: "('x filestate_scheme, 'a) sys_scheme"
  assumes "typed s"
    and "call \<in> {sys_dup, sys_read, sys_write, sys_close, sys_fstat, sys_link, sys_unlink, sys_open, sys_mkdir,
      sys_mknod, sys_chdir, sys_pipe}"
    and "call c s = Ok r s'"
  shows "typed s'"
proof -
  have keep: "ensures (\<lambda>_. typed) m" if "keeps outer (outer s) m" for m :: "(int, ('x filestate_scheme, 'a) sys_scheme) res"
    using inv_last[OF that] assms(1) unfolding typed_def .
  have "ensures (\<lambda>_. typed) (call c s)"
    using assms(2) sys_dup_inv[OF assms(1)] sys_read_inv[OF assms(1)] sys_write_inv[OF assms(1)] sys_close_inv[OF assms(1)]
      sys_fstat_inv[OF assms(1)] keep[OF keeps_sys_link[OF refl]] keep[OF keeps_sys_unlink[OF refl]] sys_open_inv[OF assms(1)]
      keep[OF keeps_sys_mkdir[OF refl]] keep[OF keeps_sys_mknod[OF refl]] sys_chdir_inv[OF assms(1)] sys_pipe_inv[OF assms(1)]
    by auto
  then show ?thesis using assms(3) by simp
qed

definition demo_fs :: fsstate where
  "demo_fs = pipestate.extend demo_pipe
     \<lparr>sb = \<lparr>sb_size = 1000, sb_nblocks = 941, sb_ninodes = 200, sb_nlog = 30, sb_logstart = 2, sb_inodestart = 32, sb_bmapstart = 58\<rparr>,
      inodes = (\<lambda>_. \<lparr>i_dev = 0, i_inum = 0, i_ref = 0, i_valid = False, i_type = 0, i_major = 0, i_minor = 0, i_nlink = 0,
        i_size = 0, i_addrs = (\<lambda>_. 0)\<rparr>)\<rparr>"

definition demo_cons :: consstate where
  "demo_cons = fsstate.extend demo_fs
     \<lparr>cons_locking = True, panicked = False, uart_out = [], crt = (\<lambda>_. 0), crt_pos = 0, in_buf = (\<lambda>_. 0), in_r = 0, in_w = 0, in_e = 0,
      devsw_read = (\<lambda>i. i = 1), devsw_write = (\<lambda>i. i = 1)\<rparr>"

definition demo_files :: filestate where
  "demo_files = consstate.extend demo_cons
     \<lparr>files = (\<lambda>_. \<lparr>f_type = FD_NONE, f_ref = 0, f_readable = False, f_writable = False, f_pipe = 0, f_ip = 0, f_off = 0\<rparr>)
       (0 := \<lparr>f_type = FD_INODE, f_ref = 1, f_readable = True, f_writable = False, f_pipe = 0, f_ip = 0, f_off = 0\<rparr>)\<rparr>"

text \<open>
  A process with one open file, at descriptor 1. Every aligned word of its memory is 1, and so are the
  entries of its page table; the word at the stack pointer of its trap frame is \<open>0x1000000\<close>.
\<close>

definition demo_user :: "filestate sys" where
  "demo_user = (demo_sys demo_files)\<lparr>mem := (\<lambda>a. if a mod 4 = 0 then 1 else 0),
     procs := (\<lambda>_. unused_proc)(0 := first_proc\<lparr>ofile := (\<lambda>_. None)(1 := Some 0), sz := 0x2000000,
       threads := (\<lambda>_. idle_thread)(0 := idle_thread\<lparr>t_state := RUNNING, tid := 0, t_myproc := Some 0, tf := 1\<rparr>)\<rparr>)\<rparr>"

lemma demo_user_typed: "typed demo_user"
proof -
  have d: "descr demo_user = (\<lambda>_. None)((0, 1) := Some 0)"
    by (auto simp: demo_user_def descr_def unused_proc_def first_proc_def fun_eq_iff)
  have z: "fdrefs (\<lambda>_. None) f = 0" for f by (simp add: fdrefs_def)
  have r: "fdrefs ((\<lambda>_. None)((0, 1) := Some 0)) f = of_bool (f = 0)" for f
    using fdrefs_upd[of "(0, 1)" "\<lambda>_. None" "Some 0" f] z by auto
  have f: "files (fsd demo_user) = (\<lambda>_. \<lparr>f_type = FD_NONE, f_ref = 0, f_readable = False, f_writable = False, f_pipe = 0, f_ip = 0, f_off = 0\<rparr>)
       (0 := \<lparr>f_type = FD_INODE, f_ref = 1, f_readable = True, f_writable = False, f_pipe = 0, f_ip = 0, f_off = 0\<rparr>)"
    by (simp add: demo_user_def demo_files_def consstate.defs)
  have "ftab_ok (\<lambda>_. 0) {} (files (fsd demo_user)) (descr demo_user)"
    unfolding ftab_ok_def d f r by (auto simp: file_ok_def)
  moreover have "procs_ok demo_user"
    by (auto simp: procs_ok_def demo_user_def unused_proc_def first_proc_def demo_kernel_def kmem.defs boot_kmem_def machine.defs
        boot_machine_def boot_cpu_def demo_sys_def kernel.defs split: if_splits)
  ultimately show ?thesis by (simp add: typed_def fd_inv_def)
qed

lemma demo_user_ok: "cpu_ok 0 demo_user" "cpu_proc (cpus demo_user 0) = Some 0" "cpu_thread (cpus demo_user 0) = Some (0, 0)"
  "lock_free lk demo_user"
  using quietD[OF quiet_demo] by (simp_all add: demo_user_def cpu_ok_def lock_free_def)


lemma demo_user_simps:
  "mem demo_user = (\<lambda>a. if a mod 4 = 0 then 1 else 0)" "cr3 (cpus demo_user 0) = 0" "tf (thr demo_user 0 0) = 1"
  "sz (procs demo_user 0) = 0x2000000" "ofile (procs demo_user 0) = (\<lambda>_. None)(1 := Some 0)"
  "f_ref (files (fsd demo_user) 0) = 1"
  by (simp_all add: demo_user_def first_proc_def unused_proc_def idle_thread_def thr_def demo_files_def consstate.defs
      demo_kernel_def kmem.defs boot_kmem_def machine.defs boot_machine_def boot_cpu_def demo_sys_def kernel.defs)

lemma demo_word:
  "load32 (\<lambda>a. if a mod 4 = 0 then 1 else 0) 69 = 0x1000000"
  "load32 (\<lambda>a. if a mod 4 = 0 then 1 else 0) 0x80000010 = 1"
  "load32 (\<lambda>a. if a mod 4 = 0 then 1 else 0) 0x80000000 = 1"
  by (simp_all add: load32_def)

lemma demo_map: "va \<in> {0x1000004, 0x1000005, 0x1000006, 0x1000007} \<Longrightarrow>
    mapping (\<lambda>a. if a mod 4 = 0 then 1 else 0) 0x80000000 va = Some (0, 1)"
  by (auto simp: mapping_def entry_map_def PDX_def PTX_def PTE_ADDR_def PTE_FLAGS_def P2V_def demo_word)

lemma uload_bytes_4:
  assumes "uload c a s = Some b0" "uload c (a + 1) s = Some b1" "uload c (a + 2) s = Some b2" "uload c (a + 3) s = Some b3"
  shows "uload_bytes c a 4 s = Some [b0, b1, b2, b3]"
proof -
  have "(4 :: nat) = Suc (Suc (Suc (Suc 0)))" by simp
  then show ?thesis using assms by (simp only: uload_bytes.simps) (simp add: add.assoc)
qed

lemma demo_uload:
  "uload 0 0x1000004 (cli_pass 0 demo_user) = Some 1" "uload 0 0x1000005 (cli_pass 0 demo_user) = Some 0"
  "uload 0 0x1000006 (cli_pass 0 demo_user) = Some 0" "uload 0 0x1000007 (cli_pass 0 demo_user) = Some 0"
  by (simp_all add: uload_def uaddr_def demo_map demo_user_simps P2V_def cli_pass_cpus[OF demo_user_ok(1)])

lemma demo_argint: "argint 0 0 demo_user = Ok (Some 1) (cli_pass 0 demo_user)"
proof -
  have "uload_bytes 0 0x1000004 4 (cli_pass 0 demo_user) = Some [1, 0, 0, 0]"
    by (rule uload_bytes_4) (simp_all add: demo_uload)
  moreover have "word_of_bytes [1, 0, 0, 0] = 1" by (simp add: word_of_bytes_def load32_def)
  ultimately show ?thesis
    by (simp add: argint_def fetchint_def mythread_eq myproc_eq demo_user_ok deref_def demo_user_simps demo_word)
qed

theorem file_calls_typed_witness:
  "typed demo_user \<and> (\<exists>s'. sys_dup 0 demo_user = Ok 0 s' \<and> f_ref (files (fsd s') 0) = 2 \<and> typed s')"
proof -
  have "argfd 0 0 demo_user = Ok (Some (1, 0)) (cli_pass 0 demo_user)"
    by (simp add: argfd_def ofile_read_def demo_argint myproc_eq demo_user_ok deref_def demo_user_simps)
  moreover have "first_index (\<lambda>fd. ofile (procs demo_user 0) fd = None) NOFILE = Some 0"
    by (rule first_index_least) (simp_all add: demo_user_simps)
  ultimately obtain s' where s': "sys_dup 0 demo_user = Ok 0 s'" "f_ref (files (fsd s') 0) = 2"
    by (auto simp: sys_dup_def need_def fdalloc_def filedup_def myproc_eq demo_user_ok deref_def acquire_free release_held demo_user_simps upd_file_def)
  have "typed s'" by (rule file_calls_typed[of demo_user sys_dup, OF demo_user_typed _ s'(1)]) simp
  then show ?thesis using demo_user_typed s' by blast
qed


text \<open>Reading an argument leaves the state up to the interrupt flag.\<close>

lemma argint_state:
  assumes "cpu_ok c s" "argint c n s = Ok r s1"
  shows "s1 = cli_pass c s"
proof -
  have "cpu_ok c (cli_pass c s)" using assms(1) by simp
  then show ?thesis using assms
    by (auto simp: argint_def fetchint_def mythread_eq myproc_eq deref_def split: option.splits if_splits prod.splits)
qed

lemma open_entry:
  assumes "fd_inv (\<lambda>_. 0) {} s" "p < NPROC" "descr s (p, fd) = Some f"
  shows "f < NFILE \<and> 1 \<le> f_ref (files (fsd s) f) \<and> f_type (files (fsd s) f) \<noteq> FD_NONE"
proof -
  have f: "f < NFILE" using assms by (auto simp: fd_inv_def ftab_ok_def)
  have "fd < NOFILE" using assms by (auto simp: fd_inv_def ftab_ok_def)
  then have "1 \<le> fdrefs (descr s) f" using fdrefs_pos[of "descr s" "(p, fd)" f] assms by simp
  moreover have "f_ref (files (fsd s) f) = fdrefs (descr s) f"
      "(f_type (files (fsd s) f) = FD_NONE) = (f_ref (files (fsd s) f) = 0)"
    using assms(1) f by (auto simp: fd_inv_def ftab_ok_def)
  ultimately show ?thesis using f by auto
qed

text \<open>
  C10 (descriptor arguments). On a CPU that runs a process, when the argument could be fetched,
  \<open>argfd\<close> returns and never reads outside \<open>ofile\<close>. It accepts exactly the arguments that, as signed
  integers, are descriptors between 0 and \<open>NOFILE\<close> with an open file, and yields that descriptor and
  that file; everything else, a failed fetch included, gives \<open>None\<close>, the -1 of the code. In a
  well-typed state the file it yields is an entry of the file table that is in use and has a type.
\<close>

theorem argfd_open:
  assumes "typed s" and "cpu_ok c s" and "cpu_proc (cpus s c) = Some p" and "argint c n s = Ok a s1"
  shows "\<exists>r. argfd c n s = Ok r s1 \<and>
    (\<forall>fd f. r = Some (fd, f) \<longleftrightarrow> (\<exists>v. a = Some v \<and> 0 \<le> sint v \<and> sint v < int NOFILE \<and> fd = nat (sint v) \<and>
       ofile (procs s p) fd = Some f)) \<and>
    (\<forall>fd f. r = Some (fd, f) \<longrightarrow> f < NFILE \<and> 1 \<le> f_ref (files (fsd s1) f) \<and> f_type (files (fsd s1) f) \<noteq> FD_NONE)"
proof -
  have s1: "s1 = cli_pass c s" by (rule argint_state[OF assms(2,4)])
  have ok: "cpu_ok c s1" "cpu_proc (cpus s1 c) = Some p" "cli_pass c s1 = s1" "procs s1 = procs s"
    using assms(2,3) by (auto simp: s1)
  define r where "r = (case a of None \<Rightarrow> None | Some v \<Rightarrow> if sint v < 0 \<or> sint v \<ge> int NOFILE then None
    else map_option (Pair (nat (sint v))) (ofile (procs s p) (nat (sint v))))"
  have run: "argfd c n s = Ok r s1"
    using assms(4) ok by (auto simp: argfd_def r_def myproc_eq deref_def ofile_read_def split: option.splits)
  have iff: "r = Some (fd, f) \<longleftrightarrow> (\<exists>v. a = Some v \<and> 0 \<le> sint v \<and> sint v < int NOFILE \<and> fd = nat (sint v) \<and>
       ofile (procs s p) fd = Some f)" for fd f
    by (auto simp: r_def split: option.splits)
  have opn: "f < NFILE \<and> 1 \<le> f_ref (files (fsd s1) f) \<and> f_type (files (fsd s1) f) \<noteq> FD_NONE"
    if "r = Some (fd, f)" for fd f
  proof -
    have a: "argfd c n s = Ok (Some (fd, f)) s1" using run that by simp
    have i: "fd_inv (\<lambda>_. 0) {} s1"
      using assms fd_inv_ftab[OF ftab_outer[OF argfd_Some(1)[OF a]]] by (simp add: typed_def)
    show ?thesis by (rule argfd_fd[OF i a]) (rule open_entry[OF i])
  qed
  show ?thesis using run iff opn by blast
qed

theorem argfd_open_witness:
  "argfd 0 0 demo_user = Ok (Some (1, 0)) (cli_pass 0 demo_user) \<and>
   f_type (files (fsd (cli_pass 0 demo_user)) 0) \<noteq> FD_NONE"
proof -
  have p: "cpu_proc (cpus demo_user 0) = Some 0" "ofile (procs demo_user 0) 1 = Some 0"
    by (simp_all add: demo_user_simps demo_user_ok)
  have "(1 :: int) < int NOFILE" by simp
  with argfd_open[OF demo_user_typed demo_user_ok(1) p(1) demo_argint] obtain r where
    r: "argfd 0 0 demo_user = Ok r (cli_pass 0 demo_user)" "r = Some (1, 0)"
    "f_type (files (fsd (cli_pass 0 demo_user)) 0) \<noteq> FD_NONE" using p(2) by force
  then show ?thesis by simp
qed

end
