(* ===== verification/Spec2Isabelle.thy ===== *)
theory Spec2Isabelle
  imports Prelude Machine Spinlock CString Kalloc Proc Kthread Mutex Vm Addrspace Scheduler Handover
    MutexSystem Tournament Grep Ulib Shell Sleeplock Bio Log Pipe
    Inode Console Fs File Syscall Exec Sysfile Proclife Kbd Trap Frame Descr
begin

text \<open>
  A verification of the xv6-based kernel in \<open>src/\<close>, with its kernel threads (\<open>kthread_*\<close>), kernel
  thread mutexes (\<open>kthread_mutex_*\<close>) and user-level tournament tree.

  \<^bold>\<open>Outcomes.\<close> C code that reads and writes kernel state is a function from a state to an outcome
  (theory \<open>Prelude\<close>): it returns (\<open>Ok\<close>), calls \<open>panic\<close> (\<open>Panic\<close>), spins on a lock another CPU
  holds (\<open>Spin\<close>), switches to the scheduler (\<open>Switch\<close>) or accesses memory outside its object
  (\<open>Fault\<close>). The CPU that runs the code is an explicit argument.

  \<^bold>\<open>State.\<close> The state is a record extended component by component: the machine (CPUs, spin locks,
  physical memory), the page allocator, and so on. An operation is polymorphic in the fields that
  later components add, so that a lemma about it holds in the whole kernel.

  \<^bold>\<open>Machine and memory.\<close>
  \<^item> \<open>Prelude\<close>: outcomes, sequencing, bounded searches and loops, and the facts about them.
  \<^item> \<open>Machine\<close>: constants and address macros of \<open>param.h\<close>, \<open>memlayout.h\<close>, \<open>mmu.h\<close>; memory accesses.
  \<^item> \<open>Spinlock\<close>: \<open>spinlock.c\<close> and \<open>mycpu\<close>. The locks implement the owner table of locale \<open>lock_table\<close>
    for any CPUs and interleaving; \<open>pushcli\<close> and \<open>popcli\<close> restore the interrupt flag.
  \<^item> \<open>CString\<close>: \<open>string.c\<close>; \<open>memmove\<close> on overlapping ranges, termination of copied strings.
  \<^item> \<open>Kalloc\<close>: \<open>kalloc.c\<close>; the list in the free pages implements locale \<open>page_allocator\<close>.
  \<^item> \<open>Vm\<close>, \<open>Addrspace\<close>: \<open>vm.c\<close>; page tables in memory are maps from pages to frames, which \<open>allocuvm\<close>
    and \<open>deallocuvm\<close> grow and shrink, with an account of every page.

  \<^bold>\<open>Processes, threads and mutexes.\<close>
  \<^item> \<open>Proc\<close>, \<open>Kthread\<close>, \<open>Mutex\<close>, \<open>Proclife\<close>: the tables and calls of \<open>proc.c\<close>. A call that sleeps gives
    \<open>Switch\<close>, and a function with the ending \<open>_resume\<close> is what it does once it runs again. The body of
    \<open>sleep\<close> is a list of statements, so that \<open>Proc\<close> can interleave it with a waker.
  \<^item> \<open>Scheduler\<close>: the scheduler as a coroutine of the threads.
  \<^item> \<open>Handover\<close>, \<open>MutexSystem\<close>: the contract of a mutex (locale \<open>mutex_system\<close>), and that the quanta of
    the kernel (dispatch, one mutex call, switch back, on any CPU) implement it: mutual exclusion,
    refinement, bounded waiting.
  \<^item> \<open>Tournament\<close>: \<open>tournament_tree.c\<close> as user programs whose mutex calls are those quanta; mutual
    exclusion and absence of deadlock for all threads of a process at once.

  \<^bold>\<open>Files.\<close>
  \<^item> \<open>Sleeplock\<close>: \<open>sleeplock.c\<close>, and the states in which the file system code runs.
  \<^item> \<open>Bio\<close>: \<open>bio.c\<close> over the disk of \<open>memide.c\<close>; the cache implements locale \<open>block_store\<close>.
  \<^item> \<open>Log\<close>: \<open>log.c\<close>. Every disk write is recorded, a crash is a prefix of the writes; a transaction is
    on the disk as a whole or not at all, through crashes in commit and in recovery.
  \<^item> \<open>Inode\<close>, \<open>Fs\<close>: \<open>fs.c\<close>. \<open>File\<close>: \<open>file.c\<close>. \<open>Pipe\<close>: \<open>pipe.c\<close>; a pipe is a bounded queue of bytes.
  \<^item> \<open>Syscall\<close>, \<open>Sysfile\<close>, \<open>Exec\<close>, \<open>Trap\<close>: the arguments of system calls, the calls of \<open>sysfile.c\<close>, \<open>exec.c\<close>,
    \<open>sysproc.c\<close>, the dispatcher and \<open>trap\<close>. \<open>Console\<close>, \<open>Kbd\<close>: \<open>console.c\<close>, \<open>kbd.c\<close>.
  \<^item> \<open>Frame\<close>, \<open>Descr\<close>: what the code below the file table leaves alone, and the types of the file table,
    which the system calls on files keep.

  \<^bold>\<open>User programs.\<close>
  \<^item> \<open>Grep\<close>: \<open>grep.c\<close>; the matcher against the language of its patterns, the line loop under full and
    short reads.
  \<^item> \<open>Ulib\<close>: \<open>ulib.c\<close>, \<open>printf.c\<close>, and the loops of \<open>cat.c\<close> and \<open>wc.c\<close>.
  \<^item> \<open>Shell\<close>: the command parser of \<open>sh.c\<close>: it ends on every line, inverts a printer of commands, and
    leaves every token NUL-terminated.

  \<^bold>\<open>Bounds.\<close> Machine integers are words where the code computes with their width. Loops are total
  functions with a termination proof; \<open>strlen\<close>, which may not end, is a partial function. The parser of the
  shell takes a bound on its depth of calls, four times the length of the line plus four, which is shown
  to be enough. The levels of the tournament tree are bounded by 30, beyond which its size overflows.

  \<^bold>\<open>Parameters.\<close> What devices and user memory deliver is an argument: the disk image linked into the
  kernel, the bytes of the serial line and the keyboard, the results of \<open>malloc\<close> and of \<open>read\<close> in user
  programs, and the addresses the linker assigns.

  \<^bold>\<open>Not modelled.\<close> Assembly (\<open>entry.S\<close>, \<open>swtch.S\<close>, \<open>trapasm.S\<close>, \<open>usys.S\<close>) and the boot sequence; segment and
  interrupt descriptors; the registers of interrupt controllers, the IDE disk queue (the kernel of the
  model uses \<open>memide.c\<close>) and the multiprocessor tables; \<open>runcmd\<close> and \<open>main\<close> of the shell and the small
  programs that only pass arguments to system calls; \<open>umalloc.c\<close>; the host tool \<open>mkfs.c\<close>; the tests.

  \<^bold>\<open>Interleaving.\<close> A kernel call of the model runs to its end or to its \<open>Switch\<close> before another starts. Calls
  of several CPUs or threads are interleaved in \<open>Spinlock\<close> (lock calls), \<open>Proc\<close> (the statements of \<open>sleep\<close>
  and a waker; two calls of \<open>allocproc\<close>), \<open>MutexSystem\<close> (quanta), \<open>Tournament\<close> (quanta and the steps of user
  code between them) and \<open>Pipe\<close> (readers, writers and closers).
\<close>

end
